(* ===== verification/Cinos_Prelude.thy ===== *)
theory Cinos_Prelude
  imports Main "HOL-Library.Word" "HOL-Library.Monad_Syntax" "HOL-Library.Multiset"
begin

unbundle bit_operations_syntax

text \<open>
  Shared vocabulary of the development.  The C types keep their width: \<open>uint8_t\<close>,
  \<open>uint16_t\<close>, \<open>uint32_t\<close> and \<open>unsigned long\<close>/\<open>uint64_t\<close> are words, so arithmetic wraps
  exactly where the C arithmetic does.  An \<open>int\<close> that is only stored is kept as its 32 bits
  and read with \<open>sint\<close>; an \<open>int\<close> that is returned as a status is a HOL \<open>int\<close>.

  A C function that can perform an access outside an object, dereference \<open>NULL\<close> or divide by
  zero returns an \<open>option\<close>: \<open>None\<close> is that undefined behaviour, \<open>Some\<close> the ordinary result,
  error codes included.

  The second half is the byte view of memory.  A buffer is a length and a byte function, and
  16, 32 and 64-bit fields are read and written little-endian at a byte offset, as the code
  does through its casts of \<open>b_data\<close>.
\<close>

section \<open>Machine types\<close>

type_synonym u8 = "8 word"
type_synonym u16 = "16 word"
type_synonym u32 = "32 word"
type_synonym u64 = "64 word"
type_synonym ptr = "64 word"

abbreviation NULL :: ptr where
  "NULL \<equiv> 0"

abbreviation UINT32_MAX :: u32 where
  "UINT32_MAX \<equiv> 0xffffffff"

named_theorems bytes_simps \<open>reading a field back after a write of a field\<close>
named_theorems layout_simps \<open>field offsets of the on-disk structures\<close>

section \<open>Generic lemmas\<close>

lemma bind_Some_iff [simp]:
  "(Option.bind m f = Some y) \<longleftrightarrow> (\<exists>x. m = Some x \<and> f x = Some y)"
  by (cases m) auto

lemma unat_lt_2p32 [simp]: "unat (w :: u32) < 4294967296"
proof -
  have "unat w < 2 ^ LENGTH(32)" by (rule unsigned_less)
  then show ?thesis by simp
qed

lemma unat_Suc_word:
  fixes w :: "'a::len word"
  assumes "Suc (unat w) < 2 ^ LENGTH('a)"
  shows "unat (w + 1) = Suc (unat w)"
  using assms by (simp add: unat_word_ariths)

lemma unat_2_power:
  assumes "k < 32"
  shows "unat ((2 :: u32) ^ k) = 2 ^ k"
proof -
  have "(2 :: nat) ^ k < 2 ^ 32" using assms by (intro power_strict_increasing) auto
  moreover have "(2 :: u32) ^ k = of_nat (2 ^ k)" by simp
  ultimately show ?thesis by (simp only: unat_of_nat) simp
qed

lemma unat_drop_bit_div: "unat (drop_bit n w) = unat w div 2 ^ n"
  by (subst unat_drop_bit_eq) (rule drop_bit_eq_div)

lemma card_lessThan_minus_insert:
  "n \<notin> S \<Longrightarrow> S \<subseteq> {..<k :: nat} \<Longrightarrow> card (insert n S) = Suc (card S)"
  by (simp add: finite_subset [OF _ finite_lessThan])

lemma mset_swap_nth [simp]:
  "i < length xs \<Longrightarrow> j < length xs \<Longrightarrow> mset (xs[i := xs ! j, j := xs ! i]) = mset xs"
  by (rule mset_swap)

lemma of_nat_less_u32: "a < 2 ^ 32 \<Longrightarrow> b < 2 ^ 32 \<Longrightarrow> (of_nat a :: u32) < of_nat b \<longleftrightarrow> a < b"
  by (simp add: word_less_nat_alt unat_of_nat)

lemma of_nat_eq_u32: "a < 2 ^ 32 \<Longrightarrow> b < 2 ^ 32 \<Longrightarrow> (of_nat a :: u32) = of_nat b \<longleftrightarrow> a = b"
  by (simp add: word_unat_eq_iff unat_of_nat)

lemma of_nat_mod_u32: "a < 2 ^ 32 \<Longrightarrow> b < 2 ^ 32 \<Longrightarrow> (of_nat a :: u32) mod of_nat b = of_nat (a mod b)"
  by (simp add: word_unat_eq_iff unat_mod unat_of_nat) (metis mod_less_eq_dividend mod_less order_le_less_trans)

lemma unat_of_nat_u32: "a < 2 ^ 32 \<Longrightarrow> unat (of_nat a :: u32) = a"
  by (simp add: unat_of_nat)

lemma mset_move_first:
  assumes "k < length xs"
  shows "mset xs = add_mset (xs ! k) (mset (tl (xs[k := xs ! 0])))"
proof (cases k)
  case 0
  with assms show ?thesis by (cases xs) auto
next
  case (Suc j)
  with assms obtain y ys where "xs = y # ys" "j < length ys" by (cases xs) auto
  with Suc show ?thesis by (simp add: mset_update)
qed

section \<open>Buffers and little-endian fields\<close>

record buf =
  blen :: nat
  bat :: "nat \<Rightarrow> u8"

definition rd16 :: "(nat \<Rightarrow> u8) \<Rightarrow> nat \<Rightarrow> u16" where
  "rd16 f a = ucast (f a) OR push_bit 8 (ucast (f (a + 1)))"

definition rd32 :: "(nat \<Rightarrow> u8) \<Rightarrow> nat \<Rightarrow> u32" where
  "rd32 f a = ucast (f a) OR push_bit 8 (ucast (f (a + 1)))
     OR push_bit 16 (ucast (f (a + 2))) OR push_bit 24 (ucast (f (a + 3)))"

definition rd64 :: "(nat \<Rightarrow> u8) \<Rightarrow> nat \<Rightarrow> u64" where
  "rd64 f a = ucast (rd32 f a) OR push_bit 32 (ucast (rd32 f (a + 4)))"

definition wr16 :: "(nat \<Rightarrow> u8) \<Rightarrow> nat \<Rightarrow> u16 \<Rightarrow> nat \<Rightarrow> u8" where
  "wr16 f a v = f(a := ucast v, a + 1 := ucast (drop_bit 8 v))"

definition wr32 :: "(nat \<Rightarrow> u8) \<Rightarrow> nat \<Rightarrow> u32 \<Rightarrow> nat \<Rightarrow> u8" where
  "wr32 f a v = f(a := ucast v, a + 1 := ucast (drop_bit 8 v),
     a + 2 := ucast (drop_bit 16 v), a + 3 := ucast (drop_bit 24 v))"

definition wr64 :: "(nat \<Rightarrow> u8) \<Rightarrow> nat \<Rightarrow> u64 \<Rightarrow> nat \<Rightarrow> u8" where
  "wr64 f a v = wr32 (wr32 f a (ucast v)) (a + 4) (ucast (drop_bit 32 v))"

lemma rd16_wr16 [bytes_simps]: "rd16 (wr16 f a v) a = v"
  unfolding rd16_def wr16_def
  by (rule bit_word_eqI) (auto simp: bit_simps)

lemma u32_of_bytes:
  fixes v :: u32
  shows "ucast (ucast v :: u8) OR push_bit 8 (ucast (ucast (drop_bit 8 v) :: u8))
    OR push_bit 16 (ucast (ucast (drop_bit 16 v) :: u8))
    OR push_bit 24 (ucast (ucast (drop_bit 24 v) :: u8)) = v" (is "?w = v")
proof (rule bit_word_eqI)
  fix n
  assume "n < LENGTH(32)"
  then consider "n < 8" | "8 \<le> n" "n < 16" | "16 \<le> n" "n < 24" | "24 \<le> n" "n < 32"
    by fastforce
  then show "bit ?w n = bit v n"
    by cases (auto simp: bit_simps)
qed

lemma rd32_wr32 [bytes_simps]: "rd32 (wr32 f a v) a = v"
  by (simp add: rd32_def wr32_def u32_of_bytes)

lemma wr32_apply_other: "i < a \<or> a + 4 \<le> i \<Longrightarrow> wr32 f a v i = f i"
  by (auto simp: wr32_def)

lemma wr16_apply_other: "i < a \<or> a + 2 \<le> i \<Longrightarrow> wr16 f a v i = f i"
  by (auto simp: wr16_def)

lemma wr64_apply_other: "i < a \<or> a + 8 \<le> i \<Longrightarrow> wr64 f a v i = f i"
  by (auto simp: wr64_def wr32_apply_other)

lemma rd16_cong: "f a = g a \<Longrightarrow> f (a + 1) = g (a + 1) \<Longrightarrow> rd16 f a = rd16 g a"
  by (simp add: rd16_def)

lemma rd32_cong: "(\<And>i. a \<le> i \<Longrightarrow> i < a + 4 \<Longrightarrow> f i = g i) \<Longrightarrow> rd32 f a = rd32 g a"
  by (simp add: rd32_def)

lemma rd64_cong: "(\<And>i. a \<le> i \<Longrightarrow> i < a + 8 \<Longrightarrow> f i = g i) \<Longrightarrow> rd64 f a = rd64 g a"
  unfolding rd64_def by (simp add: rd32_def)

lemma rd64_wr64 [bytes_simps]: "rd64 (wr64 f a v) a = v"
proof -
  have lo: "rd32 (wr64 f a v) a = ucast v"
    unfolding wr64_def
    by (subst rd32_cong [where g = "wr32 f a (ucast v)"]) (auto simp: wr32_apply_other rd32_wr32)
  have hi: "rd32 (wr64 f a v) (a + 4) = ucast (drop_bit 32 v)"
    unfolding wr64_def by (rule rd32_wr32)
  show ?thesis
    unfolding rd64_def lo hi by (rule bit_word_eqI) (auto simp: bit_simps)
qed

lemma rd_wr_other [bytes_simps]:
  "b + 4 \<le> a \<or> a + 4 \<le> b \<Longrightarrow> rd32 (wr32 f a v) b = rd32 f b"
  "b + 4 \<le> a \<or> a + 2 \<le> b \<Longrightarrow> rd32 (wr16 f a w) b = rd32 f b"
  "b + 4 \<le> a \<or> a + 8 \<le> b \<Longrightarrow> rd32 (wr64 f a x) b = rd32 f b"
  "b + 2 \<le> a \<or> a + 4 \<le> b \<Longrightarrow> rd16 (wr32 f a v) b = rd16 f b"
  "b + 2 \<le> a \<or> a + 2 \<le> b \<Longrightarrow> rd16 (wr16 f a w) b = rd16 f b"
  "b + 2 \<le> a \<or> a + 8 \<le> b \<Longrightarrow> rd16 (wr64 f a x) b = rd16 f b"
  "b + 8 \<le> a \<or> a + 4 \<le> b \<Longrightarrow> rd64 (wr32 f a v) b = rd64 f b"
  "b + 8 \<le> a \<or> a + 2 \<le> b \<Longrightarrow> rd64 (wr16 f a w) b = rd64 f b"
  "b + 8 \<le> a \<or> a + 8 \<le> b \<Longrightarrow> rd64 (wr64 f a x) b = rd64 f b"
  by (auto intro!: rd32_cong rd16_cong rd64_cong
      simp: wr32_apply_other wr16_apply_other wr64_apply_other)

text \<open>A byte function with the bytes \<open>bs\<close> stored at \<open>off\<close>.\<close>

definition setb :: "(nat \<Rightarrow> u8) \<Rightarrow> nat \<Rightarrow> u8 list \<Rightarrow> nat \<Rightarrow> u8" where
  "setb f off bs = (\<lambda>i. if off \<le> i \<and> i < off + length bs then bs ! (i - off) else f i)"

lemma setb_setb_apart:
  "off + length bs \<le> a \<or> a + length cs \<le> off \<Longrightarrow> setb (setb f off bs) a cs = setb (setb f a cs) off bs"
  by (auto simp: setb_def fun_eq_iff)

lemma rd32_setb: "a + 4 \<le> off \<or> off + length bs \<le> a \<Longrightarrow> rd32 (setb f off bs) a = rd32 f a"
  by (rule rd32_cong) (auto simp: setb_def)

lemma rd64_setb: "a + 8 \<le> off \<or> off + length bs \<le> a \<Longrightarrow> rd64 (setb f off bs) a = rd64 f a"
  by (rule rd64_cong) (auto simp: setb_def)

lemma unat_minus_1_u64: "unat (- 1 :: u64) = 18446744073709551615"
  by (simp only: unsigned_minus_1_eq_mask mask_eq_exp_minus_1) simp

end
