(* ===== verification/Kernel_List.thy ===== *)
theory Kernel_List
  imports Cinos_Prelude
begin

text \<open>
  \<open>include/list.h\<close>: the intrusive circular doubly linked list, at pointer level.  A state is the
  two pointer fields of every node, as functions of its address; each operation performs the
  assignments of the source in their order.  \<open>ring h l xs\<close> says that \<open>l\<close> is the head of a
  well-formed list whose nodes are \<open>xs\<close>, forwards and backwards.

  The results: every operation acts on \<open>xs\<close> as its name says, and the iteration
  \<open>list_for_each_entry\<close> over a well-formed list ends after visiting exactly \<open>xs\<close>.
\<close>

section \<open>Data and operations\<close>

record 'a lheap =
  lnext :: "'a \<Rightarrow> 'a"
  lprev :: "'a \<Rightarrow> 'a"

definition INIT_LIST_HEAD :: "'a \<Rightarrow> 'a lheap \<Rightarrow> 'a lheap" where
  "INIT_LIST_HEAD l h =
     (let h = h\<lparr>lnext := (lnext h)(l := l)\<rparr> in h\<lparr>lprev := (lprev h)(l := l)\<rparr>)"

definition list_add_between :: "'a \<Rightarrow> 'a \<Rightarrow> 'a \<Rightarrow> 'a lheap \<Rightarrow> 'a lheap" where
  "list_add_between n p q h =
     (let h = h\<lparr>lprev := (lprev h)(q := n)\<rparr>;
          h = h\<lparr>lnext := (lnext h)(n := q)\<rparr>;
          h = h\<lparr>lprev := (lprev h)(n := p)\<rparr>
      in h\<lparr>lnext := (lnext h)(p := n)\<rparr>)"

definition list_add :: "'a \<Rightarrow> 'a \<Rightarrow> 'a lheap \<Rightarrow> 'a lheap" where
  "list_add n l h = list_add_between n l (lnext h l) h"

definition list_add_tail :: "'a \<Rightarrow> 'a \<Rightarrow> 'a lheap \<Rightarrow> 'a lheap" where
  "list_add_tail n l h = list_add_between n (lprev h l) l h"

definition list_del_between :: "'a \<Rightarrow> 'a \<Rightarrow> 'a lheap \<Rightarrow> 'a lheap" where
  "list_del_between p q h =
     (let h = h\<lparr>lprev := (lprev h)(q := p)\<rparr> in h\<lparr>lnext := (lnext h)(p := q)\<rparr>)"

definition list_del_entry :: "'a \<Rightarrow> 'a lheap \<Rightarrow> 'a lheap" where
  "list_del_entry e h = list_del_between (lprev h e) (lnext h e) h"

definition list_del_init :: "'a \<Rightarrow> 'a lheap \<Rightarrow> 'a lheap" where
  "list_del_init e h = INIT_LIST_HEAD e (list_del_entry e h)"

definition list_init :: "'a \<Rightarrow> 'a lheap \<Rightarrow> 'a lheap" where
  "list_init l h =
     (let h = h\<lparr>lnext := (lnext h)(l := l)\<rparr> in h\<lparr>lprev := (lprev h)(l := l)\<rparr>)"

definition list_insert_after :: "'a \<Rightarrow> 'a \<Rightarrow> 'a lheap \<Rightarrow> 'a lheap" where
  "list_insert_after p n h =
     (let h = h\<lparr>lprev := (lprev h)(n := p)\<rparr>;
          h = h\<lparr>lnext := (lnext h)(n := lnext h p)\<rparr>;
          h = h\<lparr>lprev := (lprev h)(lnext h p := n)\<rparr>
      in h\<lparr>lnext := (lnext h)(p := n)\<rparr>)"

definition list_remove :: "'a \<Rightarrow> 'a lheap \<Rightarrow> 'a lheap" where
  "list_remove e h =
     (let h = h\<lparr>lnext := (lnext h)(lprev h e := lnext h e)\<rparr>
      in h\<lparr>lprev := (lprev h)(lnext h e := lprev h e)\<rparr>)"

text \<open>The nodes the loop \<open>list_for_each_entry\<close> visits, starting at \<open>pos\<close>; \<open>None\<close> if it never ends.\<close>

partial_function (option) list_for_each :: "'a lheap \<Rightarrow> 'a \<Rightarrow> 'a \<Rightarrow> 'a list option" where
  "list_for_each h l pos =
     (if pos = l then Some []
      else do { xs \<leftarrow> list_for_each h l (lnext h pos); Some (pos # xs) })"

section \<open>Walks along one pointer field\<close>

fun walk :: "('a \<Rightarrow> 'a) \<Rightarrow> 'a \<Rightarrow> 'a list \<Rightarrow> bool" where
  "walk f x [] = True"
| "walk f x (p # ps) = (f x = p \<and> walk f p ps)"

text \<open>The last node of a walk, and the first node of a list segment that returns to \<open>l\<close>.\<close>

definition endp :: "'a \<Rightarrow> 'a list \<Rightarrow> 'a" where
  "endp x as = last (x # as)"

definition startp :: "'a list \<Rightarrow> 'a \<Rightarrow> 'a" where
  "startp bs l = hd (bs @ [l])"

lemma walk_append: "walk f x (as @ bs) \<longleftrightarrow> walk f x as \<and> walk f (endp x as) bs"
  by (induction as arbitrary: x) (auto simp: endp_def)

lemma walk_upd: "z \<notin> set (butlast (x # ps)) \<Longrightarrow> walk (f(z := w)) x ps \<longleftrightarrow> walk f x ps"
  by (induction ps arbitrary: x) auto

lemma startp_split: "\<exists>cs. bs @ [l] = startp bs l # cs \<and> set (butlast (startp bs l # cs)) = set bs"
  by (cases bs) (auto simp: startp_def)

lemma startp_rev: "startp (rev as) l = endp l as"
  by (cases as rule: rev_cases) (auto simp: startp_def endp_def)

lemma endp_rev: "endp l (rev bs) = startp bs l"
  by (cases bs) (auto simp: startp_def endp_def)

lemma endp_in: "endp x as \<in> set (x # as)"
  unfolding endp_def by (metis last_in_set list.distinct(1))

lemma startp_in: "startp bs l \<in> set (l # bs)"
  by (cases bs) (auto simp: startp_def)

lemma endp_notin:
  assumes "distinct (x # as)"
  shows "endp x as \<notin> set (butlast (x # as))"
proof -
  have "distinct (butlast (x # as) @ [last (x # as)])"
    using assms by (metis append_butlast_last_id list.distinct(1))
  then show ?thesis by (simp add: endp_def)
qed

lemma butlast_notin: "n \<notin> set xs \<Longrightarrow> n \<notin> set (butlast xs)"
  by (meson in_set_butlastD)

lemma walk_insert:
  assumes "distinct (l # as @ bs)" and "n \<notin> set (l # as @ bs)" and "walk f l (as @ bs @ [l])"
  shows "walk (f(n := startp bs l, endp l as := n)) l (as @ n # bs @ [l])"
proof -
  obtain cs where cs: "bs @ [l] = startp bs l # cs" "set (butlast (startp bs l # cs)) = set bs"
    using startp_split [of bs l] by (elim exE conjE)
  let ?g = "f(n := startp bs l, endp l as := n)"
  have w: "walk f l as" "walk f (startp bs l) cs"
    using assms(3) unfolding cs(1) walk_append walk.simps by blast+
  have "endp l as \<notin> set (butlast (l # as))"
    using assms(1) by (intro endp_notin) simp
  moreover have "n \<notin> set (butlast (l # as))"
    using assms(2) by (intro butlast_notin) simp
  ultimately have "walk ?g l as"
    using w(1) by (simp add: walk_upd del: butlast.simps)
  moreover have ne: "n \<noteq> endp l as" "endp l as \<notin> set bs" "n \<notin> set bs"
    using endp_in [of l as] assms(1,2) by auto
  have "walk ?g (startp bs l) cs"
    using w(2) ne(2,3) by (simp add: walk_upd cs(2) del: butlast.simps)
  ultimately show ?thesis
    using ne(1) unfolding cs(1) walk_append walk.simps by simp
qed

lemma walk_delete:
  assumes "distinct (l # as @ x # bs)" and "walk f l (as @ x # bs @ [l])"
  shows "walk (f(endp l as := startp bs l)) l (as @ bs @ [l])" and "f x = startp bs l"
proof -
  obtain cs where cs: "bs @ [l] = startp bs l # cs" "set (butlast (startp bs l # cs)) = set bs"
    using startp_split [of bs l] by (elim exE conjE)
  let ?g = "f(endp l as := startp bs l)"
  have w: "walk f l as" "f x = startp bs l" "walk f (startp bs l) cs"
    using assms(2) unfolding cs(1) walk_append walk.simps by blast+
  then show "f x = startp bs l" by blast
  have "endp l as \<notin> set (butlast (l # as))"
    using assms(1) by (intro endp_notin) simp
  then have "walk ?g l as" using w(1) by (simp add: walk_upd del: butlast.simps)
  moreover have "endp l as \<notin> set bs"
    using endp_in [of l as] assms(1) by auto
  then have "walk ?g (startp bs l) cs"
    using w(3) by (simp add: walk_upd cs(2) del: butlast.simps)
  ultimately show "walk ?g l (as @ bs @ [l])"
    unfolding cs(1) walk_append walk.simps by simp
qed

section \<open>Well-formed lists\<close>

definition ring :: "'a lheap \<Rightarrow> 'a \<Rightarrow> 'a list \<Rightarrow> bool" where
  "ring h l xs \<longleftrightarrow> distinct (l # xs) \<and> walk (lnext h) l (xs @ [l]) \<and>
     walk (lprev h) l (rev xs @ [l])"

lemma ring_ends:
  assumes "ring h l xs"
  shows "lnext h l = startp xs l" and "lprev h l = endp l xs"
proof -
  have w: "f l = startp ys l" if "walk f l (ys @ [l])" for f ys
    using startp_split [of ys l] that by (metis walk.simps(2))
  from assms show "lnext h l = startp xs l" by (intro w) (simp add: ring_def)
  from assms have "lprev h l = startp (rev xs) l" by (intro w) (simp add: ring_def)
  then show "lprev h l = endp l xs" by (simp add: startp_rev)
qed

lemma ring_add_between:
  assumes "ring h l (as @ bs)" and "n \<notin> set (l # as @ bs)"
  shows "ring (list_add_between n (endp l as) (startp bs l) h) l (as @ n # bs)"
proof -
  have "walk ((lnext h)(n := startp bs l, endp l as := n)) l (as @ n # bs @ [l])"
    using assms by (intro walk_insert) (auto simp: ring_def)
  moreover have "walk ((lprev h)(n := endp l as, startp bs l := n)) l (rev bs @ n # rev as @ [l])"
    using assms walk_insert [of l "rev bs" "rev as" n "lprev h"]
    by (auto simp: ring_def startp_rev endp_rev)
  moreover have "n \<noteq> startp bs l" "l \<noteq> n"
    using assms(2) startp_in [of bs l] by auto
  ultimately show ?thesis
    using assms(1) [unfolded ring_def] assms(2)
    by (simp add: ring_def list_add_between_def Let_def fun_upd_twist)
qed

lemma ring_del_entry:
  assumes "ring h l (as @ x # bs)"
  shows "ring (list_del_entry x h) l (as @ bs)"
    and "lprev h x = endp l as" and "lnext h x = startp bs l"
proof -
  have n: "distinct (l # as @ x # bs)" "walk (lnext h) l (as @ x # bs @ [l])"
    and p: "distinct (l # rev bs @ x # rev as)" "walk (lprev h) l (rev bs @ x # rev as @ [l])"
    using assms by (auto simp: ring_def)
  note dn = walk_delete [OF n] and dp = walk_delete [OF p]
  show "lprev h x = endp l as" "lnext h x = startp bs l"
    using dn(2) dp(2) by (simp_all add: startp_rev)
  then show "ring (list_del_entry x h) l (as @ bs)"
    using dn(1) dp(1) n(1)
    by (simp add: ring_def list_del_entry_def list_del_between_def Let_def startp_rev endp_rev)
qed

lemma ring_frame:
  assumes "ring h l xs" and "x \<notin> set (l # xs)"
  shows "ring (INIT_LIST_HEAD x h) l xs"
proof -
  have "x \<notin> set (butlast (l # xs @ [l]))" "x \<notin> set (butlast (l # rev xs @ [l]))"
    using assms(2) by (auto intro!: butlast_notin simp del: butlast.simps)
  then show ?thesis
    using assms(1) by (simp add: ring_def INIT_LIST_HEAD_def Let_def walk_upd del: butlast.simps)
qed

lemma ring_for_each_from:
  assumes "l \<notin> set xs" and "walk (lnext h) x (xs @ [l])"
  shows "list_for_each h l (lnext h x) = Some xs"
  using assms
proof (induction xs arbitrary: x)
  case Nil
  then show ?case by (subst list_for_each.simps) simp
next
  case (Cons a xs)
  then have "lnext h x = a" "list_for_each h l (lnext h a) = Some xs" by simp_all
  then show ?case using Cons.prems(1) by (subst list_for_each.simps) auto
qed

lemma ring_init: "ring (INIT_LIST_HEAD l h) l []"
  by (simp add: ring_def INIT_LIST_HEAD_def Let_def)

lemma ring_add: "ring h l xs \<Longrightarrow> n \<notin> set (l # xs) \<Longrightarrow> ring (list_add n l h) l (n # xs)"
  using ring_add_between [of h l "[]" xs n] ring_ends(1) [of h l xs]
  by (simp add: list_add_def endp_def)

lemma ring_add_tail: "ring h l xs \<Longrightarrow> n \<notin> set (l # xs) \<Longrightarrow> ring (list_add_tail n l h) l (xs @ [n])"
  using ring_add_between [of h l xs "[]" n] ring_ends(2) [of h l xs]
  by (simp add: list_add_tail_def startp_def)

lemma ring_del_init:
  assumes "ring h l (as @ x # bs)"
  shows "ring (list_del_init x h) l (as @ bs)" and "ring (list_del_init x h) x []"
proof -
  have "x \<notin> set (l # as @ bs)" using assms by (auto simp: ring_def)
  then show "ring (list_del_init x h) l (as @ bs)"
    unfolding list_del_init_def by (intro ring_frame ring_del_entry(1) assms)
  show "ring (list_del_init x h) x []"
    unfolding list_del_init_def by (rule ring_init)
qed

lemma list_insert_after_between:
  "n \<noteq> p \<Longrightarrow> n \<noteq> lnext h p \<Longrightarrow> list_insert_after p n h = list_add_between n p (lnext h p) h"
  by (simp add: list_insert_after_def list_add_between_def Let_def fun_upd_twist)

lemma list_remove_entry: "lprev h e \<noteq> e \<Longrightarrow> list_remove e h = list_del_entry e h"
  by (simp add: list_remove_def list_del_entry_def list_del_between_def Let_def)

section \<open>Several lists in one heap\<close>

definition rings :: "'a lheap \<Rightarrow> 'a set \<Rightarrow> ('a \<Rightarrow> 'a list) \<Rightarrow> bool" where
  "rings h L xs \<longleftrightarrow> (\<forall>l \<in> L. ring h l (xs l)) \<and>
     (\<forall>l \<in> L. \<forall>m \<in> L. l \<noteq> m \<longrightarrow> set (l # xs l) \<inter> set (m # xs m) = {})"

lemma walk_cong: "(\<And>y. y \<in> set (butlast (x # ps)) \<Longrightarrow> g y = f y) \<Longrightarrow> walk g x ps = walk f x ps"
  by (induction ps arbitrary: x) auto

lemma ring_cong:
  assumes "ring h l xs" and "\<And>x. x \<in> set (l # xs) \<Longrightarrow> lnext h' x = lnext h x \<and> lprev h' x = lprev h x"
  shows "ring h' l xs"
proof -
  have "walk (lnext h') l (xs @ [l]) = walk (lnext h) l (xs @ [l])"
    by (rule walk_cong) (use assms(2) in \<open>auto dest!: in_set_butlastD simp: butlast_append\<close>)
  moreover have "walk (lprev h') l (rev xs @ [l]) = walk (lprev h) l (rev xs @ [l])"
    by (rule walk_cong) (use assms(2) in \<open>auto dest!: in_set_butlastD simp: butlast_append\<close>)
  ultimately show ?thesis using assms(1) by (simp add: ring_def)
qed

text \<open>A change of one list: the other lists stay as long as nothing but nodes of that list and one new node is touched.\<close>

lemma rings_change:
  assumes rs: "rings h L xs" and l: "l \<in> L" and new: "ring h' l ys"
    and touch: "\<And>x. x \<notin> N \<Longrightarrow> lnext h' x = lnext h x \<and> lprev h' x = lprev h x"
    and N: "\<And>m. m \<in> L \<Longrightarrow> m \<noteq> l \<Longrightarrow> N \<inter> set (m # xs m) = {}"
    and ys: "\<And>m. m \<in> L \<Longrightarrow> m \<noteq> l \<Longrightarrow> set ys \<inter> set (m # xs m) = {}"
  shows "rings h' L (xs(l := ys))"
proof -
  have other: "ring h' m (xs m)" if "m \<in> L" "m \<noteq> l" for m
  proof (rule ring_cong [of h])
    show "ring h m (xs m)" using rs that by (simp add: rings_def)
    show "lnext h' x = lnext h x \<and> lprev h' x = lprev h x" if "x \<in> set (m # xs m)" for x
      by (rule touch) (use N [OF \<open>m \<in> L\<close> \<open>m \<noteq> l\<close>] that in blast)
  qed
  have "set (l # ys) \<inter> set (m # xs m) = {}" if "m \<in> L" "m \<noteq> l" for m
    using rs that l ys [OF that] by (fastforce simp: rings_def)
  then show ?thesis using rs new other by (auto simp: rings_def)
qed

lemma add_touch:
  "x \<notin> {n, p, q} \<Longrightarrow> lnext (list_add_between n p q h) x = lnext h x \<and> lprev (list_add_between n p q h) x = lprev h x"
  by (simp add: list_add_between_def Let_def)

lemma del_touch:
  "x \<notin> {lprev h e, lnext h e} \<Longrightarrow> lnext (list_del_entry e h) x = lnext h x \<and> lprev (list_del_entry e h) x = lprev h x"
  by (simp add: list_del_entry_def list_del_between_def Let_def)

lemma init_touch:
  "x \<noteq> e \<Longrightarrow> lnext (INIT_LIST_HEAD e h) x = lnext h x \<and> lprev (INIT_LIST_HEAD e h) x = lprev h x"
  by (simp add: INIT_LIST_HEAD_def Let_def)

lemma rings_cong_lists:
  assumes "rings h L xs" and "\<And>l. l \<in> L \<Longrightarrow> ys l = xs l"
  shows "rings h L ys"
  using assms by (auto simp: rings_def)

lemma ringsD: "rings h L xs \<Longrightarrow> l \<in> L \<Longrightarrow> ring h l (xs l)"
  by (simp add: rings_def)

lemma rings_disjoint: "rings h L xs \<Longrightarrow> l \<in> L \<Longrightarrow> m \<in> L \<Longrightarrow> l \<noteq> m \<Longrightarrow> set (l # xs l) \<inter> set (m # xs m) = {}"
  by (simp add: rings_def)

lemma rings_add:
  assumes rs: "rings h L xs" and l: "l \<in> L" and n: "\<And>m. m \<in> L \<Longrightarrow> n \<notin> set (m # xs m)"
  shows "rings (list_add n l h) L (xs(l := n # xs l))"
proof (rule rings_change [OF rs l])
  note r = ringsD [OF rs l]
  show "ring (list_add n l h) l (n # xs l)" using ring_add [OF r n [OF l]] .
  show "lnext (list_add n l h) x = lnext h x \<and> lprev (list_add n l h) x = lprev h x"
    if "x \<notin> insert n (set (l # xs l))" for x
    unfolding list_add_def by (rule add_touch) (use that ring_ends(1) [OF r] startp_in [of "xs l" l] in auto)
  show "insert n (set (l # xs l)) \<inter> set (m # xs m) = {}" "set (n # xs l) \<inter> set (m # xs m) = {}"
    if "m \<in> L" "m \<noteq> l" for m
    using n [OF that(1)] rings_disjoint [OF rs l that(1)] that(2) by auto
qed

lemma rings_add_tail:
  assumes rs: "rings h L xs" and l: "l \<in> L" and n: "\<And>m. m \<in> L \<Longrightarrow> n \<notin> set (m # xs m)"
  shows "rings (list_add_tail n l h) L (xs(l := xs l @ [n]))"
proof (rule rings_change [OF rs l])
  note r = ringsD [OF rs l]
  show "ring (list_add_tail n l h) l (xs l @ [n])" using ring_add_tail [OF r n [OF l]] .
  show "lnext (list_add_tail n l h) x = lnext h x \<and> lprev (list_add_tail n l h) x = lprev h x"
    if "x \<notin> insert n (set (l # xs l))" for x
    unfolding list_add_tail_def by (rule add_touch) (use that ring_ends(2) [OF r] endp_in [of l "xs l"] in auto)
  show "insert n (set (l # xs l)) \<inter> set (m # xs m) = {}" "set (xs l @ [n]) \<inter> set (m # xs m) = {}"
    if "m \<in> L" "m \<noteq> l" for m
    using n [OF that(1)] rings_disjoint [OF rs l that(1)] that(2) by auto
qed

lemma rings_insert_after:
  assumes "rings h L xs" and "l \<in> L" and "\<And>m. m \<in> L \<Longrightarrow> n \<notin> set (m # xs m)"
  shows "rings (list_insert_after l n h) L (xs(l := n # xs l))"
proof -
  have "n \<noteq> l" "n \<noteq> lnext h l"
    using assms(3) [OF assms(2)] ring_ends(1) [OF ringsD [OF assms(1,2)]] startp_in [of "xs l" l] by auto
  then show ?thesis using rings_add [OF assms] by (simp add: list_insert_after_between list_add_def)
qed

lemma rings_del_entry:
  assumes rs: "rings h L xs" and l: "l \<in> L" and x: "xs l = as @ x # bs"
  shows "rings (list_del_entry x h) L (xs(l := as @ bs))"
proof (rule rings_change [OF rs l])
  note d = ring_del_entry [OF ringsD [OF rs l, unfolded x]]
  show "ring (list_del_entry x h) l (as @ bs)" by (rule d(1))
  show "lnext (list_del_entry x h) y = lnext h y \<and> lprev (list_del_entry x h) y = lprev h y" if "y \<notin> set (l # xs l)" for y
    by (rule del_touch) (use that x d(2,3) endp_in [of l as] startp_in [of bs l] in auto)
  show "set (l # xs l) \<inter> set (m # xs m) = {}" "set (as @ bs) \<inter> set (m # xs m) = {}" if "m \<in> L" "m \<noteq> l" for m
    using rings_disjoint [OF rs l that(1)] that(2) x by auto
qed

lemma rings_init_other:
  assumes "rings h L xs" and "\<And>m. m \<in> L \<Longrightarrow> x \<notin> set (m # xs m)"
  shows "rings (INIT_LIST_HEAD x h) L xs"
  using assms ring_frame by (force simp: rings_def)

lemma rings_node_once:
  assumes "rings h L xs" and "l \<in> L" and "xs l = as @ x # bs" and "m \<in> L"
  shows "x \<notin> set (m # (xs(l := as @ bs)) m)"
  using ringsD [OF assms(1,2)] rings_disjoint [OF assms(1,2,4)] assms(3) by (cases "m = l") (auto simp: ring_def)

lemma rings_del_init:
  assumes "rings h L xs" and "l \<in> L" and "xs l = as @ x # bs"
  shows "rings (list_del_init x h) L (xs(l := as @ bs))"
  unfolding list_del_init_def
  by (rule rings_init_other [OF rings_del_entry [OF assms] rings_node_once [OF assms]])

lemma rings_remove:
  assumes "rings h L xs" and "l \<in> L" and "xs l = as @ x # bs"
  shows "rings (list_remove x h) L (xs(l := as @ bs))"
proof -
  have r: "ring h l (as @ x # bs)" using ringsD [OF assms(1,2)] assms(3) by simp
  then have "lprev h x \<noteq> x" using ring_del_entry(2) [OF r] endp_in [of l as] by (auto simp: ring_def)
  then show ?thesis using rings_del_entry [OF assms] by (simp add: list_remove_entry)
qed

text \<open>Setting up one more list head outside the lists there are.\<close>

lemma rings_new_head:
  assumes "rings h L xs" and "\<And>m. m \<in> L \<Longrightarrow> l \<notin> set (m # xs m)" and "xs l = []"
  shows "rings (INIT_LIST_HEAD l h) (insert l L) xs"
  using rings_init_other [OF assms(1,2)] assms(2,3) ring_init [of l h] by (auto simp: rings_def)

section \<open>The operations on one list\<close>

lemma ring_insert_behind:
  assumes "ring h l (as @ bs)" and "n \<notin> set (l # as @ bs)"
  shows "ring (list_insert_after (last (l # as)) n h) l (as @ n # bs)"
proof -
  have nx: "lnext h (endp l as) = startp bs l"
    using assms(1) startp_split [of bs l] unfolding ring_def
    by (metis append.assoc walk.simps(2) walk_append)
  have "n \<noteq> endp l as" "n \<noteq> startp bs l"
    using assms(2) endp_in [of l as] startp_in [of bs l] by auto
  then show ?thesis
    using ring_add_between [OF assms] list_insert_after_between [of n "endp l as" h]
    unfolding endp_def [symmetric] by (simp add: nx)
qed

lemma ring_remove: "ring h l (as @ x # bs) \<Longrightarrow> ring (list_remove x h) l (as @ bs)"
proof -
  assume r: "ring h l (as @ x # bs)"
  then have "lprev h x \<noteq> x" using ring_del_entry(2) [OF r] endp_in [of l as] by (auto simp: ring_def)
  then show "ring (list_remove x h) l (as @ bs)" using ring_del_entry(1) [OF r] by (simp add: list_remove_entry)
qed

text \<open>
  (C26) Well-formedness of lists.  Every operation of \<open>list.h\<close> takes well-formed circular lists, linked
  in both directions, to well-formed ones: \<open>list_add\<close>, \<open>list_add_tail\<close> and \<open>list_insert_after\<close>
  put a new node at the front, at the back and behind a given node, \<open>list_del_init\<close> and \<open>list_remove\<close> take out
  the node \<open>x\<close> and nothing else, and the node \<open>list_del_init\<close> takes out is an empty list of its own.
\<close>

theorem list_ops_well_formed:
  assumes "ring h l (as @ bs)" and "n \<notin> set (l # as @ bs)"
  shows "ring (list_add n l h) l (n # as @ bs) \<and> ring (list_add_tail n l h) l (as @ bs @ [n]) \<and>
    ring (list_insert_after (last (l # as)) n h) l (as @ n # bs) \<and>
    (\<forall>x cs. bs = x # cs \<longrightarrow>
       ring (list_del_init x h) l (as @ cs) \<and> ring (list_del_init x h) x [] \<and> ring (list_remove x h) l (as @ cs))"
  using ring_add [OF assms] ring_add_tail [OF assms] ring_insert_behind [OF assms] ring_del_init ring_remove assms(1)
  by auto

definition ring_example :: "nat lheap" where
  "ring_example = \<lparr>lnext = id(0 := 1, 1 := 2, 2 := 0), lprev = id(0 := 2, 2 := 1, 1 := 0)\<rparr>"

lemma ring_example_ring: "ring ring_example 0 [1, 2]"
  by (simp add: ring_def ring_example_def)

theorem list_ops_well_formed_witness:
  "ring (list_add 7 0 ring_example) 0 [7, 1, 2] \<and> ring (list_add_tail 7 0 ring_example) 0 [1, 2, 7] \<and>
   ring (list_insert_after 1 7 ring_example) 0 [1, 7, 2] \<and> ring (list_del_init 2 ring_example) 0 [1]"
  using list_ops_well_formed [of ring_example 0 "[1]" "[2]" 7] ring_example_ring by simp

text \<open>
  (C27) Iterating with \<open>list_for_each_entry\<close> over a well-formed list terminates and visits exactly
  its nodes, in order.
\<close>

theorem list_for_each_visits:
  assumes "ring h l xs"
  shows "list_for_each h l (lnext h l) = Some xs"
  using assms by (intro ring_for_each_from) (simp_all add: ring_def)

theorem list_for_each_visits_witness: "list_for_each ring_example 0 1 = Some [1, 2]"
  using list_for_each_visits [OF ring_example_ring] by (simp add: ring_example_def)

end
