(* ===== verification/Interfaces.thy ===== *)
theory Interfaces
  imports Cinos_Prelude "HOL-Library.Sublist"
begin

text \<open>
  The contracts between components, one locale each: what a client may rely on when it calls
  the provider, and the client-side consequences, proved once.  Every locale is interpreted in
  the theory of the component that provides the operations.
\<close>

section \<open>A first-fit allocator of numbered slots\<close>

fun alloc_many :: "('s \<Rightarrow> ('s \<times> int) option) \<Rightarrow> nat \<Rightarrow> 's \<Rightarrow> ('s \<times> int list) option" where
  "alloc_many alloc 0 s = Some (s, [])"
| "alloc_many alloc (Suc k) s = do {
     (s, n) \<leftarrow> alloc s;
     (s, ns) \<leftarrow> alloc_many alloc k s;
     Some (s, n # ns)
   }"

locale slot_allocator =
  fixes alloc :: "'s \<Rightarrow> ('s \<times> int) option"
    and inv :: "'s \<Rightarrow> bool"
    and used :: "'s \<Rightarrow> nat set"
    and cap :: "'s \<Rightarrow> nat"
  assumes used_cap: "inv s \<Longrightarrow> used s \<subseteq> {..<cap s}"
    and alloc_free: "inv s \<Longrightarrow> used s \<noteq> {..<cap s} \<Longrightarrow>
      \<exists>s'. alloc s = Some (s', int (LEAST n. n \<notin> used s)) \<and> inv s' \<and>
        used s' = insert (LEAST n. n \<notin> used s) (used s) \<and> cap s' = cap s"
    and alloc_full: "inv s \<Longrightarrow> used s = {..<cap s} \<Longrightarrow> alloc s = Some (s, -1)"
begin

lemma free_slot:
  assumes "inv s" and "used s \<noteq> {..<cap s}"
  shows "(LEAST n. n \<notin> used s) < cap s" and "(LEAST n. n \<notin> used s) \<notin> used s"
proof -
  from assms used_cap obtain n where n: "n < cap s" "n \<notin> used s" by blast
  then show "(LEAST n. n \<notin> used s) \<notin> used s" by (metis LeastI)
  from n(2) have "(LEAST n. n \<notin> used s) \<le> n" by (rule Least_le)
  with n(1) show "(LEAST n. n \<notin> used s) < cap s" by simp
qed

lemma finite_used: "inv s \<Longrightarrow> finite (used s)"
  using used_cap finite_subset by blast

lemma alloc_many_distinct:
  assumes "inv s" and "card (used s) + k \<le> cap s"
  shows "\<exists>s' ns. alloc_many alloc k s = Some (s', map int ns) \<and> length ns = k \<and> distinct ns
    \<and> set ns \<inter> used s = {} \<and> used s' = used s \<union> set ns \<and> inv s' \<and> cap s' = cap s"
  using assms
proof (induction k arbitrary: s)
  case 0
  then show ?case by auto
next
  case (Suc k)
  let ?n = "LEAST n. n \<notin> used s"
  have ne: "used s \<noteq> {..<cap s}"
    using Suc.prems(2) by (metis Suc_n_not_le_n add_Suc_right card_lessThan le_add1 le_trans)
  obtain s1 where s1: "alloc s = Some (s1, int ?n)" "inv s1"
      "used s1 = insert ?n (used s)" "cap s1 = cap s"
    using alloc_free [OF Suc.prems(1) ne] by blast
  note n = free_slot [OF Suc.prems(1) ne]
  have "card (used s1) + k \<le> cap s1"
    using Suc.prems n finite_used [OF Suc.prems(1)] by (simp add: s1)
  from Suc.IH [OF s1(2) this] obtain s' ns where
      IH: "alloc_many alloc k s1 = Some (s', map int ns)" "length ns = k" "distinct ns"
      "set ns \<inter> used s1 = {}" "used s' = used s1 \<union> set ns" "inv s'" "cap s' = cap s1"
    by blast
  have "alloc_many alloc (Suc k) s = Some (s', map int (?n # ns))"
    by (simp add: s1 IH)
  moreover have "distinct (?n # ns)" "set (?n # ns) \<inter> used s = {}"
      "used s' = used s \<union> set (?n # ns)"
    using IH n by (auto simp: s1)
  ultimately show ?case
    using IH s1 by (metis length_Cons)
qed

end

section \<open>A bounded priority index\<close>

fun extract_many :: "('s \<Rightarrow> ('s \<times> 'e option) option) \<Rightarrow> nat \<Rightarrow> 's \<Rightarrow> ('s \<times> 'e option list) option" where
  "extract_many ex 0 s = Some (s, [])"
| "extract_many ex (Suc k) s = do {
     (s, e) \<leftarrow> ex s;
     (s, es) \<leftarrow> extract_many ex k s;
     Some (s, e # es)
   }"

locale priority_index =
  fixes pop :: "'s \<Rightarrow> ('s \<times> 'e option) option"
    and inv :: "'s \<Rightarrow> bool"
    and elems :: "'s \<Rightarrow> 'e multiset"
    and key :: "'e \<Rightarrow> 'k::linorder"
  assumes extract_max: "inv s \<Longrightarrow> elems s \<noteq> {#} \<Longrightarrow>
      \<exists>s' e. pop s = Some (s', Some e) \<and> inv s' \<and> e \<in># elems s \<and>
        (\<forall>x \<in># elems s. key x \<le> key e) \<and> elems s' = elems s - {#e#}"
    and extract_empty: "inv s \<Longrightarrow> elems s = {#} \<Longrightarrow> pop s = Some (s, None)"
begin

lemma drain_sorted:
  assumes "inv s" and "size (elems s) = k"
  shows "\<exists>s' es. extract_many pop k s = Some (s', map Some es) \<and> inv s' \<and> elems s' = {#} \<and>
    mset es = elems s \<and> sorted_wrt (\<lambda>x y. key y \<le> key x) es"
  using assms
proof (induction k arbitrary: s)
  case 0
  then show ?case by auto
next
  case (Suc k)
  then have "elems s \<noteq> {#}" by auto
  with Suc.prems(1) obtain s1 e where
    e: "pop s = Some (s1, Some e)" "inv s1" "e \<in># elems s"
      "\<forall>x \<in># elems s. key x \<le> key e" "elems s1 = elems s - {#e#}"
    using extract_max by blast
  then have "size (elems s1) = k"
    using Suc.prems(2) by (simp add: size_Diff_singleton)
  from Suc.IH [OF e(2) this] obtain s' es where
    IH: "extract_many pop k s1 = Some (s', map Some es)" "inv s'" "elems s' = {#}"
      "mset es = elems s1" "sorted_wrt (\<lambda>x y. key y \<le> key x) es" by blast
  have "mset (e # es) = elems s"
    using IH(4) e(3,5) by simp
  moreover have "set es \<subseteq> set_mset (elems s)"
    using IH(4) e(5) by (metis in_diffD set_mset_mset subsetI)
  then have "sorted_wrt (\<lambda>x y. key y \<le> key x) (e # es)"
    using IH(5) e(4) by auto
  moreover have "extract_many pop (Suc k) s = Some (s', map Some (e # es))"
    using e(1) IH(1) by simp
  ultimately show ?case using IH(2,3) by blast
qed

end

section \<open>A table of named entries\<close>

datatype ('k, 'v) table_op = Put 'k 'v | Get 'k | Del 'k

datatype 'v table_res = Stored bool | Found "'v option"

fun spec_step :: "('k, 'v) table_op \<Rightarrow> ('k \<Rightarrow> 'v option) \<Rightarrow> ('k \<Rightarrow> 'v option) \<times> 'v table_res" where
  "spec_step (Put k v) m = (if m k = None then (m(k \<mapsto> v), Stored True) else (m, Stored False))"
| "spec_step (Get k) m = (m, Found (m k))"
| "spec_step (Del k) m = (m(k := None), Found (m k))"

fun spec_run :: "('k, 'v) table_op list \<Rightarrow> ('k \<Rightarrow> 'v option) \<Rightarrow> ('k \<Rightarrow> 'v option) \<times> 'v table_res list" where
  "spec_run [] m = (m, [])"
| "spec_run (p # ps) m =
     (let (m, r) = spec_step p m; (m, rs) = spec_run ps m in (m, r # rs))"

fun table_step ::
    "('k \<Rightarrow> 'v \<Rightarrow> 's \<Rightarrow> ('s \<times> bool) option) \<Rightarrow> ('k \<Rightarrow> 's \<Rightarrow> 'v option option) \<Rightarrow>
     ('k \<Rightarrow> 's \<Rightarrow> ('s \<times> 'v option) option) \<Rightarrow> ('k, 'v) table_op \<Rightarrow> 's \<Rightarrow> ('s \<times> 'v table_res) option" where
  "table_step put get del (Put k v) s = map_option (\<lambda>(s, b). (s, Stored b)) (put k v s)"
| "table_step put get del (Get k) s = map_option (\<lambda>v. (s, Found v)) (get k s)"
| "table_step put get del (Del k) s = map_option (\<lambda>(s, v). (s, Found v)) (del k s)"

fun table_run ::
    "('k \<Rightarrow> 'v \<Rightarrow> 's \<Rightarrow> ('s \<times> bool) option) \<Rightarrow> ('k \<Rightarrow> 's \<Rightarrow> 'v option option) \<Rightarrow>
     ('k \<Rightarrow> 's \<Rightarrow> ('s \<times> 'v option) option) \<Rightarrow> ('k, 'v) table_op list \<Rightarrow> 's \<Rightarrow> ('s \<times> 'v table_res list) option" where
  "table_run put get del [] s = Some (s, [])"
| "table_run put get del (p # ps) s = do {
     (s, r) \<leftarrow> table_step put get del p s;
     (s, rs) \<leftarrow> table_run put get del ps s;
     Some (s, r # rs)
   }"

fun op_in :: "'k set \<Rightarrow> 'v set \<Rightarrow> ('k, 'v) table_op \<Rightarrow> bool" where
  "op_in keys vals (Put k v) \<longleftrightarrow> k \<in> keys \<and> v \<in> vals"
| "op_in keys vals (Get k) \<longleftrightarrow> k \<in> keys"
| "op_in keys vals (Del k) \<longleftrightarrow> k \<in> keys"

locale name_table =
  fixes put :: "'k \<Rightarrow> 'v \<Rightarrow> 's \<Rightarrow> ('s \<times> bool) option"
    and get :: "'k \<Rightarrow> 's \<Rightarrow> 'v option option"
    and del :: "'k \<Rightarrow> 's \<Rightarrow> ('s \<times> 'v option) option"
    and inv :: "'s \<Rightarrow> bool"
    and keys :: "'k set"
    and vals :: "'v set"
    and absm :: "'s \<Rightarrow> 'k \<Rightarrow> 'v option"
  assumes put_new: "inv s \<Longrightarrow> k \<in> keys \<Longrightarrow> v \<in> vals \<Longrightarrow> absm s k = None \<Longrightarrow>
      \<exists>s'. put k v s = Some (s', True) \<and> inv s' \<and> (\<forall>k' \<in> keys. absm s' k' = ((absm s)(k \<mapsto> v)) k')"
    and put_dup: "inv s \<Longrightarrow> k \<in> keys \<Longrightarrow> absm s k \<noteq> None \<Longrightarrow> put k v s = Some (s, False)"
    and get_abs: "inv s \<Longrightarrow> k \<in> keys \<Longrightarrow> get k s = Some (absm s k)"
    and del_abs: "inv s \<Longrightarrow> k \<in> keys \<Longrightarrow>
      \<exists>s'. del k s = Some (s', absm s k) \<and> inv s' \<and> (\<forall>k' \<in> keys. absm s' k' = ((absm s)(k := None)) k')"
begin

lemma step_refines:
  assumes "inv s" and "op_in keys vals p" and "\<forall>k \<in> keys. absm s k = m k"
  shows "\<exists>s'. table_step put get del p s = Some (s', snd (spec_step p m)) \<and> inv s' \<and>
    (\<forall>k \<in> keys. absm s' k = fst (spec_step p m) k)"
proof (cases p)
  case (Put k v)
  show ?thesis
  proof (cases "m k = None")
    case True
    with assms Put put_new [of s k v] show ?thesis by fastforce
  next
    case False
    with assms Put put_dup [of s k v] show ?thesis by auto
  qed
next
  case (Get k)
  with assms get_abs [of s k] show ?thesis by auto
next
  case (Del k)
  with assms del_abs [of s k] show ?thesis by fastforce
qed

lemma run_refines:
  assumes "inv s" and "\<forall>p \<in> set ps. op_in keys vals p" and "\<forall>k \<in> keys. absm s k = m k"
  shows "\<exists>s'. table_run put get del ps s = Some (s', snd (spec_run ps m)) \<and> inv s' \<and>
    (\<forall>k \<in> keys. absm s' k = fst (spec_run ps m) k)"
  using assms
proof (induction ps arbitrary: s m)
  case Nil
  then show ?case by simp
next
  case (Cons p ps)
  obtain s1 where s1: "table_step put get del p s = Some (s1, snd (spec_step p m))" "inv s1"
      "\<forall>k \<in> keys. absm s1 k = fst (spec_step p m) k"
    using step_refines [OF Cons.prems(1) _ Cons.prems(3), of p] Cons.prems(2) by auto
  from Cons.IH [OF s1(2) _ s1(3)] Cons.prems(2) obtain s' where
    "table_run put get del ps s1 = Some (s', snd (spec_run ps (fst (spec_step p m))))" "inv s'"
    "\<forall>k \<in> keys. absm s' k = fst (spec_run ps (fst (spec_step p m))) k" by auto
  with s1(1) show ?case
    by (auto simp: Let_def split: prod.splits)
qed

end

section \<open>A table whose entries shadow each other\<close>

fun shadow_step :: "('k, 'v) table_op \<Rightarrow> ('k \<Rightarrow> 'v list) \<Rightarrow> ('k \<Rightarrow> 'v list) \<times> 'v table_res" where
  "shadow_step (Put k v) m = (m(k := v # m k), Stored True)"
| "shadow_step (Get k) m = (m, Found (case m k of [] \<Rightarrow> None | v # _ \<Rightarrow> Some v))"
| "shadow_step (Del k) m = (m(k := tl (m k)), Found (case m k of [] \<Rightarrow> None | v # _ \<Rightarrow> Some v))"

fun shadow_run :: "('k, 'v) table_op list \<Rightarrow> ('k \<Rightarrow> 'v list) \<Rightarrow> ('k \<Rightarrow> 'v list) \<times> 'v table_res list" where
  "shadow_run [] m = (m, [])"
| "shadow_run (p # ps) m = (let (m, r) = shadow_step p m; (m, rs) = shadow_run ps m in (m, r # rs))"

locale shadow_table =
  fixes put :: "'k \<Rightarrow> 'v \<Rightarrow> 's \<Rightarrow> ('s \<times> bool) option"
    and get :: "'k \<Rightarrow> 's \<Rightarrow> 'v option option"
    and del :: "'k \<Rightarrow> 's \<Rightarrow> ('s \<times> 'v option) option"
    and inv :: "'s \<Rightarrow> bool"
    and vals :: "'v set"
    and absm :: "'s \<Rightarrow> 'k \<Rightarrow> 'v list"
  assumes put_abs: "inv s \<Longrightarrow> v \<in> vals \<Longrightarrow>
      \<exists>s'. put k v s = Some (s', True) \<and> inv s' \<and> absm s' = (absm s)(k := v # absm s k)"
    and get_abs: "inv s \<Longrightarrow> get k s = Some (case absm s k of [] \<Rightarrow> None | v # _ \<Rightarrow> Some v)"
    and del_abs: "inv s \<Longrightarrow>
      \<exists>s'. del k s = Some (s', case absm s k of [] \<Rightarrow> None | v # _ \<Rightarrow> Some v) \<and> inv s' \<and>
        absm s' = (absm s)(k := tl (absm s k))"
begin

lemma shadow_step_refines:
  assumes "inv s" and "op_in UNIV vals p"
  shows "\<exists>s'. table_step put get del p s = Some (s', snd (shadow_step p (absm s))) \<and> inv s' \<and>
    absm s' = fst (shadow_step p (absm s))"
proof (cases p)
  case (Put k v)
  then show ?thesis using put_abs [OF assms(1), of v k] assms(2) by auto
next
  case (Get k)
  then show ?thesis using get_abs [OF assms(1), of k] assms(1) by auto
next
  case (Del k)
  then show ?thesis using del_abs [OF assms(1), of k] by auto
qed

lemma shadow_run_refines:
  assumes "inv s" and "\<forall>p \<in> set ps. op_in UNIV vals p"
  shows "\<exists>s'. table_run put get del ps s = Some (s', snd (shadow_run ps (absm s))) \<and> inv s' \<and>
    absm s' = fst (shadow_run ps (absm s))"
  using assms
proof (induction ps arbitrary: s)
  case (Cons p ps)
  from shadow_step_refines [OF Cons.prems(1), of p] Cons.prems(2) obtain s1 where
    s1: "table_step put get del p s = Some (s1, snd (shadow_step p (absm s)))" "inv s1" "absm s1 = fst (shadow_step p (absm s))"
    by auto
  from Cons.IH [OF s1(2)] Cons.prems(2) s1(1,3) show ?case by (auto simp: Let_def split: prod.splits)
qed simp

end

section \<open>A device of byte extents\<close>

type_synonym extent = "nat \<times> nat \<times> (nat \<Rightarrow> u8)"

fun apart :: "extent \<Rightarrow> extent \<Rightarrow> bool" where
  "apart (o1, n1, f1) (o2, n2, f2) \<longleftrightarrow> o1 + n1 \<le> o2 \<or> o2 + n2 \<le> o1"

locale extent_device =
  fixes store :: "extent \<Rightarrow> 'd \<Rightarrow> 'd"
    and inv :: "'d \<Rightarrow> bool"
    and fits :: "extent \<Rightarrow> 'd \<Rightarrow> bool"
    and holds :: "'d \<Rightarrow> extent \<Rightarrow> bool"
  assumes write_inv: "inv d \<Longrightarrow> fits e d \<Longrightarrow> inv (store e d)"
    and write_holds: "inv d \<Longrightarrow> fits e d \<Longrightarrow> holds (store e d) e"
    and write_frame: "inv d \<Longrightarrow> fits e d \<Longrightarrow> holds d e' \<Longrightarrow> apart e e' \<Longrightarrow> holds (store e d) e'"
    and write_fits: "inv d \<Longrightarrow> fits e d \<Longrightarrow> fits e' (store e d) \<longleftrightarrow> fits e' d"
begin

lemma fold_keeps:
  assumes "inv d" and "\<forall>e \<in> set es. fits e d" and "holds d e'" and "\<forall>e \<in> set es. apart e e'"
  shows "inv (fold store es d) \<and> holds (fold store es d) e'"
  using assms
  by (induction es arbitrary: d) (simp_all add: write_inv write_frame write_fits)

lemma fold_inv:
  assumes "inv d" and "\<forall>e \<in> set es. fits e d"
  shows "inv (fold store es d)"
  using assms by (induction es arbitrary: d) (simp_all add: write_inv write_fits)

lemma fold_holds:
  assumes "inv d" and "\<forall>e \<in> set es. fits e d" and "sorted_wrt (\<lambda>a b. apart b a) es" and "e \<in> set es"
  shows "holds (fold store es d) e"
  using assms
proof (induction es arbitrary: d)
  case (Cons a es)
  then have a: "inv (store a d)" "\<forall>e \<in> set es. fits e (store a d)"
    by (simp_all add: write_inv write_fits)
  show ?case
  proof (cases "e = a")
    case True
    then show ?thesis
      using Cons.prems fold_keeps [OF a, of a] by (simp add: write_holds)
  next
    case False
    then show ?thesis using Cons a by simp
  qed
qed simp

end

section \<open>A file of bytes\<close>

type_synonym afile = "nat \<times> (nat \<Rightarrow> u8)"

definition awrite :: "nat \<Rightarrow> u8 list \<Rightarrow> afile \<Rightarrow> afile" where
  "awrite off bs f = (max (fst f) (off + length bs), setb (snd f) off bs)"

definition aread :: "nat \<Rightarrow> nat \<Rightarrow> afile \<Rightarrow> u8 list" where
  "aread off k f = (if off + k \<le> fst f then map (\<lambda>i. snd f (off + i)) [0..<k] else [])"

datatype file_op = FWrite nat "u8 list" | FRead nat nat

fun afile_run :: "file_op list \<Rightarrow> afile \<Rightarrow> afile \<times> u8 list list" where
  "afile_run [] f = (f, [])"
| "afile_run (FWrite off bs # ops) f = afile_run ops (awrite off bs f)"
| "afile_run (FRead off k # ops) f = (let (f', rs) = afile_run ops f in (f', aread off k f # rs))"

fun file_run :: "(nat \<Rightarrow> u8 list \<Rightarrow> 's \<Rightarrow> 's option) \<Rightarrow> (nat \<Rightarrow> nat \<Rightarrow> 's \<Rightarrow> ('s \<times> u8 list) option) \<Rightarrow>
    file_op list \<Rightarrow> 's \<Rightarrow> ('s \<times> u8 list list) option" where
  "file_run fwr frd [] s = Some (s, [])"
| "file_run fwr frd (FWrite off bs # ops) s = do { s \<leftarrow> fwr off bs s; file_run fwr frd ops s }"
| "file_run fwr frd (FRead off k # ops) s = do {
     (s, r) \<leftarrow> frd off k s;
     (s, rs) \<leftarrow> file_run fwr frd ops s;
     Some (s, r # rs)
   }"

fun op_fits :: "(nat \<Rightarrow> nat \<Rightarrow> bool) \<Rightarrow> file_op \<Rightarrow> bool" where
  "op_fits fits (FWrite off bs) = fits off (length bs)"
| "op_fits fits (FRead off k) = fits off k"

locale byte_file =
  fixes fwr :: "nat \<Rightarrow> u8 list \<Rightarrow> 's \<Rightarrow> 's option"
    and frd :: "nat \<Rightarrow> nat \<Rightarrow> 's \<Rightarrow> ('s \<times> u8 list) option"
    and inv :: "'s \<Rightarrow> bool"
    and view :: "'s \<Rightarrow> afile"
    and fits :: "nat \<Rightarrow> nat \<Rightarrow> bool"
  assumes write_ok: "inv s \<Longrightarrow> fits off (length bs) \<Longrightarrow>
      \<exists>s'. fwr off bs s = Some s' \<and> inv s' \<and> view s' = awrite off bs (view s)"
    and read_ok: "inv s \<Longrightarrow> fits off k \<Longrightarrow>
      \<exists>s'. frd off k s = Some (s', aread off k (view s)) \<and> inv s' \<and> view s' = view s"
begin

lemma file_run_refines:
  assumes "inv s" and "\<forall>op \<in> set ops. op_fits fits op"
  shows "\<exists>s'. file_run fwr frd ops s = Some (s', snd (afile_run ops (view s))) \<and> inv s' \<and>
    view s' = fst (afile_run ops (view s))"
  using assms
proof (induction ops arbitrary: s)
  case (Cons op ops)
  show ?case
  proof (cases op)
    case (FWrite off bs)
    with Cons.prems write_ok obtain s1 where s1: "fwr off bs s = Some s1" "inv s1" "view s1 = awrite off bs (view s)"
      by fastforce
    from Cons.IH [OF s1(2)] Cons.prems(2) obtain s' where "file_run fwr frd ops s1 = Some (s', snd (afile_run ops (view s1)))"
        "inv s'" "view s' = fst (afile_run ops (view s1))" by auto
    with s1 FWrite show ?thesis by simp
  next
    case (FRead off k)
    with Cons.prems read_ok obtain s1 where s1: "frd off k s = Some (s1, aread off k (view s))" "inv s1" "view s1 = view s"
      by fastforce
    from Cons.IH [OF s1(2)] Cons.prems(2) obtain s' where "file_run fwr frd ops s1 = Some (s', snd (afile_run ops (view s1)))"
        "inv s'" "view s' = fst (afile_run ops (view s1))" by auto
    with s1 FRead show ?thesis by (auto simp: case_prod_unfold Let_def)
  qed
qed simp

end

section \<open>A bounded queue\<close>

datatype 'v fifo_op = FEnq 'v | FDeq

fun afifo_run :: "nat \<Rightarrow> 'v fifo_op list \<Rightarrow> 'v list \<Rightarrow> 'v list \<times> bool list \<times> 'v option list" where
  "afifo_run cap [] xs = (xs, [], [])"
| "afifo_run cap (FEnq v # ops) xs =
     (let (ys, oks, vs) = afifo_run cap ops (if length xs < cap then xs @ [v] else xs)
      in (ys, (length xs < cap) # oks, vs))"
| "afifo_run cap (FDeq # ops) xs =
     (let (ys, oks, vs) = afifo_run cap ops (tl xs)
      in (ys, oks, (case xs of [] \<Rightarrow> None | x # _ \<Rightarrow> Some x) # vs))"

fun fifo_run :: "('v \<Rightarrow> 's \<Rightarrow> ('s \<times> bool) option) \<Rightarrow> ('s \<Rightarrow> ('s \<times> 'v option) option) \<Rightarrow> 'v fifo_op list \<Rightarrow> 's \<Rightarrow>
    ('s \<times> bool list \<times> 'v option list) option" where
  "fifo_run enq deq [] s = Some (s, [], [])"
| "fifo_run enq deq (FEnq v # ops) s = do {
     (s, ok) \<leftarrow> enq v s;
     (s, oks, vs) \<leftarrow> fifo_run enq deq ops s;
     Some (s, ok # oks, vs)
   }"
| "fifo_run enq deq (FDeq # ops) s = do {
     (s, v) \<leftarrow> deq s;
     (s, oks, vs) \<leftarrow> fifo_run enq deq ops s;
     Some (s, oks, v # vs)
   }"

locale bounded_fifo =
  fixes enq :: "'v \<Rightarrow> 's \<Rightarrow> ('s \<times> bool) option"
    and deq :: "'s \<Rightarrow> ('s \<times> 'v option) option"
    and inv :: "'s \<Rightarrow> bool"
    and view :: "'s \<Rightarrow> 'v list"
    and cap :: nat
  assumes enq_ok: "inv s \<Longrightarrow> \<exists>s'. enq v s = Some (s', length (view s) < cap) \<and> inv s' \<and>
      view s' = (if length (view s) < cap then view s @ [v] else view s)"
    and deq_ok: "inv s \<Longrightarrow> \<exists>s'. deq s = Some (s', case view s of [] \<Rightarrow> None | x # _ \<Rightarrow> Some x) \<and> inv s' \<and>
      view s' = tl (view s)"
begin

lemma fifo_run_refines:
  assumes "inv s"
  shows "\<exists>s'. fifo_run enq deq ops s = Some (s', snd (afifo_run cap ops (view s))) \<and> inv s' \<and>
    view s' = fst (afifo_run cap ops (view s))"
  using assms
proof (induction ops arbitrary: s)
  case (Cons op ops)
  show ?case
  proof (cases op)
    case (FEnq v)
    from enq_ok [OF Cons.prems, of v] obtain s1 where s1: "enq v s = Some (s1, length (view s) < cap)" "inv s1"
        "view s1 = (if length (view s) < cap then view s @ [v] else view s)" by blast
    from Cons.IH [OF s1(2)] s1(1,3) FEnq show ?thesis by (auto simp: case_prod_unfold Let_def)
  next
    case FDeq
    from deq_ok [OF Cons.prems] obtain s1 where s1: "deq s = Some (s1, case view s of [] \<Rightarrow> None | x # _ \<Rightarrow> Some x)" "inv s1"
        "view s1 = tl (view s)" by blast
    from Cons.IH [OF s1(2)] s1(1,3) FDeq show ?thesis by (auto simp: case_prod_unfold Let_def)
  qed
qed simp

end

section \<open>Slots for messages\<close>

datatype 'b slot_op = Send nat "'b list" | Recv nat

datatype 'b slot_res = Sent bool | Got "'b list"

text \<open>
  The abstract machine: the messages that have been sent and not yet received, and the space left.
  A message that is too long or that does not fit into the space left is refused.  Sending another message to a slot in use
  when there is space for it, and receiving from an empty slot, are errors of the client.
\<close>

fun aslots_run :: "('b list \<Rightarrow> nat) \<Rightarrow> ('b list \<Rightarrow> bool) \<Rightarrow> (nat \<Rightarrow> 'b list \<Rightarrow> bool) \<Rightarrow> 'b slot_op list \<Rightarrow> (nat \<Rightarrow> 'b list option) \<Rightarrow> nat \<Rightarrow>
    'b slot_res list option" where
  "aslots_run cost long ok [] m f = Some []"
| "aslots_run cost long ok (Send i bs # ops) m f =
     (if long bs then map_option (Cons (Sent False)) (aslots_run cost long ok ops m f)
      else if \<not> ok i bs then None
      else if \<not> cost bs \<le> f then map_option (Cons (Sent False)) (aslots_run cost long ok ops m f)
      else if m i \<noteq> None then None
      else map_option (Cons (Sent True)) (aslots_run cost long ok ops (m(i \<mapsto> bs)) (f - cost bs)))"
| "aslots_run cost long ok (Recv i # ops) m f =
     (case m i of None \<Rightarrow> None
      | Some bs \<Rightarrow> map_option (Cons (Got bs)) (aslots_run cost long ok ops (m(i := None)) (f + cost bs)))"

fun slots_run :: "(nat \<Rightarrow> 'b list \<Rightarrow> 's \<Rightarrow> ('s \<times> bool) option) \<Rightarrow> (nat \<Rightarrow> 's \<Rightarrow> ('s \<times> 'b list) option) \<Rightarrow> 'b slot_op list \<Rightarrow> 's \<Rightarrow>
    ('s \<times> 'b slot_res list) option" where
  "slots_run snd_op rcv_op [] s = Some (s, [])"
| "slots_run snd_op rcv_op (Send i bs # ops) s = do {
     (s, r) \<leftarrow> snd_op i bs s;
     (s, rs) \<leftarrow> slots_run snd_op rcv_op ops s;
     Some (s, Sent r # rs)
   }"
| "slots_run snd_op rcv_op (Recv i # ops) s = do {
     (s, bs) \<leftarrow> rcv_op i s;
     (s, rs) \<leftarrow> slots_run snd_op rcv_op ops s;
     Some (s, Got bs # rs)
   }"

text \<open>A receiver may be given more bytes than were sent, behind the message.\<close>

fun res_covers :: "'b slot_res \<Rightarrow> 'b slot_res \<Rightarrow> bool" where
  "res_covers (Sent a) (Sent b) = (a = b)"
| "res_covers (Got bs) (Got xs) = prefix bs xs"
| "res_covers _ _ = False"

locale message_slots =
  fixes snd_op :: "nat \<Rightarrow> 'b list \<Rightarrow> 's \<Rightarrow> ('s \<times> bool) option"
    and rcv_op :: "nat \<Rightarrow> 's \<Rightarrow> ('s \<times> 'b list) option"
    and rel :: "'s \<Rightarrow> (nat \<Rightarrow> 'b list option) \<Rightarrow> nat \<Rightarrow> bool"
    and cost :: "'b list \<Rightarrow> nat"
    and long :: "'b list \<Rightarrow> bool"
    and ok :: "nat \<Rightarrow> 'b list \<Rightarrow> bool"
  assumes send_long: "rel s m f \<Longrightarrow> long bs \<Longrightarrow> snd_op i bs s = Some (s, False)"
    and send_space: "rel s m f \<Longrightarrow> ok i bs \<Longrightarrow> m i = None \<Longrightarrow> cost bs \<le> f \<Longrightarrow>
      \<exists>s'. snd_op i bs s = Some (s', True) \<and> rel s' (m(i \<mapsto> bs)) (f - cost bs)"
    and send_full: "rel s m f \<Longrightarrow> ok i bs \<Longrightarrow> \<not> cost bs \<le> f \<Longrightarrow>
      \<exists>s'. snd_op i bs s = Some (s', False) \<and> rel s' m f"
    and recv_message: "rel s m f \<Longrightarrow> m i = Some bs \<Longrightarrow>
      \<exists>s' xs. rcv_op i s = Some (s', xs) \<and> prefix bs xs \<and> rel s' (m(i := None)) (f + cost bs)"
begin

lemma send_refines:
  assumes "rel s m f" and "aslots_run cost long ok (Send i bs # ops) m f = Some rs"
  obtains s1 m1 f1 b rs1 where "snd_op i bs s = Some (s1, b)" and "rel s1 m1 f1" and "aslots_run cost long ok ops m1 f1 = Some rs1"
    and "rs = Sent b # rs1"
proof (cases "long bs")
  case True
  then show thesis using that [OF send_long [OF assms(1) True] assms(1)] assms(2) by auto
next
  case nl: False
  then have c: "ok i bs" using assms(2) by (auto split: if_splits)
  show thesis
  proof (cases "cost bs \<le> f")
    case True
    then have "m i = None" using assms(2) nl c by (auto split: if_splits)
    from send_space [OF assms(1) c this True] obtain s1 where "snd_op i bs s = Some (s1, True)" "rel s1 (m(i \<mapsto> bs)) (f - cost bs)" by blast
    then show thesis using that assms(2) nl c True by (auto split: if_splits)
  next
    case False
    from send_full [OF assms(1) c False] obtain s1 where "snd_op i bs s = Some (s1, False)" "rel s1 m f" by blast
    then show thesis using that assms(2) nl c False by auto
  qed
qed

lemma slots_run_refines:
  assumes "rel s m f" and "aslots_run cost long ok ops m f = Some rs"
  shows "\<exists>s' rs'. slots_run snd_op rcv_op ops s = Some (s', rs') \<and> list_all2 res_covers rs rs'"
  using assms
proof (induction ops arbitrary: s m f rs)
  case (Cons op ops)
  show ?case
  proof (cases op)
    case (Send i bs)
    obtain s1 m1 f1 b rs1 where s1: "snd_op i bs s = Some (s1, b)" "rel s1 m1 f1"
        "aslots_run cost long ok ops m1 f1 = Some rs1" "rs = Sent b # rs1"
      by (rule send_refines [OF Cons.prems(1) Cons.prems(2) [unfolded Send]])
    from Cons.IH [OF s1(2,3)] s1(1,4) Send show ?thesis by fastforce
  next
    case (Recv i)
    then obtain bs where bs: "m i = Some bs" using Cons.prems(2) by (cases "m i") auto
    from recv_message [OF Cons.prems(1) bs] obtain s1 xs where
      s1: "rcv_op i s = Some (s1, xs)" "prefix bs xs" "rel s1 (m(i := None)) (f + cost bs)" by blast
    from Cons.prems(2) Recv bs obtain rs1 where "aslots_run cost long ok ops (m(i := None)) (f + cost bs) = Some rs1" "rs = Got bs # rs1" by auto
    with Cons.IH [OF s1(3)] s1(1,2) Recv show ?thesis by fastforce
  qed
qed simp

end

end
