(* ===== verification/Atomic.thy ===== *)
theory Atomic
  imports Cinos_Prelude
begin

text \<open>
  The two versions of \<open>atomic.h\<close>.  In \<open>userfs/include/atomic.h\<close> every update is a compare-and-swap
  loop: read the value, compute the new one, swap it in if the value has not changed, otherwise
  start over.  In \<open>lib/include/atomic.h\<close> \<open>atomic_add\<close> and \<open>atomic_sub\<close> read the value first and
  then call \<open>atomic_set\<close>, whose loop stores the precomputed result over whatever is there.

  The sequential functions are what one call does without interference; the step relations
  interleave the reads and the swaps of any number of calls on one variable.

  The results: the compare-and-swap loops are linearisable for every interleaving, so
  concurrent additions are never lost; the library version loses them.
\<close>

section \<open>The operations, run alone\<close>

definition atomic_set :: "u32 \<Rightarrow> u32 \<Rightarrow> u32 \<times> u32" where
  "atomic_set value v = (v, v)"

definition atomic_store :: "u32 \<Rightarrow> u32 \<Rightarrow> u32 \<times> u32" where
  "atomic_store value v = (value + v, value + v)"

definition atomic_get :: "u32 \<Rightarrow> u32" where
  "atomic_get value = value"

definition atomic_add :: "u32 \<Rightarrow> u32 \<Rightarrow> u32 \<times> u32" where
  "atomic_add value v = (value + v, value + v)"

definition atomic_sub :: "u32 \<Rightarrow> u32 \<Rightarrow> u32 \<times> u32" where
  "atomic_sub value v = (value - v, value - v)"

definition atomic_init :: "u32 \<Rightarrow> u32" where
  "atomic_init value = fst (atomic_set value 0)"

definition atomic_is_null :: "u32 \<Rightarrow> bool" where
  "atomic_is_null value \<longleftrightarrow> value = 0"

lemmas atomic_defs = atomic_set_def atomic_store_def atomic_get_def atomic_add_def atomic_sub_def
  atomic_init_def atomic_is_null_def

text \<open>The operations of \<open>lib/include/atomic.h\<close>, which return nothing but the value read.\<close>

definition lib_atomic_set :: "u32 \<Rightarrow> u32 \<Rightarrow> u32" where
  "lib_atomic_set value v = v"

definition lib_atomic_store :: "u32 \<Rightarrow> u32 \<Rightarrow> u32" where
  "lib_atomic_store value v = lib_atomic_set value v"

definition lib_atomic_get :: "u32 \<Rightarrow> u32" where
  "lib_atomic_get value = value"

definition lib_atomic_load :: "u32 \<Rightarrow> u32" where
  "lib_atomic_load value = value"

definition lib_atomic_add :: "u32 \<Rightarrow> u32 \<Rightarrow> u32" where
  "lib_atomic_add value v = lib_atomic_set value (value + v)"

definition lib_atomic_sub :: "u32 \<Rightarrow> u32 \<Rightarrow> u32" where
  "lib_atomic_sub value v = lib_atomic_set value (value - v)"

definition lib_atomic_init :: "u32 \<Rightarrow> u32" where
  "lib_atomic_init value = lib_atomic_set value 0"

definition lib_atomic_is_null :: "u32 \<Rightarrow> bool" where
  "lib_atomic_is_null value \<longleftrightarrow> value = 0"

lemmas lib_atomic_defs = lib_atomic_set_def lib_atomic_store_def lib_atomic_get_def lib_atomic_load_def
  lib_atomic_add_def lib_atomic_sub_def lib_atomic_init_def lib_atomic_is_null_def

section \<open>Interleaved compare-and-swap loops\<close>

datatype aop = ASet u32 | AStore u32 | AAdd u32 | ASub u32

fun run_aop :: "aop \<Rightarrow> u32 \<Rightarrow> u32" where
  "run_aop (ASet v) old = fst (atomic_set old v)"
| "run_aop (AStore v) old = fst (atomic_store old v)"
| "run_aop (AAdd v) old = fst (atomic_add old v)"
| "run_aop (ASub v) old = fst (atomic_sub old v)"

datatype apc = Start aop | Loaded aop u32 | Done aop u32

record astate =
  aval :: u32
  thr :: "apc list"
  lin :: "aop list"

text \<open>\<open>lin\<close> is a ghost: the calls in the order of their successful swaps.\<close>

inductive cas_step :: "astate \<Rightarrow> astate \<Rightarrow> bool" where
  load: "i < length (thr s) \<Longrightarrow> thr s ! i = Start op \<Longrightarrow>
    cas_step s (s\<lparr>thr := (thr s)[i := Loaded op (aval s)]\<rparr>)"
| cas_ok: "i < length (thr s) \<Longrightarrow> thr s ! i = Loaded op old \<Longrightarrow> aval s = old \<Longrightarrow>
    cas_step s (s\<lparr>aval := run_aop op old, thr := (thr s)[i := Done op (run_aop op old)],
                  lin := lin s @ [op]\<rparr>)"
| cas_fail: "i < length (thr s) \<Longrightarrow> thr s ! i = Loaded op old \<Longrightarrow> aval s \<noteq> old \<Longrightarrow>
    cas_step s (s\<lparr>thr := (thr s)[i := Start op]\<rparr>)"

definition cas_start :: "u32 \<Rightarrow> aop list \<Rightarrow> astate" where
  "cas_start v ops = \<lparr>aval = v, thr = map Start ops, lin = []\<rparr>"

fun op_of :: "apc \<Rightarrow> aop" where
  "op_of (Start op) = op"
| "op_of (Loaded op _) = op"
| "op_of (Done op _) = op"

fun is_done :: "apc \<Rightarrow> bool" where
  "is_done (Done _ _) = True"
| "is_done _ = False"

definition cas_inv :: "u32 \<Rightarrow> aop list \<Rightarrow> astate \<Rightarrow> bool" where
  "cas_inv v ops s \<longleftrightarrow> map op_of (thr s) = ops \<and> aval s = fold run_aop (lin s) v \<and>
     mset (lin s) = image_mset op_of (filter_mset is_done (mset (thr s)))"

lemma map_op_update:
  "i < length ts \<Longrightarrow> op_of t = op_of (ts ! i) \<Longrightarrow> map op_of (ts[i := t]) = map op_of ts"
  by (metis list_update_id map_update)

lemma done_update:
  assumes "i < length ts" and "\<not> is_done (ts ! i)"
  shows "filter_mset is_done (mset (ts[i := t])) =
    (if is_done t then add_mset t else id) (filter_mset is_done (mset ts))"
  using assms by (simp add: mset_update filter_diff_mset)

lemma cas_step_inv: "cas_step s s' \<Longrightarrow> cas_inv v ops s \<Longrightarrow> cas_inv v ops s'"
  by (induction rule: cas_step.induct) (auto simp: cas_inv_def map_op_update done_update)

lemma cas_reach_inv:
  assumes "cas_step\<^sup>*\<^sup>* (cas_start v ops) s"
  shows "cas_inv v ops s"
  using assms
proof (induction rule: rtranclp_induct)
  case base
  have "filter_mset is_done (image_mset Start (mset ops)) = {#}"
    by (induction ops) auto
  then show ?case by (simp add: cas_inv_def cas_start_def comp_def)
qed (rule cas_step_inv)

lemma all_done_mset:
  "list_all is_done ts \<Longrightarrow> filter_mset is_done (mset ts) = mset ts"
  by (induction ts) auto

text \<open>
  (C17) Linearisability.  Whatever the interleaving of the reads and swaps of any number of
  concurrent calls, once all have returned the variable holds the value some sequential order
  of exactly these calls produces.
\<close>

theorem atomic_linearisable:
  assumes "cas_step\<^sup>*\<^sup>* (cas_start v ops) s" and "list_all is_done (thr s)"
  shows "\<exists>order. mset order = mset ops \<and> aval s = fold run_aop order v"
proof -
  have "cas_inv v ops s" using assms(1) by (rule cas_reach_inv)
  then have "mset (lin s) = mset ops" "aval s = fold run_aop (lin s) v"
    using all_done_mset [OF assms(2)] by (auto simp: cas_inv_def)
  then show ?thesis by blast
qed

theorem atomic_linearisable_witness:
  "\<exists>s. cas_step\<^sup>*\<^sup>* (cas_start 5 [AAdd 1, ASet 9]) s \<and> list_all is_done (thr s) \<and>
     (\<exists>order. mset order = mset [AAdd 1, ASet 9] \<and> aval s = fold run_aop order 5)"
proof -
  let ?s1 = "\<lparr>aval = 5, thr = [Loaded (AAdd 1) 5, Start (ASet 9)], lin = []\<rparr>"
  let ?s2 = "\<lparr>aval = 5, thr = [Loaded (AAdd 1) 5, Loaded (ASet 9) 5], lin = []\<rparr>"
  let ?s3 = "\<lparr>aval = 9, thr = [Loaded (AAdd 1) 5, Done (ASet 9) 9], lin = [ASet 9]\<rparr>"
  let ?s4 = "\<lparr>aval = 9, thr = [Start (AAdd 1), Done (ASet 9) 9], lin = [ASet 9]\<rparr>"
  let ?s5 = "\<lparr>aval = 9, thr = [Loaded (AAdd 1) 9, Done (ASet 9) 9], lin = [ASet 9]\<rparr>"
  let ?s6 = "\<lparr>aval = 10, thr = [Done (AAdd 1) 10, Done (ASet 9) 9], lin = [ASet 9, AAdd 1]\<rparr>"
  have "cas_step (cas_start 5 [AAdd 1, ASet 9]) ?s1"
    using cas_step.load [of 0 "cas_start 5 [AAdd 1, ASet 9]" "AAdd 1"] by (simp add: cas_start_def)
  moreover have "cas_step ?s1 ?s2" using cas_step.load [of 1 ?s1 "ASet 9"] by simp
  moreover have "cas_step ?s2 ?s3"
    using cas_step.cas_ok [of 1 ?s2 "ASet 9" 5] by (simp add: atomic_set_def)
  moreover have "cas_step ?s3 ?s4" using cas_step.cas_fail [of 0 ?s3 "AAdd 1" 5] by simp
  moreover have "cas_step ?s4 ?s5" using cas_step.load [of 0 ?s4 "AAdd 1"] by simp
  moreover have "cas_step ?s5 ?s6"
    using cas_step.cas_ok [of 0 ?s5 "AAdd 1" 9] by (simp add: atomic_add_def)
  ultimately have r: "cas_step\<^sup>*\<^sup>* (cas_start 5 [AAdd 1, ASet 9]) ?s6"
    by (meson rtranclp.rtrancl_into_rtrancl rtranclp.rtrancl_refl)
  moreover have d: "list_all is_done (thr ?s6)" by simp
  ultimately show ?thesis using atomic_linearisable [OF r d] by blast
qed

fun delta :: "aop \<Rightarrow> u32" where
  "delta (AAdd v) = v"
| "delta (ASub v) = - v"
| "delta (AStore v) = v"
| "delta (ASet v) = 0"

lemma fold_run_delta:
  "list_all (\<lambda>op. \<forall>v. op \<noteq> ASet v) ops \<Longrightarrow> fold run_aop ops v = v + sum_list (map delta ops)"
proof (induction ops arbitrary: v)
  case (Cons op ops)
  then show ?case by (cases op) (simp_all add: atomic_defs algebra_simps)
qed simp

text \<open>
  No lost update.  Concurrent \<open>atomic_add\<close> and \<open>atomic_sub\<close> calls leave the initial value
  plus all added and minus all subtracted amounts, for every interleaving.
\<close>

theorem atomic_add_not_lost:
  assumes "cas_step\<^sup>*\<^sup>* (cas_start v ops) s" and "list_all is_done (thr s)"
    and "list_all (\<lambda>op. \<forall>w. op \<noteq> ASet w) ops"
  shows "aval s = v + sum_list (map delta ops)"
proof -
  have "cas_inv v ops s" using assms(1) by (rule cas_reach_inv)
  then have lin: "mset (lin s) = mset ops" "aval s = fold run_aop (lin s) v"
    using all_done_mset [OF assms(2)] by (auto simp: cas_inv_def)
  then have "list_all (\<lambda>op. \<forall>w. op \<noteq> ASet w) (lin s)"
    using assms(3) mset_eq_setD by (fastforce simp: list_all_iff)
  moreover have "sum_list (map delta (lin s)) = sum_list (map delta ops)"
    using lin(1) by (metis mset_map sum_mset_sum_list)
  ultimately show ?thesis using lin(2) fold_run_delta by simp
qed

theorem atomic_add_not_lost_witness:
  "\<exists>s. cas_step\<^sup>*\<^sup>* (cas_start 5 [AAdd 3]) s \<and> list_all is_done (thr s) \<and> aval s = 8"
proof -
  let ?s1 = "\<lparr>aval = 5, thr = [Loaded (AAdd 3) 5], lin = []\<rparr>"
  let ?s2 = "\<lparr>aval = 8, thr = [Done (AAdd 3) 8], lin = [AAdd 3]\<rparr>"
  have "cas_step (cas_start 5 [AAdd 3]) ?s1"
    using cas_step.load [of 0 "cas_start 5 [AAdd 3]" "AAdd 3"] by (simp add: cas_start_def)
  moreover have "cas_step ?s1 ?s2"
    using cas_step.cas_ok [of 0 ?s1 "AAdd 3" 5] by (simp add: atomic_add_def)
  ultimately have r: "cas_step\<^sup>*\<^sup>* (cas_start 5 [AAdd 3]) ?s2"
    by (meson rtranclp.rtrancl_into_rtrancl rtranclp.rtrancl_refl)
  then have "aval ?s2 = 5 + sum_list (map delta [AAdd 3])"
    by (rule atomic_add_not_lost) simp_all
  with r show ?thesis by (intro exI [of _ ?s2]) simp
qed

section \<open>The library version\<close>

text \<open>
  \<open>atomic_add\<close> of \<open>lib/include/atomic.h\<close>: \<open>LRead\<close> computes the value to store, \<open>LLoad\<close> and
  \<open>LCas\<close> are the loop of \<open>atomic_set\<close>.
\<close>

datatype lpc = LStart u32 | LNew u32 | LLoaded u32 u32 | LDone

inductive lib_add_step :: "u32 \<times> lpc list \<Rightarrow> u32 \<times> lpc list \<Rightarrow> bool" where
  lread: "i < length ts \<Longrightarrow> ts ! i = LStart v \<Longrightarrow>
    lib_add_step (x, ts) (x, ts[i := LNew (x + v)])"
| lload: "i < length ts \<Longrightarrow> ts ! i = LNew new \<Longrightarrow>
    lib_add_step (x, ts) (x, ts[i := LLoaded new x])"
| lcas_ok: "i < length ts \<Longrightarrow> ts ! i = LLoaded new x \<Longrightarrow>
    lib_add_step (x, ts) (new, ts[i := LDone])"
| lcas_fail: "i < length ts \<Longrightarrow> ts ! i = LLoaded new old \<Longrightarrow> old \<noteq> x \<Longrightarrow>
    lib_add_step (x, ts) (x, ts[i := LNew new])"

text \<open>
  The library's \<open>atomic_add\<close> is not atomic: for any two amounts there is an interleaving of
  two calls, both of which return, that ends with only the first amount added.
\<close>

theorem lib_atomic_add_loses:
  "lib_add_step\<^sup>*\<^sup>* (x, [LStart a, LStart b]) (x + a, [LDone, LDone])"
proof -
  have "lib_add_step (x, [LStart a, LStart b]) (x, [LNew (x + a), LStart b])"
    using lread [of 0 "[LStart a, LStart b]" a x] by simp
  moreover have "lib_add_step \<dots> (x, [LNew (x + a), LNew (x + b)])"
    using lread [of 1 "[LNew (x + a), LStart b]" b x] by simp
  moreover have "lib_add_step \<dots> (x, [LNew (x + a), LLoaded (x + b) x])"
    using lload [of 1 "[LNew (x + a), LNew (x + b)]" "x + b" x] by simp
  moreover have "lib_add_step \<dots> (x + b, [LNew (x + a), LDone])"
    using lcas_ok [of 1 "[LNew (x + a), LLoaded (x + b) x]" "x + b" x] by simp
  moreover have "lib_add_step \<dots> (x + b, [LLoaded (x + a) (x + b), LDone])"
    using lload [of 0 "[LNew (x + a), LDone]" "x + a" "x + b"] by simp
  moreover have "lib_add_step \<dots> (x + a, [LDone, LDone])"
    using lcas_ok [of 0 "[LLoaded (x + a) (x + b), LDone]" "x + a" "x + b"] by simp
  ultimately show ?thesis
    by (meson rtranclp.rtrancl_into_rtrancl rtranclp.rtrancl_refl)
qed

end
