(* ===== verification/Lockfree_Queue.thy ===== *)
theory Lockfree_Queue
  imports Interfaces Atomic
begin

text \<open>
  \<open>lockfree_que/lockfree_queue.c\<close>: a bounded queue of pointers in a circular array, whose positions are
  advanced by compare-and-swap.

  A call of \<open>lockfree_enque\<close> or \<open>lockfree_deque\<close> is a sequence of atomic steps, one for each load, store or
  compare-and-swap of shared memory; a program counter carries the local variables.  The functions
  \<open>lockfree_enque\<close> and \<open>lockfree_deque\<close> of the model run these steps without interference, the step
  relation interleaves those of any number of threads.

  The results: without interference the queue is a bounded FIFO queue, and so it is for one producer
  and one consumer under every interleaving; with two consumers an element can be taken twice and
  another lost; a queue whose memory was not zero never accepts an element.
\<close>

section \<open>The queue and its operations\<close>

record lockfree_que =
  lfq_max_obj_count :: u32
  lfb_write_pos :: u32
  lfb_read_pos :: u32
  lfb_max_read_pos :: u32
  lfb_count :: u32
  lfb_buf :: "ptr list"

text \<open>\<open>mem\<close> is what the memory of the two allocations holds before the queue is set up.\<close>

definition lockfree_que_create :: "bool \<Rightarrow> bool \<Rightarrow> lockfree_que \<Rightarrow> u32 \<Rightarrow> lockfree_que option" where
  "lockfree_que_create que_ok buf_ok mem que_max_obj_count =
     (if \<not> que_ok then None
      else if \<not> buf_ok then None
      else Some (mem\<lparr>lfq_max_obj_count := que_max_obj_count, lfb_read_pos := 0, lfb_write_pos := 0\<rparr>))"

datatype lfq_res = Enq_ret ptr bool | Deq_ret "ptr option"

text \<open>Where a thread is in \<open>lockfree_enque\<close> or \<open>lockfree_deque\<close>, with its local variables.\<close>

datatype lfq_pc =
    Enq_start ptr | Enq_read ptr u32 | Enq_cas ptr u32 u32 | Enq_store ptr u32 u32 | Enq_commit ptr u32 u32
  | Deq_start | Deq_max u32 | Deq_val u32 | Deq_cas u32 ptr
  | Cnt_load aop lfq_res | Cnt_cas aop lfq_res u32
  | Ret lfq_res

fun enq_step :: "lockfree_que \<Rightarrow> lfq_pc \<Rightarrow> (lockfree_que \<times> lfq_pc) option" where
  "enq_step q (Enq_start v) = Some (q, Enq_read v (lfb_write_pos q))"
| "enq_step q (Enq_read v write_pos) =
     (if lfq_max_obj_count q = 0 then None
      else let next_write_pos = (write_pos + 1) mod lfq_max_obj_count q
        in if next_write_pos = lfb_read_pos q then Some (q, Ret (Enq_ret v False))
           else Some (q, Enq_cas v write_pos next_write_pos))"
| "enq_step q (Enq_cas v write_pos next_write_pos) =
     (if lfb_write_pos q = write_pos
      then Some (q\<lparr>lfb_write_pos := next_write_pos\<rparr>, Enq_store v write_pos next_write_pos)
      else Some (q, Enq_start v))"
| "enq_step q (Enq_store v write_pos next_write_pos) =
     (if unat write_pos < length (lfb_buf q)
      then Some (q\<lparr>lfb_buf := (lfb_buf q)[unat write_pos := v]\<rparr>, Enq_commit v write_pos next_write_pos)
      else None)"
| "enq_step q (Enq_commit v write_pos next_write_pos) =
     (if lfb_max_read_pos q = write_pos
      then Some (q\<lparr>lfb_max_read_pos := next_write_pos\<rparr>, Cnt_load (AAdd 1) (Enq_ret v True))
      else Some (q, Enq_commit v write_pos next_write_pos))"
| "enq_step q _ = None"

fun deq_step :: "lockfree_que \<Rightarrow> lfq_pc \<Rightarrow> (lockfree_que \<times> lfq_pc) option" where
  "deq_step q Deq_start = Some (q, Deq_max (lfb_read_pos q))"
| "deq_step q (Deq_max read_pos) =
     (if read_pos = lfb_max_read_pos q then Some (q, Ret (Deq_ret None)) else Some (q, Deq_val read_pos))"
| "deq_step q (Deq_val read_pos) =
     (if unat read_pos < length (lfb_buf q) then Some (q, Deq_cas read_pos (lfb_buf q ! unat read_pos)) else None)"
| "deq_step q (Deq_cas read_pos val) =
     (if lfq_max_obj_count q = 0 then None
      else if lfb_read_pos q = read_pos
      then Some (q\<lparr>lfb_read_pos := (read_pos + 1) mod lfq_max_obj_count q\<rparr>, Cnt_load (ASub 1) (Deq_ret (Some val)))
      else Some (q, Deq_start))"
| "deq_step q _ = None"

text \<open>The compare-and-swap loop of \<open>atomic_add\<close> and \<open>atomic_sub\<close> on the element count.\<close>

fun cnt_step :: "lockfree_que \<Rightarrow> lfq_pc \<Rightarrow> (lockfree_que \<times> lfq_pc) option" where
  "cnt_step q (Cnt_load op r) = Some (q, Cnt_cas op r (lfb_count q))"
| "cnt_step q (Cnt_cas op r old) =
     (if lfb_count q = old then Some (q\<lparr>lfb_count := run_aop op old\<rparr>, Ret r) else Some (q, Cnt_load op r))"
| "cnt_step q _ = None"

definition pc_step :: "lockfree_que \<Rightarrow> lfq_pc \<Rightarrow> (lockfree_que \<times> lfq_pc) option" where
  "pc_step q pc =
     (case pc of
        Enq_start _ \<Rightarrow> enq_step q pc | Enq_read _ _ \<Rightarrow> enq_step q pc | Enq_cas _ _ _ \<Rightarrow> enq_step q pc
      | Enq_store _ _ _ \<Rightarrow> enq_step q pc | Enq_commit _ _ _ \<Rightarrow> enq_step q pc
      | Deq_start \<Rightarrow> deq_step q pc | Deq_max _ \<Rightarrow> deq_step q pc | Deq_val _ \<Rightarrow> deq_step q pc | Deq_cas _ _ \<Rightarrow> deq_step q pc
      | Cnt_load _ _ \<Rightarrow> cnt_step q pc | Cnt_cas _ _ _ \<Rightarrow> cnt_step q pc
      | Ret _ \<Rightarrow> None)"

text \<open>A call without interference: the steps of one thread until it returns.\<close>

partial_function (option) lfq_solo :: "lockfree_que \<Rightarrow> lfq_pc \<Rightarrow> (lockfree_que \<times> lfq_res) option" where
  "lfq_solo q pc =
     (case pc of Ret r \<Rightarrow> Some (q, r)
      | _ \<Rightarrow> (case pc_step q pc of None \<Rightarrow> None | Some (q', pc') \<Rightarrow> lfq_solo q' pc'))"

definition lockfree_enque :: "ptr \<Rightarrow> lockfree_que \<Rightarrow> (lockfree_que \<times> bool) option" where
  "lockfree_enque v q = do {
     (q, r) \<leftarrow> lfq_solo q (Enq_start v);
     case r of Enq_ret _ ok \<Rightarrow> Some (q, ok) | Deq_ret _ \<Rightarrow> None
   }"

definition lockfree_deque :: "lockfree_que \<Rightarrow> (lockfree_que \<times> ptr option) option" where
  "lockfree_deque q = do {
     (q, r) \<leftarrow> lfq_solo q Deq_start;
     case r of Deq_ret v \<Rightarrow> Some (q, v) | Enq_ret _ _ \<Rightarrow> None
   }"

section \<open>Threads\<close>

datatype lfq_op = Enq ptr | Deq

record lfq_thread =
  tpc :: "lfq_pc option"
  todo :: "lfq_op list"
  rets :: "lfq_res list"

fun op_start :: "lfq_op \<Rightarrow> lfq_pc" where
  "op_start (Enq v) = Enq_start v"
| "op_start Deq = Deq_start"

definition thread_step :: "lockfree_que \<Rightarrow> lfq_thread \<Rightarrow> (lockfree_que \<times> lfq_thread) option" where
  "thread_step q t =
     (case tpc t of
        None \<Rightarrow> (case todo t of [] \<Rightarrow> None | op # ops \<Rightarrow> Some (q, t\<lparr>tpc := Some (op_start op), todo := ops\<rparr>))
      | Some (Ret r) \<Rightarrow> Some (q, t\<lparr>tpc := None, rets := rets t @ [r]\<rparr>)
      | Some pc \<Rightarrow> map_option (\<lambda>(q, pc). (q, t\<lparr>tpc := Some pc\<rparr>)) (pc_step q pc))"

type_synonym lfq_sys = "lockfree_que \<times> lfq_thread list"

fun sys_step :: "nat \<Rightarrow> lfq_sys \<Rightarrow> lfq_sys option" where
  "sys_step i (q, ts) =
     (if i < length ts then map_option (\<lambda>(q, t). (q, ts[i := t])) (thread_step q (ts ! i)) else None)"

inductive lfq_step :: "lfq_sys \<Rightarrow> lfq_sys \<Rightarrow> bool" where
  "sys_step i s = Some s' \<Longrightarrow> lfq_step s s'"

inductive_cases lfq_stepE: "lfq_step (q, ts) s'"

fun sys_run :: "nat list \<Rightarrow> lfq_sys \<Rightarrow> lfq_sys option" where
  "sys_run [] s = Some s"
| "sys_run (i # is) s = (case sys_step i s of None \<Rightarrow> None | Some s \<Rightarrow> sys_run is s)"

lemma sys_run_reach: "sys_run is s = Some s' \<Longrightarrow> lfq_step\<^sup>*\<^sup>* s s'"
  by (induction "is" arbitrary: s) (auto split: option.splits intro: lfq_step.intros converse_rtranclp_into_rtranclp)

definition lfq_thread0 :: "lfq_op list \<Rightarrow> lfq_thread" where
  "lfq_thread0 ops = \<lparr>tpc = None, todo = ops, rets = []\<rparr>"

fun enqd :: "lfq_res list \<Rightarrow> ptr list" where
  "enqd [] = []"
| "enqd (Enq_ret v ok # rs) = (if ok then v # enqd rs else enqd rs)"
| "enqd (Deq_ret v # rs) = enqd rs"

fun deqd :: "lfq_res list \<Rightarrow> ptr list" where
  "deqd [] = []"
| "deqd (Deq_ret v # rs) = (case v of Some v \<Rightarrow> v # deqd rs | None \<Rightarrow> deqd rs)"
| "deqd (Enq_ret v ok # rs) = deqd rs"

section \<open>The contents\<close>

definition lfq_list :: "lockfree_que \<Rightarrow> ptr list" where
  "lfq_list q = (let n = unat (lfq_max_obj_count q); r = unat (lfb_read_pos q); m = unat (lfb_max_read_pos q)
     in map (\<lambda>i. lfb_buf q ! ((r + i) mod n)) [0..<(m + n - r) mod n])"

text \<open>The queue whose next element to be read is the \<open>d\<close>-th and whose committed elements end before the \<open>a\<close>-th.\<close>

definition lfq_at :: "lockfree_que \<Rightarrow> nat \<Rightarrow> nat \<Rightarrow> nat \<Rightarrow> bool" where
  "lfq_at q n d a \<longleftrightarrow> n = unat (lfq_max_obj_count q) \<and> 0 < n \<and> length (lfb_buf q) = n \<and>
     lfb_read_pos q = of_nat (d mod n) \<and> lfb_max_read_pos q = of_nat (a mod n) \<and> d \<le> a \<and> a < d + n"

lemma lfq_atD:
  assumes "lfq_at q n d a"
  shows "n = unat (lfq_max_obj_count q)" "0 < n" "length (lfb_buf q) = n" "lfq_max_obj_count q \<noteq> 0"
    "lfb_read_pos q = of_nat (d mod n)" "lfb_max_read_pos q = of_nat (a mod n)" "d \<le> a" "a < d + n"
    "n < 4294967296" "lfq_max_obj_count q = of_nat n"
  using assms unat_lt_2p32 [of "lfq_max_obj_count q"] by (auto simp: lfq_at_def)

lemma mod_window: "i \<le> j \<Longrightarrow> j < i + n \<Longrightarrow> i mod n = j mod n \<longleftrightarrow> i = (j :: nat)"
  by (metis diff_less_mono2 less_diff_conv2 add.commute mod_eq_dvd_iff_nat mod_if nat_dvd_not_less zero_less_diff
      le_neq_implies_less)


lemma unat_pos: "0 < n \<Longrightarrow> n < 4294967296 \<Longrightarrow> unat (of_nat (i mod n) :: u32) = i mod n"
proof -
  assume n: "0 < n" "n < 4294967296"
  then have "i mod n < 4294967296" using mod_less_divisor [OF n(1), of i] by linarith
  then show ?thesis by (simp add: unat_of_nat)
qed

lemma pos_eq: "0 < n \<Longrightarrow> n < 4294967296 \<Longrightarrow> (of_nat (i mod n) :: u32) = of_nat (j mod n) \<longleftrightarrow> i mod n = j mod n"
  by (metis unat_pos)

lemma pos_next: "0 < n \<Longrightarrow> n < 4294967296 \<Longrightarrow> (of_nat (i mod n) + 1 :: u32) mod of_nat n = of_nat (Suc i mod n)"
proof -
  assume n: "0 < n" "n < 4294967296"
  have "Suc (i mod n) < 4294967296" using mod_less_divisor [OF n(1), of i] n(2) by linarith
  then have "unat (of_nat (i mod n) + 1 :: u32) = Suc (i mod n)"
    using unat_pos [OF n, of i] by (simp add: unat_word_ariths)
  moreover have "unat (of_nat n :: u32) = n" using n by (simp add: unat_of_nat)
  ultimately have "unat ((of_nat (i mod n) + 1 :: u32) mod of_nat n) = Suc i mod n"
    by (simp add: unat_mod mod_Suc_eq)
  then show ?thesis using unat_pos [OF n, of "Suc i"] by (simp add: word_unat_eq_iff)
qed

lemma lfq_list_at:
  assumes "lfq_at q n d a"
  shows "lfq_list q = map (\<lambda>i. lfb_buf q ! (i mod n)) [d..<a]"
proof -
  note f = lfq_atD [OF assms]
  have "(a mod n + n - d mod n) mod n = a - d"
  proof -
    have "(a mod n + n - d mod n) mod n = (a + n - d mod n) mod n"
      using f(2) by (metis Nat.add_diff_assoc mod_add_left_eq mod_le_divisor)
    also have "a + n - d mod n = (a - d) + n * (d div n + 1)"
    proof -
      have "d = n * (d div n) + d mod n" by simp
      moreover have "n * (d div n + 1) = n * (d div n) + n" by simp
      ultimately show ?thesis using f(7) by linarith
    qed
    also have "\<dots> mod n = a - d" using f(7,8) by (simp only: mod_mult_self2) simp
    finally show ?thesis .
  qed
  then have "lfq_list q = map (\<lambda>i. lfb_buf q ! ((d mod n + i) mod n)) [0..<a - d]"
    using f(2,9) by (simp add: lfq_list_def unat_pos f(5,6) f(1) [symmetric])
  also have "\<dots> = map (\<lambda>i. lfb_buf q ! (i mod n)) [d..<a]"
    using f(7) by (intro nth_equalityI) (simp_all add: mod_add_left_eq)
  finally show ?thesis .
qed

section \<open>One producer and one consumer\<close>

fun res_of :: "lfq_pc option \<Rightarrow> lfq_res list" where
  "res_of (Some (Cnt_load _ r)) = [r]"
| "res_of (Some (Cnt_cas _ r _)) = [r]"
| "res_of (Some (Ret r)) = [r]"
| "res_of _ = []"

fun reserved :: "lfq_pc option \<Rightarrow> nat" where
  "reserved (Some (Enq_store _ _ _)) = 1"
| "reserved (Some (Enq_commit _ _ _)) = 1"
| "reserved _ = 0"

fun is_enq :: "lfq_res \<Rightarrow> bool" where
  "is_enq (Enq_ret v ok) = True"
| "is_enq (Deq_ret v) = False"

text \<open>What is known of the producer and of the consumer at each of their steps.\<close>

fun prod_ok :: "lockfree_que \<Rightarrow> nat \<Rightarrow> nat \<Rightarrow> nat \<Rightarrow> lfq_pc option \<Rightarrow> bool" where
  "prod_ok q n d a (Some (Enq_read v w)) \<longleftrightarrow> w = of_nat (a mod n)"
| "prod_ok q n d a (Some (Enq_cas v w nw)) \<longleftrightarrow> w = of_nat (a mod n) \<and> nw = of_nat (Suc a mod n) \<and> Suc a < d + n"
| "prod_ok q n d a (Some (Enq_store v w nw)) \<longleftrightarrow> w = of_nat (a mod n) \<and> nw = of_nat (Suc a mod n) \<and> Suc a < d + n"
| "prod_ok q n d a (Some (Enq_commit v w nw)) \<longleftrightarrow> w = of_nat (a mod n) \<and> nw = of_nat (Suc a mod n) \<and> Suc a < d + n \<and>
     lfb_buf q ! (a mod n) = v"
| "prod_ok q n d a (Some (Enq_start v)) \<longleftrightarrow> True"
| "prod_ok q n d a (Some (Cnt_load op r)) \<longleftrightarrow> is_enq r"
| "prod_ok q n d a (Some (Cnt_cas op r old)) \<longleftrightarrow> is_enq r"
| "prod_ok q n d a (Some (Ret r)) \<longleftrightarrow> is_enq r"
| "prod_ok q n d a None \<longleftrightarrow> True"
| "prod_ok q n d a _ \<longleftrightarrow> False"

fun cons_ok :: "lockfree_que \<Rightarrow> nat \<Rightarrow> nat \<Rightarrow> nat \<Rightarrow> lfq_pc option \<Rightarrow> bool" where
  "cons_ok q n d a (Some (Deq_max r)) \<longleftrightarrow> r = of_nat (d mod n)"
| "cons_ok q n d a (Some (Deq_val r)) \<longleftrightarrow> r = of_nat (d mod n) \<and> d < a"
| "cons_ok q n d a (Some (Deq_cas r v)) \<longleftrightarrow> r = of_nat (d mod n) \<and> d < a \<and> v = lfb_buf q ! (d mod n)"
| "cons_ok q n d a (Some Deq_start) \<longleftrightarrow> True"
| "cons_ok q n d a (Some (Cnt_load op r)) \<longleftrightarrow> \<not> is_enq r"
| "cons_ok q n d a (Some (Cnt_cas op r old)) \<longleftrightarrow> \<not> is_enq r"
| "cons_ok q n d a (Some (Ret r)) \<longleftrightarrow> \<not> is_enq r"
| "cons_ok q n d a None \<longleftrightarrow> True"
| "cons_ok q n d a _ \<longleftrightarrow> False"

definition committed :: "lfq_thread \<Rightarrow> ptr list" where
  "committed p = enqd (rets p @ res_of (tpc p))"

definition taken :: "lfq_thread \<Rightarrow> ptr list" where
  "taken c = deqd (rets c @ res_of (tpc c))"

definition spsc_inv :: "nat \<Rightarrow> lockfree_que \<Rightarrow> lfq_thread \<Rightarrow> lfq_thread \<Rightarrow> bool" where
  "spsc_inv n q p c \<longleftrightarrow> (let a = length (committed p); d = length (taken c) in
     lfq_at q n d a \<and> lfb_write_pos q = of_nat ((a + reserved (tpc p)) mod n) \<and>
     taken c = take d (committed p) \<and> (\<forall>i. d \<le> i \<and> i < a \<longrightarrow> lfb_buf q ! (i mod n) = committed p ! i) \<and>
     (\<forall>op \<in> set (todo p). op \<noteq> Deq) \<and> (\<forall>op \<in> set (todo c). op = Deq) \<and>
     prod_ok q n d a (tpc p) \<and> cons_ok q n d a (tpc c))"

lemma enqd_append [simp]: "enqd (rs @ rs') = enqd rs @ enqd rs'"
  by (induction rs rule: enqd.induct) simp_all

lemma deqd_append [simp]: "deqd (rs @ rs') = deqd rs @ deqd rs'"
  by (induction rs rule: deqd.induct) (simp_all split: option.splits)


lemma spsc_invD:
  assumes "spsc_inv n q p c"
  shows "lfq_at q n (length (taken c)) (length (committed p))"
    "lfb_write_pos q = of_nat ((length (committed p) + reserved (tpc p)) mod n)"
    "taken c = take (length (taken c)) (committed p)"
    "\<And>i. length (taken c) \<le> i \<Longrightarrow> i < length (committed p) \<Longrightarrow> lfb_buf q ! (i mod n) = committed p ! i"
    "\<forall>op \<in> set (todo p). op \<noteq> Deq" "\<forall>op \<in> set (todo c). op = Deq"
    "prod_ok q n (length (taken c)) (length (committed p)) (tpc p)"
    "cons_ok q n (length (taken c)) (length (committed p)) (tpc c)"
  using assms by (simp_all add: spsc_inv_def Let_def)

text \<open>A step that changes neither the contents nor the committed and taken elements.\<close>

lemma spsc_keep:
  assumes inv: "spsc_inv n q p c" and "committed p' = committed p" and "taken c' = taken c" and "reserved (tpc p') = reserved (tpc p)"
    and "set (todo p') \<subseteq> set (todo p)" and "set (todo c') \<subseteq> set (todo c)"
    and "prod_ok q n (length (taken c)) (length (committed p)) (tpc p')"
    and "cons_ok q n (length (taken c)) (length (committed p)) (tpc c')"
  shows "spsc_inv n q p' c'"
  using assms spsc_invD [OF inv] by (auto simp: spsc_inv_def Let_def)

lemma spsc_count:
  assumes "spsc_inv n q p c"
  shows "spsc_inv n (q\<lparr>lfb_count := v\<rparr>) p c"
proof -
  have "prod_ok (q\<lparr>lfb_count := v\<rparr>) n d a pc = prod_ok q n d a pc" for d a pc
    by (cases "(q, n, d, a, pc)" rule: prod_ok.cases) simp_all
  moreover have "cons_ok (q\<lparr>lfb_count := v\<rparr>) n d a pc = cons_ok q n d a pc" for d a pc
    by (cases "(q, n, d, a, pc)" rule: cons_ok.cases) simp_all
  moreover have "lfq_at (q\<lparr>lfb_count := v\<rparr>) n d a = lfq_at q n d a" for d a by (simp add: lfq_at_def)
  ultimately show ?thesis using assms by (simp add: spsc_inv_def Let_def)
qed

lemma prod_cas:
  assumes inv: "spsc_inv n q p c" and pc: "tpc p = Some (Enq_cas v w nw)"
  shows "spsc_inv n (q\<lparr>lfb_write_pos := nw\<rparr>) (p\<lparr>tpc := Some (Enq_store v w nw)\<rparr>) c"
proof -
  note f = spsc_invD [OF inv]
  have "cons_ok (q\<lparr>lfb_write_pos := nw\<rparr>) n d a pc = cons_ok q n d a pc" for d a pc
    by (cases "(q, n, d, a, pc)" rule: cons_ok.cases) simp_all
  then show ?thesis using f pc by (simp add: spsc_inv_def Let_def committed_def lfq_at_def)
qed

lemma prod_store:
  assumes inv: "spsc_inv n q p c" and pc: "tpc p = Some (Enq_store v w nw)"
  shows "unat w < length (lfb_buf q)"
    "spsc_inv n (q\<lparr>lfb_buf := (lfb_buf q)[unat w := v]\<rparr>) (p\<lparr>tpc := Some (Enq_commit v w nw)\<rparr>) c"
proof -
  note f = spsc_invD [OF inv] and g = lfq_atD [OF spsc_invD(1) [OF inv]]
  let ?a = "length (committed p)" and ?d = "length (taken c)"
  have w: "unat w = ?a mod n" using f(7) pc unat_pos [OF g(2,9)] by simp
  then show "unat w < length (lfb_buf q)" using g(2,3) by simp
  let ?q = "q\<lparr>lfb_buf := (lfb_buf q)[unat w := v]\<rparr>"
  have keep: "lfb_buf ?q ! (i mod n) = lfb_buf q ! (i mod n)" if "?d \<le> i" "i < ?a" for i
    using that w g(8) mod_window [of i ?a n] by simp
  have "cons_ok ?q n ?d ?a (tpc c)"
    using f(8) keep [of ?d] by (cases "(q, n, ?d, ?a, tpc c)" rule: cons_ok.cases) auto
  moreover have "?a mod n < length (lfb_buf q)" using g(2,3) by simp
  ultimately show "spsc_inv n ?q (p\<lparr>tpc := Some (Enq_commit v w nw)\<rparr>) c"
    using f pc keep w by (simp add: spsc_inv_def Let_def committed_def lfq_at_def)
qed

lemma prod_commit:
  assumes inv: "spsc_inv n q p c" and pc: "tpc p = Some (Enq_commit v w nw)"
  shows "lfb_max_read_pos q = w"
    "spsc_inv n (q\<lparr>lfb_max_read_pos := nw\<rparr>) (p\<lparr>tpc := Some (Cnt_load op (Enq_ret v True))\<rparr>) c"
proof -
  note f = spsc_invD [OF inv] and g = lfq_atD [OF spsc_invD(1) [OF inv]]
  let ?a = "length (committed p)" and ?d = "length (taken c)"
  let ?q = "q\<lparr>lfb_max_read_pos := nw\<rparr>" and ?p = "p\<lparr>tpc := Some (Cnt_load op (Enq_ret v True))\<rparr>"
  show "lfb_max_read_pos q = w" using f(7) pc g(6) by simp
  have cm: "committed ?p = committed p @ [v]" using pc by (simp add: committed_def)
  have co: "cons_ok ?q n ?d (Suc ?a) (tpc c)"
    using f(8) by (cases "(q, n, ?d, ?a, tpc c)" rule: cons_ok.cases) auto
  have at: "lfq_at ?q n ?d (Suc ?a)" using f(1,7) pc by (simp add: lfq_at_def)
  have tk: "taken c = take ?d (committed ?p)" using f(3) g(7) by (simp add: cm)
  have buf: "lfb_buf ?q ! (i mod n) = committed ?p ! i" if "?d \<le> i" "i < Suc ?a" for i
    using that f(4) [of i] f(7) pc by (auto simp: cm nth_append less_Suc_eq)
  show "spsc_inv n ?q ?p c"
    using at tk buf co f(2,5,6) pc by (simp add: spsc_inv_def Let_def cm)
qed

lemma cons_cas:
  assumes inv: "spsc_inv n q p c" and pc: "tpc c = Some (Deq_cas r v)"
  shows "lfb_read_pos q = r"
    "spsc_inv n (q\<lparr>lfb_read_pos := (r + 1) mod lfq_max_obj_count q\<rparr>) p (c\<lparr>tpc := Some (Cnt_load op (Deq_ret (Some v)))\<rparr>)"
proof -
  note f = spsc_invD [OF inv] and g = lfq_atD [OF spsc_invD(1) [OF inv]]
  let ?a = "length (committed p)" and ?d = "length (taken c)"
  let ?q = "q\<lparr>lfb_read_pos := (r + 1) mod lfq_max_obj_count q\<rparr>" and ?c = "c\<lparr>tpc := Some (Cnt_load op (Deq_ret (Some v)))\<rparr>"
  show "lfb_read_pos q = r" using f(8) pc g(5) by simp
  have r: "r = of_nat (?d mod n)" "?d < ?a" "v = committed p ! ?d" using f(8) f(4) [of ?d] pc by auto
  have nx: "(r + 1) mod lfq_max_obj_count q = of_nat (Suc ?d mod n)"
    using pos_next [OF g(2,9)] r(1) g(10) by simp
  have tk: "taken ?c = taken c @ [v]" using pc by (simp add: taken_def)
  have at: "lfq_at ?q n (Suc ?d) ?a" using f(1) nx r(2) by (simp add: lfq_at_def)
  have tk': "taken ?c = take (Suc ?d) (committed p)"
    using f(3) r(2,3) by (metis tk take_Suc_conv_app_nth)
  have pr: "prod_ok ?q n (Suc ?d) ?a (tpc p)"
    using f(7) by (cases "(q, n, ?d, ?a, tpc p)" rule: prod_ok.cases) auto
  show "spsc_inv n ?q p ?c"
    using at tk' pr f pc tk by (simp add: spsc_inv_def Let_def)
qed


lemma prod_move:
  assumes "spsc_inv n q p c" and "enqd (res_of (Some pc)) = enqd (res_of (tpc p))" and "reserved (Some pc) = reserved (tpc p)"
    and "prod_ok q n (length (taken c)) (length (committed p)) (Some pc)"
  shows "spsc_inv n q (p\<lparr>tpc := Some pc\<rparr>) c"
  by (rule spsc_keep [OF assms(1)]) (use assms spsc_invD [OF assms(1)] in \<open>simp_all add: committed_def\<close>)

lemma cons_move:
  assumes "spsc_inv n q p c" and "deqd (res_of (Some pc)) = deqd (res_of (tpc c))"
    and "cons_ok q n (length (taken c)) (length (committed p)) (Some pc)"
  shows "spsc_inv n q p (c\<lparr>tpc := Some pc\<rparr>)"
proof -
  have "taken (c\<lparr>tpc := Some pc\<rparr>) = taken c" by (simp add: taken_def assms(2))
  then show ?thesis
    by (rule spsc_keep [OF assms(1) refl _ refl subset_refl _ spsc_invD(7) [OF assms(1)]]) (use assms(3) in simp_all)
qed

lemma prod_step:
  assumes inv: "spsc_inv n q p c" and st: "thread_step q p = Some (q', p')"
  shows "spsc_inv n q' p' c"
proof (cases "tpc p")
  case None
  note f = spsc_invD [OF inv]
  from None st obtain v ops where p': "todo p = Enq v # ops" "q' = q" "p' = p\<lparr>tpc := Some (Enq_start v), todo := ops\<rparr>"
    using f(5) by (auto simp: thread_step_def split: list.splits lfq_op.splits) (metis lfq_op.exhaust op_start.simps(1))
  show ?thesis unfolding p'(2) by (rule spsc_keep [OF inv]) (use f(8) None p' in \<open>auto simp: committed_def\<close>)
next
  case (Some pc)
  note f = spsc_invD [OF inv] and g = lfq_atD [OF spsc_invD(1) [OF inv]]
  note move = prod_move [OF inv, unfolded Some] and ex = Some thread_step_def pc_step_def
  show ?thesis
  proof (cases pc)
    case (Enq_start v)
    then show ?thesis using st f(2) move [of "Enq_read v (lfb_write_pos q)"] by (auto simp: ex)
  next
    case (Enq_read v w)
    let ?nw = "(w + 1) mod lfq_max_obj_count q"
    have nw: "?nw = of_nat (Suc (length (committed p)) mod n)"
      using f(7) Some Enq_read g(10) pos_next [OF g(2,9)] by simp
    have "Suc (length (committed p)) < length (taken c) + n" if "?nw \<noteq> lfb_read_pos q"
    proof (rule ccontr)
      assume "\<not> ?thesis"
      then have "Suc (length (committed p)) = length (taken c) + n" using g(8) by simp
      then have "Suc (length (committed p)) mod n = length (taken c) mod n" by simp
      then show False using that nw g(5) by simp
    qed
    then show ?thesis
      using st Enq_read f(7) g(4) nw move [of "Enq_cas v w ?nw"] move [of "Ret (Enq_ret v False)"]
      by (auto simp: ex Let_def split: if_splits)
  next
    case (Enq_cas v w nw)
    then show ?thesis using st f prod_cas [OF inv] by (auto simp: ex)
  next
    case (Enq_store v w nw)
    then show ?thesis using st prod_store [OF inv] by (auto simp: ex)
  next
    case (Enq_commit v w nw)
    then show ?thesis using st prod_commit [OF inv] by (auto simp: ex)
  next
    case (Cnt_load op r)
    then show ?thesis using st f(7) move [of "Cnt_cas op r (lfb_count q)"] by (auto simp: ex)
  next
    case (Cnt_cas op r old)
    then show ?thesis using st f(7) move [of "Ret r"] move [of "Cnt_load op r"]
      by (auto simp: ex spsc_count split: if_splits)
  next
    case (Ret r)
    then show ?thesis using st Some f
      by (auto simp: ex spsc_inv_def Let_def committed_def)
  qed (use f(7) Some in simp_all)
qed

lemma cons_step:
  assumes inv: "spsc_inv n q p c" and st: "thread_step q c = Some (q', c')"
  shows "spsc_inv n q' p c'"
proof (cases "tpc c")
  case None
  note f = spsc_invD [OF inv]
  from None st obtain ops where c': "todo c = Deq # ops" "q' = q" "c' = c\<lparr>tpc := Some Deq_start, todo := ops\<rparr>"
    using f(6) by (auto simp: thread_step_def split: list.splits)
  show ?thesis unfolding c'(2) by (rule spsc_keep [OF inv]) (use f(7) None c' in \<open>auto simp: taken_def\<close>)
next
  case (Some pc)
  note f = spsc_invD [OF inv] and g = lfq_atD [OF spsc_invD(1) [OF inv]]
  note move = cons_move [OF inv, unfolded Some] and ex = Some thread_step_def pc_step_def
  show ?thesis
  proof (cases pc)
    case Deq_start
    then show ?thesis using st g(5) move [of "Deq_max (lfb_read_pos q)"] by (auto simp: ex)
  next
    case (Deq_max r)
    have "length (taken c) < length (committed p)" if "r \<noteq> lfb_max_read_pos q"
      using that f(8) Some Deq_max g(6,7) by (cases "length (taken c) = length (committed p)") auto
    then show ?thesis using st Deq_max f(8) Some move [of "Deq_val r"] move [of "Ret (Deq_ret None)"]
      by (auto simp: ex split: if_splits)
  next
    case (Deq_val r)
    then show ?thesis
      using st f(8) Some unat_pos [OF g(2,9)] move [of "Deq_cas r (lfb_buf q ! unat r)"] by (auto simp: ex split: if_splits)
  next
    case (Deq_cas r v)
    then show ?thesis using st g(4) cons_cas [OF inv] by (auto simp: ex)
  next
    case (Cnt_load op r)
    then show ?thesis using st f(8) Some move [of "Cnt_cas op r (lfb_count q)"] by (auto simp: ex)
  next
    case (Cnt_cas op r old)
    then show ?thesis using st f(8) Some move [of "Ret r"] move [of "Cnt_load op r"]
      by (auto simp: ex spsc_count split: if_splits)
  next
    case (Ret r)
    then have c': "q' = q" "c' = c\<lparr>tpc := None, rets := rets c @ [r]\<rparr>" using st by (auto simp: ex)
    have "taken c' = taken c" using Some Ret c' by (simp add: taken_def)
    then show ?thesis unfolding c'(1)
      by (rule spsc_keep [OF inv refl _ refl subset_refl _ f(7)]) (use c' in simp_all)
  qed (use f(8) Some in simp_all)
qed

lemma spsc_no_ub:
  assumes inv: "spsc_inv n q p c"
  shows "thread_step q p = None \<Longrightarrow> tpc p = None \<and> todo p = []"
    and "thread_step q c = None \<Longrightarrow> tpc c = None \<and> todo c = []"
proof -
  note f = spsc_invD [OF inv] and g = lfq_atD [OF spsc_invD(1) [OF inv]]
  show "tpc p = None \<and> todo p = []" if st: "thread_step q p = None"
  proof (cases "tpc p")
    case None
    then show ?thesis using st by (auto simp: thread_step_def split: list.splits)
  next
    case (Some pc)
    then show ?thesis using st f(7) g(4) prod_store(1) [OF inv]
      by (cases pc) (auto simp: thread_step_def pc_step_def Let_def split: if_splits)
  qed
  show "tpc c = None \<and> todo c = []" if st: "thread_step q c = None"
  proof (cases "tpc c")
    case None
    then show ?thesis using st by (auto simp: thread_step_def split: list.splits)
  next
    case (Some pc)
    then show ?thesis using st f(8) g(2,3,4) unat_pos [OF g(2,9)]
      by (cases pc) (auto simp: thread_step_def pc_step_def split: if_splits)
  qed
qed

definition lfq_empty :: "lockfree_que \<Rightarrow> bool" where
  "lfq_empty q \<longleftrightarrow> 0 < unat (lfq_max_obj_count q) \<and> length (lfb_buf q) = unat (lfq_max_obj_count q) \<and>
     lfb_write_pos q = 0 \<and> lfb_read_pos q = 0 \<and> lfb_max_read_pos q = 0"

lemma spsc_reach:
  assumes "lfq_step\<^sup>*\<^sup>* (q, [lfq_thread0 (map Enq vs), lfq_thread0 (replicate k Deq)]) s" and "lfq_empty q"
  shows "\<exists>q' p c. s = (q', [p, c]) \<and> spsc_inv (unat (lfq_max_obj_count q)) q' p c"
  using assms(1)
proof (induction rule: rtranclp_induct)
  case base
  show ?case using assms(2)
    by (auto simp: spsc_inv_def Let_def lfq_thread0_def committed_def taken_def lfq_at_def lfq_empty_def)
next
  case (step s s')
  then obtain q' p c where s: "s = (q', [p, c])" "spsc_inv (unat (lfq_max_obj_count q)) q' p c" by blast
  from step.hyps(2) [unfolded s(1)] show ?case
    using prod_step [OF s(2)] cons_step [OF s(2)]
    by (auto elim!: lfq_stepE split: if_splits simp: less_Suc_eq)
qed

text \<open>
  (C3) One producer and one consumer.  In every state that any interleaving of their steps reaches from
  an empty queue: the values the consumer took are a prefix of those the producer committed, in
  order, each once; the queue holds exactly the rest; at most one value less than the capacity is
  waiting; and no thread is stuck: a thread that cannot step has finished its calls.
\<close>

theorem lfq_spsc_fifo:
  assumes "lfq_step\<^sup>*\<^sup>* (q, [lfq_thread0 (map Enq vs), lfq_thread0 (replicate k Deq)]) (q', ts)" and "lfq_empty q"
  shows "committed (ts ! 0) = taken (ts ! 1) @ lfq_list q' \<and>
    length (lfq_list q') < unat (lfq_max_obj_count q) \<and>
    (\<forall>t \<in> set ts. thread_step q' t = None \<longrightarrow> tpc t = None \<and> todo t = [])"
proof -
  from spsc_reach [OF assms] obtain p c where ts: "ts = [p, c]"
      and inv: "spsc_inv (unat (lfq_max_obj_count q)) q' p c" by blast
  let ?n = "unat (lfq_max_obj_count q)"
  note f = spsc_invD [OF inv] and g = lfq_atD [OF spsc_invD(1) [OF inv]]
  have l: "lfq_list q' = drop (length (taken c)) (committed p)"
    unfolding lfq_list_at [OF f(1)] using f(4) g(7) by (intro nth_equalityI) auto
  have "committed p = taken c @ lfq_list q'" using f(3) l by (metis append_take_drop_id)
  moreover have "length (lfq_list q') < ?n" using l g(7,8) by simp
  ultimately show ?thesis using ts spsc_no_ub [OF inv] by simp
qed

definition lfq_example :: lockfree_que where
  "lfq_example = \<lparr>lfq_max_obj_count = 2, lfb_write_pos = 0, lfb_read_pos = 0, lfb_max_read_pos = 0, lfb_count = 0,
     lfb_buf = [0, 0]\<rparr>"

theorem lfq_spsc_fifo_witness:
  "\<exists>q' ts. sys_run [1, 1, 0, 0, 0, 1, 0, 0, 1, 0, 0, 0, 0, 1, 0, 0, 1, 1, 0, 1, 0, 1] (lfq_example, [lfq_thread0 (map Enq [7, 8]), lfq_thread0 (replicate 2 Deq)]) = Some (q', ts) \<and>
    committed (ts ! 0) = [7] \<and> taken (ts ! 1) = [7] \<and> committed (ts ! 0) = taken (ts ! 1) @ lfq_list q'"
proof -
  let ?s = "(lfq_example, [lfq_thread0 (map Enq [7, 8]), lfq_thread0 (replicate 2 Deq)])"
  let ?sch = "[1, 1, 0, 0, 0, 1, 0, 0, 1, 0, 0, 0, 0, 1, 0, 0, 1, 1, 0, 1, 0, 1]"
  obtain q' ts where r: "sys_run ?sch ?s = Some (q', ts)" "committed (ts ! 0) = [7]" "taken (ts ! 1) = [7]"
    by (simp add: thread_step_def pc_step_def lfq_example_def lfq_thread0_def Let_def numeral_2_eq_2 committed_def taken_def)
  have e: "lfq_empty lfq_example" by (simp add: lfq_empty_def lfq_example_def)
  from lfq_spsc_fifo [OF sys_run_reach [OF r(1)] e] r show ?thesis by blast
qed

section \<open>Calls without interference\<close>

lemma lfq_solo_step [simp]:
  "lfq_solo q (Ret res) = Some (q, res)"
  "lfq_solo q (Enq_start v) = lfq_solo q (Enq_read v (lfb_write_pos q))"
  "lfq_max_obj_count q \<noteq> 0 \<Longrightarrow> lfq_solo q (Enq_read v w) =
     (if (w + 1) mod lfq_max_obj_count q = lfb_read_pos q then Some (q, Enq_ret v False)
      else lfq_solo q (Enq_cas v w ((w + 1) mod lfq_max_obj_count q)))"
  "lfb_write_pos q = w \<Longrightarrow> lfq_solo q (Enq_cas v w nw) = lfq_solo (q\<lparr>lfb_write_pos := nw\<rparr>) (Enq_store v w nw)"
  "unat w < length (lfb_buf q) \<Longrightarrow>
     lfq_solo q (Enq_store v w nw) = lfq_solo (q\<lparr>lfb_buf := (lfb_buf q)[unat w := v]\<rparr>) (Enq_commit v w nw)"
  "lfb_max_read_pos q = w \<Longrightarrow> lfq_solo q (Enq_commit v w nw) =
     Some (q\<lparr>lfb_max_read_pos := nw, lfb_count := lfb_count q + 1\<rparr>, Enq_ret v True)"
  "lfq_solo q Deq_start = lfq_solo q (Deq_max (lfb_read_pos q))"
  "lfq_solo q (Deq_max r) =
     (if r = lfb_max_read_pos q then Some (q, Deq_ret None) else lfq_solo q (Deq_val r))"
  "unat r < length (lfb_buf q) \<Longrightarrow> lfq_solo q (Deq_val r) = lfq_solo q (Deq_cas r (lfb_buf q ! unat r))"
  "lfq_max_obj_count q \<noteq> 0 \<Longrightarrow> lfb_read_pos q = r \<Longrightarrow> lfq_solo q (Deq_cas r x) =
     Some (q\<lparr>lfb_read_pos := (r + 1) mod lfq_max_obj_count q, lfb_count := lfb_count q - 1\<rparr>, Deq_ret (Some x))"
  by (simp_all add: lfq_solo.simps pc_step_def Let_def atomic_add_def atomic_sub_def)

definition lfq_ok :: "nat \<Rightarrow> lockfree_que \<Rightarrow> bool" where
  "lfq_ok n q \<longleftrightarrow> (\<exists>d a. lfq_at q n d a) \<and> lfb_write_pos q = lfb_max_read_pos q"

interpretation lq: bounded_fifo lockfree_enque lockfree_deque "lfq_ok n" lfq_list "n - 1" for n
proof
  fix q and v :: ptr
  assume ok: "lfq_ok n q"
  then obtain d a where at: "lfq_at q n d a" and w: "lfb_write_pos q = lfb_max_read_pos q" by (auto simp: lfq_ok_def)
  note g = lfq_atD [OF at] and l = lfq_list_at [OF at]
  let ?nw = "of_nat (Suc a mod n) :: u32"
  let ?q = "q\<lparr>lfb_write_pos := ?nw, lfb_buf := (lfb_buf q)[a mod n := v], lfb_max_read_pos := ?nw, lfb_count := lfb_count q + 1\<rparr>"
  have full: "?nw = lfb_read_pos q \<longleftrightarrow> Suc a = d + n"
    using pos_eq [OF g(2,9), of "Suc a" d] g(5,7,8) mod_window [of "Suc a" "d + n" n] by auto
  have idx: "a mod n < length (lfb_buf q)" using g(2,3) by simp
  have run: "lockfree_enque v q = Some (if Suc a = d + n then (q, False) else (?q, True))"
    using full pos_next [OF g(2,9), of a] g(4,6,10) w idx unat_pos [OF g(2,9), of a]
    by (auto simp: lockfree_enque_def simp del: bind_Some_iff)
  have at': "lfq_at ?q n d (Suc a)" if "Suc a \<noteq> d + n" using at that by (auto simp: lfq_at_def)
  have "map (\<lambda>i. (lfb_buf q)[a mod n := v] ! (i mod n)) [d..<a] = map (\<lambda>i. lfb_buf q ! (i mod n)) [d..<a]"
  proof (rule map_cong [OF refl])
    fix i assume "i \<in> set [d..<a]"
    then have "i mod n \<noteq> a mod n" using g(8) mod_window [of i a n] by auto
    then show "(lfb_buf q)[a mod n := v] ! (i mod n) = lfb_buf q ! (i mod n)" by simp
  qed
  then have l': "lfq_list ?q = lfq_list q @ [v]" if "Suc a \<noteq> d + n"
    using lfq_list_at [OF at' [OF that]] l idx g(7) by simp
  have len: "length (lfq_list q) < n - 1 \<longleftrightarrow> Suc a \<noteq> d + n" using l g(7,8) by auto
  show "\<exists>q'. lockfree_enque v q = Some (q', length (lfq_list q) < n - 1) \<and> lfq_ok n q' \<and>
      lfq_list q' = (if length (lfq_list q) < n - 1 then lfq_list q @ [v] else lfq_list q)"
    unfolding len using run l' at' ok by (auto simp: lfq_ok_def)
next
  fix q
  assume ok: "lfq_ok n q"
  then obtain d a where at: "lfq_at q n d a" and w: "lfb_write_pos q = lfb_max_read_pos q" by (auto simp: lfq_ok_def)
  note g = lfq_atD [OF at] and l = lfq_list_at [OF at]
  let ?q = "q\<lparr>lfb_read_pos := of_nat (Suc d mod n), lfb_count := lfb_count q - 1\<rparr>"
  have emp: "lfb_read_pos q = lfb_max_read_pos q \<longleftrightarrow> d = a"
    using pos_eq [OF g(2,9), of d a] g(5-8) mod_window [of d a n] by auto
  have run: "lockfree_deque q = Some (if d = a then (q, None) else (?q, Some (lfb_buf q ! (d mod n))))"
    using emp pos_next [OF g(2,9), of d] g(2-5,10) unat_pos [OF g(2,9), of d]
    by (auto simp: lockfree_deque_def simp del: bind_Some_iff)
  have at': "lfq_at ?q n (Suc d) a" if "d \<noteq> a" using at that by (auto simp: lfq_at_def)
  have l': "lfq_list q = lfb_buf q ! (d mod n) # lfq_list ?q" if "d \<noteq> a"
    using lfq_list_at [OF at' [OF that]] l g(7) that by (simp add: upt_conv_Cons)
  show "\<exists>q'. lockfree_deque q = Some (q', case lfq_list q of [] \<Rightarrow> None | x # _ \<Rightarrow> Some x) \<and> lfq_ok n q' \<and> lfq_list q' = tl (lfq_list q)"
    using run l' at' ok l w by (cases "d = a") (auto simp: lfq_ok_def)
qed


text \<open>
  (C18) Calls that do not overlap see a bounded FIFO queue: on a queue in which \<open>lfb_max_read_pos\<close> was
  initialised, every sequence of \<open>lockfree_enque\<close> and \<open>lockfree_deque\<close> returns, and returns what a
  list of at most one element less than \<open>lfq_max_obj_count\<close> returns.
\<close>

theorem lfq_refines_fifo:
  assumes "lfq_empty q"
  shows "\<exists>q'. fifo_run lockfree_enque lockfree_deque ops q =
      Some (q', snd (afifo_run (unat (lfq_max_obj_count q) - 1) ops [])) \<and>
    lfq_list q' = fst (afifo_run (unat (lfq_max_obj_count q) - 1) ops [])"
proof -
  let ?n = "unat (lfq_max_obj_count q)"
  have at: "lfq_at q ?n 0 0" using assms by (simp add: lfq_at_def lfq_empty_def)
  then have "lfq_ok ?n q" using assms by (auto simp: lfq_ok_def lfq_empty_def)
  moreover have "lfq_list q = []" using lfq_list_at [OF at] by simp
  ultimately show ?thesis using lq.fifo_run_refines [of ?n q ops] by auto
qed

theorem lfq_refines_fifo_witness:
  "\<exists>q'. fifo_run lockfree_enque lockfree_deque [FDeq, FEnq 7, FEnq 8, FDeq, FEnq 9, FDeq] lfq_example =
     Some (q', [True, False, True], [None, Some 7, Some 9]) \<and> lfq_list q' = []"
proof -
  have "lfq_empty lfq_example" by (simp add: lfq_empty_def lfq_example_def)
  from lfq_refines_fifo [OF this, of "[FDeq, FEnq 7, FEnq 8, FDeq, FEnq 9, FDeq]"] show ?thesis
    by (simp add: lfq_example_def)
qed

section \<open>Where the code departs from its intent\<close>

text \<open>
  (C37) With two consumers the queue is not a FIFO queue.  A consumer that has read the element at the read
  position and is delayed while others take and add elements until the position comes round again
  still succeeds in its compare-and-swap: it returns an element that was already taken, and the
  element that is there now is lost.
\<close>

theorem lfq_aba:
  "\<exists>q' p c1 c2. lfq_step\<^sup>*\<^sup>* (lfq_example, [lfq_thread0 (map Enq [7, 8, 9]), lfq_thread0 [Deq], lfq_thread0 [Deq, Deq]]) (q', [p, c1, c2]) \<and>
     rets p = [Enq_ret 7 True, Enq_ret 8 True, Enq_ret 9 True] \<and> rets c1 = [Deq_ret (Some 7)] \<and>
     rets c2 = [Deq_ret (Some 7), Deq_ret (Some 8)] \<and> lfq_list q' = []"
proof -
  let ?s = "(lfq_example, [lfq_thread0 (map Enq [7, 8, 9]), lfq_thread0 [Deq], lfq_thread0 [Deq, Deq]])"
  let ?enq = "replicate 9 0" and ?deq = "replicate 8 2"
  let ?sch = "?enq @ [1, 1, 1, 1] @ ?deq @ ?enq @ ?deq @ ?enq @ [1, 1, 1, 1]"
  have "\<exists>q' p c1 c2. sys_run ?sch ?s = Some (q', [p, c1, c2]) \<and>
     rets p = [Enq_ret 7 True, Enq_ret 8 True, Enq_ret 9 True] \<and> rets c1 = [Deq_ret (Some 7)] \<and>
     rets c2 = [Deq_ret (Some 7), Deq_ret (Some 8)] \<and> lfq_list q' = []"
    by (simp add: thread_step_def pc_step_def lfq_example_def lfq_thread0_def Let_def numeral_eq_Suc lfq_list_def
        atomic_add_def atomic_sub_def)
  then show ?thesis using sys_run_reach by blast
qed


lemma commit_spins:
  assumes "lfb_max_read_pos q \<noteq> w"
  shows "lfq_solo q (Enq_commit v w nw) = None"
proof -
  have "pc = Enq_commit v w nw \<longrightarrow> lfb_max_read_pos q = w" if "lfq_solo q pc = Some y" for q pc y
    by (rule lfq_solo.raw_induct [OF _ that, of "\<lambda>q pc _. pc = Enq_commit v w nw \<longrightarrow> lfb_max_read_pos q = w"])
      (fastforce simp: pc_step_def split: if_splits)
  then show ?thesis using assms by (cases "lfq_solo q (Enq_commit v w nw)") auto
qed

text \<open>
  \<open>lockfree_que_create\<close> does not initialise \<open>lfb_max_read_pos\<close>.  When the memory it gets holds
  anything but 0 there, the first \<open>lockfree_enque\<close> never returns, also without interference, and
  \<open>lockfree_deque\<close> on the queue that has never been written to returns an element.
\<close>

theorem lfq_create_uninitialised:
  assumes "lockfree_que_create True True mem n = Some q" and "1 < n" and "length (lfb_buf mem) = unat n"
    and "lfb_max_read_pos mem \<noteq> 0"
  shows "lockfree_enque v q = None \<and> (\<exists>q'. lockfree_deque q = Some (q', Some (lfb_buf mem ! 0)))"
proof -
  have q: "q = mem\<lparr>lfq_max_obj_count := n, lfb_read_pos := 0, lfb_write_pos := 0\<rparr>"
    using assms(1) by (simp add: lockfree_que_create_def)
  have n: "unat n > 1" "n \<noteq> 0" using assms(2) by (auto simp: word_less_nat_alt)
  have "unat (1 mod n) = 1" using n(1) by (subst unat_mod) simp
  then have m: "1 mod n \<noteq> 0" by auto
  have "lockfree_enque v q = None"
    using n m assms(3,4) commit_spins by (simp add: lockfree_enque_def q del: bind_Some_iff)
  moreover have "\<exists>q'. lockfree_deque q = Some (q', Some (lfb_buf mem ! 0))"
    using n assms(3,4) by (simp add: lockfree_deque_def q del: bind_Some_iff)
  ultimately show ?thesis ..
qed

theorem lfq_create_uninitialised_witness:
  "\<exists>q. lockfree_que_create True True (lfq_example\<lparr>lfb_max_read_pos := 1\<rparr>) 2 = Some q \<and> lockfree_enque 5 q = None"
proof -
  obtain q where q: "lockfree_que_create True True (lfq_example\<lparr>lfb_max_read_pos := 1\<rparr>) 2 = Some q"
    by (simp add: lockfree_que_create_def)
  from lfq_create_uninitialised [OF q, of 5] q show ?thesis by (simp add: lfq_example_def)
qed

end
