(* ===== verification/Bits.thy ===== *)
theory Bits
  imports Cinos_Prelude
begin

text \<open>
  \<open>userfs/include/bits.h\<close>: the branch-free integer logarithms.  \<open>ulog2\<close> is shown to be the
  exact floor of the binary logarithm on every non-zero argument, and \<open>ulog2l\<close> the same at
  64 bits.  They size the data blocks of the file system (\<open>get_real_block_size\<close>) and the size
  classes of the slab pool.
\<close>

section \<open>Definitions\<close>

definition b2w :: "bool \<Rightarrow> u32" where
  "b2w c = (if c then 1 else 0)"

definition ulog2 :: "u32 \<Rightarrow> u32" where
  "ulog2 v =
     (let r = push_bit 4 (b2w (v > 0xffff));
          v = drop_bit (unat r) v;
          shift = push_bit 3 (b2w (v > 0xff));
          v = drop_bit (unat shift) v;
          r = r OR shift;
          shift = push_bit 2 (b2w (v > 0xf));
          v = drop_bit (unat shift) v;
          r = r OR shift;
          shift = push_bit 1 (b2w (v > 0x3));
          v = drop_bit (unat shift) v;
          r = r OR shift;
          r = r OR drop_bit 1 v
      in r)"

definition ulog2l :: "u64 \<Rightarrow> u32" where
  "ulog2l v =
     (let hi = ucast (drop_bit 32 v) :: u32
      in if hi \<noteq> 0 then ulog2 hi + 32 else ulog2 (ucast v))"

text \<open>The same functions in \<open>eBPF/runqlat/bits.bpf.h\<close>, with a result of 64 bits.\<close>

definition bpf_log2 :: "u32 \<Rightarrow> u64" where
  "bpf_log2 v =
     (let r = push_bit 4 (b2w (v > 0xffff));
          v = drop_bit (unat r) v;
          shift = push_bit 3 (b2w (v > 0xff));
          v = drop_bit (unat shift) v;
          r = r OR shift;
          shift = push_bit 2 (b2w (v > 0xf));
          v = drop_bit (unat shift) v;
          r = r OR shift;
          shift = push_bit 1 (b2w (v > 0x3));
          v = drop_bit (unat shift) v;
          r = r OR shift;
          r = r OR drop_bit 1 v
      in ucast r)"

definition bpf_log2l :: "u64 \<Rightarrow> u64" where
  "bpf_log2l v =
     (let hi = ucast (drop_bit 32 v) :: u32
      in if hi \<noteq> 0 then bpf_log2 hi + 32 else bpf_log2 (ucast v))"

section \<open>The logarithm is exact\<close>

text \<open>\<open>halve s v\<close> is the shift one stage of the search takes: \<open>s\<close> when the value needs more than
  \<open>s\<close> bits and 0 otherwise.\<close>

definition halve :: "nat \<Rightarrow> u32 \<Rightarrow> nat" where
  "halve s v = (if unat v \<ge> 2 ^ s then s else 0)"

lemma halve_step:
  assumes "v \<noteq> 0" and "unat v < 2 ^ (2 * s)"
  shows "drop_bit (halve s v) v \<noteq> 0" and "unat (drop_bit (halve s v) v) < 2 ^ s"
proof -
  have "unat (drop_bit (halve s v) v) < 2 ^ s \<and> unat (drop_bit (halve s v) v) \<noteq> 0"
  proof (cases "unat v \<ge> 2 ^ s")
    case True
    then have "0 < unat v div 2 ^ s"
      by (simp add: div_greater_zero_iff)
    moreover have "unat v div 2 ^ s < 2 ^ s"
      using assms(2) by (simp add: less_mult_imp_div_less mult_2 power_add)
    ultimately show ?thesis using True
      by (simp add: halve_def unat_drop_bit_div)
  next
    case False
    then show ?thesis using assms(1) by (simp add: halve_def unat_eq_zero)
  qed
  then show "drop_bit (halve s v) v \<noteq> 0" and "unat (drop_bit (halve s v) v) < 2 ^ s"
    by auto
qed

lemma shift_halve:
  "push_bit 4 (b2w (v > 0xffff)) = of_nat (halve 16 v)"
  "push_bit 3 (b2w (v > 0xff)) = of_nat (halve 8 v)"
  "push_bit 2 (b2w (v > 0xf)) = of_nat (halve 4 v)"
  "push_bit 1 (b2w (v > 0x3)) = of_nat (halve 2 v)"
  by (simp_all add: halve_def b2w_def word_less_nat_alt)

lemma unat_halve: "s < 32 \<Longrightarrow> unat (of_nat (halve s v) :: u32) = halve s v"
  by (simp add: halve_def unat_of_nat)

lemma or_halve:
  "((of_nat (halve 16 a) OR of_nat (halve 8 b)) OR of_nat (halve 4 c)) OR of_nat (halve 2 d)
   = (of_nat (halve 16 a + halve 8 b + halve 4 c + halve 2 d) :: u32)"
  by (simp add: halve_def)

lemma ulog2_halve:
  "ulog2 v =
     (let v1 = drop_bit (halve 16 v) v; v2 = drop_bit (halve 8 v1) v1;
          v3 = drop_bit (halve 4 v2) v2; v4 = drop_bit (halve 2 v3) v3
      in of_nat (halve 16 v + halve 8 v1 + halve 4 v2 + halve 2 v3) OR drop_bit 1 v4)"
  unfolding ulog2_def Let_def shift_halve
  by (simp add: unat_halve or_halve)

lemma halve_even: "even s \<Longrightarrow> even (halve s v)" and halve_le: "halve s v \<le> s"
  by (simp_all add: halve_def)

lemma ulog2_bounds:
  assumes "v \<noteq> 0"
  shows "2 ^ unat (ulog2 v) \<le> unat v" and "unat v < 2 ^ Suc (unat (ulog2 v))"
proof -
  define v1 where "v1 = drop_bit (halve 16 v) v"
  define v2 where "v2 = drop_bit (halve 8 v1) v1"
  define v3 where "v3 = drop_bit (halve 4 v2) v2"
  define v4 where "v4 = drop_bit (halve 2 v3) v3"
  define k where "k = halve 16 v + halve 8 v1 + halve 4 v2 + halve 2 v3"
  have v1: "v1 \<noteq> 0" "unat v1 < 2 ^ 16"
    unfolding v1_def by (intro halve_step assms; simp)+
  have v2: "v2 \<noteq> 0" "unat v2 < 2 ^ 8"
    unfolding v2_def using v1 by (intro halve_step; simp)+
  have v3: "v3 \<noteq> 0" "unat v3 < 2 ^ 4"
    unfolding v3_def using v2 by (intro halve_step; simp)+
  have v4: "v4 \<noteq> 0" "unat v4 < 2 ^ 2"
    unfolding v4_def using v3 by (intro halve_step; simp)+
  have "even k"
    by (simp add: k_def halve_even)
  have "k \<le> 30"
    using halve_le [of 16 v] halve_le [of 8 v1] halve_le [of 4 v2] halve_le [of 2 v3]
    by (simp add: k_def)
  have "v4 = drop_bit k v"
    by (simp add: v4_def v3_def v2_def v1_def k_def add.commute add.left_commute)
  then have n4: "unat v4 = unat v div 2 ^ k"
    by (simp add: unat_drop_bit_div)
  have n123: "unat v4 = 1 \<or> unat v4 = 2 \<or> unat v4 = 3"
    using v4 unat_gt_0 [of v4] by auto
  have log: "ulog2 v = of_nat k OR drop_bit 1 v4"
    unfolding ulog2_halve Let_def k_def v4_def v3_def v2_def v1_def by (rule refl)
  have bit1: "unat (drop_bit 1 v4) = unat v4 div 2"
    using unat_drop_bit_div [of 1 v4] by simp
  have odd_case: "of_nat k OR (1 :: u32) = of_nat (Suc k)"
    using \<open>even k\<close> by (simp add: or_one_eq)
  have "unat (ulog2 v) = (if unat v4 = 1 then k else Suc k)"
  proof (cases "unat v4 = 1")
    case True
    then have "drop_bit 1 v4 = 0" using bit1 by (simp add: word_unat_eq_iff)
    then show ?thesis using True \<open>k \<le> 30\<close> by (simp add: log unat_of_nat)
  next
    case False
    then have "drop_bit 1 v4 = 1" using bit1 n123 by (auto simp: word_unat_eq_iff)
    then have "ulog2 v = of_nat (Suc k)" by (simp only: log odd_case)
    moreover have "unat (of_nat (Suc k) :: u32) = Suc k"
      using \<open>k \<le> 30\<close> by (simp only: unat_of_nat) simp
    ultimately show ?thesis using False by simp
  qed
  moreover have "2 ^ k * unat v4 \<le> unat v"
    unfolding n4 by (rule times_div_less_eq_dividend)
  moreover have "unat v < 2 ^ k * Suc (unat v4)"
    using dividend_less_times_div [of "2 ^ k" "unat v"] by (simp add: n4)
  ultimately show "2 ^ unat (ulog2 v) \<le> unat v" and "unat v < 2 ^ Suc (unat (ulog2 v))"
    using n123 by auto
qed

lemma ulog2_lt_32:
  assumes "v \<noteq> 0"
  shows "unat (ulog2 v) < 32"
proof -
  have "(2::nat) ^ unat (ulog2 v) < 4294967296"
    using ulog2_bounds(1) [OF assms] unat_lt_2p32 [of v] by linarith
  then show ?thesis
    using power_strict_increasing_iff [of "2::nat" "unat (ulog2 v)" 32] by simp
qed

lemma ulog2l_bounds:
  assumes "v \<noteq> 0"
  shows "2 ^ unat (ulog2l v) \<le> unat v" and "unat v < 2 ^ Suc (unat (ulog2l v))"
proof -
  let ?hi = "ucast (drop_bit 32 v) :: u32"
  have hi: "unat ?hi = unat v div 2 ^ 32"
  proof -
    have "unat v < 2 ^ LENGTH(64)" by (rule unsigned_less)
    then have "unat v div 2 ^ 32 < 2 ^ 32" by (simp add: less_mult_imp_div_less)
    then show ?thesis by (simp add: unsigned_ucast_eq take_bit_nat_eq_self unat_drop_bit_div)
  qed
  have "2 ^ unat (ulog2l v) \<le> unat v \<and> unat v < 2 ^ Suc (unat (ulog2l v))"
  proof (cases "?hi = 0")
    case True
    then have "unat v < 2 ^ 32" using hi by (simp add: div_eq_0_iff)
    then have lo: "unat (ucast v :: u32) = unat v" by (simp add: unsigned_ucast_eq take_bit_nat_eq_self)
    with assms have "(ucast v :: u32) \<noteq> 0" by (metis unat_eq_zero)
    from ulog2_bounds [OF this] show ?thesis
      using True by (simp add: ulog2l_def lo)
  next
    case False
    let ?l = "unat (ulog2 ?hi)"
    have "unat (ulog2l v) = ?l + 32"
      using False ulog2_lt_32 [OF False] by (simp add: ulog2l_def unat_word_ariths)
    moreover have "2 ^ ?l * 2 ^ 32 \<le> unat v"
      using ulog2_bounds(1) [OF False] unfolding hi
      by (subst (asm) less_eq_div_iff_mult_less_eq) simp_all
    moreover have "unat v < 2 ^ Suc ?l * 2 ^ 32"
      using ulog2_bounds(2) [OF False] unfolding hi
      by (subst (asm) div_less_iff_less_mult) simp_all
    ultimately show ?thesis by (simp add: power_add)
  qed
  then show "2 ^ unat (ulog2l v) \<le> unat v" and "unat v < 2 ^ Suc (unat (ulog2l v))"
    by auto
qed

lemma bpf_log2_eq: "bpf_log2 v = ucast (ulog2 v)"
  unfolding bpf_log2_def ulog2_def Let_def ..

lemma bpf_log2l_eq:
  assumes "v \<noteq> 0"
  shows "bpf_log2l v = ucast (ulog2l v)"
proof (cases "ucast (drop_bit 32 v) = (0 :: u32)")
  case False
  have "unat (ulog2 (ucast (drop_bit 32 v)) + 32) = unat (ulog2 (ucast (drop_bit 32 v))) + 32"
    using ulog2_lt_32 [OF False] by (simp add: unat_word_ariths)
  then show ?thesis
    using False ulog2_lt_32 [OF False]
    by (simp add: bpf_log2l_def ulog2l_def bpf_log2_eq word_unat_eq_iff unat_word_ariths unsigned_ucast_eq take_bit_nat_eq_self)
qed (simp add: bpf_log2l_def ulog2l_def bpf_log2_eq)

end
