(* ===== verification/Slab_Pool.thy ===== *)
theory Slab_Pool
  imports Bits Interfaces
begin

text \<open>
  \<open>mempool/mempool.c\<close>: a pool that serves requests from a region of memory.  A request is rounded up to a
  power of two of at least 8 bytes; freed blocks are kept in one list for each size, linked through
  their first word, and a request that finds the list of its size empty is served at the end of
  the used part of the region.

  The model keeps the memory byte by byte, so that the free lists are what the code stores there;
  a client is any sequence of allocations, of frees of live blocks and of stores into live blocks.

  The results: the size of a class is the least power of two that fits; live blocks never overlap and
  \<open>remainsize\<close> accounts for exactly the live blocks; but the pool hands out memory behind its end,
  and the guard of the size classes is off by one.
\<close>

section \<open>The pool and its operations\<close>

abbreviation MEMPOOL_CTRL_MAGIC :: u64 where "MEMPOOL_CTRL_MAGIC \<equiv> 0x12345678"
abbreviation MEMPOOL_MIN_SLAB_BITS :: u64 where "MEMPOOL_MIN_SLAB_BITS \<equiv> 3"

datatype pool_fn = Ctrl_alloc_default | Ctrl_free_default | Client_fn ptr

record mempool_ctrl =
  ops_palloc :: pool_fn
  ops_pfree :: pool_fn
  pool_magic :: u64
  svaddr :: u64
  totalsize :: u64
  rvaddr :: u64
  remainsize :: u64
  pool_hook :: "ptr \<times> ptr"
  slab_count :: u64
  slabs :: "u64 list"

definition get_real_size_bits :: "u64 \<Rightarrow> u64" where
  "get_real_size_bits sz =
     (let slot = ulog2l sz;
          slot = (if sz - push_bit (unat slot) 1 \<noteq> 0 then slot + 1 else slot)
      in if ucast slot > MEMPOOL_MIN_SLAB_BITS then ucast slot else MEMPOOL_MIN_SLAB_BITS)"

text \<open>The memory is what its bytes hold; an array access out of range and a shift by 64 are undefined.\<close>

definition mempool_ctrl_alloc_default ::
    "mempool_ctrl option \<Rightarrow> (nat \<Rightarrow> u8) \<Rightarrow> u64 \<Rightarrow> (mempool_ctrl option \<times> u64) option" where
  "mempool_ctrl_alloc_default ctrl mem sz =
     (case ctrl of
        None \<Rightarrow> Some (None, - 1)
      | Some handler \<Rightarrow>
          if sz = 0 then Some (Some handler, 0)
          else let slot = get_real_size_bits sz in
            if 64 \<le> slot then None
            else let real_size = push_bit (unat slot) 1; slot = slot - MEMPOOL_MIN_SLAB_BITS in
              if real_size > remainsize handler \<or> slot > slab_count handler then Some (Some handler, 0)
              else let handler = handler\<lparr>remainsize := remainsize handler - real_size\<rparr> in
                if length (slabs handler) \<le> unat slot then None
                else if slabs handler ! unat slot \<noteq> 0
                then let alloc = slabs handler ! unat slot
                  in Some (Some (handler\<lparr>slabs := (slabs handler)[unat slot := rd64 mem (unat alloc)]\<rparr>), alloc)
                else let alloc = rvaddr handler
                  in Some (Some (handler\<lparr>rvaddr := rvaddr handler + real_size\<rparr>), alloc))"

definition mempool_ctrl_free_default ::
    "mempool_ctrl option \<Rightarrow> (nat \<Rightarrow> u8) \<Rightarrow> u64 \<Rightarrow> u64 \<Rightarrow> (mempool_ctrl option \<times> (nat \<Rightarrow> u8)) option" where
  "mempool_ctrl_free_default ctrl mem ptr sz =
     (case ctrl of
        None \<Rightarrow> Some (None, mem)
      | Some handler \<Rightarrow>
          if sz = 0 then Some (Some handler, mem)
          else if ptr < svaddr handler \<or> ptr > rvaddr handler + totalsize handler then Some (Some handler, mem)
          else let slot = get_real_size_bits sz in
            if 64 \<le> slot then None
            else let real_size = push_bit (unat slot) 1; slot = slot - MEMPOOL_MIN_SLAB_BITS in
              if length (slabs handler) \<le> unat slot then None
              else Some (Some (handler\<lparr>slabs := (slabs handler)[unat slot := ptr], remainsize := remainsize handler + real_size\<rparr>),
                     wr64 mem (unat ptr) (slabs handler ! unat slot)))"

text \<open>
  \<open>p\<close> is what the allocation of the control block returned.  The block is cleared before the check for
  \<open>NULL\<close>; its fields before \<open>slabs\<close> take 80 bytes.
\<close>

definition mempool_ctrl_init :: "ptr \<Rightarrow> u64 \<Rightarrow> u64 \<Rightarrow> u64 \<Rightarrow> ptr \<Rightarrow> ptr \<Rightarrow> mempool_ctrl option" where
  "mempool_ctrl_init p vaddr sz slabs_count palloc pfree =
     (let bytes = 80 + slabs_count * 8 in
      if p = NULL \<or> bytes < 80 then None
      else Some
        \<lparr>ops_palloc = (if pfree = NULL \<or> palloc = NULL then Ctrl_alloc_default else Client_fn palloc),
         ops_pfree = (if pfree = NULL \<or> palloc = NULL then Ctrl_free_default else Client_fn pfree),
         pool_magic = MEMPOOL_CTRL_MAGIC, svaddr = vaddr, totalsize = sz, rvaddr = vaddr, remainsize = sz,
         pool_hook = (p + 56, p + 56), slab_count = slabs_count, slabs = replicate ((unat bytes - 80) div 8) 0\<rparr>)"

text \<open>\<open>MEMPOOL_CTRL_FREE(*ctrl)\<close> on the live control blocks, and the new value of \<open>*ctrl\<close>.\<close>

definition mempool_ctrl_destroy :: "(ptr \<Rightarrow> mempool_ctrl option) \<Rightarrow> ptr \<Rightarrow> (ptr \<Rightarrow> mempool_ctrl option) \<times> ptr" where
  "mempool_ctrl_destroy ctrls ctrl = (ctrls(ctrl := None), NULL)"

section \<open>Size classes\<close>

definition slab_class :: "u64 \<Rightarrow> nat" where
  "slab_class sz = unat (get_real_size_bits sz)"

lemma unat_pow2: "l < 64 \<Longrightarrow> unat (push_bit l 1 :: u64) = 2 ^ l"
proof -
  assume "l < 64"
  then have "(2 :: nat) ^ l < 2 ^ 64" by (rule power_strict_increasing) simp
  moreover have "(push_bit l 1 :: u64) = of_nat (2 ^ l)" by (simp add: push_bit_eq_mult)
  ultimately show ?thesis by (simp only: unat_of_nat) simp
qed

lemma slab_class_bounds:
  assumes "sz \<noteq> 0"
  shows "3 \<le> slab_class sz" and "slab_class sz \<le> 64" and "unat sz \<le> 2 ^ slab_class sz"
    and "3 < slab_class sz \<Longrightarrow> 2 ^ (slab_class sz - 1) < unat sz"
proof -
  let ?l = "unat (ulog2l sz)"
  note b = ulog2l_bounds [OF assms]
  have "unat sz < 2 ^ 64" using unsigned_less [of sz] by simp
  with b(1) have l: "?l < 64" by (metis le_less_trans nat_power_less_imp_less zero_less_numeral)
  note p = unat_pow2 [OF l]
  have z: "sz - push_bit ?l 1 = 0 \<longleftrightarrow> unat sz = 2 ^ ?l"
    by (metis p eq_iff_diff_eq_0 word_unat_eq_iff)
  define s where "s = (if sz - push_bit ?l 1 \<noteq> 0 then ulog2l sz + 1 else ulog2l sz)"
  have s: "unat s = (if unat sz = 2 ^ ?l then ?l else Suc ?l)"
    using l z by (simp add: s_def unat_word_ariths)
  then have "unat s \<le> 64" using l by auto
  then have us: "unat (ucast s :: u64) = unat s"
    by (simp add: unsigned_ucast_eq take_bit_nat_eq_self)
  have c: "slab_class sz = max 3 (unat s)"
    unfolding slab_class_def get_real_size_bits_def Let_def s_def [symmetric]
    using us by (simp add: word_less_nat_alt max_def)
  show "3 \<le> slab_class sz" "slab_class sz \<le> 64" using c s l by auto
  have "unat sz \<le> 2 ^ unat s" using s b(2) by auto
  also have "\<dots> \<le> (2 :: nat) ^ slab_class sz" using c by (intro power_increasing) auto
  finally show "unat sz \<le> 2 ^ slab_class sz" .
  show "2 ^ (slab_class sz - 1) < unat sz" if "3 < slab_class sz"
  proof -
    have cs: "slab_class sz = unat s" using c that by (simp add: max_def split: if_splits)
    show ?thesis
    proof (cases "unat sz = 2 ^ ?l")
      case True
      then have "0 < ?l" using that cs s by simp
      then show ?thesis using True cs s by simp
    next
      case False
      then show ?thesis using b(1) cs s by simp
    qed
  qed
qed


section \<open>Blocks of a pool\<close>

type_synonym block = "nat \<times> nat"

text \<open>Blocks that lie side by side from \<open>a\<close> up to \<open>r\<close>.\<close>

fun tiling :: "nat \<Rightarrow> block list \<Rightarrow> nat \<Rightarrow> bool" where
  "tiling a [] r \<longleftrightarrow> a = r"
| "tiling a ((b, k) # bs) r \<longleftrightarrow> b = a \<and> tiling (a + 2 ^ k) bs r"

fun before :: "block \<Rightarrow> block \<Rightarrow> bool" where
  "before (a, k) (b, l) \<longleftrightarrow> a + 2 ^ k \<le> b"

lemma tiling_snoc: "tiling a bs r \<Longrightarrow> tiling a (bs @ [(r, k)]) (r + 2 ^ k)"
  by (induction a bs r rule: tiling.induct) auto

lemma tiling_le: "tiling a bs r \<Longrightarrow> a \<le> r"
  by (induction a bs r rule: tiling.induct) auto

lemma tiling_range: "tiling a bs r \<Longrightarrow> (b, k) \<in> set bs \<Longrightarrow> a \<le> b \<and> b + 2 ^ k \<le> r"
proof (induction a bs r rule: tiling.induct)
  case (2 a b' k' bs r)
  then show ?case using tiling_le [of "a + 2 ^ k'" bs r] by auto
qed simp

lemma tiling_sorted: "tiling a bs r \<Longrightarrow> sorted_wrt before bs"
proof (induction a bs r rule: tiling.induct)
  case (2 a b k bs r)
  then show ?case using tiling_range [of "a + 2 ^ k" bs r] by auto
qed simp

lemma tiling_sum: "tiling a bs r \<Longrightarrow> r = a + sum_list (map (\<lambda>(_, k). 2 ^ k) bs)"
  by (induction a bs r rule: tiling.induct) auto

lemma sorted_before_distinct: "sorted_wrt before bs \<Longrightarrow> distinct bs"
proof (induction bs)
  case (Cons x bs)
  then have "\<not> before x x" by (cases x) simp
  with Cons show ?case by auto
qed simp

lemma sorted_before_apart:
  "sorted_wrt before bs \<Longrightarrow> x \<in> set bs \<Longrightarrow> y \<in> set bs \<Longrightarrow> x \<noteq> y \<Longrightarrow> before x y \<or> before y x"
  by (induction bs) auto

text \<open>A block, with a function from its class to the bytes of blocks of the class, bounds the whole.\<close>

lemma sum_by_class:
  assumes "\<forall>(a, k) \<in> set bs. k < n"
  shows "sum_list (map (\<lambda>(_, k). 2 ^ k) bs) = (\<Sum>k<n. 2 ^ k * length (filter (\<lambda>(_, l). l = k) bs))"
  using assms
proof (induction bs)
  case (Cons x bs)
  obtain a k where x: "x = (a, k)" by (cases x)
  have "(\<Sum>j<n. 2 ^ j * length (filter (\<lambda>(_, l). l = j) (x # bs))) =
      (\<Sum>j<n. (if j = k then 2 ^ k else 0) + 2 ^ j * length (filter (\<lambda>(_, l). l = j) bs))"
    using x by (intro sum.cong) auto
  also have "\<dots> = 2 ^ k + (\<Sum>j<n. 2 ^ j * length (filter (\<lambda>(_, l). l = j) bs))"
    using Cons.prems x by (simp add: sum.distrib)
  finally show ?case using Cons x by simp
qed simp

text \<open>A free list: the first word of each block on it holds the address of the next.\<close>

fun chain :: "(nat \<Rightarrow> u8) \<Rightarrow> u64 \<Rightarrow> nat list \<Rightarrow> bool" where
  "chain mem p [] \<longleftrightarrow> p = 0"
| "chain mem p (a # as) \<longleftrightarrow> p \<noteq> 0 \<and> unat p = a \<and> chain mem (rd64 mem a) as"

lemma chain_cong: "(\<And>a i. a \<in> set as \<Longrightarrow> a \<le> i \<Longrightarrow> i < a + 8 \<Longrightarrow> mem' i = mem i) \<Longrightarrow> chain mem' p as = chain mem p as"
proof (induction as arbitrary: p)
  case (Cons a as)
  have "rd64 mem' a = rd64 mem a" by (rule rd64_cong) (rule Cons.prems, simp_all)
  moreover have "chain mem' q as = chain mem q as" for q by (rule Cons.IH) (rule Cons.prems, simp_all)
  ultimately show ?case by simp
qed simp

section \<open>Runs of a pool\<close>

text \<open>
  The pool with its memory and the live allocations, each with the size it was asked for.  The client
  allocates, gives a live block back with its size, and stores into its live blocks.
\<close>

type_synonym pool = "mempool_ctrl \<times> (nat \<Rightarrow> u8) \<times> (u64 \<times> u64) list"

definition in_live :: "(u64 \<times> u64) list \<Rightarrow> nat \<Rightarrow> bool" where
  "in_live live i \<longleftrightarrow> (\<exists>(p, sz) \<in> set live. unat p \<le> i \<and> i < unat p + unat sz)"

inductive pool_step :: "pool \<Rightarrow> pool \<Rightarrow> bool" where
  alloc: "mempool_ctrl_alloc_default (Some h) mem sz = Some (Some h', p) \<Longrightarrow> p \<noteq> 0 \<Longrightarrow>
    pool_step (h, mem, live) (h', mem, (p, sz) # live)"
| alloc_fails: "mempool_ctrl_alloc_default (Some h) mem sz = Some (Some h', 0) \<Longrightarrow>
    pool_step (h, mem, live) (h', mem, live)"
| free: "(p, sz) \<in> set live \<Longrightarrow> mempool_ctrl_free_default (Some h) mem p sz = Some (Some h', mem') \<Longrightarrow>
    pool_step (h, mem, live) (h', mem', remove1 (p, sz) live)"
| store: "(\<And>i. \<not> in_live live i \<Longrightarrow> mem' i = mem i) \<Longrightarrow> pool_step (h, mem, live) (h, mem', live)"

fun live_block :: "u64 \<times> u64 \<Rightarrow> block" where
  "live_block (p, sz) = (unat p, slab_class sz)"

definition live_size :: "(u64 \<times> u64) list \<Rightarrow> nat" where
  "live_size live = sum_list (map (\<lambda>b. 2 ^ snd (live_block b)) live)"

definition free_blocks :: "nat \<Rightarrow> (nat \<Rightarrow> nat list) \<Rightarrow> block multiset" where
  "free_blocks n fl = (\<Sum>k \<in> {3..<n + 3}. image_mset (\<lambda>a. (a, k)) (mset (fl k)))"

definition pool_blocks :: "nat \<Rightarrow> (u64 \<times> u64) list \<Rightarrow> (nat \<Rightarrow> nat list) \<Rightarrow> block multiset" where
  "pool_blocks n live fl = mset (map live_block live) + free_blocks n fl"

definition class_size :: "nat \<Rightarrow> block multiset \<Rightarrow> nat" where
  "class_size k B = 2 ^ k * size (filter_mset (\<lambda>(_, l). l = k) B)"

definition live_ok :: "nat \<Rightarrow> (u64 \<times> u64) list \<Rightarrow> bool" where
  "live_ok n live \<longleftrightarrow> (\<forall>(p, sz) \<in> set live. sz \<noteq> 0 \<and> slab_class sz < 64 \<and> slab_class sz < n + 3)"

definition pool_inv :: "mempool_ctrl \<Rightarrow> pool \<Rightarrow> (nat \<Rightarrow> nat list) \<Rightarrow> block list \<Rightarrow> bool" where
  "pool_inv h0 s fl bs \<longleftrightarrow> (case s of (h, mem, live) \<Rightarrow>
     svaddr h = svaddr h0 \<and> totalsize h = totalsize h0 \<and> slab_count h = slab_count h0 \<and>
     length (slabs h) = unat (slab_count h0) \<and>
     mset bs = pool_blocks (unat (slab_count h0)) live fl \<and> tiling (unat (svaddr h0)) bs (unat (rvaddr h)) \<and>
     (\<forall>k < unat (slab_count h0). chain mem (slabs h ! k) (fl (k + 3))) \<and>
     unat (remainsize h) + live_size live = unat (totalsize h0) \<and>
     (\<forall>k. class_size k (mset bs) \<le> unat (totalsize h0)) \<and>
     live_ok (unat (slab_count h0)) live)"


lemma free_blocks_pop:
  assumes "3 \<le> k" and "k < n + 3" and "fl k = a # as"
  shows "free_blocks n fl = add_mset (a, k) (free_blocks n (fl(k := as)))"
proof -
  have k: "k \<in> {3..<n + 3}" using assms by simp
  have "(\<Sum>j \<in> {3..<n + 3} - {k}. image_mset (\<lambda>a. (a, j)) (mset ((fl(k := as)) j))) =
      (\<Sum>j \<in> {3..<n + 3} - {k}. image_mset (\<lambda>a. (a, j)) (mset (fl j)))"
    by (intro sum.cong) auto
  then show ?thesis using assms(3) by (simp add: free_blocks_def sum.remove [OF _ k])
qed

lemma free_blocks_mem: "a \<in> set (fl k) \<Longrightarrow> 3 \<le> k \<Longrightarrow> k < n + 3 \<Longrightarrow> (a, k) \<in># free_blocks n fl"
proof -
  assume a: "a \<in> set (fl k)" "3 \<le> k" "k < n + 3"
  have k: "k \<in> {3..<n + 3}" using a by simp
  show ?thesis using a(1) by (simp add: free_blocks_def sum.remove [OF _ k] image_iff)
qed

lemma pool_invD:
  assumes "pool_inv h0 (h, mem, live) fl bs"
  shows "svaddr h = svaddr h0" "totalsize h = totalsize h0" "slab_count h = slab_count h0"
    "length (slabs h) = unat (slab_count h0)" "mset bs = pool_blocks (unat (slab_count h0)) live fl"
    "tiling (unat (svaddr h0)) bs (unat (rvaddr h))"
    "\<And>k. k < unat (slab_count h0) \<Longrightarrow> chain mem (slabs h ! k) (fl (k + 3))"
    "unat (remainsize h) + live_size live = unat (totalsize h0)" "\<And>k. class_size k (mset bs) \<le> unat (totalsize h0)"
    "live_ok (unat (slab_count h0)) live"
  using assms by (auto simp: pool_inv_def)

lemma pool_invI:
  assumes "svaddr h = svaddr h0" "totalsize h = totalsize h0" "slab_count h = slab_count h0"
    "length (slabs h) = unat (slab_count h0)" "mset bs = pool_blocks (unat (slab_count h0)) live fl"
    "tiling (unat (svaddr h0)) bs (unat (rvaddr h))"
    "\<And>k. k < unat (slab_count h0) \<Longrightarrow> chain mem (slabs h ! k) (fl (k + 3))"
    "unat (remainsize h) + live_size live = unat (totalsize h0)" "\<And>k. class_size k (mset bs) \<le> unat (totalsize h0)"
    "live_ok (unat (slab_count h0)) live"
  shows "pool_inv h0 (h, mem, live) fl bs"
  unfolding pool_inv_def prod.case using assms by blast

lemma live_okD: "live_ok n live \<Longrightarrow> (p, sz) \<in> set live \<Longrightarrow> sz \<noteq> 0 \<and> slab_class sz < 64 \<and> slab_class sz < n + 3"
  by (auto simp: live_ok_def)

lemma class_mem: "(a, k) \<in># B \<Longrightarrow> 2 ^ k \<le> class_size k B"
  by (auto simp: class_size_def dest!: multi_member_split)

lemma pool_top:
  assumes "pool_inv h0 (h, mem, live) fl bs"
  shows "unat (rvaddr h) \<le> unat (svaddr h0) + 64 * unat (totalsize h0)"
proof -
  note f = pool_invD [OF assms]
  have "k < 64" if "(a, k) \<in> set bs" for a k
  proof -
    have "2 ^ k \<le> unat (totalsize h0)" using class_mem [of a k "mset bs"] f(9) [of k] that by simp
    also have "\<dots> < 2 ^ 64" using unsigned_less [of "totalsize h0"] by simp
    finally show ?thesis by (rule power_less_imp_less_exp [rotated]) simp
  qed
  then have "sum_list (map (\<lambda>(_, k). 2 ^ k) bs) = (\<Sum>k<64. 2 ^ k * length (filter (\<lambda>(_, l). l = k) bs))"
    by (intro sum_by_class) auto
  also have "\<dots> = (\<Sum>k<64. class_size k (mset bs))" by (simp add: class_size_def flip: mset_filter)
  also have "\<dots> \<le> of_nat (card {..<64 :: nat}) * unat (totalsize h0)" by (rule sum_bounded_above) (rule f(9))
  finally show ?thesis using tiling_sum [OF f(6)] by simp
qed

lemma live_free_apart:
  assumes "pool_inv h0 (h, mem, live) fl bs" and "(p, sz) \<in> set live"
    and "a \<in> set (fl k)" and "3 \<le> k" and "k < unat (slab_count h0) + 3"
  shows "unat p + 2 ^ slab_class sz \<le> a \<or> a + 8 \<le> unat p"
proof -
  note f = pool_invD [OF assms(1)]
  note srt = tiling_sorted [OF f(6)]
  have fr: "(a, k) \<in># free_blocks (unat (slab_count h0)) fl" using assms(3-5) by (rule free_blocks_mem)
  have lv: "(unat p, slab_class sz) \<in># mset (map live_block live)" using assms(2) by (force simp: image_iff)
  have ne: "(unat p, slab_class sz) \<noteq> (a, k)"
  proof
    assume "(unat p, slab_class sz) = (a, k)"
    with fr lv have "count (pool_blocks (unat (slab_count h0)) live fl) (a, k) \<ge> 1 + 1"
      by (simp only: pool_blocks_def count_union) (intro add_mono, simp_all add: count_greater_eq_one_iff)
    moreover have "count (mset bs) (a, k) \<le> 1"
      using sorted_before_distinct [OF srt] by (simp add: distinct_count_atmost_1)
    ultimately show False using f(5) by simp
  qed
  have "(a, k) \<in> set bs" "(unat p, slab_class sz) \<in> set bs"
    using fr lv f(5) by (metis pool_blocks_def set_mset_mset union_iff)+
  from sorted_before_apart [OF srt this(2,1) ne]
  have "unat p + 2 ^ slab_class sz \<le> a \<or> a + 2 ^ k \<le> unat p" by simp
  moreover have "(8 :: nat) \<le> 2 ^ k" using power_increasing [OF assms(4), of "2 :: nat"] by simp
  ultimately show ?thesis by linarith
qed


lemma class_slot: "sz \<noteq> 0 \<Longrightarrow> unat (get_real_size_bits sz - 3) = slab_class sz - 3"
  using slab_class_bounds(1) [of sz] by (simp add: slab_class_def unat_sub_if' word_le_nat_alt)

lemma class_64: "(64 \<le> get_real_size_bits sz) = (64 \<le> slab_class sz)"
  by (simp add: slab_class_def word_le_nat_alt)

lemma alloc_cases:
  assumes "mempool_ctrl_alloc_default (Some h) mem sz = Some (Some h', p)" and "p \<noteq> 0"
  obtains (reuse) "sz \<noteq> 0" "slab_class sz < 64" "2 ^ slab_class sz \<le> unat (remainsize h)"
      "slab_class sz - 3 < length (slabs h)" "slabs h ! (slab_class sz - 3) = p"
      "h' = h\<lparr>remainsize := remainsize h - push_bit (slab_class sz) 1, slabs := (slabs h)[slab_class sz - 3 := rd64 mem (unat p)]\<rparr>"
  | (bump) "sz \<noteq> 0" "slab_class sz < 64" "2 ^ slab_class sz \<le> unat (remainsize h)"
      "slab_class sz - 3 < length (slabs h)" "slabs h ! (slab_class sz - 3) = 0" "p = rvaddr h"
      "h' = h\<lparr>remainsize := remainsize h - push_bit (slab_class sz) 1, rvaddr := rvaddr h + push_bit (slab_class sz) 1\<rparr>"
proof -
  have nz: "sz \<noteq> 0" using assms by (auto simp: mempool_ctrl_alloc_default_def)
  have k: "slab_class sz < 64" using assms nz by (auto simp: mempool_ctrl_alloc_default_def Let_def class_64 split: if_splits)
  then have r: "(push_bit (slab_class sz) 1 > remainsize h) = (\<not> 2 ^ slab_class sz \<le> unat (remainsize h))"
    using unat_pow2 [OF k] by (simp add: word_less_nat_alt not_le)
  show thesis
    using assms nz k r bump reuse
    by (auto simp: mempool_ctrl_alloc_default_def Let_def class_64 class_slot not_le split: if_splits simp flip: slab_class_def)
qed

definition pool_fits :: "mempool_ctrl \<Rightarrow> bool" where
  "pool_fits h0 \<longleftrightarrow> svaddr h0 \<noteq> 0 \<and> unat (svaddr h0) + 65 * unat (totalsize h0) < 2 ^ 64"

lemma remain_sub:
  assumes "k < 64" and "2 ^ k \<le> unat r"
  shows "unat (r - push_bit k 1 :: u64) = unat r - 2 ^ k"
  using assms unat_pow2 [OF assms(1)] by (simp add: unat_sub_if')

lemma live_size_Cons: "live_size ((p, sz) # live) = 2 ^ slab_class sz + live_size live"
  by (simp add: live_size_def)

lemma reuse_inv:
  assumes inv: "pool_inv h0 (h, mem, live) fl bs"
    and c: "sz \<noteq> 0" "slab_class sz < 64" "2 ^ slab_class sz \<le> unat (remainsize h)"
      "slab_class sz - 3 < length (slabs h)" "slabs h ! (slab_class sz - 3) = p" "p \<noteq> 0"
  shows "\<exists>fl'. pool_inv h0 (h\<lparr>remainsize := remainsize h - push_bit (slab_class sz) 1,
      slabs := (slabs h)[slab_class sz - 3 := rd64 mem (unat p)]\<rparr>, mem, (p, sz) # live) fl' bs"
proof -
  note f = pool_invD [OF inv]
  let ?k = "slab_class sz" and ?n = "unat (slab_count h0)"
  have k: "3 \<le> ?k" "?k < ?n + 3" "?k - 3 < ?n" using slab_class_bounds(1) [OF c(1)] c(4) f(4) by auto
  from f(7) [OF k(3)] c(5,6) k(1) obtain as where as: "fl ?k = unat p # as" "chain mem (rd64 mem (unat p)) as"
    by (cases "fl ?k") auto
  let ?fl = "fl(?k := as)"
  have "pool_blocks ?n ((p, sz) # live) ?fl = mset bs"
    using f(5) free_blocks_pop [where fl = fl, OF k(1,2) as(1)] by (simp add: pool_blocks_def)
  moreover have "chain mem ((slabs h)[?k - 3 := rd64 mem (unat p)] ! j) (?fl (j + 3))" if "j < ?n" for j
    using f(7) [OF that] as(2) k that f(4) by (auto simp: nth_list_update)
  moreover have "unat (remainsize h - push_bit ?k 1) + live_size ((p, sz) # live) = unat (totalsize h0)"
    using remain_sub [OF c(2,3)] c(3) f(8) by (simp add: live_size_Cons)
  moreover have "live_ok ?n ((p, sz) # live)" using f(10) c(1,2) k(2) by (simp add: live_ok_def)
  ultimately have "pool_inv h0 (h\<lparr>remainsize := remainsize h - push_bit ?k 1,
      slabs := (slabs h)[?k - 3 := rd64 mem (unat p)]\<rparr>, mem, (p, sz) # live) ?fl bs"
    using f(1-6,9) by (intro pool_invI) simp_all
  then show ?thesis by blast
qed

lemma live_class_size:
  "class_size k (mset (map live_block live)) \<le> live_size live"
proof (induction live)
  case (Cons x live)
  then show ?case by (cases x) (auto simp: class_size_def live_size_def)
qed (simp add: class_size_def live_size_def)

lemma class_size_plus: "class_size k (A + B) = class_size k A + class_size k B"
  by (simp add: class_size_def distrib_left)

lemma class_free_empty:
  assumes "fl k = []"
  shows "class_size k (free_blocks n fl) = 0"
proof -
  have "filter_mset (\<lambda>(_, l). l = k) (\<Sum>j \<in> A. image_mset (\<lambda>a. (a, j)) (mset (fl j))) = {#}" if "finite A" for A
    using that
  proof (induction A)
    case (insert j A)
    then show ?case using assms by (cases "j = k") (simp_all add: filter_mset_image_mset comp_def)
  qed simp
  from this [of "{3..<n + 3}"] show ?thesis by (simp only: class_size_def free_blocks_def finite_atLeastLessThan) simp
qed

lemma bump_inv:
  assumes inv: "pool_inv h0 (h, mem, live) fl bs" and fits: "pool_fits h0"
    and c: "sz \<noteq> 0" "slab_class sz < 64" "2 ^ slab_class sz \<le> unat (remainsize h)"
      "slab_class sz - 3 < length (slabs h)" "slabs h ! (slab_class sz - 3) = 0"
  shows "pool_inv h0 (h\<lparr>remainsize := remainsize h - push_bit (slab_class sz) 1, rvaddr := rvaddr h + push_bit (slab_class sz) 1\<rparr>,
      mem, (rvaddr h, sz) # live) fl (bs @ [(unat (rvaddr h), slab_class sz)])"
proof -
  note f = pool_invD [OF inv]
  let ?k = "slab_class sz" and ?n = "unat (slab_count h0)" and ?R = "unat (rvaddr h)"
  let ?bs = "bs @ [(?R, ?k)]"
  have k: "3 \<le> ?k" "?k < ?n + 3" "?k - 3 < ?n" using slab_class_bounds(1) [OF c(1)] c(4) f(4) by auto
  have emp: "fl ?k = []" using f(7) [OF k(3)] c(5) k(1) by (cases "fl ?k") auto
  have ms: "mset ?bs = pool_blocks ?n ((rvaddr h, sz) # live) fl" using f(5) by (simp add: pool_blocks_def)
  have rs: "unat (remainsize h - push_bit ?k 1) + live_size ((rvaddr h, sz) # live) = unat (totalsize h0)"
    using remain_sub [OF c(2,3)] c(3) f(8) by (simp add: live_size_Cons)
  have cl: "class_size j (mset ?bs) \<le> unat (totalsize h0)" for j
  proof (cases "j = ?k")
    case True
    have "class_size ?k (mset ?bs) \<le> live_size ((rvaddr h, sz) # live)"
      unfolding ms pool_blocks_def class_size_plus class_free_empty [where fl = fl, OF emp] using live_class_size [of ?k "(rvaddr h, sz) # live"] by simp
    then show ?thesis unfolding True using rs by linarith
  next
    case False
    then show ?thesis using f(9) [of j] by (simp add: class_size_def)
  qed
  have "?R + 2 ^ ?k \<le> unat (svaddr h0) + 65 * unat (totalsize h0)"
    using pool_top [OF inv] c(3) f(8) by linarith
  then have "?R + 2 ^ ?k < 2 ^ 64" using fits unfolding pool_fits_def by linarith
  then have r: "unat (rvaddr h + push_bit ?k 1) = ?R + 2 ^ ?k"
    using unat_pow2 [OF c(2)] by (simp add: unat_word_ariths)
  then have "tiling (unat (svaddr h0)) ?bs (unat (rvaddr h + push_bit ?k 1))"
    using tiling_snoc [OF f(6), of ?k] by simp
  moreover have "live_ok ?n ((rvaddr h, sz) # live)" using f(10) c(1,2) k(2) by (simp add: live_ok_def)
  ultimately show ?thesis using f(1-4,7) ms rs cl by (intro pool_invI) simp_all
qed


lemma alloc_inv:
  assumes "pool_inv h0 (h, mem, live) fl bs" and "pool_fits h0"
    and "mempool_ctrl_alloc_default (Some h) mem sz = Some (Some h', p)" and "p \<noteq> 0"
  shows "\<exists>fl bs. pool_inv h0 (h', mem, (p, sz) # live) fl bs"
  using assms(3,4)
proof (cases rule: alloc_cases)
  case reuse
  then show ?thesis using reuse_inv [OF assms(1)] assms(4) by blast
next
  case bump
  then show ?thesis using bump_inv [OF assms(1,2)] by blast
qed

lemma alloc_fail_keeps:
  assumes "mempool_ctrl_alloc_default (Some h) mem sz = Some (Some h', 0)" and "rvaddr h \<noteq> 0"
  shows "h' = h"
  using assms by (auto simp: mempool_ctrl_alloc_default_def Let_def split: if_splits)

lemma free_inv:
  assumes inv: "pool_inv h0 (h, mem, live) fl bs" and fits: "pool_fits h0" and lv: "(p, sz) \<in> set live"
  shows "\<exists>h' mem'. mempool_ctrl_free_default (Some h) mem p sz = Some (Some h', mem') \<and>
    (\<exists>fl. pool_inv h0 (h', mem', remove1 (p, sz) live) fl bs)"
proof -
  note f = pool_invD [OF inv]
  let ?k = "slab_class sz" and ?n = "unat (slab_count h0)"
  have l: "sz \<noteq> 0" "?k < 64" "?k < ?n + 3" using live_okD [OF f(10) lv] by auto
  have k: "3 \<le> ?k" "?k - 3 < ?n" using slab_class_bounds(1) [OF l(1)] l(3) by auto
  have "(unat p, ?k) \<in># mset bs" using lv f(5) by (force simp: pool_blocks_def image_iff)
  then have rg: "unat (svaddr h0) \<le> unat p" "unat p + 2 ^ ?k \<le> unat (rvaddr h)"
    using tiling_range [OF f(6)] by auto
  have "unat (rvaddr h) + unat (totalsize h0) < 2 ^ 64"
    using pool_top [OF inv] fits unfolding pool_fits_def by linarith
  then have guard: "\<not> (p < svaddr h \<or> p > rvaddr h + totalsize h)"
    using rg f(1,2) by (simp add: word_less_nat_alt unat_word_ariths)
  let ?h = "h\<lparr>slabs := (slabs h)[?k - 3 := p], remainsize := remainsize h + push_bit ?k 1\<rparr>"
  let ?mem = "wr64 mem (unat p) (slabs h ! (?k - 3))" and ?live = "remove1 (p, sz) live"
  have run: "mempool_ctrl_free_default (Some h) mem p sz = Some (Some ?h, ?mem)"
    using guard l k f(4) by (simp add: mempool_ctrl_free_default_def Let_def class_64 class_slot flip: slab_class_def)
  let ?fl = "fl(?k := unat p # fl ?k)"
  have fb: "free_blocks ?n ?fl = add_mset (unat p, ?k) (free_blocks ?n fl)"
    using free_blocks_pop [of ?k ?n ?fl "unat p" "fl ?k"] k(1) l(3) by simp
  have "mset live = add_mset (p, sz) (mset ?live)" using lv by simp
  then have "mset (map live_block live) = add_mset (unat p, ?k) (mset (map live_block ?live))"
    by (simp only: mset_map image_mset_add_mset live_block.simps)
  then have ms: "mset bs = pool_blocks ?n ?live ?fl" using f(5) fb by (simp add: pool_blocks_def)
  have "live_size live = 2 ^ ?k + live_size ?live"
    using lv sum_list_map_remove1 [of "(p, sz)" live "\<lambda>b. 2 ^ snd (live_block b) :: nat"] by (simp add: live_size_def)
  then have sum: "unat (remainsize h) + 2 ^ ?k + live_size ?live = unat (totalsize h0)" using f(8) by simp
  have "unat (totalsize h0) < 2 ^ LENGTH(64)" by (rule unsigned_less)
  then have "unat (remainsize h) + 2 ^ ?k < 18446744073709551616" using sum by simp
  then have rs: "unat (remainsize h + push_bit ?k 1) + live_size ?live = unat (totalsize h0)"
    using sum unat_pow2 [OF l(2)] by (simp add: unat_word_ariths)
  have other: "chain ?mem q (fl (j + 3)) = chain mem q (fl (j + 3))" if "j < ?n" for j q
  proof (rule chain_cong)
    fix a i
    assume a: "a \<in> set (fl (j + 3))" "a \<le> i" "i < a + 8"
    have "unat p + 2 ^ ?k \<le> a \<or> a + 8 \<le> unat p"
      using live_free_apart [OF inv lv, of a "j + 3"] a(1) that by simp
    moreover have "(8 :: nat) \<le> 2 ^ ?k" using power_increasing [OF k(1), of "2 :: nat"] by simp
    ultimately show "?mem i = mem i" using a by (intro wr64_apply_other) linarith
  qed
  have p0: "p \<noteq> 0" using rg(1) fits by (auto simp: pool_fits_def unat_eq_zero)
  have ch: "chain ?mem ((slabs h)[?k - 3 := p] ! j) (?fl (j + 3))" if j: "j < ?n" for j
  proof (cases "j + 3 = ?k")
    case True
    then have jk: "?k - 3 = j" by simp
    then show ?thesis unfolding jk using True f(7) [OF j] other [OF j, unfolded jk] p0 j f(4) by (simp add: bytes_simps)
  next
    case False
    then show ?thesis using f(7) [OF j] other [OF j] k(1) by (auto simp: nth_list_update)
  qed
  have "live_ok ?n ?live" using f(10) set_remove1_subset [of "(p, sz)" live] by (auto simp: live_ok_def)
  then have "pool_inv h0 (?h, ?mem, ?live) ?fl bs"
    using f(1-4,6,9) ms rs ch by (intro pool_invI) simp_all
  then show ?thesis using run by blast
qed

lemma store_inv:
  assumes inv: "pool_inv h0 (h, mem, live) fl bs" and st: "\<And>i. \<not> in_live live i \<Longrightarrow> mem' i = mem i"
  shows "pool_inv h0 (h, mem', live) fl bs"
proof -
  note f = pool_invD [OF inv]
  have "chain mem' q (fl (j + 3)) = chain mem q (fl (j + 3))" if "j < unat (slab_count h0)" for j q
  proof (rule chain_cong)
    fix a i
    assume a: "a \<in> set (fl (j + 3))" "a \<le> i" "i < a + 8"
    have "\<not> in_live live i"
    proof
      assume "in_live live i"
      then obtain p sz where p: "(p, sz) \<in> set live" "unat p \<le> i" "i < unat p + unat sz" by (auto simp: in_live_def)
      then have "i < unat p + 2 ^ slab_class sz" using slab_class_bounds(3) [of sz] live_okD [OF f(10) p(1)] by linarith
      then show False using live_free_apart [OF inv p(1), of a "j + 3"] a p(2) that by auto
    qed
    then show "mem' i = mem i" by (rule st)
  qed
  then show ?thesis using f by (intro pool_invI) simp_all
qed

lemma rv_nonzero:
  assumes "pool_inv h0 (h, mem, live) fl bs" and "pool_fits h0"
  shows "rvaddr h \<noteq> 0"
  using tiling_le [OF pool_invD(6) [OF assms(1)]] assms(2) by (auto simp: pool_fits_def unat_eq_zero)

lemma pool_step_inv:
  assumes "pool_step s s'" and "pool_inv h0 s fl bs" and "pool_fits h0"
  shows "\<exists>fl bs. pool_inv h0 s' fl bs"
  using assms(1)
proof (cases rule: pool_step.cases)
  case (alloc h mem sz h' p live)
  from alloc_inv [OF assms(2) [unfolded alloc(1)] assms(3) alloc(3,4)] show ?thesis unfolding alloc(2) .
next
  case (alloc_fails h mem sz h' live)
  from alloc_fail_keeps [OF alloc_fails(3) rv_nonzero [OF assms(2) [unfolded alloc_fails(1)] assms(3)]]
  show ?thesis using assms(2) alloc_fails(1,2) by blast
next
  case (free p sz live h mem h' mem')
  from free_inv [OF assms(2) [unfolded free(1)] assms(3) free(3)] free(4) show ?thesis unfolding free(2) by auto
next
  case (store live mem' mem h)
  from store_inv [OF assms(2) [unfolded store(1)] store(3)] show ?thesis unfolding store(2) by blast
qed


lemma pool_reach_inv:
  assumes "pool_step\<^sup>*\<^sup>* (h0, mem, []) s" and "pool_fits h0" and "length (slabs h0) = unat (slab_count h0)"
    and "\<forall>q \<in> set (slabs h0). q = 0" and "rvaddr h0 = svaddr h0" and "remainsize h0 = totalsize h0"
  shows "\<exists>fl bs. pool_inv h0 s fl bs"
  using assms(1)
proof (induction rule: rtranclp_induct)
  case base
  have "pool_inv h0 (h0, mem, []) (\<lambda>_. []) []"
    using assms(3-6) by (intro pool_invI) (simp_all add: pool_blocks_def free_blocks_def live_size_def class_size_def live_ok_def)
  then show ?case by blast
next
  case (step s s')
  then show ?case using pool_step_inv [OF step.hyps(2) _ assms(2)] by blast
qed

lemma init_ok:
  assumes "mempool_ctrl_init p vaddr sz n NULL NULL = Some h" and "unat n < 2 ^ 60"
  shows "length (slabs h) = unat (slab_count h)" and "\<forall>q \<in> set (slabs h). q = 0"
    and "rvaddr h = svaddr h" and "remainsize h = totalsize h" and "slab_count h = n"
    and "svaddr h = vaddr" and "totalsize h = sz"
proof -
  have "unat (80 + n * 8) = 80 + unat n * 8" using assms(2) by (simp add: unat_word_ariths)
  then show "length (slabs h) = unat (slab_count h)" "\<forall>q \<in> set (slabs h). q = 0" "rvaddr h = svaddr h"
      "remainsize h = totalsize h" "slab_count h = n" "svaddr h = vaddr" "totalsize h = sz"
    using assms(1) by (auto simp: mempool_ctrl_init_def Let_def split: if_splits)
qed

text \<open>
  (C21) Live blocks never overlap.  In every state a client reaches from a fresh pool by allocating, by
  freeing live blocks with their size and by storing into live blocks: the live blocks are
  pairwise disjoint, each is at least as large as asked for and lies between the start of the pool
  and \<open>rvaddr\<close>, and \<open>remainsize\<close> is the size of the pool less the sizes of the live blocks.
\<close>

theorem slab_live_disjoint:
  assumes "mempool_ctrl_init q vaddr tsz n NULL NULL = Some h0" and "unat n < 2 ^ 60" and "pool_fits h0"
    and "pool_step\<^sup>*\<^sup>* (h0, mem, []) (h, mem', live)"
  shows "(\<forall>i j. i < j \<longrightarrow> j < length live \<longrightarrow>
        before (live_block (live ! i)) (live_block (live ! j)) \<or> before (live_block (live ! j)) (live_block (live ! i))) \<and>
     (\<forall>(p, sz) \<in> set live. unat vaddr \<le> unat p \<and> unat p + 2 ^ slab_class sz \<le> unat (rvaddr h) \<and> unat sz \<le> 2 ^ slab_class sz) \<and>
     unat (remainsize h) + live_size live = unat tsz"
proof -
  note i = init_ok [OF assms(1,2)]
  obtain fl bs where inv: "pool_inv h0 (h, mem', live) fl bs"
    using pool_reach_inv [OF assms(4,3) i(1-4)] by blast
  note f = pool_invD [OF inv] and srt = tiling_sorted [OF pool_invD(6) [OF inv]]
  have sub: "mset (map live_block live) \<subseteq># mset bs" unfolding f(5) pool_blocks_def by simp
  have mem: "live_block b \<in> set bs" if "b \<in> set live" for b using mset_subset_eqD [OF sub] that by auto
  obtain fs where "mset fs = free_blocks (unat (slab_count h0)) fl" by (meson ex_mset)
  then have "mset (map live_block live @ fs) = mset bs" using f(5) by (simp add: pool_blocks_def)
  then have "distinct (map live_block live @ fs)"
    using mset_eq_imp_distinct_iff sorted_before_distinct [OF srt] by blast
  then have dist: "distinct (map live_block live)" by simp
  have 1: "before (live_block (live ! i)) (live_block (live ! j)) \<or> before (live_block (live ! j)) (live_block (live ! i))"
    if "i < j" "j < length live" for i j
  proof (rule sorted_before_apart [OF srt mem mem])
    show "live_block (live ! i) \<noteq> live_block (live ! j)"
      using nth_eq_iff_index_eq [OF dist, of i j] that by simp
  qed (use that in simp_all)
  have 2: "unat vaddr \<le> unat p \<and> unat p + 2 ^ slab_class sz \<le> unat (rvaddr h) \<and> unat sz \<le> 2 ^ slab_class sz"
    if "(p, sz) \<in> set live" for p sz
    using tiling_range [OF f(6)] mem [OF that] slab_class_bounds(3) live_okD [OF f(10) that] i(6) by auto
  show ?thesis using 1 2 f(8) i(7) by auto
qed


datatype pool_op = PAlloc u64 | PFree nat

fun pool_run :: "pool_op list \<Rightarrow> pool \<Rightarrow> pool option" where
  "pool_run [] s = Some s"
| "pool_run (PAlloc sz # ops) (h, mem, live) =
     (case mempool_ctrl_alloc_default (Some h) mem sz of
        Some (Some h', p) \<Rightarrow> pool_run ops (h', mem, if p = 0 then live else (p, sz) # live)
      | _ \<Rightarrow> None)"
| "pool_run (PFree i # ops) (h, mem, live) =
     (if i < length live
      then case mempool_ctrl_free_default (Some h) mem (fst (live ! i)) (snd (live ! i)) of
          Some (Some h', mem') \<Rightarrow> pool_run ops (h', mem', remove1 (live ! i) live)
        | _ \<Rightarrow> None
      else None)"

lemma pool_run_reach: "pool_run ops s = Some s' \<Longrightarrow> pool_step\<^sup>*\<^sup>* s s'"
proof (induction ops s rule: pool_run.induct)
  case (2 sz ops h mem live)
  then obtain h' p where a: "mempool_ctrl_alloc_default (Some h) mem sz = Some (Some h', p)"
    by (auto split: option.splits)
  then have "pool_step (h, mem, live) (h', mem, if p = 0 then live else (p, sz) # live)"
    by (auto intro: pool_step.alloc pool_step.alloc_fails)
  moreover have "pool_step\<^sup>*\<^sup>* (h', mem, if p = 0 then live else (p, sz) # live) s'"
    using 2 a by simp
  ultimately show ?case by (rule converse_rtranclp_into_rtranclp)
next
  case (3 i ops h mem live)
  then obtain h' mem' where a: "mempool_ctrl_free_default (Some h) mem (fst (live ! i)) (snd (live ! i)) = Some (Some h', mem')"
    by (auto split: option.splits if_splits)
  moreover have i: "i < length live" using 3 by (auto split: if_splits)
  ultimately have "pool_step (h, mem, live) (h', mem', remove1 (live ! i) live)"
    using pool_step.free [of "fst (live ! i)" "snd (live ! i)" live h mem h' mem'] by simp
  moreover have "pool_step\<^sup>*\<^sup>* (h', mem', remove1 (live ! i) live) s'"
    using 3 a i by simp
  ultimately show ?case by (rule converse_rtranclp_into_rtranclp)
qed simp

definition pool_example :: mempool_ctrl where
  "pool_example = the (mempool_ctrl_init 1 4096 64 3 NULL NULL)"

lemma pool_example_ok: "mempool_ctrl_init 1 4096 64 3 NULL NULL = Some pool_example" "pool_fits pool_example"
  by (simp_all add: pool_example_def mempool_ctrl_init_def pool_fits_def)

lemma class_values:
  "get_real_size_bits 8 = 3" "get_real_size_bits 10 = 4" "get_real_size_bits 5 = 3" "get_real_size_bits 16 = 4"
  "get_real_size_bits 64 = 6"
  by (simp_all add: get_real_size_bits_def ulog2l_def ulog2_def Let_def b2w_def)

lemma replicate_3: "replicate 3 x = [x, x, x]"
  by (simp add: eval_nat_numeral)

lemmas pool_exec = pool_example_def mempool_ctrl_init_def mempool_ctrl_alloc_default_def mempool_ctrl_free_default_def
  class_values replicate_3 Let_def

theorem slab_live_disjoint_witness:
  "\<exists>h mem. pool_run [PAlloc 8, PAlloc 10, PFree 1, PAlloc 5] (pool_example, \<lambda>_. 0, []) = Some (h, mem, [(4096, 5), (4104, 10)]) \<and>
     before (live_block (4096, 5)) (live_block (4104, 10)) \<and> unat (remainsize h) + live_size [(4096, 5), (4104, 10)] = 64"
proof -
  obtain h mem where r: "pool_run [PAlloc 8, PAlloc 10, PFree 1, PAlloc 5] (pool_example, \<lambda>_. 0, []) = Some (h, mem, [(4096, 5), (4104, 10)])"
    by (simp add: pool_exec bytes_simps)
  have n: "unat (3 :: u64) < 2 ^ 60" by simp
  from slab_live_disjoint [OF pool_example_ok(1) n pool_example_ok(2) pool_run_reach [OF r]] r
  show ?thesis by (simp add: slab_class_def class_values)
qed

text \<open>
  A pool hands out memory behind its end.  \<open>remainsize\<close> counts blocks on the free lists of every
  size, but a request that finds the list of its own size empty is served at \<open>rvaddr\<close>: after a
  pool of 16 bytes was filled with two blocks of 8 bytes and these were freed, a request for 16
  bytes returns the first address behind the pool.
\<close>

theorem slab_overruns_pool:
  "\<exists>h0 h mem. mempool_ctrl_init 1 4096 16 3 NULL NULL = Some h0 \<and>
     pool_step\<^sup>*\<^sup>* (h0, \<lambda>_. 0, []) (h, mem, [(4096 + 16, 16)])"
proof -
  let ?ops = "[PAlloc 8, PAlloc 8, PFree 0, PFree 0, PAlloc 16]"
  obtain h0 where h0: "mempool_ctrl_init 1 4096 16 3 NULL NULL = Some h0" "h0 = pool_example\<lparr>totalsize := 16, remainsize := 16\<rparr>"
    by (simp add: pool_exec)
  have "\<exists>h mem. pool_run ?ops (h0, \<lambda>_. 0, []) = Some (h, mem, [(4096 + 16, 16)])"
    unfolding h0(2) by (simp add: pool_exec)
  then show ?thesis using h0(1) pool_run_reach by blast
qed

text \<open>
  The guard of the size classes lets the class behind the last one pass: a pool that has room for a
  block of \<open>2 ^ (slab_count + 3)\<close> bytes reads \<open>slabs\<close> behind its end when asked for one.
\<close>

theorem slab_guard_off_by_one:
  assumes "sz \<noteq> 0" and "slab_class sz = unat (slab_count h) + 3" and "slab_class sz < 64"
    and "length (slabs h) = unat (slab_count h)" and "2 ^ slab_class sz \<le> unat (remainsize h)"
  shows "mempool_ctrl_alloc_default (Some h) mem sz = None"
proof -
  have "\<not> push_bit (slab_class sz) 1 > remainsize h"
    using unat_pow2 [OF assms(3)] assms(5) by (simp add: word_less_nat_alt not_less)
  moreover have "\<not> get_real_size_bits sz - 3 > slab_count h"
    using class_slot [OF assms(1)] assms(2) by (simp add: word_less_nat_alt)
  ultimately show ?thesis
    using assms class_slot [OF assms(1)]
    by (simp add: mempool_ctrl_alloc_default_def Let_def class_64 flip: slab_class_def)
qed

theorem slab_guard_off_by_one_witness:
  "mempool_ctrl_alloc_default (Some pool_example) (\<lambda>_. 0) 64 = None"
  by (rule slab_guard_off_by_one) (simp_all add: pool_exec slab_class_def)

end
