(* ===== verification/Bitmap.thy ===== *)
theory Bitmap
  imports Interfaces
begin

text \<open>
  \<open>userfs/bitmap.c\<close>: the bit allocator behind the metadata blocks of the super block and the
  data blocks of every block group.

  A \<open>bitmap_t\<close> ends in a flexible array member, and the code embeds it at the end of larger
  structures.  The model keeps the bytes from that member to the end of the enclosing
  allocation: \<open>bytes\<close> is the logical size the code stores, \<open>avail\<close> the number of bytes that may
  be accessed at all.  An access at or past \<open>avail\<close> is undefined behaviour (\<open>None\<close>).

  The results: with one clear guard bit behind the map, \<open>bitmap_get_first_free\<close> is a correct
  first-fit allocator (interpretation of \<open>slot_allocator\<close>); without that guard the allocation of
  the last free bit reads past the object; \<open>bitmap_clear\<close> never clears a bit.
\<close>

section \<open>Data and operations\<close>

record bitmap_t =
  bytes :: u32
  used_bits_count :: u32
  first_free_pos :: u32
  bitmap :: "nat \<Rightarrow> u8"
  avail :: nat

abbreviation BITMAP_MAX_BYTES :: u32 where
  "BITMAP_MAX_BYTES \<equiv> 256"

definition bm_rd :: "bitmap_t \<Rightarrow> nat \<Rightarrow> u8 option" where
  "bm_rd b i = (if i < avail b then Some (bitmap b i) else None)"

definition bm_wr :: "bitmap_t \<Rightarrow> nat \<Rightarrow> u8 \<Rightarrow> bitmap_t" where
  "bm_wr b i v = b\<lparr>bitmap := (bitmap b)(i := v)\<rparr>"

definition bm_idx :: "u32 \<Rightarrow> nat" where
  "bm_idx pos = unat (drop_bit 3 pos)"

definition bm_sh :: "u32 \<Rightarrow> nat" where
  "bm_sh pos = unat (pos AND 7)"

definition bitmap_init :: "bitmap_t \<Rightarrow> u32 \<Rightarrow> bitmap_t option" where
  "bitmap_init b n =
     (if unat n \<le> avail b
      then Some (b\<lparr>bytes := n, bitmap := (\<lambda>i. if i < unat n then 0 else bitmap b i),
                   used_bits_count := 0, first_free_pos := 0\<rparr>)
      else None)"

text \<open>\<open>mem\<close> is what \<open>malloc\<close> returns: nothing, or an object with arbitrary contents.\<close>

definition bitmap_create :: "bitmap_t option \<Rightarrow> u32 \<Rightarrow> bitmap_t option option" where
  "bitmap_create mem n =
     (if n > BITMAP_MAX_BYTES then Some None
      else case mem of
        None \<Rightarrow> Some None
      | Some bm \<Rightarrow> map_option Some (bitmap_init (bm\<lparr>avail := unat n\<rparr>) n))"

text \<open>\<open>bitmap_destroy\<close>: what is left of the object; \<open>free\<close> leaves nothing.\<close>

definition bitmap_destroy :: "bitmap_t option \<Rightarrow> bitmap_t option" where
  "bitmap_destroy bp = (case bp of None \<Rightarrow> None | Some b \<Rightarrow> None)"

definition bitmap_set_val :: "bitmap_t option \<Rightarrow> u32 \<Rightarrow> u8 \<Rightarrow> (bitmap_t option \<times> int) option" where
  "bitmap_set_val bp pos val =
     (case bp of
        None \<Rightarrow> Some (None, -1)
      | Some b \<Rightarrow>
          if pos > push_bit 3 (bytes b) then Some (Some b, -1)
          else do {
            x \<leftarrow> bm_rd b (bm_idx pos);
            Some (Some (bm_wr b (bm_idx pos) (x OR push_bit (bm_sh pos) val)), 0)
          })"

definition bitmap_clear :: "bitmap_t option \<Rightarrow> u32 \<Rightarrow> (bitmap_t option \<times> int) option" where
  "bitmap_clear bp pos = do {
     b \<leftarrow> bp;
     x \<leftarrow> bm_rd b (bm_idx pos);
     let x' = x OR push_bit (bm_sh pos) 0;
     let b = bm_wr b (bm_idx pos) x';
     if x' = 0 then Some (Some b, -1)
     else do {
       let b = b\<lparr>used_bits_count := used_bits_count b - 1\<rparr>;
       let b = (if first_free_pos b > pos then b\<lparr>first_free_pos := pos\<rparr> else b);
       bitmap_set_val (Some b) pos 0
     }
   }"

definition bitmap_set :: "bitmap_t option \<Rightarrow> u32 \<Rightarrow> (bitmap_t option \<times> int) option" where
  "bitmap_set bp pos = do {
     b \<leftarrow> bp;
     x \<leftarrow> bm_rd b (bm_idx pos);
     let x' = x OR push_bit (bm_sh pos) 1;
     let b = bm_wr b (bm_idx pos) x';
     if x' = 0 then Some (Some b, -1)
     else bitmap_set_val (Some (b\<lparr>used_bits_count := used_bits_count b + 1\<rparr>)) pos 1
   }"

text \<open>
  The scan of \<open>bitmap_get_first_free\<close>.  Its loop condition is the comma expression
  \<open>pos < bitmap->bytes << 3, BITMAP_POS_ISNULL(...)\<close>, whose value is the second operand alone:
  the bound is evaluated and discarded.  The \<open>int\<close> position would overflow at \<open>2 ^ 31\<close>.
\<close>

function bm_scan :: "bitmap_t \<Rightarrow> nat \<Rightarrow> nat option" where
  "bm_scan b pos =
     (if pos \<ge> 2 ^ 31 then None
      else if pos div 8 \<ge> avail b then None
      else if bitmap b (pos div 8) AND push_bit (pos mod 8) 1 \<noteq> 0 then bm_scan b (Suc pos)
      else Some pos)"
  by pat_completeness auto
termination
  by (relation "measure (\<lambda>(b, pos). 2 ^ 31 - pos)") (auto intro!: diff_less_mono2)

declare bm_scan.simps [simp del]

definition bitmap_get_first_free :: "bitmap_t option \<Rightarrow> (bitmap_t option \<times> int) option" where
  "bitmap_get_first_free bp =
     (case bp of
        None \<Rightarrow> Some (None, -1)
      | Some b \<Rightarrow>
          (let first_pos = first_free_pos b in
           if first_pos = push_bit 3 (bytes b) then Some (Some b, -1)
           else do {
             (bp, _) \<leftarrow> bitmap_set (Some b) first_pos;
             b \<leftarrow> bp;
             if push_bit 3 (bytes b) = 0 then None
             else do {
               pos \<leftarrow> bm_scan b (unat ((first_pos + 1) mod push_bit 3 (bytes b)));
               Some (Some (b\<lparr>first_free_pos := of_nat pos\<rparr>), sint first_pos)
             }
           }))"

section \<open>Bits as a predicate on positions\<close>

definition bm_test :: "bitmap_t \<Rightarrow> nat \<Rightarrow> bool" where
  "bm_test b p = bit (bitmap b (p div 8)) (p mod 8)"

definition bm_bits :: "bitmap_t \<Rightarrow> nat" where
  "bm_bits b = 8 * unat (bytes b)"

definition bm_used :: "bitmap_t \<Rightarrow> nat set" where
  "bm_used b = {p. p < bm_bits b \<and> bm_test b p}"

lemma bm_used_filter: "bm_used b = set (filter (bm_test b) [0..<bm_bits b])"
  by (auto simp: bm_used_def)

lemma bm_idx_div: "bm_idx pos = unat pos div 8"
  by (simp add: bm_idx_def unat_drop_bit_div)

lemma bm_sh_mod: "bm_sh pos = unat pos mod 8"
proof -
  have "pos AND 7 = take_bit 3 pos"
    by (simp add: take_bit_eq_mask mask_eq_exp_minus_1)
  then show ?thesis
    by (simp add: bm_sh_def unsigned_take_bit_eq take_bit_eq_mod unat_mod_distrib)
qed

lemma and_one_bit: "((x :: u8) AND 2 ^ k \<noteq> 0) \<longleftrightarrow> k < 8 \<and> bit x k"
proof
  assume "x AND 2 ^ k \<noteq> 0"
  then obtain n where "bit (x AND 2 ^ k) n"
    by (auto simp: bit_eq_iff)
  then show "k < 8 \<and> bit x k"
    by (auto simp: bit_simps)
next
  assume "k < 8 \<and> bit x k"
  then have "bit (x AND 2 ^ k) k"
    by (simp add: bit_simps)
  then show "x AND 2 ^ k \<noteq> 0"
    by auto
qed

lemma or_one_bit: "k < 8 \<Longrightarrow> bit ((x :: u8) OR 2 ^ k) n \<longleftrightarrow> bit x n \<or> n = k"
  by (auto simp: bit_simps)

lemma or_one_nonzero: "k < 8 \<Longrightarrow> (x :: u8) OR 2 ^ k \<noteq> 0"
  using or_one_bit [of k x k] by auto

section \<open>What each operation does to the bits\<close>

lemma bm_test_wr_or:
  assumes "k < 8"
  shows "bm_test (bm_wr b i (bitmap b i OR push_bit k 1)) p \<longleftrightarrow> bm_test b p \<or> p = 8 * i + k"
proof (cases "p div 8 = i")
  case True
  then have "p = 8 * i + k \<longleftrightarrow> p mod 8 = k"
    using assms by (metis add.commute div_mod_decomp mult.commute add_left_cancel)
  then show ?thesis
    using True assms by (simp add: bm_test_def bm_wr_def or_one_bit)
next
  case False
  then have "p \<noteq> 8 * i + k" using assms by auto
  then show ?thesis using False by (simp add: bm_test_def bm_wr_def)
qed

lemma push_bit_3_bits:
  assumes "bm_bits b < 2 ^ 32"
  shows "unat (push_bit 3 (bytes b)) = bm_bits b"
  using assms by (simp add: bm_bits_def push_bit_eq_mult unat_word_ariths)

lemma bitmap_set_Some:
  assumes bits: "bm_bits b < 2 ^ 32" and pos: "unat pos \<le> bm_bits b"
    and acc: "unat pos div 8 < avail b"
  obtains b' where "bitmap_set (Some b) pos = Some (Some b', 0)"
    and "\<And>p. bm_test b' p \<longleftrightarrow> bm_test b p \<or> p = unat pos"
    and "bytes b' = bytes b" and "avail b' = avail b"
    and "first_free_pos b' = first_free_pos b"
    and "used_bits_count b' = used_bits_count b + 1"
proof -
  let ?i = "unat pos div 8" and ?k = "unat pos mod 8"
  let ?b1 = "bm_wr b ?i (bitmap b ?i OR push_bit ?k 1)"
  let ?b2 = "?b1\<lparr>used_bits_count := used_bits_count ?b1 + 1\<rparr>"
  let ?b3 = "bm_wr ?b2 ?i (bitmap ?b2 ?i OR push_bit ?k 1)"
  have le: "\<not> pos > push_bit 3 (bytes b)"
    using pos push_bit_3_bits [OF bits] by (simp add: word_less_nat_alt)
  have "bitmap_set (Some b) pos = Some (Some ?b3, 0)"
    using le acc by (simp add: bitmap_set_def bitmap_set_val_def bm_rd_def bm_idx_div
        bm_sh_mod or_one_nonzero Let_def) (simp add: bm_wr_def)
  moreover have "bm_test ?b3 p \<longleftrightarrow> bm_test b p \<or> p = unat pos" for p
  proof -
    have "bm_test ?b3 p \<longleftrightarrow> bm_test ?b2 p \<or> p = 8 * ?i + ?k"
      by (rule bm_test_wr_or) simp
    also have "bm_test ?b2 p \<longleftrightarrow> bm_test ?b1 p"
      by (simp add: bm_test_def)
    also have "bm_test ?b1 p \<longleftrightarrow> bm_test b p \<or> p = 8 * ?i + ?k"
      by (rule bm_test_wr_or) simp
    finally show ?thesis by auto
  qed
  ultimately show thesis
    by (rule that) (simp_all add: bm_wr_def)
qed

lemma bm_scan_first:
  assumes "p \<le> q" and "\<And>r. p \<le> r \<Longrightarrow> r < q \<Longrightarrow> bm_test b r" and "\<not> bm_test b q"
    and "q div 8 < avail b" and "q < 2 ^ 31"
  shows "bm_scan b p = Some q"
  using assms(1,2)
proof (induction rule: inc_induct)
  case base
  then show ?case
    using assms(3,4,5) by (subst bm_scan.simps) (simp add: and_one_bit bm_test_def)
next
  case (step n)
  have "bm_test b n" using step.prems step.hyps by simp
  moreover have "n div 8 < avail b"
    using assms(4) step.hyps(2) by (meson div_le_mono le_less_trans less_imp_le)
  moreover have "bm_scan b (Suc n) = Some q"
    using step.prems by (intro step.IH) auto
  ultimately show ?case
    using step.hyps assms(5) by (subst bm_scan.simps) (simp add: and_one_bit bm_test_def)
qed

lemma bm_scan_runs_out:
  assumes "\<And>r. p \<le> r \<Longrightarrow> r div 8 < avail b \<Longrightarrow> bm_test b r"
  shows "bm_scan b p = None"
  using assms
proof (induction b p rule: bm_scan.induct)
  case (1 b pos)
  show ?case
  proof (cases "pos \<ge> 2 ^ 31 \<or> pos div 8 \<ge> avail b")
    case True
    then show ?thesis by (subst bm_scan.simps) auto
  next
    case False
    then have "bm_test b pos" using "1.prems" by simp
    with False "1.IH" "1.prems" show ?thesis
      by (subst bm_scan.simps) (simp add: and_one_bit bm_test_def)
  qed
qed

section \<open>First-fit allocation\<close>

text \<open>
  The invariant: the map fits an \<open>int\<close>, one more byte is accessible and its first bit (the guard)
  is clear, \<open>first_free_pos\<close> is the lowest clear bit, counting the guard, and
  \<open>used_bits_count\<close> counts the set ones.
\<close>

definition bm_inv :: "bitmap_t \<Rightarrow> bool" where
  "bm_inv b \<longleftrightarrow>
     bm_bits b < 2 ^ 31 \<and> unat (bytes b) < avail b \<and> \<not> bm_test b (bm_bits b) \<and>
     unat (first_free_pos b) \<le> bm_bits b \<and>
     (\<forall>p < unat (first_free_pos b). bm_test b p) \<and>
     \<not> bm_test b (unat (first_free_pos b)) \<and>
     used_bits_count b = of_nat (card (bm_used b))"

lemma bm_inv_code [code]:
  "bm_inv b \<longleftrightarrow>
     int (bm_bits b) < 2147483648 \<and> unat (bytes b) < avail b \<and> \<not> bm_test b (bm_bits b) \<and>
     unat (first_free_pos b) \<le> bm_bits b \<and>
     list_all (bm_test b) [0..<unat (first_free_pos b)] \<and>
     \<not> bm_test b (unat (first_free_pos b)) \<and>
     used_bits_count b = of_nat (length (filter (bm_test b) [0..<bm_bits b]))"
proof -
  have "card (bm_used b) = length (filter (bm_test b) [0..<bm_bits b])"
    unfolding bm_used_filter by (rule distinct_card) simp
  moreover have "(\<forall>p < n. bm_test b p) \<longleftrightarrow> list_all (bm_test b) [0..<n]" for n
    by (auto simp: list_all_iff)
  moreover have "bm_bits b < 2 ^ 31 \<longleftrightarrow> int (bm_bits b) < 2147483648"
    by simp
  ultimately show ?thesis
    unfolding bm_inv_def by simp
qed

lemma sint_small:
  assumes "unat (w :: u32) < 2 ^ 31"
  shows "sint w = int (unat w)"
proof -
  have "int (unat w) < int (2 ^ 31)" using assms by (simp only: of_nat_less_iff)
  then have "uint w < 2 ^ 31" by simp
  moreover have "- (2 ^ 31) \<le> uint w" by (rule order_trans [OF _ uint_ge_0]) simp
  ultimately show ?thesis
    by (simp add: signed_take_bit_int_eq_self sint_uint)
qed

lemma bm_used_bound: "bm_used b \<subseteq> {..<bm_bits b}"
  by (auto simp: bm_used_def)

lemma bm_used_full_iff:
  assumes "bm_inv b"
  shows "bm_used b = {..<bm_bits b} \<longleftrightarrow> unat (first_free_pos b) = bm_bits b"
  using assms unfolding bm_inv_def bm_used_def
  by (auto simp: set_eq_iff)

lemma bm_least_free:
  assumes "bm_inv b" and "unat (first_free_pos b) < bm_bits b"
  shows "(LEAST n. n \<notin> bm_used b) = unat (first_free_pos b)"
  using assms unfolding bm_inv_def bm_used_def
  by (intro Least_equality) (auto intro: leI)

lemma bm_next_free:
  assumes inv: "bm_inv b" and lt: "unat (first_free_pos b) < bm_bits b"
  obtains q where "unat (first_free_pos b) < q" and "q \<le> bm_bits b" and "\<not> bm_test b q"
    and "\<And>p. unat (first_free_pos b) < p \<Longrightarrow> p < q \<Longrightarrow> bm_test b p"
proof -
  let ?P = "\<lambda>q. unat (first_free_pos b) < q \<and> \<not> bm_test b q"
  have ex: "?P (bm_bits b)" using inv lt by (simp add: bm_inv_def)
  show thesis
  proof (rule that [of "LEAST q. ?P q"])
    show "unat (first_free_pos b) < (LEAST q. ?P q)" "\<not> bm_test b (LEAST q. ?P q)"
      using LeastI [of ?P, OF ex] by auto
    show "(LEAST q. ?P q) \<le> bm_bits b" using ex by (rule Least_le)
    show "bm_test b p" if "unat (first_free_pos b) < p" "p < (LEAST q. ?P q)" for p
      using not_less_Least [OF that(2)] that(1) by blast
  qed
qed

lemma bitmap_get_first_free_step:
  assumes inv: "bm_inv b" and lt: "unat (first_free_pos b) < bm_bits b"
  obtains b' where
    "bitmap_get_first_free (Some b) = Some (Some b', int (unat (first_free_pos b)))"
    and "\<And>p. bm_test b' p \<longleftrightarrow> bm_test b p \<or> p = unat (first_free_pos b)"
    and "bm_inv b'" and "bytes b' = bytes b" and "avail b' = avail b"
    and "unat (first_free_pos b) < unat (first_free_pos b')"
proof -
  let ?ff = "first_free_pos b" and ?n = "bm_bits b"
  have bits: "?n < 2 ^ 31" and av: "unat (bytes b) < avail b"
    using inv by (simp_all add: bm_inv_def)
  have n32: "bm_bits b < 2 ^ 32" using bits by simp
  have pb: "unat (push_bit 3 (bytes b)) = ?n"
    by (rule push_bit_3_bits [OF n32])
  have ne: "?ff \<noteq> push_bit 3 (bytes b)" "push_bit 3 (bytes b) \<noteq> 0"
    using pb lt by auto
  have acc: "unat ?ff div 8 < avail b"
    using lt av by (simp add: bm_bits_def)
  obtain b1 where b1: "bitmap_set (Some b) ?ff = Some (Some b1, 0)"
      and t1: "\<And>p. bm_test b1 p \<longleftrightarrow> bm_test b p \<or> p = unat ?ff"
      and f1: "bytes b1 = bytes b" "avail b1 = avail b" "first_free_pos b1 = ?ff"
        "used_bits_count b1 = used_bits_count b + 1"
    by (rule bitmap_set_Some [OF n32 less_imp_le [OF lt] acc]) (rule that)
  obtain q where q: "unat ?ff < q" "q \<le> ?n" "\<not> bm_test b q"
      "\<And>p. unat ?ff < p \<Longrightarrow> p < q \<Longrightarrow> bm_test b p"
    by (rule bm_next_free [OF inv lt]) (rule that)
  have below: "bm_test b1 p" if "p < q" for p
    using that q(4) inv t1 unfolding bm_inv_def by (metis linorder_neqE_nat)
  have start: "unat ((?ff + 1) mod push_bit 3 (bytes b)) \<le> q"
  proof -
    have "unat (?ff + 1) = Suc (unat ?ff)"
      using lt bits by (intro unat_Suc_word) simp
    then show ?thesis
      using q(1) by (simp add: unat_mod_distrib)
        (metis Suc_leI le_trans mod_less_eq_dividend)
  qed
  have scan: "bm_scan b1 (unat ((?ff + 1) mod push_bit 3 (bytes b))) = Some q"
  proof (rule bm_scan_first)
    show "\<not> bm_test b1 q" using q by (simp add: t1)
    show "q div 8 < avail b1" using q(2) av by (simp add: f1 bm_bits_def)
    show "q < 2 ^ 31" using q(2) bits by simp
  qed (use start below in auto)
  let ?b' = "b1\<lparr>first_free_pos := of_nat q\<rparr>"
  have uq: "unat (of_nat q :: u32) = q"
    using q(2) bits by (simp add: unat_of_nat)
  have test': "bm_test ?b' p \<longleftrightarrow> bm_test b1 p" for p
    by (simp add: bm_test_def)
  have bits': "bm_bits ?b' = ?n"
    by (simp add: bm_bits_def f1)
  have "bm_used ?b' = insert (unat ?ff) (bm_used b)"
    using lt by (auto simp: bm_used_def bits' test' t1)
  moreover have "unat ?ff \<notin> bm_used b"
    using inv by (simp add: bm_inv_def bm_used_def)
  ultimately have "card (bm_used ?b') = Suc (card (bm_used b))"
    using card_lessThan_minus_insert bm_used_bound by metis
  then have "bm_inv ?b'"
    using inv q below by (simp add: bm_inv_def bits' uq f1 test' t1)
  moreover have "bitmap_get_first_free (Some b) = Some (Some ?b', int (unat ?ff))"
    using b1 scan ne sint_small [of ?ff] lt bits
    by (simp add: bitmap_get_first_free_def f1)
  ultimately show thesis
    by (intro that [of ?b']) (use q(1) in \<open>simp_all add: test' t1 f1 uq\<close>)
qed

lemma bitmap_get_first_free_full:
  assumes "bm_inv b" and "unat (first_free_pos b) = bm_bits b"
  shows "bitmap_get_first_free (Some b) = Some (Some b, -1)"
proof -
  have "unat (push_bit 3 (bytes b)) = bm_bits b"
    using assms(1) by (intro push_bit_3_bits) (simp add: bm_inv_def)
  then show ?thesis
    using assms(2) by (simp add: bitmap_get_first_free_def word_unat_eq_iff)
qed

definition bmp_inv :: "bitmap_t option \<Rightarrow> bool" where
  "bmp_inv bp = (case bp of None \<Rightarrow> False | Some b \<Rightarrow> bm_inv b)"

definition bmp_used :: "bitmap_t option \<Rightarrow> nat set" where
  "bmp_used bp = (case bp of None \<Rightarrow> {} | Some b \<Rightarrow> bm_used b)"

definition bmp_cap :: "bitmap_t option \<Rightarrow> nat" where
  "bmp_cap bp = (case bp of None \<Rightarrow> 0 | Some b \<Rightarrow> bm_bits b)"

lemmas bmp_defs = bmp_inv_def bmp_used_def bmp_cap_def

interpretation bm: slot_allocator bitmap_get_first_free bmp_inv bmp_used bmp_cap
proof
  fix s :: "bitmap_t option"
  assume "bmp_inv s"
  then obtain b where s: "s = Some b" and inv: "bm_inv b"
    by (auto simp: bmp_defs split: option.splits)
  show "bmp_used s \<subseteq> {..<bmp_cap s}"
    by (simp add: s bmp_defs bm_used_bound)
  show "bitmap_get_first_free s = Some (s, - 1)" if "bmp_used s = {..<bmp_cap s}"
    using that inv bm_used_full_iff [OF inv]
    by (simp add: s bmp_defs bitmap_get_first_free_full)
  assume "bmp_used s \<noteq> {..<bmp_cap s}"
  with bm_used_full_iff [OF inv] inv have lt: "unat (first_free_pos b) < bm_bits b"
    by (auto simp: s bmp_defs bm_inv_def)
  obtain b' where b': "bitmap_get_first_free (Some b) = Some (Some b', int (unat (first_free_pos b)))"
      "\<And>p. bm_test b' p \<longleftrightarrow> bm_test b p \<or> p = unat (first_free_pos b)"
      "bm_inv b'" "bytes b' = bytes b"
    by (rule bitmap_get_first_free_step [OF inv lt]) (rule that)
  have "bm_used b' = insert (unat (first_free_pos b)) (bm_used b)"
    using lt by (auto simp: bm_used_def bm_bits_def b')
  then show "\<exists>s'. bitmap_get_first_free s = Some (s', int (LEAST n. n \<notin> bmp_used s)) \<and> bmp_inv s' \<and>
      bmp_used s' = insert (LEAST n. n \<notin> bmp_used s) (bmp_used s) \<and> bmp_cap s' = bmp_cap s"
    using b' bm_least_free [OF inv lt] by (simp add: s bmp_defs bm_bits_def)
qed

text \<open>
  A freshly initialised map satisfies the invariant as soon as one more byte is accessible
  behind it and that byte's first bit is clear.
\<close>

lemma bitmap_init_inv:
  assumes "8 * unat n < 2 ^ 31" and "unat n < avail b" and "\<not> bit (bitmap b (unat n)) 0"
  shows "\<exists>b'. bitmap_init b n = Some b' \<and> bm_inv b' \<and> bm_used b' = {} \<and> bytes b' = n"
proof -
  let ?b = "b\<lparr>bytes := n, bitmap := (\<lambda>i. if i < unat n then 0 else bitmap b i),
     used_bits_count := 0, first_free_pos := 0\<rparr>"
  have "bm_used ?b = {}"
    by (auto simp: bm_used_def bm_test_def bm_bits_def less_mult_imp_div_less mult.commute)
  moreover have "\<not> bm_test ?b 0"
    using assms(3) by (cases "n = 0") (simp_all add: bm_test_def unat_gt_0)
  ultimately have "bm_inv ?b"
    using assms by (simp add: bm_inv_def bm_bits_def bm_test_def)
  then show ?thesis
    using assms(2) \<open>bm_used ?b = {}\<close> by (simp add: bitmap_init_def)
qed

text \<open>
  (C15) First fit.  On a map whose guard bit is clear, \<open>bitmap_get_first_free\<close> never runs into
  undefined behaviour: it returns the lowest free bit and marks exactly that bit when one is
  free, and \<open>-1\<close> without changing the map when none is; the invariant is kept.
\<close>

theorem bitmap_first_fit:
  assumes "bm_inv b"
  shows "if bm_used b = {..<bm_bits b}
    then bitmap_get_first_free (Some b) = Some (Some b, -1)
    else \<exists>b'. bitmap_get_first_free (Some b) = Some (Some b', int (LEAST n. n \<notin> bm_used b)) \<and>
      bm_inv b' \<and> bm_used b' = insert (LEAST n. n \<notin> bm_used b) (bm_used b) \<and>
      bm_bits b' = bm_bits b"
proof (cases "bm_used b = {..<bm_bits b}")
  case True
  then show ?thesis
    using assms bm.alloc_full [of "Some b"] by (simp add: bmp_defs)
next
  case False
  then obtain s' where "bitmap_get_first_free (Some b) = Some (s', int (LEAST n. n \<notin> bm_used b))"
      "bmp_inv s'" "bmp_used s' = insert (LEAST n. n \<notin> bm_used b) (bm_used b)"
      "bmp_cap s' = bm_bits b"
    using assms bm.alloc_free [of "Some b"] by (auto simp: bmp_defs)
  then show ?thesis
    using False by (auto simp: bmp_defs split: option.splits)
qed

definition bm_example :: bitmap_t where
  "bm_example = \<lparr>bytes = 1, used_bits_count = 2, first_free_pos = 1,
     bitmap = (\<lambda>i. if i = 0 then 5 else 0), avail = 2\<rparr>"

lemma bm_example_used: "bm_used bm_example = {0, 2}"
proof -
  have "filter (bm_test bm_example) [0..<bm_bits bm_example] = [0, 2]" by code_simp
  then show ?thesis by (simp add: bm_used_filter)
qed

lemma bm_example_inv: "bm_inv bm_example"
  by code_simp

theorem bitmap_first_fit_witness:
  "\<exists>b'. bitmap_get_first_free (Some bm_example) = Some (Some b', 1) \<and> bm_used b' = {0, 1, 2}"
proof -
  have "(LEAST n. n \<notin> {0, 2 :: nat}) = 1"
    by (rule Least_equality) (auto intro: Suc_leI gr0I)
  moreover have "1 \<in> {..<bm_bits bm_example}" "1 \<notin> {0, 2 :: nat}"
    by (simp_all add: bm_bits_def bm_example_def)
  then have "{0, 2} \<noteq> {..<bm_bits bm_example}" by metis
  ultimately show ?thesis
    using bitmap_first_fit [OF bm_example_inv] by (auto simp: bm_example_used insert_commute)
qed

text \<open>
  A freshly initialised map of \<open>n\<close> bytes hands out every one of its \<open>8 n\<close> slots exactly once:
  \<open>k \<le> 8 n\<close> calls return \<open>k\<close> distinct slot numbers below \<open>8 n\<close>.
\<close>

theorem bitmap_init_alloc_distinct:
  assumes "8 * unat n < 2 ^ 31" and "unat n < avail b" and "\<not> bit (bitmap b (unat n)) 0"
    and "k \<le> 8 * unat n"
  shows "\<exists>b' s ns. bitmap_init b n = Some b' \<and>
    alloc_many bitmap_get_first_free k (Some b') = Some (s, map int ns) \<and>
    length ns = k \<and> distinct ns \<and> (\<forall>m \<in> set ns. m < 8 * unat n)"
proof -
  from bitmap_init_inv [OF assms(1-3)] obtain b' where
    b': "bitmap_init b n = Some b'" "bm_inv b'" "bm_used b' = {}" "bytes b' = n" by blast
  have "card (bmp_used (Some b')) + k \<le> bmp_cap (Some b')"
    using assms(4) by (simp add: bmp_defs b' bm_bits_def)
  with bm.alloc_many_distinct [of "Some b'" k] b'(2) obtain s ns where
    ns: "alloc_many bitmap_get_first_free k (Some b') = Some (s, map int ns)" "length ns = k"
      "distinct ns" "bmp_used s = set ns" "bmp_inv s" "bmp_cap s = 8 * unat n"
    by (auto simp: bmp_inv_def bmp_used_def bmp_cap_def bm_bits_def b')
  then have "set ns \<subseteq> {..<8 * unat n}"
    using bm.used_cap [of s] by simp
  with ns b' show ?thesis by blast
qed

theorem bitmap_init_alloc_distinct_witness:
  "\<exists>b' s ns. bitmap_init bm_example 1 = Some b' \<and>
    alloc_many bitmap_get_first_free 8 (Some b') = Some (s, map int ns) \<and>
    length ns = 8 \<and> distinct ns \<and> (\<forall>m \<in> set ns. m < 8)"
  using bitmap_init_alloc_distinct [of 1 bm_example 8] by (simp add: bm_example_def)

section \<open>Where the code departs from its intent\<close>

text \<open>
  (C33) The scan for the next free bit drops its bound (comma operator).  Without a clear guard
  bit behind the map, as in an object from \<open>bitmap_create\<close>, the call that takes the last free bit
  reads past the object.
\<close>

theorem bitmap_last_bit_overruns:
  assumes "bm_bits b < 2 ^ 31" and "avail b = unat (bytes b)"
    and "unat (first_free_pos b) < bm_bits b"
    and "\<forall>p < bm_bits b. p \<noteq> unat (first_free_pos b) \<longrightarrow> bm_test b p"
  shows "bitmap_get_first_free (Some b) = None"
proof -
  let ?ff = "first_free_pos b"
  have n32: "bm_bits b < 2 ^ 32" using assms(1) by simp
  have ne: "?ff \<noteq> push_bit 3 (bytes b)" "push_bit 3 (bytes b) \<noteq> 0"
    using push_bit_3_bits [OF n32] assms(3) by auto
  have acc: "unat ?ff div 8 < avail b"
    using assms(2,3) by (simp add: bm_bits_def)
  obtain b1 where b1: "bitmap_set (Some b) ?ff = Some (Some b1, 0)"
      "\<And>p. bm_test b1 p \<longleftrightarrow> bm_test b p \<or> p = unat ?ff"
      "bytes b1 = bytes b" "avail b1 = avail b"
    by (rule bitmap_set_Some [OF n32 less_imp_le [OF assms(3)] acc]) (rule that)
  have "bm_test b1 r" if "r div 8 < avail b1" for r
    using that assms(2,4) b1 by (auto simp: bm_bits_def)
  then have "bm_scan b1 (unat ((?ff + 1) mod push_bit 3 (bytes b))) = None"
    by (rule bm_scan_runs_out)
  then show ?thesis
    using b1 ne by (simp add: bitmap_get_first_free_def)
qed

theorem bitmap_last_bit_overruns_witness:
  "bitmap_get_first_free
     (Some \<lparr>bytes = 1, used_bits_count = 7, first_free_pos = 7, bitmap = (\<lambda>_. 0x7f), avail = 1\<rparr>) = None"
proof (rule bitmap_last_bit_overruns)
  have "\<forall>p \<in> set [0..<8]. p \<noteq> 7 \<longrightarrow> bit (0x7f :: u8) (p mod 8)" by code_simp
  then show "\<forall>p < bm_bits \<lparr>bytes = 1, used_bits_count = 7, first_free_pos = 7, bitmap = (\<lambda>_. 0x7f), avail = 1\<rparr>.
      p \<noteq> unat (first_free_pos \<lparr>bytes = 1, used_bits_count = 7, first_free_pos = 7, bitmap = (\<lambda>_. 0x7f), avail = 1\<rparr>)
      \<longrightarrow> bm_test \<lparr>bytes = 1, used_bits_count = 7, first_free_pos = 7, bitmap = (\<lambda>_. 0x7f), avail = 1\<rparr> p"
    by (simp add: bm_bits_def bm_test_def)
qed (simp_all add: bm_bits_def)

lemma bm_wr_or_set:
  assumes "bm_test b (unat pos)"
  shows "bm_wr b (bm_idx pos) (bitmap b (bm_idx pos) OR push_bit (bm_sh pos) 1) = b"
    and "bitmap b (bm_idx pos) \<noteq> 0"
proof -
  have k: "bm_sh pos < 8" by (simp add: bm_sh_mod)
  have "bit (bitmap b (bm_idx pos)) (bm_sh pos)"
    using assms by (simp add: bm_test_def bm_idx_div bm_sh_mod)
  then show "bitmap b (bm_idx pos) \<noteq> 0" by auto
  have "bitmap b (bm_idx pos) OR push_bit (bm_sh pos) 1 = bitmap b (bm_idx pos)"
    using \<open>bit (bitmap b (bm_idx pos)) (bm_sh pos)\<close> k
    by (intro bit_word_eqI) (auto simp: or_one_bit)
  then show "bm_wr b (bm_idx pos) (bitmap b (bm_idx pos) OR push_bit (bm_sh pos) 1) = b"
    by (simp add: bm_wr_def)
qed

lemma bitmap_clear_effect:
  assumes "bm_bits b < 2 ^ 31" and "unat (bytes b) < avail b" and "unat pos < bm_bits b"
    and "bm_test b (unat pos)"
  shows "bitmap_clear (Some b) pos = Some (Some (b\<lparr>used_bits_count := used_bits_count b - 1,
    first_free_pos := (if first_free_pos b > pos then pos else first_free_pos b)\<rparr>), 0)"
proof -
  have "\<not> push_bit 3 (bytes b) < pos"
    using push_bit_3_bits [of b] assms by (simp add: word_less_nat_alt)
  moreover have "bm_idx pos < avail b"
    using assms by (simp add: bm_idx_div bm_bits_def)
  ultimately show ?thesis
    using bm_wr_or_set(2) [OF assms(4)]
    by (simp add: bitmap_clear_def bitmap_set_val_def bm_rd_def bm_wr_def Let_def)
qed

text \<open>
  (C34) \<open>bitmap_clear\<close> reports success without clearing the bit (it ORs a zero).  After freeing two
  slots \<open>p < q\<close> the next allocation returns \<open>p\<close>, but the map is then bit for bit what it was
  before the two frees, \<open>first_free_pos\<close> included: slot \<open>q\<close> is lost although
  \<open>used_bits_count\<close> counts it as free.
\<close>

theorem bitmap_clear_leaks:
  assumes "bm_inv b" and "p < q" and "q < first_free_pos b"
  shows "do { (bp, r1) \<leftarrow> bitmap_clear (Some b) p; (bp, r2) \<leftarrow> bitmap_clear bp q;
              (bp, r3) \<leftarrow> bitmap_get_first_free bp; Some (bp, r1, r2, r3) }
    = Some (Some (b\<lparr>used_bits_count := used_bits_count b - 1\<rparr>), 0, 0, int (unat p))"
proof -
  let ?ff = "first_free_pos b"
  note inv = assms(1) [unfolded bm_inv_def]
  have pq: "unat p < unat q" "unat q < unat ?ff"
    using assms(2,3) by (simp_all add: word_less_nat_alt)
  have tp: "bm_test b (unat p)" and tq: "bm_test b (unat q)"
    and ltp: "unat p < bm_bits b" and ltq: "unat q < bm_bits b"
    and n32: "bm_bits b < 2 ^ 32"
    using inv pq by auto
  let ?b1 = "b\<lparr>used_bits_count := used_bits_count b - 1, first_free_pos := p\<rparr>"
  let ?b2 = "?b1\<lparr>used_bits_count := used_bits_count b - 2\<rparr>"
  let ?b3 = "?b1\<lparr>used_bits_count := used_bits_count b - 1\<rparr>"
  have c1: "bitmap_clear (Some b) p = Some (Some ?b1, 0)"
    using bitmap_clear_effect [of b p] inv ltp tp assms(2,3) by auto
  have c2: "bitmap_clear (Some ?b1) q = Some (Some ?b2, 0)"
    using bitmap_clear_effect [of ?b1 q] inv ltq tq assms(2) by (auto simp: bm_bits_def bm_test_def)
  have "\<not> push_bit 3 (bytes b) < p" and ne: "p \<noteq> push_bit 3 (bytes b)" "push_bit 3 (bytes b) \<noteq> 0"
    using push_bit_3_bits [OF n32] ltp by (auto simp: word_less_nat_alt)
  moreover have "bm_idx p < avail b"
    using inv ltp by (auto simp: bm_idx_div bm_bits_def)
  moreover have "bm_test ?b2 (unat p)" using tp by (simp add: bm_test_def)
  note bm_wr_or_set(1) [OF this]
  moreover have "bm_test ?b3 (unat p)" using tp by (simp add: bm_test_def)
  note bm_wr_or_set(1) [OF this]
  ultimately have st: "bitmap_set (Some ?b2) p = Some (Some ?b3, 0)"
    by (simp add: bitmap_set_def bitmap_set_val_def bm_rd_def Let_def or_one_nonzero bm_sh_mod)
  have "unat (p + 1) = Suc (unat p)"
    using ltp n32 by (intro unat_Suc_word) simp
  then have "unat ((p + 1) mod push_bit 3 (bytes b)) \<le> unat ?ff"
    using pq by (simp add: unat_mod_distrib) (metis Suc_leI le_trans mod_less_eq_dividend less_imp_le)
  then have "bm_scan ?b3 (unat ((p + 1) mod push_bit 3 (bytes b))) = Some (unat ?ff)"
    using inv by (intro bm_scan_first) (auto simp: bm_test_def bm_bits_def)
  then have "bitmap_get_first_free (Some ?b2) =
      Some (Some (b\<lparr>used_bits_count := used_bits_count b - 1\<rparr>), int (unat p))"
    using ne st sint_small [of p] ltp inv by (simp add: bitmap_get_first_free_def)
  then show ?thesis
    by (simp add: c1 c2)
qed

theorem bitmap_clear_leaks_witness:
  "do { (bp, r1) \<leftarrow> bitmap_clear (Some (bm_example\<lparr>bitmap := (\<lambda>i. if i = 0 then 7 else 0),
           used_bits_count := 3, first_free_pos := 3\<rparr>)) 0; (bp, r2) \<leftarrow> bitmap_clear bp 1;
        (bp, r3) \<leftarrow> bitmap_get_first_free bp; Some (bp, r1, r2, r3) }
   = Some (Some (bm_example\<lparr>bitmap := (\<lambda>i. if i = 0 then 7 else 0),
           first_free_pos := 3, used_bits_count := 2\<rparr>), 0, 0, 0)"
proof -
  let ?b = "bm_example\<lparr>bitmap := (\<lambda>i. if i = 0 then 7 else 0), used_bits_count := 3, first_free_pos := 3\<rparr>"
  have "bm_inv ?b" by code_simp
  then show ?thesis
    using bitmap_clear_leaks [of ?b 0 1] by simp
qed

end
