(* ===== verification/Lib_Bitmap.thy ===== *)
theory Lib_Bitmap
  imports Bitmap Atomic
begin

text \<open>
  \<open>lib/bitmap/bitmap.c\<close> (and its copy in \<open>rpc_test/bitmap\<close>): the bit allocator of the library,
  an earlier version of the one of the file system, on the same structure and with the counters
  behind the operations of \<open>lib/include/atomic.h\<close>.

  The results: run alone, every operation except \<open>bitmap_get_first_free\<close> does what the one of
  \<open>userfs/bitmap.c\<close> does on every input, and \<open>bitmap_get_first_free\<close> does so as long as a free bit
  is left behind the one it returns.  The last bit of the map is handed out again and again.
\<close>

section \<open>Operations\<close>

definition lib_bitmap_init :: "bitmap_t \<Rightarrow> u32 \<Rightarrow> bitmap_t option" where
  "lib_bitmap_init b n = do {
     let b = b\<lparr>bytes := n\<rparr>;
     b \<leftarrow> (if unat n \<le> avail b
          then Some (b\<lparr>bitmap := (\<lambda>i. if i < unat n then 0 else bitmap b i)\<rparr>) else None);
     let b = b\<lparr>used_bits_count := lib_atomic_set (used_bits_count b) 0\<rparr>;
     Some (b\<lparr>first_free_pos := lib_atomic_set (first_free_pos b) 0\<rparr>)
   }"

definition lib_bitmap_create :: "bitmap_t option \<Rightarrow> u32 \<Rightarrow> bitmap_t option option" where
  "lib_bitmap_create mem n =
     (if n > BITMAP_MAX_BYTES then Some None
      else case mem of
        None \<Rightarrow> Some None
      | Some bm \<Rightarrow> do { bm \<leftarrow> lib_bitmap_init (bm\<lparr>avail := unat n\<rparr>) n; Some (Some bm) })"

definition lib_bitmap_destroy :: "bitmap_t option \<Rightarrow> bitmap_t option" where
  "lib_bitmap_destroy bp = (if bp \<noteq> None then None else bp)"

definition lib_bitmap_set_val :: "bitmap_t option \<Rightarrow> u32 \<Rightarrow> u8 \<Rightarrow> (bitmap_t option \<times> int) option" where
  "lib_bitmap_set_val bp pos val =
     (case bp of
        None \<Rightarrow> Some (None, -1)
      | Some b \<Rightarrow>
          if pos > push_bit 3 (bytes b) then Some (Some b, -1)
          else do {
            x \<leftarrow> bm_rd b (bm_idx pos);
            Some (Some (bm_wr b (bm_idx pos) (x OR push_bit (bm_sh pos) val)), 0)
          })"

definition lib_bitmap_clear :: "bitmap_t option \<Rightarrow> u32 \<Rightarrow> (bitmap_t option \<times> int) option" where
  "lib_bitmap_clear bp pos = do {
     b \<leftarrow> bp;
     x \<leftarrow> bm_rd b (bm_idx pos);
     let x' = x OR push_bit (bm_sh pos) 0;
     let b = bm_wr b (bm_idx pos) x';
     if x' = 0 then Some (Some b, -1)
     else do {
       let b = b\<lparr>used_bits_count := lib_atomic_sub (used_bits_count b) 1\<rparr>;
       let b = (if lib_atomic_get (first_free_pos b) > pos
                then b\<lparr>first_free_pos := lib_atomic_set (first_free_pos b) pos\<rparr> else b);
       lib_bitmap_set_val (Some b) pos 0
     }
   }"

definition lib_bitmap_set :: "bitmap_t option \<Rightarrow> u32 \<Rightarrow> (bitmap_t option \<times> int) option" where
  "lib_bitmap_set bp pos = do {
     b \<leftarrow> bp;
     x \<leftarrow> bm_rd b (bm_idx pos);
     let x' = x OR push_bit (bm_sh pos) 1;
     let b = bm_wr b (bm_idx pos) x';
     if x' = 0 then Some (Some b, -1)
     else do {
       let b = b\<lparr>used_bits_count := lib_atomic_add (used_bits_count b) 1\<rparr>;
       lib_bitmap_set_val (Some b) pos 1
     }
   }"

text \<open>
  The scan is the loop of \<open>userfs/bitmap.c\<close>, comma expression included; it starts at the next
  position without a modulus, and its result is stored only if it lies inside the map.
\<close>

definition lib_bitmap_get_first_free :: "bitmap_t option \<Rightarrow> (bitmap_t option \<times> int) option" where
  "lib_bitmap_get_first_free bp =
     (case bp of
        None \<Rightarrow> Some (None, -1)
      | Some b \<Rightarrow> do {
          let first_pos = lib_atomic_get (first_free_pos b);
          (bp, _) \<leftarrow> lib_bitmap_set (Some b) first_pos;
          b \<leftarrow> bp;
          pos \<leftarrow> bm_scan b (unat (first_pos + 1));
          let b = (if of_nat pos < push_bit 3 (bytes b)
                   then b\<lparr>first_free_pos := lib_atomic_set (first_free_pos b) (of_nat pos)\<rparr> else b);
          Some (Some b, sint first_pos)
        })"

section \<open>Equivalence with the bitmap of the file system\<close>

lemma lib_bitmap_set_val_eq: "lib_bitmap_set_val bp pos v = bitmap_set_val bp pos v"
  by (simp add: lib_bitmap_set_val_def bitmap_set_val_def)

lemma lib_bitmap_set_eq: "lib_bitmap_set bp pos = bitmap_set bp pos"
  unfolding lib_bitmap_set_def bitmap_set_def lib_bitmap_set_val_eq lib_atomic_defs Let_def ..

lemma lib_bitmap_clear_eq: "lib_bitmap_clear bp pos = bitmap_clear bp pos"
  unfolding lib_bitmap_clear_def bitmap_clear_def lib_bitmap_set_val_eq lib_atomic_defs Let_def ..

lemma lib_bitmap_init_eq: "lib_bitmap_init b n = bitmap_init b n"
  by (cases b) (auto simp: lib_bitmap_init_def bitmap_init_def lib_atomic_defs)

text \<open>
  The library bitmap and the bitmap of the file system are the same component up to
  \<open>bitmap_get_first_free\<close>: creating, setting, clearing and destroying have the same result, the
  same effect and the same undefined behaviour on every bitmap and every position.
\<close>

theorem lib_bitmap_ops_equivalent:
  "lib_bitmap_create mem n = bitmap_create mem n \<and>
   lib_bitmap_set bp pos = bitmap_set bp pos \<and>
   lib_bitmap_clear bp pos = bitmap_clear bp pos \<and>
   lib_bitmap_destroy bp = bitmap_destroy bp"
  by (auto simp: lib_bitmap_create_def bitmap_create_def lib_bitmap_init_eq lib_bitmap_set_eq
      lib_bitmap_clear_eq lib_bitmap_destroy_def bitmap_destroy_def map_option_case
      split: option.splits)

text \<open>Both versions allocate the same position and scan from the same place inside the map.\<close>

lemma bm_first_words:
  assumes "bm_bits b < 2 ^ 31" and "unat (first_free_pos b) < bm_bits b"
  shows "unat (first_free_pos b + 1) = Suc (unat (first_free_pos b))"
    and "unat (push_bit 3 (bytes b)) = bm_bits b"
    and "sint (first_free_pos b) = int (unat (first_free_pos b))"
  using assms push_bit_3_bits [of b] unat_Suc_word [of "first_free_pos b"]
    sint_small [of "first_free_pos b"] by simp_all

lemma lib_bitmap_set_first:
  assumes "bm_bits b < 2 ^ 31" "unat (bytes b) < avail b" "unat (first_free_pos b) < bm_bits b"
  obtains b1 where "bitmap_set (Some b) (first_free_pos b) = Some (Some b1, 0)"
    and "\<And>p. bm_test b1 p \<longleftrightarrow> bm_test b p \<or> p = unat (first_free_pos b)"
    and "bytes b1 = bytes b" "avail b1 = avail b" "first_free_pos b1 = first_free_pos b"
    and "used_bits_count b1 = used_bits_count b + 1"
proof (rule bitmap_set_Some [of b "first_free_pos b"])
  show "bm_bits b < 2 ^ 32" using assms(1) by simp
  show "unat (first_free_pos b) \<le> bm_bits b" using assms(3) by simp
  show "unat (first_free_pos b) div 8 < avail b" using assms(2,3) by (simp add: bm_bits_def)
qed (rule that)

lemma bm_inv_scan_next:
  assumes inv: "bm_inv b" and lt: "unat (first_free_pos b) < bm_bits b"
    and t: "\<And>p. bm_test b1 p \<longleftrightarrow> bm_test b p \<or> p = unat (first_free_pos b)"
    and av: "avail b1 = avail b"
  obtains q where "bm_scan b1 (Suc (unat (first_free_pos b))) = Some q"
    and "unat (first_free_pos b) < q" and "q \<le> bm_bits b" and "\<not> bm_test b q"
    and "\<And>p. unat (first_free_pos b) < p \<Longrightarrow> p < q \<Longrightarrow> bm_test b p"
proof -
  obtain q where q: "unat (first_free_pos b) < q" "q \<le> bm_bits b" "\<not> bm_test b q"
      "\<And>p. unat (first_free_pos b) < p \<Longrightarrow> p < q \<Longrightarrow> bm_test b p"
    by (rule bm_next_free [OF inv lt]) (rule that)
  have "bm_scan b1 (Suc (unat (first_free_pos b))) = Some q"
  proof (rule bm_scan_first)
    show "q div 8 < avail b1" "q < 2 ^ 31" using q(2) inv by (auto simp: av bm_inv_def bm_bits_def)
  qed (use q in \<open>auto simp: t\<close>)
  then show thesis using q by (rule that)
qed

text \<open>
  (C24) While a free bit is left behind the first free one, \<open>bitmap_get_first_free\<close> of the library
  returns the same position and leaves the same bitmap as the one of the file system.
\<close>

theorem lib_first_free_equivalent:
  assumes "bm_inv b" and "unat (first_free_pos b) < p" and "p < bm_bits b" and "\<not> bm_test b p"
  shows "lib_bitmap_get_first_free (Some b) = bitmap_get_first_free (Some b)"
proof -
  let ?ff = "first_free_pos b"
  have lt: "unat ?ff < bm_bits b" using assms by simp
  have n: "bm_bits b < 2 ^ 31" and av: "unat (bytes b) < avail b"
    using assms(1) by (simp_all add: bm_inv_def)
  note u = bm_first_words(1) [OF n lt] and pb = bm_first_words(2) [OF n lt]
  obtain b1 where s: "bitmap_set (Some b) ?ff = Some (Some b1, 0)"
      and t: "\<And>p. bm_test b1 p \<longleftrightarrow> bm_test b p \<or> p = unat ?ff"
      and f: "bytes b1 = bytes b" "avail b1 = avail b" "first_free_pos b1 = ?ff"
    by (rule lib_bitmap_set_first [OF n av lt]) (rule that)
  obtain q where q: "bm_scan b1 (Suc (unat ?ff)) = Some q" "unat ?ff < q" "q \<le> bm_bits b"
      "\<And>p. unat ?ff < p \<Longrightarrow> p < q \<Longrightarrow> bm_test b p"
    by (rule bm_inv_scan_next [OF assms(1) lt t f(2)]) (rule that)
  have "q \<le> p" using q(4) [of p] assms(2,4) by (meson not_le)
  then have in_map: "(of_nat q :: u32) < push_bit 3 (bytes b)"
    using assms(1,3) by (simp add: word_less_nat_alt pb unat_of_nat bm_inv_def)
  have m: "unat ((?ff + 1) mod push_bit 3 (bytes b)) = Suc (unat ?ff)"
    using assms(2,3) by (simp add: unat_mod_distrib u pb)
  have ne: "?ff \<noteq> push_bit 3 (bytes b)" "push_bit 3 (bytes b) \<noteq> 0"
    using pb lt by auto
  show ?thesis
    using s q(1) m ne u in_map
    by (simp add: lib_bitmap_get_first_free_def bitmap_get_first_free_def lib_atomic_defs
        lib_bitmap_set_eq f Let_def)
qed

theorem lib_first_free_equivalent_witness:
  "lib_bitmap_get_first_free (Some bm_example) = bitmap_get_first_free (Some bm_example)"
  by (rule lib_first_free_equivalent [OF bm_example_inv, of 3])
    (simp_all add: bm_example_def bm_bits_def bm_test_def bit_numeral_rec)

lemma lib_first_free_last:
  assumes n: "bm_bits b < 2 ^ 31" "unat (bytes b) < avail b"
    and guard: "\<not> bm_test b (bm_bits b)" and last: "Suc (unat (first_free_pos b)) = bm_bits b"
  obtains b' where "lib_bitmap_get_first_free (Some b) = Some (Some b', int (bm_bits b) - 1)"
    and "bytes b' = bytes b" "avail b' = avail b" "first_free_pos b' = first_free_pos b"
    and "\<not> bm_test b' (bm_bits b)" and "bm_test b' (unat (first_free_pos b))"
    and "used_bits_count b' = used_bits_count b + 1"
proof -
  let ?ff = "first_free_pos b"
  have lt: "unat ?ff < bm_bits b" using last by simp
  obtain b1 where s: "bitmap_set (Some b) ?ff = Some (Some b1, 0)"
      and t: "\<And>p. bm_test b1 p \<longleftrightarrow> bm_test b p \<or> p = unat ?ff"
      and f: "bytes b1 = bytes b" "avail b1 = avail b" "first_free_pos b1 = ?ff"
        "used_bits_count b1 = used_bits_count b + 1"
    by (rule lib_bitmap_set_first [OF n lt]) (rule that)
  have "bm_scan b1 (bm_bits b) = Some (bm_bits b)"
    by (rule bm_scan_first) (use n guard lt in \<open>auto simp: t f bm_bits_def\<close>)
  moreover have "\<not> (of_nat (bm_bits b) :: u32) < push_bit 3 (bytes b)"
    using n by (simp add: word_less_nat_alt bm_first_words(2) [OF n(1) lt] unat_of_nat)
  moreover have "sint ?ff = int (bm_bits b) - 1"
    unfolding bm_first_words(3) [OF n(1) lt] last [symmetric] by simp
  ultimately have "lib_bitmap_get_first_free (Some b) = Some (Some b1, int (bm_bits b) - 1)"
    using s bm_first_words(1) [OF n(1) lt] last
    by (simp add: lib_bitmap_get_first_free_def lib_atomic_defs lib_bitmap_set_eq f Let_def)
  then show thesis
    by (rule that) (use guard lt in \<open>auto simp: t f\<close>)
qed

text \<open>
  The last bit of a library bitmap is allocated twice: once only the last bit is free, a
  call returns it, and the next call returns the same position again although it is in use; the
  count of used bits grows beyond the number of bits.
\<close>

theorem lib_last_bit_repeats:
  assumes "bm_inv b" and "Suc (unat (first_free_pos b)) = bm_bits b"
  shows "\<exists>b1 b2. lib_bitmap_get_first_free (Some b) = Some (Some b1, int (bm_bits b) - 1) \<and>
    bm_test b1 (bm_bits b - 1) \<and>
    lib_bitmap_get_first_free (Some b1) = Some (Some b2, int (bm_bits b) - 1) \<and>
    used_bits_count b2 = used_bits_count b + 2"
proof -
  have n: "bm_bits b < 2 ^ 31" "unat (bytes b) < avail b" "\<not> bm_test b (bm_bits b)"
    using assms(1) by (simp_all add: bm_inv_def)
  obtain b1 where b1: "lib_bitmap_get_first_free (Some b) = Some (Some b1, int (bm_bits b) - 1)"
      "bytes b1 = bytes b" "avail b1 = avail b" "first_free_pos b1 = first_free_pos b"
      "\<not> bm_test b1 (bm_bits b)" "bm_test b1 (unat (first_free_pos b))"
      "used_bits_count b1 = used_bits_count b + 1"
    by (rule lib_first_free_last [OF n assms(2)]) (rule that)
  have bits: "bm_bits b1 = bm_bits b" by (simp add: bm_bits_def b1)
  obtain b2 where b2: "lib_bitmap_get_first_free (Some b1) = Some (Some b2, int (bm_bits b) - 1)"
      "used_bits_count b2 = used_bits_count b1 + 1"
    using lib_first_free_last [of b1 thesis] n assms(2) b1 unfolding bits by auto
  have "bm_bits b - 1 = unat (first_free_pos b)" using assms(2) by simp
  then show ?thesis using b1(1,6,7) b2 by (intro exI [of _ b1] exI [of _ b2]) simp
qed

definition bm_last_example :: bitmap_t where
  "bm_last_example = \<lparr>bytes = 1, used_bits_count = 7, first_free_pos = 7,
     bitmap = (\<lambda>i. if i = 0 then 127 else 0), avail = 2\<rparr>"

lemma bm_last_example_inv: "bm_inv bm_last_example"
  by code_simp

theorem lib_last_bit_repeats_witness:
  "\<exists>b1 b2. lib_bitmap_get_first_free (Some bm_last_example) = Some (Some b1, 7) \<and>
    bm_test b1 7 \<and> lib_bitmap_get_first_free (Some b1) = Some (Some b2, 7) \<and>
    used_bits_count b2 = 9"
  using lib_last_bit_repeats [OF bm_last_example_inv]
  by (simp add: bm_last_example_def bm_bits_def)

end
