(* ===== verification/Lib_Hashlist.thy ===== *)
theory Lib_Hashlist
  imports Kernel_List Interfaces Atomic
begin

text \<open>
  \<open>lib/hashlist/hashlist.c\<close>: a hash table from 64-bit keys to pointers, at pointer level.  An object is on two
  circular lists of \<open>list.h\<close>: the chain of its bucket and the list of all objects.  The list nodes
  of the table and of its objects are the addresses of one \<open>lheap\<close>, the operations are those of
  \<open>Kernel_List\<close>, and \<open>container_of\<close> leads from a node to its object.

  Adding a key that is there already does not replace its value but hides it.  The result: the table
  refines a map from keys to stacks of values, every loop over a chain ends, and destroying the table
  frees every object once.
\<close>

section \<open>The table and its operations\<close>

text \<open>The list nodes: the head of the list of all objects, the head of a bucket, and the two nodes in an object.\<close>

datatype hnode = Hlist_head | Bucket_start nat | Hlist nat | Chain nat

record lib_obj =
  lkey :: u64
  lval :: ptr

record lib_linkhash =
  lh_bucket_count :: u64
  lh_obj_count :: u32
  lh_refcount :: "u32 list"
  lh_links :: "hnode lheap"
  lh_objs :: "nat \<Rightarrow> lib_obj option"
  lh_fresh :: nat

abbreviation LIB_LINKHASH_MAX_BUCKET_COUNT :: u64 where "LIB_LINKHASH_MAX_BUCKET_COUNT \<equiv> 128"

definition lib_hash_32bkey :: "u32 \<Rightarrow> u32" where
  "lib_hash_32bkey key =
     (let h = NOT key + push_bit 18 key;
          h = h XOR drop_bit 31 h;
          h = h * 21;
          h = h XOR drop_bit 11 h;
          h = h + push_bit 6 h
      in h XOR drop_bit 22 h)"

definition lib_linkhash_init :: "u64 \<Rightarrow> lib_linkhash \<Rightarrow> lib_linkhash" where
  "lib_linkhash_init bucket_count t =
     (let t = t\<lparr>lh_bucket_count := bucket_count, lh_obj_count := lib_atomic_store (lh_obj_count t) 0,
                lh_links := INIT_LIST_HEAD Hlist_head (lh_links t),
                lh_refcount := replicate (unat bucket_count) 0\<rparr>
      in t\<lparr>lh_links := fold (\<lambda>i h. INIT_LIST_HEAD (Bucket_start i) h) [0..<unat bucket_count] (lh_links t)\<rparr>)"

text \<open>The set-up of one bucket; the lock of a bucket is compiled out, and nothing calls the function.\<close>

definition lib_linkhash_bucket_init :: "nat \<Rightarrow> lib_linkhash \<Rightarrow> lib_linkhash" where
  "lib_linkhash_bucket_init i t =
     (let t = t\<lparr>lh_links := INIT_LIST_HEAD (Bucket_start i) (lh_links t)\<rparr>
      in t\<lparr>lh_refcount := (lh_refcount t)[i := lib_atomic_set (lh_refcount t ! i) 0]\<rparr>)"

text \<open>\<open>mem\<close> is the table the allocation returns, with arbitrary contents and no objects, or nothing.\<close>

definition lib_linkhash_create :: "lib_linkhash option \<Rightarrow> u64 \<Rightarrow> lib_linkhash option" where
  "lib_linkhash_create mem bucket_count =
     (if bucket_count = 0 \<or> bucket_count > LIB_LINKHASH_MAX_BUCKET_COUNT then None
      else map_option (lib_linkhash_init bucket_count) mem)"

definition lib_bucket_id :: "lib_linkhash \<Rightarrow> u64 \<Rightarrow> nat" where
  "lib_bucket_id t key =
     unat (ucast (ucast (lib_hash_32bkey (ucast key)) AND (lh_bucket_count t - 1)) :: u32)"

text \<open>\<open>ok\<close>: the allocation of the new object succeeds.\<close>

definition lib_linkhash_add ::
    "bool \<Rightarrow> u64 \<Rightarrow> ptr \<Rightarrow> lib_linkhash option \<Rightarrow> (lib_linkhash option \<times> int) option" where
  "lib_linkhash_add ok key val tp =
     (case tp of
        None \<Rightarrow> Some (None, - 1)
      | Some t \<Rightarrow>
          if val = NULL then Some (Some t, - 1)
          else let b = lib_bucket_id t key in
            if length (lh_refcount t) \<le> b then None
            else if \<not> ok then Some (Some t, - 1)
            else let new = lh_fresh t;
                   t = t\<lparr>lh_objs := (lh_objs t)(new \<mapsto> \<lparr>lkey = key, lval = val\<rparr>), lh_fresh := Suc new,
                         lh_refcount := (lh_refcount t)[b := lib_atomic_add (lh_refcount t ! b) 1]\<rparr>;
                   t = t\<lparr>lh_links := list_add (Chain new) (Bucket_start b) (lh_links t)\<rparr>;
                   t = t\<lparr>lh_links := list_add (Hlist new) Hlist_head (lh_links t)\<rparr>
                 in Some (Some (t\<lparr>lh_obj_count := lib_atomic_add (lh_obj_count t) 1\<rparr>), 0))"

text \<open>
  The loop \<open>list_for_each_entry\<close> over a bucket, from the node \<open>pos\<close>, up to the first object with the key.
  A node that is not in a live object is undefined behaviour.
\<close>

partial_function (option) lib_find ::
    "(nat \<Rightarrow> lib_obj option) \<Rightarrow> hnode lheap \<Rightarrow> hnode \<Rightarrow> u64 \<Rightarrow> hnode \<Rightarrow> nat option option" where
  "lib_find os h l key pos =
     (if pos = l then Some None
      else case pos of
        Chain a \<Rightarrow> (case os a of None \<Rightarrow> None
          | Some x \<Rightarrow> if lkey x = key then Some (Some a) else lib_find os h l key (lnext h pos))
      | _ \<Rightarrow> None)"

definition lib_linkhash_get :: "u64 \<Rightarrow> lib_linkhash option \<Rightarrow> u64 option" where
  "lib_linkhash_get key tp =
     (case tp of
        None \<Rightarrow> Some 0
      | Some t \<Rightarrow>
          let b = lib_bucket_id t key in
          if length (lh_refcount t) \<le> b then None
          else do {
            found \<leftarrow> lib_find (lh_objs t) (lh_links t) (Bucket_start b) key (lnext (lh_links t) (Bucket_start b));
            case found of None \<Rightarrow> Some 0 | Some a \<Rightarrow> map_option lval (lh_objs t a)
          })"

definition lib_linkhash_remove :: "u64 \<Rightarrow> lib_linkhash option \<Rightarrow> (lib_linkhash option \<times> u64) option" where
  "lib_linkhash_remove key tp =
     (case tp of
        None \<Rightarrow> Some (None, - 1)
      | Some t \<Rightarrow>
          let b = lib_bucket_id t key in
          if length (lh_refcount t) \<le> b then None
          else do {
            found \<leftarrow> lib_find (lh_objs t) (lh_links t) (Bucket_start b) key (lnext (lh_links t) (Bucket_start b));
            case found of
              None \<Rightarrow> Some (Some t, - 1)
            | Some a \<Rightarrow> do {
                x \<leftarrow> lh_objs t a;
                let h = list_del_init (Hlist a) (list_del_init (Chain a) (lh_links t));
                Some (Some (t\<lparr>lh_links := h, lh_objs := (lh_objs t)(a := None)\<rparr>), lval x)
              }
          })"

text \<open>Each round takes the first object out of the list of all objects and frees it.\<close>

partial_function (option) lib_destroy_loop ::
    "hnode lheap \<Rightarrow> (nat \<Rightarrow> lib_obj option) \<Rightarrow> (nat \<Rightarrow> lib_obj option) option" where
  "lib_destroy_loop h os =
     (if lnext h Hlist_head = Hlist_head then Some os
      else case lnext h Hlist_head of
        Hlist a \<Rightarrow> (case os a of None \<Rightarrow> None
          | Some _ \<Rightarrow> lib_destroy_loop (list_del_init (Hlist a) h) (os(a := None)))
      | _ \<Rightarrow> None)"

definition lib_linkhash_destroy :: "lib_linkhash option \<Rightarrow> (nat \<Rightarrow> lib_obj option) option" where
  "lib_linkhash_destroy tp =
     (case tp of None \<Rightarrow> Some Map.empty | Some t \<Rightarrow> lib_destroy_loop (lh_links t) (lh_objs t))"

section \<open>Well-formed tables\<close>

fun lh_lists :: "(nat \<Rightarrow> nat list) \<Rightarrow> nat list \<Rightarrow> hnode \<Rightarrow> hnode list" where
  "lh_lists cs as Hlist_head = map Hlist as"
| "lh_lists cs as (Bucket_start b) = map Chain (cs b)"
| "lh_lists cs as _ = []"

definition lh_heads :: "nat \<Rightarrow> hnode set" where
  "lh_heads n = insert Hlist_head (Bucket_start ` {..<n})"

definition lh_inv :: "lib_linkhash \<Rightarrow> (nat \<Rightarrow> nat list) \<Rightarrow> nat list \<Rightarrow> bool" where
  "lh_inv t cs as \<longleftrightarrow> lh_bucket_count t \<noteq> 0 \<and> unat (lh_bucket_count t) \<le> 128 \<and>
     length (lh_refcount t) = unat (lh_bucket_count t) \<and>
     rings (lh_links t) (lh_heads (unat (lh_bucket_count t))) (lh_lists cs as) \<and>
     set as = dom (lh_objs t) \<and> (\<forall>a \<in> dom (lh_objs t). a < lh_fresh t) \<and>
     (\<forall>b < unat (lh_bucket_count t). \<forall>a. a \<in> set (cs b) \<longleftrightarrow> (\<exists>x. lh_objs t a = Some x \<and> lib_bucket_id t (lkey x) = b))"

lemma lh_invD:
  assumes "lh_inv t cs as"
  shows "lh_bucket_count t \<noteq> 0" "unat (lh_bucket_count t) \<le> 128" "length (lh_refcount t) = unat (lh_bucket_count t)"
    "rings (lh_links t) (lh_heads (unat (lh_bucket_count t))) (lh_lists cs as)" "set as = dom (lh_objs t)"
    "\<And>a x. lh_objs t a = Some x \<Longrightarrow> a < lh_fresh t"
    "\<And>b a. b < unat (lh_bucket_count t) \<Longrightarrow> a \<in> set (cs b) \<longleftrightarrow> (\<exists>x. lh_objs t a = Some x \<and> lib_bucket_id t (lkey x) = b)"
  using assms by (auto simp: lh_inv_def)

lemma lib_bucket_lt:
  assumes "lh_bucket_count t \<noteq> 0" and "unat (lh_bucket_count t) \<le> 128"
  shows "lib_bucket_id t key < unat (lh_bucket_count t)"
proof -
  let ?w = "ucast (lib_hash_32bkey (ucast key)) AND (lh_bucket_count t - 1)"
  have "unat ?w \<le> unat (lh_bucket_count t - 1)" by (metis word_and_le1 word_le_nat_alt)
  moreover have "unat (lh_bucket_count t - 1) = unat (lh_bucket_count t) - 1" using assms(1) by (rule unat_minus_one)
  moreover have "0 < unat (lh_bucket_count t)" using assms(1) by (simp add: unat_gt_0)
  ultimately have w: "unat ?w < unat (lh_bucket_count t)" by linarith
  then have "unat (ucast ?w :: u32) = unat ?w"
    using assms(2) by (simp add: unsigned_ucast_eq take_bit_nat_eq_self)
  then show ?thesis using w by (simp add: lib_bucket_id_def)
qed

lemma head_in: "Hlist_head \<in> lh_heads n" "b < n \<Longrightarrow> Bucket_start b \<in> lh_heads n"
  by (auto simp: lh_heads_def)

lemma lh_lists_upd [simp]:
  "(lh_lists cs as)(Bucket_start b := map Chain xs) = lh_lists (cs(b := xs)) as"
  "(lh_lists cs as)(Hlist_head := map Hlist ys) = lh_lists cs ys"
proof -
  show "(lh_lists cs as)(Bucket_start b := map Chain xs) = lh_lists (cs(b := xs)) as"
  proof
    fix l show "((lh_lists cs as)(Bucket_start b := map Chain xs)) l = lh_lists (cs(b := xs)) as l" by (cases l) auto
  qed
  show "(lh_lists cs as)(Hlist_head := map Hlist ys) = lh_lists cs ys"
  proof
    fix l show "((lh_lists cs as)(Hlist_head := map Hlist ys)) l = lh_lists cs ys l" by (cases l) auto
  qed
qed

lemma find_walk:
  assumes "walk (lnext h) x (map Chain as @ [l])" and "l \<notin> set (map Chain as)" and "\<forall>a \<in> set as. os a \<noteq> None"
  shows "lib_find os h l key (lnext h x) = Some (find (\<lambda>a. lkey (the (os a)) = key) as)"
  using assms
proof (induction as arbitrary: x)
  case Nil
  then show ?case by (subst lib_find.simps) simp
next
  case (Cons a as)
  then have "lnext h x = Chain a" "lib_find os h l key (lnext h (Chain a)) = Some (find (\<lambda>a. lkey (the (os a)) = key) as)"
    by simp_all
  then show ?case using Cons.prems by (subst lib_find.simps) auto
qed

lemma bucket_find:
  assumes "lh_inv t cs as" and "b < unat (lh_bucket_count t)"
  shows "lib_find (lh_objs t) (lh_links t) (Bucket_start b) key (lnext (lh_links t) (Bucket_start b)) =
    Some (find (\<lambda>a. lkey (the (lh_objs t a)) = key) (cs b))"
  by (rule find_walk)
    (use ringsD [OF lh_invD(4) [OF assms(1)] head_in(2) [OF assms(2)]] lh_invD(7) [OF assms] in \<open>auto simp: ring_def\<close>)


section \<open>What a table holds\<close>

fun chain_addr :: "hnode \<Rightarrow> nat" where
  "chain_addr (Chain a) = a"
| "chain_addr _ = 0"

text \<open>The values of a key, newest first: those of the objects with the key along the chain of its bucket.\<close>

definition lh_absm :: "lib_linkhash \<Rightarrow> u64 \<Rightarrow> ptr list" where
  "lh_absm t key = (let l = Bucket_start (lib_bucket_id t key);
       as = map chain_addr (the (list_for_each (lh_links t) l (lnext (lh_links t) l)))
     in map (\<lambda>a. lval (the (lh_objs t a))) (filter (\<lambda>a. lkey (the (lh_objs t a)) = key) as))"

definition lh_vals :: "lib_linkhash \<Rightarrow> (nat \<Rightarrow> nat list) \<Rightarrow> u64 \<Rightarrow> ptr list" where
  "lh_vals t cs key = map (\<lambda>a. lval (the (lh_objs t a)))
     (filter (\<lambda>a. lkey (the (lh_objs t a)) = key) (cs (lib_bucket_id t key)))"

lemma lh_absm_eq:
  assumes "lh_inv t cs as"
  shows "lh_absm t = lh_vals t cs"
proof
  fix key
  let ?b = "lib_bucket_id t key"
  note f = lh_invD [OF assms]
  have "ring (lh_links t) (Bucket_start ?b) (map Chain (cs ?b))"
    using ringsD [OF f(4) head_in(2) [OF lib_bucket_lt [OF f(1,2)]]] by simp
  then have "list_for_each (lh_links t) (Bucket_start ?b) (lnext (lh_links t) (Bucket_start ?b)) = Some (map Chain (cs ?b))"
    by (intro ring_for_each_from) (simp_all add: ring_def)
  moreover have "map chain_addr (map Chain (cs ?b)) = cs ?b" by (simp add: comp_def)
  ultimately show "lh_absm t key = lh_vals t cs key" by (simp add: lh_absm_def lh_vals_def Let_def comp_def)
qed

definition lh_put :: "u64 \<Rightarrow> ptr \<Rightarrow> lib_linkhash \<Rightarrow> (lib_linkhash \<times> bool) option" where
  "lh_put key val t = do { (tp, r) \<leftarrow> lib_linkhash_add True key val (Some t); t \<leftarrow> tp; Some (t, r = 0) }"

definition lh_get :: "u64 \<Rightarrow> lib_linkhash \<Rightarrow> ptr option option" where
  "lh_get key t = map_option (\<lambda>v. if v = 0 then None else Some v) (lib_linkhash_get key (Some t))"

definition lh_del :: "u64 \<Rightarrow> lib_linkhash \<Rightarrow> (lib_linkhash \<times> ptr option) option" where
  "lh_del key t = do { (tp, v) \<leftarrow> lib_linkhash_remove key (Some t); t \<leftarrow> tp; Some (t, if v = - 1 then None else Some v) }"

definition lh_ok :: "lib_linkhash \<Rightarrow> bool" where
  "lh_ok t \<longleftrightarrow> (\<exists>cs as. lh_inv t cs as) \<and> (\<forall>x \<in> ran (lh_objs t). lval x \<noteq> 0 \<and> lval x \<noteq> - 1)"

lemma objs_fresh: "lh_inv t cs as \<Longrightarrow> lh_objs t (lh_fresh t) = None"
  by (metis lh_invD(6) less_irrefl not_None_eq)

lemma fresh_notin:
  assumes "lh_inv t cs as" and "m \<in> lh_heads (unat (lh_bucket_count t))"
  shows "Chain (lh_fresh t) \<notin> set (m # lh_lists cs as m)" "Hlist (lh_fresh t) \<notin> set (m # lh_lists cs as m)"
  using assms(2) lh_invD(5,7) [OF assms(1)] objs_fresh [OF assms(1)] by (auto simp: lh_heads_def)

lemma add_inv:
  assumes "lh_inv t cs as" and "val \<noteq> NULL"
  obtains t' where "lib_linkhash_add True key val (Some t) = Some (Some t', 0)"
    and "lh_inv t' (cs(lib_bucket_id t key := lh_fresh t # cs (lib_bucket_id t key))) (lh_fresh t # as)"
    and "lh_objs t' = (lh_objs t)(lh_fresh t \<mapsto> \<lparr>lkey = key, lval = val\<rparr>)" and "\<And>k. lib_bucket_id t' k = lib_bucket_id t k"
proof -
  note f = lh_invD [OF assms(1)]
  let ?b = "lib_bucket_id t key" and ?a = "lh_fresh t" and ?n = "unat (lh_bucket_count t)"
  have b: "?b < ?n" using lib_bucket_lt [OF f(1,2)] .
  let ?h = "list_add (Hlist ?a) Hlist_head (list_add (Chain ?a) (Bucket_start ?b) (lh_links t))"
  let ?t = "t\<lparr>lh_objs := (lh_objs t)(?a \<mapsto> \<lparr>lkey = key, lval = val\<rparr>), lh_fresh := Suc ?a,
      lh_refcount := (lh_refcount t)[?b := lib_atomic_add (lh_refcount t ! ?b) 1], lh_links := ?h,
      lh_obj_count := lib_atomic_add (lh_obj_count t) 1\<rparr>"
  let ?cs = "cs(?b := ?a # cs ?b)"
  have bk: "lib_bucket_id ?t k = lib_bucket_id t k" for k by (simp add: lib_bucket_id_def)
  have run: "lib_linkhash_add True key val (Some t) = Some (Some ?t, 0)"
    using assms(2) f(3) b by (simp add: lib_linkhash_add_def Let_def)
  have r1: "rings (list_add (Chain ?a) (Bucket_start ?b) (lh_links t)) (lh_heads ?n) (lh_lists ?cs as)"
    using rings_add [OF f(4) head_in(2) [OF b] fresh_notin(1) [OF assms(1)]]
      lh_lists_upd(1) [of cs as ?b "?a # cs ?b"] by simp
  have "Hlist ?a \<notin> set (m # lh_lists ?cs as m)" if "m \<in> lh_heads ?n" for m
    using fresh_notin(2) [OF assms(1) that] that by (auto simp: lh_heads_def split: if_splits)
  then have r2: "rings ?h (lh_heads ?n) (lh_lists ?cs (?a # as))"
    using rings_add [OF r1 head_in(1), of "Hlist ?a"] lh_lists_upd(2) [of ?cs as "?a # as"] by simp
  note new = objs_fresh [OF assms(1)]
  have "lh_inv ?t ?cs (?a # as)"
    unfolding lh_inv_def using f(1-3,5) r2 new f(6,7) bk by (auto simp: less_Suc_eq)
  then show thesis using that run bk by simp
qed

lemma vals_add:
  assumes "lh_inv t cs as" and "lh_objs t' = (lh_objs t)(lh_fresh t \<mapsto> \<lparr>lkey = key, lval = val\<rparr>)"
    and "\<And>k. lib_bucket_id t' k = lib_bucket_id t k"
  shows "lh_vals t' (cs(lib_bucket_id t key := lh_fresh t # cs (lib_bucket_id t key))) = (lh_vals t cs)(key := val # lh_vals t cs key)"
proof
  fix k
  note f = lh_invD [OF assms(1)]
  have "lh_fresh t \<notin> set (cs (lib_bucket_id t k'))" for k'
    using f(7) [OF lib_bucket_lt [OF f(1,2)]] objs_fresh [OF assms(1)] by simp
  then have keep: "map (\<lambda>a. lval (the (lh_objs t' a))) (filter (\<lambda>a. lkey (the (lh_objs t' a)) = j) (cs (lib_bucket_id t k'))) =
      map (\<lambda>a. lval (the (lh_objs t a))) (filter (\<lambda>a. lkey (the (lh_objs t a)) = j) (cs (lib_bucket_id t k')))" for j k'
    using assms(2) by (intro map_cong filter_cong) auto
  have new: "lh_objs t' (lh_fresh t) = Some \<lparr>lkey = key, lval = val\<rparr>" using assms(2) by simp
  show "lh_vals t' (cs(lib_bucket_id t key := lh_fresh t # cs (lib_bucket_id t key))) k =
      ((lh_vals t cs)(key := val # lh_vals t cs key)) k"
    by (cases "k = key") (auto simp: lh_vals_def assms(3) keep new)
qed


lemma remove_inv:
  assumes "lh_inv t cs as" and "find (\<lambda>a. lkey (the (lh_objs t a)) = key) (cs (lib_bucket_id t key)) = Some a"
  obtains t' x xs ys as' where "lib_linkhash_remove key (Some t) = Some (Some t', lval x)"
    and "cs (lib_bucket_id t key) = xs @ a # ys" and "\<forall>c \<in> set xs. lkey (the (lh_objs t c)) \<noteq> key"
    and "lh_inv t' (cs(lib_bucket_id t key := xs @ ys)) as'"
    and "lh_objs t a = Some x" and "lkey x = key" and "lh_objs t' = (lh_objs t)(a := None)" and "\<And>k. lib_bucket_id t' k = lib_bucket_id t k"
proof -
  note f = lh_invD [OF assms(1)]
  let ?b = "lib_bucket_id t key" and ?n = "unat (lh_bucket_count t)"
  have b: "?b < ?n" using lib_bucket_lt [OF f(1,2)] .
  from assms(2) obtain i where i: "i < length (cs ?b)" "cs ?b ! i = a" "lkey (the (lh_objs t a)) = key"
      "\<forall>j < i. lkey (the (lh_objs t (cs ?b ! j))) \<noteq> key" by (auto simp: find_Some_iff)
  define xs ys where "xs = take i (cs ?b)" and "ys = drop (Suc i) (cs ?b)"
  have split: "cs ?b = xs @ a # ys" using id_take_nth_drop [OF i(1)] i(2) by (simp add: xs_def ys_def)
  have before: "\<forall>c \<in> set xs. lkey (the (lh_objs t c)) \<noteq> key" 
  proof
    fix c assume "c \<in> set xs"
    then obtain j where "j < i" "c = cs ?b ! j" using i(1) by (auto simp: xs_def in_set_conv_nth)
    then show "lkey (the (lh_objs t c)) \<noteq> key" using i(4) by simp
  qed
  from f(7) [OF b] split obtain x where x: "lh_objs t a = Some x" by (metis in_set_conv_decomp)
  have "a \<in> set as" using f(5) x by auto
  then obtain us vs where as: "as = us @ a # vs" by (metis in_set_conv_decomp)
  let ?h = "list_del_init (Hlist a) (list_del_init (Chain a) (lh_links t))"
  let ?t = "t\<lparr>lh_links := ?h, lh_objs := (lh_objs t)(a := None)\<rparr>"
  have run: "lib_linkhash_remove key (Some t) = Some (Some ?t, lval x)"
    using f(3) b x bucket_find [OF assms(1) b, of key] assms(2) by (simp add: lib_linkhash_remove_def Let_def)
  have r1: "rings (list_del_init (Chain a) (lh_links t)) (lh_heads ?n) (lh_lists (cs(?b := xs @ ys)) as)"
    using rings_del_init [OF f(4) head_in(2) [OF b], of "map Chain xs" "Chain a" "map Chain ys"] split
      lh_lists_upd(1) [of cs as ?b "xs @ ys"] by simp
  have r2: "rings ?h (lh_heads ?n) (lh_lists (cs(?b := xs @ ys)) (us @ vs))"
    using rings_del_init [OF r1 head_in(1), of "map Hlist us" "Hlist a" "map Hlist vs"] as
      lh_lists_upd(2) [of "cs(?b := xs @ ys)" as "us @ vs"] by simp
  have dist: "distinct (cs ?b)" "distinct as"
    using ringsD [OF f(4) head_in(2) [OF b]] ringsD [OF f(4) head_in(1)] by (auto simp: ring_def distinct_map)
  have dom: "set (us @ vs) = dom ((lh_objs t)(a := None))" using f(5) dist(2) as by auto
  have bk: "lib_bucket_id ?t k = lib_bucket_id t k" for k by (simp add: lib_bucket_id_def)
  have "c \<in> set ((cs(?b := xs @ ys)) b') \<longleftrightarrow> (\<exists>x. ((lh_objs t)(a := None)) c = Some x \<and> lib_bucket_id t (lkey x) = b')"
    if "b' < ?n" for b' c
  proof (cases "b' = ?b")
    case True
    have "c \<in> set (xs @ ys) \<longleftrightarrow> c \<noteq> a \<and> c \<in> set (cs ?b)" using split dist(1) by auto
    then show ?thesis using True f(7) [OF b, of c] by auto
  next
    case False
    have "c \<noteq> a" if "c \<in> set (cs b')" using f(7) [OF \<open>b' < ?n\<close>, of c] that x i(3) False by auto
    moreover have "c \<noteq> a" if "lh_objs t c = Some y" "lib_bucket_id t (lkey y) = b'" for y using that x i(3) False by auto
    ultimately show ?thesis using False f(7) [OF that, of c] by auto
  qed
  then have "lh_inv ?t (cs(?b := xs @ ys)) (us @ vs)"
    unfolding lh_inv_def using f(1-3) r2 dom f(6) bk by auto
  then show thesis using that [OF run split before _ x] i(3) x bk by simp
qed

lemma vals_remove:
  assumes "lh_inv t cs as" and "cs (lib_bucket_id t key) = xs @ a # ys" and "\<forall>c \<in> set xs. lkey (the (lh_objs t c)) \<noteq> key"
    and "lh_objs t a = Some x" and "lkey x = key" and "lh_objs t' = (lh_objs t)(a := None)" and "\<And>k. lib_bucket_id t' k = lib_bucket_id t k"
  shows "lh_vals t cs key = lval x # lh_vals t' (cs(lib_bucket_id t key := xs @ ys)) key"
    and "lh_vals t' (cs(lib_bucket_id t key := xs @ ys)) = (lh_vals t cs)(key := tl (lh_vals t cs key))"
proof -
  note f = lh_invD [OF assms(1)]
  let ?b = "lib_bucket_id t key" and ?P = "\<lambda>t k a. lkey (the (lh_objs t a)) = k" and ?v = "\<lambda>t a. lval (the (lh_objs t a))"
  have "distinct (cs ?b)"
    using ringsD [OF f(4) head_in(2) [OF lib_bucket_lt [OF f(1,2)]]] by (auto simp: ring_def distinct_map)
  then have a: "a \<notin> set xs" "a \<notin> set ys" using assms(2) by auto
  have keep: "map (?v t') (filter (?P t' k) zs) = map (?v t) (filter (?P t k) zs)" if "a \<notin> set zs" for k zs
    using that assms(6) by (intro map_cong filter_cong) auto
  have none: "filter (?P t key) xs = []" using assms(3) by (simp add: filter_empty_conv)
  show 1: "lh_vals t cs key = lval x # lh_vals t' (cs(?b := xs @ ys)) key"
    using assms(2,4,5,7) none keep [of xs key] keep [of ys key] a by (simp add: lh_vals_def)
  show "lh_vals t' (cs(?b := xs @ ys)) = (lh_vals t cs)(key := tl (lh_vals t cs key))"
  proof
    fix k
    have "a \<notin> set (cs (lib_bucket_id t k))" if "lib_bucket_id t k \<noteq> ?b"
      using f(7) [OF lib_bucket_lt [OF f(1,2)], of a k] assms(4,5) that by auto
    then have "lh_vals t' (cs(?b := xs @ ys)) k = lh_vals t cs k" if "k \<noteq> key"
      using that assms(2,4,5,7) keep [of xs k] keep [of ys k] keep [of "cs (lib_bucket_id t k)" k] a
      by (auto simp: lh_vals_def)
    then show "lh_vals t' (cs(?b := xs @ ys)) k = ((lh_vals t cs)(key := tl (lh_vals t cs key))) k"
      using 1 by (cases "k = key") simp_all
  qed
qed


lemma vals_find:
  "lh_vals t cs key = [] \<longleftrightarrow> find (\<lambda>a. lkey (the (lh_objs t a)) = key) (cs (lib_bucket_id t key)) = None"
  "find (\<lambda>a. lkey (the (lh_objs t a)) = key) (cs (lib_bucket_id t key)) = Some a \<Longrightarrow> \<exists>vs. lh_vals t cs key = lval (the (lh_objs t a)) # vs"
proof -
  show "lh_vals t cs key = [] \<longleftrightarrow> find (\<lambda>a. lkey (the (lh_objs t a)) = key) (cs (lib_bucket_id t key)) = None"
    by (auto simp: lh_vals_def find_None_iff filter_empty_conv)
  have "\<exists>bs. filter P zs = a # bs" if "find P zs = Some a" for P and zs :: "nat list" using that by (induction zs) (auto split: if_splits)
  then show "\<exists>vs. lh_vals t cs key = lval (the (lh_objs t a)) # vs"
    if "find (\<lambda>a. lkey (the (lh_objs t a)) = key) (cs (lib_bucket_id t key)) = Some a"
    using that by (fastforce simp: lh_vals_def)
qed

interpretation lh: shadow_table lh_put lh_get lh_del lh_ok "{v. v \<noteq> 0 \<and> v \<noteq> - 1}" lh_absm
proof
  fix t v k
  assume ok: "lh_ok t" and v: "v \<in> {v :: ptr. v \<noteq> 0 \<and> v \<noteq> - 1}"
  then obtain cs as where inv: "lh_inv t cs as" and vs: "\<forall>x \<in> ran (lh_objs t). lval x \<noteq> 0 \<and> lval x \<noteq> - 1" by (auto simp: lh_ok_def)
  from v have nz: "v \<noteq> NULL" by simp
  obtain t' where t': "lib_linkhash_add True k v (Some t) = Some (Some t', 0)"
      "lh_inv t' (cs(lib_bucket_id t k := lh_fresh t # cs (lib_bucket_id t k))) (lh_fresh t # as)"
      "lh_objs t' = (lh_objs t)(lh_fresh t \<mapsto> \<lparr>lkey = k, lval = v\<rparr>)" "\<And>j. lib_bucket_id t' j = lib_bucket_id t j"
    by (rule add_inv [OF inv nz]) (rule that)
  have abs: "lh_absm t' = (lh_absm t)(k := v # lh_absm t k)"
    unfolding lh_absm_eq [OF inv] lh_absm_eq [OF t'(2)] using t'(3,4) by (intro vals_add [OF inv])
  have "\<forall>x \<in> ran (lh_objs t'). lval x \<noteq> 0 \<and> lval x \<noteq> - 1"
    using vs v t'(3) by (auto simp: ran_def split: if_splits)
  then have ok': "lh_ok t'" unfolding lh_ok_def using t'(2) by blast
  have "lh_put k v t = Some (t', True)" using t'(1) by (simp add: lh_put_def del: bind_Some_iff)
  then show "\<exists>s'. lh_put k v t = Some (s', True) \<and> lh_ok s' \<and> lh_absm s' = (lh_absm t)(k := v # lh_absm t k)"
    using ok' abs by blast
next
  fix t k
  assume ok: "lh_ok t"
  then obtain cs as where inv: "lh_inv t cs as" and vs: "\<forall>x \<in> ran (lh_objs t). lval x \<noteq> 0 \<and> lval x \<noteq> - 1" by (auto simp: lh_ok_def)
  note f = lh_invD [OF inv] and b = lib_bucket_lt [OF lh_invD(1,2) [OF inv], of k]
  note vf = vals_find(1) [of t cs k] vals_find(2) [of t k cs]
  show "lh_get k t = Some (case lh_absm t k of [] \<Rightarrow> None | v # _ \<Rightarrow> Some v)"
  proof (cases "find (\<lambda>a. lkey (the (lh_objs t a)) = k) (cs (lib_bucket_id t k))")
    case None
    then show ?thesis
      using vf(1) b f(3) bucket_find [OF inv b, of k] lh_absm_eq [OF inv] by (simp add: lh_get_def lib_linkhash_get_def Let_def)
  next
    case (Some a)
    then have "a \<in> set (cs (lib_bucket_id t k))" by (auto simp: find_Some_iff)
    then obtain x where x: "lh_objs t a = Some x" using f(7) [OF b] by blast
    then have nz: "lval x \<noteq> 0" using vs by (auto simp: ran_def)
    from vf(2) [OF Some] x obtain us where us: "lh_absm t k = lval x # us" using lh_absm_eq [OF inv] by auto
    have "lib_linkhash_get k (Some t) = Some (lval x)"
      using Some x b f(3) bucket_find [OF inv b, of k] by (simp add: lib_linkhash_get_def Let_def)
    then show ?thesis using us nz by (simp add: lh_get_def)
  qed
  show "\<exists>s'. lh_del k t = Some (s', case lh_absm t k of [] \<Rightarrow> None | v # _ \<Rightarrow> Some v) \<and> lh_ok s' \<and>
      lh_absm s' = (lh_absm t)(k := tl (lh_absm t k))"
  proof (cases "find (\<lambda>a. lkey (the (lh_objs t a)) = k) (cs (lib_bucket_id t k))")
    case None
    then have "lh_del k t = Some (t, None)"
      using b f(3) bucket_find [OF inv b, of k] by (simp add: lh_del_def lib_linkhash_remove_def Let_def)
    moreover have "lh_absm t k = []" using vf(1) None lh_absm_eq [OF inv] by simp
    ultimately show ?thesis using ok by (intro exI [of _ t]) (simp add: fun_upd_idem)
  next
    case (Some a)
    obtain t' x xs ys as' where r: "lib_linkhash_remove k (Some t) = Some (Some t', lval x)"
        "cs (lib_bucket_id t k) = xs @ a # ys" "\<forall>c \<in> set xs. lkey (the (lh_objs t c)) \<noteq> k"
        "lh_inv t' (cs(lib_bucket_id t k := xs @ ys)) as'"
        "lh_objs t a = Some x" "lkey x = k" "lh_objs t' = (lh_objs t)(a := None)" "\<And>k. lib_bucket_id t' k = lib_bucket_id t k"
      by (rule remove_inv [OF inv Some]) (rule that)
    note v = vals_remove [OF inv r(2,3,5-8)]
    have "lval x \<noteq> - 1" using vs r(5) by (auto simp: ran_def)
    then have run: "lh_del k t = Some (t', Some (lval x))" using r(1) by (simp add: lh_del_def del: bind_Some_iff)
    have "\<forall>x \<in> ran (lh_objs t'). lval x \<noteq> 0 \<and> lval x \<noteq> - 1" using vs r(7) by (auto simp: ran_def split: if_splits)
    then have ok': "lh_ok t'" unfolding lh_ok_def using r(4) by blast
    have abs: "lh_absm t' = (lh_absm t)(k := tl (lh_absm t k))"
      unfolding lh_absm_eq [OF inv] lh_absm_eq [OF r(4)] by (rule v(2))
    obtain us where "lh_absm t k = lval x # us" using v(1) unfolding lh_absm_eq [OF inv] by blast
    then show ?thesis using run ok' abs by (intro exI [of _ t']) simp
  qed
qed


text \<open>The operations themselves, in terms of what the table holds.\<close>

lemma hash_get_abs:
  assumes "lh_ok t"
  shows "lib_linkhash_get k (Some t) = Some (case lh_absm t k of [] \<Rightarrow> 0 | v # _ \<Rightarrow> v)"
  using lh.get_abs [OF assms, of k] by (cases "lh_absm t k") (auto simp: lh_get_def split: if_splits)

lemma hash_get:
  assumes "lh_ok t"
  obtains v where "lib_linkhash_get k (Some t) = Some v" and "v = NULL \<longleftrightarrow> lh_absm t k = []"
proof -
  have "v \<noteq> NULL" if "lh_absm t k = v # vs" for v vs
    using lh.get_abs [OF assms, of k] that by (auto simp: lh_get_def split: if_splits)
  then show thesis using that [OF hash_get_abs [OF assms]] by (cases "lh_absm t k") auto
qed

lemma hash_add:
  assumes "lh_ok t" and "v \<noteq> 0" and "v \<noteq> - 1"
  shows "\<exists>t'. lib_linkhash_add True k v (Some t) = Some (Some t', 0) \<and> lh_ok t' \<and> lh_absm t' = (lh_absm t)(k := v # lh_absm t k)"
    and "lib_linkhash_add False k v (Some t) = Some (Some t, - 1)"
proof -
  from lh.put_abs [OF assms(1), of v k] assms(2,3) obtain t' where
    t': "lh_put k v t = Some (t', True)" "lh_ok t'" "lh_absm t' = (lh_absm t)(k := v # lh_absm t k)" by auto
  then have a: "lib_linkhash_add True k v (Some t) = Some (Some t', 0)" by (auto simp: lh_put_def)
  then show "\<exists>t'. lib_linkhash_add True k v (Some t) = Some (Some t', 0) \<and> lh_ok t' \<and> lh_absm t' = (lh_absm t)(k := v # lh_absm t k)"
    using t' by blast
  show "lib_linkhash_add False k v (Some t) = Some (Some t, - 1)"
    using a assms(2) by (simp add: lib_linkhash_add_def Let_def split: if_splits)
qed

lemma hash_remove:
  assumes "lh_ok t"
  obtains t' where "lib_linkhash_remove k (Some t) = Some (Some t', case lh_absm t k of [] \<Rightarrow> - 1 | v # _ \<Rightarrow> v)"
    and "lh_ok t'" and "lh_absm t' = (lh_absm t)(k := tl (lh_absm t k))"
proof -
  from lh.del_abs [OF assms, of k] obtain t' where
    t': "lh_del k t = Some (t', case lh_absm t k of [] \<Rightarrow> None | v # _ \<Rightarrow> Some v)" "lh_ok t'"
      "lh_absm t' = (lh_absm t)(k := tl (lh_absm t k))" by blast
  from t'(1) obtain v where "lib_linkhash_remove k (Some t) = Some (Some t', v)"
      "(if v = - 1 then None else Some v) = (case lh_absm t k of [] \<Rightarrow> None | v # _ \<Rightarrow> Some v)"
    by (auto simp: lh_del_def)
  then show thesis using that t'(2,3) by (cases "lh_absm t k") (auto split: if_splits)
qed

lemma fold_init_rings:
  assumes "rings h (insert Hlist_head (Bucket_start ` {..<m})) (lh_lists (\<lambda>_. []) [])"
  shows "rings (fold (\<lambda>i h. INIT_LIST_HEAD (Bucket_start i) h) [m..<m + k] h) (insert Hlist_head (Bucket_start ` {..<m + k})) (lh_lists (\<lambda>_. []) [])"
proof (induction k)
  case 0
  then show ?case using assms by simp
next
  case (Suc k)
  let ?L = "insert Hlist_head (Bucket_start ` {..<m + k})"
  have "Bucket_start (m + k) \<notin> set (l # lh_lists (\<lambda>_. []) [] l)" if "l \<in> ?L" for l using that by auto
  from rings_new_head [OF Suc.IH this] show ?case by (simp add: lessThan_Suc insert_commute)
qed

lemma lib_create_ok:
  assumes "lib_linkhash_create (Some mem) n = Some t" and "lh_objs mem = Map.empty"
  shows "lh_ok t" and "lh_absm t = (\<lambda>_. [])"
proof -
  have n: "n \<noteq> 0" "unat n \<le> 128" and t: "t = lib_linkhash_init n mem"
    using assms(1) by (auto simp: lib_linkhash_create_def word_less_nat_alt split: if_splits)
  have "rings (INIT_LIST_HEAD Hlist_head (lh_links mem)) {Hlist_head} (lh_lists (\<lambda>_. []) [])"
    using ring_init [of Hlist_head "lh_links mem"] by (simp add: rings_def)
  then have "rings (lh_links t) (lh_heads (unat n)) (lh_lists (\<lambda>_. []) [])"
    using fold_init_rings [of "INIT_LIST_HEAD Hlist_head (lh_links mem)" 0 "unat n"]
    by (simp add: t lib_linkhash_init_def Let_def lh_heads_def)
  then have inv: "lh_inv t (\<lambda>_. []) []"
    using n assms(2) by (simp add: lh_inv_def t lib_linkhash_init_def Let_def)
  have "lh_objs t = Map.empty" using assms(2) by (simp add: t lib_linkhash_init_def Let_def)
  then show "lh_ok t" unfolding lh_ok_def using inv by auto
  show "lh_absm t = (\<lambda>_. [])" by (simp add: lh_absm_eq [OF inv] lh_vals_def fun_eq_iff)
qed

text \<open>
  (C22) The hash table of \<open>lib\<close> at pointer level.  On a table \<open>linkhash_create\<close> returns, every sequence of
  \<open>linkhash_add\<close>, \<open>linkhash_get\<close> and \<open>linkhash_remove\<close> ends and returns what a map from keys to stacks
  of values returns: adding a key again shadows its value, removing it uncovers the value before.
\<close>

theorem linkhash_refines_stacks:
  assumes "lib_linkhash_create (Some mem) n = Some t" and "lh_objs mem = Map.empty"
    and "\<forall>p \<in> set ps. op_in UNIV {v. v \<noteq> 0 \<and> v \<noteq> - 1} p"
  shows "\<exists>t'. table_run lh_put lh_get lh_del ps t = Some (t', snd (shadow_run ps (\<lambda>_. [])))"
  using lh.shadow_run_refines [OF lib_create_ok(1) [OF assms(1,2)] assms(3)] lib_create_ok(2) [OF assms(1,2)] by auto

definition lib_hash_mem :: lib_linkhash where
  "lib_hash_mem = \<lparr>lh_bucket_count = 0, lh_obj_count = 9, lh_refcount = [],
     lh_links = \<lparr>lnext = (\<lambda>_. Hlist_head), lprev = (\<lambda>_. Hlist_head)\<rparr>, lh_objs = Map.empty, lh_fresh = 0\<rparr>"

theorem linkhash_refines_stacks_witness:
  "\<exists>t t'. lib_linkhash_create (Some lib_hash_mem) 16 = Some t \<and>
     table_run lh_put lh_get lh_del [Put 5 7, Put 5 8, Get 6, Get 5, Del 5, Get 5, Del 5, Del 5] t = Some (t',
       [Stored True, Stored True, Found None, Found (Some 8), Found (Some 8), Found (Some 7), Found (Some 7), Found None])"
proof -
  let ?ps = "[Put 5 7, Put 5 8, Get 6, Get 5, Del 5, Get 5, Del 5, Del 5] :: (u64, ptr) table_op list"
  obtain t where t: "lib_linkhash_create (Some lib_hash_mem) 16 = Some t" by (simp add: lib_linkhash_create_def)
  have "lh_objs lib_hash_mem = Map.empty" by (simp add: lib_hash_mem_def)
  moreover have "\<forall>p \<in> set ?ps. op_in UNIV {v. v \<noteq> 0 \<and> v \<noteq> - 1} p" by simp
  ultimately obtain t' where r: "table_run lh_put lh_get lh_del ?ps t = Some (t', snd (shadow_run ?ps (\<lambda>_. [])))"
    using linkhash_refines_stacks [OF t] by blast
  have "snd (shadow_run ?ps (\<lambda>_. [])) =
      [Stored True, Stored True, Found None, Found (Some 8), Found (Some 8), Found (Some 7), Found (Some 7), Found None]"
    by simp
  then show ?thesis using t r by metis
qed

lemma lib_destroy_loop_spec:
  assumes "ring h Hlist_head (map Hlist as)" and "set as = dom os"
  shows "lib_destroy_loop h os = Some Map.empty"
  using assms
proof (induction as arbitrary: h os)
  case Nil
  then have "os = Map.empty" by (metis dom_eq_empty_conv list.set(1))
  then show ?case using Nil.prems(1) by (subst lib_destroy_loop.simps) (simp add: ring_def)
next
  case (Cons a as)
  have nx: "lnext h Hlist_head = Hlist a" using Cons.prems(1) by (simp add: ring_def)
  have "ring (list_del_init (Hlist a) h) Hlist_head (map Hlist as)"
    using ring_del_init(1) [of h Hlist_head "[]" "Hlist a" "map Hlist as"] Cons.prems(1) by simp
  moreover have "a \<notin> set as" using Cons.prems(1) by (auto simp: ring_def)
  then have "set as = dom (os(a := None))" using Cons.prems(2) by auto
  ultimately have "lib_destroy_loop (list_del_init (Hlist a) h) (os(a := None)) = Some Map.empty" by (rule Cons.IH)
  moreover obtain x where "os a = Some x" using Cons.prems(2) by auto
  ultimately show ?case using nx by (subst lib_destroy_loop.simps) simp
qed

text \<open>\<open>linkhash_destroy\<close> ends, frees every object of the table exactly once and nothing else.\<close>

theorem linkhash_destroy_frees_all:
  assumes "lh_ok t"
  shows "lib_linkhash_destroy (Some t) = Some Map.empty"
proof -
  obtain cs as where inv: "lh_inv t cs as" using assms by (auto simp: lh_ok_def)
  then show ?thesis
    using lib_destroy_loop_spec [of "lh_links t" as "lh_objs t"] ringsD [OF lh_invD(4) [OF inv] head_in(1)] lh_invD(5) [OF inv]
    by (simp add: lib_linkhash_destroy_def)
qed

theorem linkhash_destroy_frees_all_witness:
  "\<exists>t t'. lib_linkhash_create (Some lib_hash_mem) 16 = Some t \<and> lh_put 5 7 t = Some (t', True) \<and>
     lib_linkhash_destroy (Some t') = Some Map.empty"
proof -
  obtain t where t: "lib_linkhash_create (Some lib_hash_mem) 16 = Some t" by (simp add: lib_linkhash_create_def)
  have "lh_ok t" using lib_create_ok(1) [OF t] by (simp add: lib_hash_mem_def)
  then obtain t' where "lh_put 5 7 t = Some (t', True)" "lh_ok t'" using lh.put_abs [of t 7 5] by auto
  then show ?thesis using t linkhash_destroy_frees_all by blast
qed

end
