(* ===== verification/Lib_Mempool.thy ===== *)
theory Lib_Mempool
  imports Kernel_List Interfaces Atomic
begin

text \<open>
  \<open>lib/mem_pool/mem_pool.c\<close>: a pool of blocks of one size.  A block is on one of two circular lists of
  \<open>list.h\<close>, of the free and of the used blocks; the model works on the pointers of these lists with
  the operations of \<open>Kernel_List\<close>.  What \<open>block_alloc\<close> returns and whether an allocation succeeds are
  parameters.

  The results: a pool behaves as a stack of free blocks and never hands out a block twice; its counters
  drift with every failed allocation; \<open>mempool_destroy\<close> never frees anything.
\<close>

section \<open>The pool and its operations\<close>

text \<open>The list nodes of a pool: the heads of its two lists, its own node, and the node in each block.\<close>

datatype mnode = Block_lh nat | Pool_hook | Hook nat

abbreviation (input) FREE_MEMBLOCK_LH :: nat where "FREE_MEMBLOCK_LH \<equiv> 0"
abbreviation (input) USED_MEMBLOCK_LH :: nat where "USED_MEMBLOCK_LH \<equiv> 1"
abbreviation (input) MEMBLOCK_LH_COUNT :: nat where "MEMBLOCK_LH_COUNT \<equiv> 2"

record mempool_block =
  mb_size :: u64
  block_start :: ptr

record mempool =
  mp_links :: "mnode lheap"
  list_len :: "nat \<Rightarrow> u32"
  pool_free_size :: u64
  pool_size :: u64
  pool_start :: ptr
  mp_blocks :: "nat \<Rightarrow> mempool_block option"
  mp_fresh :: nat

definition mempool_block_alloc :: "bool \<Rightarrow> ptr \<Rightarrow> u64 \<Rightarrow> mempool \<Rightarrow> mempool \<times> nat option" where
  "mempool_block_alloc ok start sz pool =
     (if ok
      then (pool\<lparr>mp_blocks := (mp_blocks pool)(mp_fresh pool \<mapsto> \<lparr>mb_size = sz, block_start = start\<rparr>),
                 mp_fresh := Suc (mp_fresh pool)\<rparr>, Some (mp_fresh pool))
      else (pool, None))"

text \<open>Inserting the block \<open>NULL\<close> stores through it.\<close>

definition mempool_block_insert_head :: "nat option \<Rightarrow> nat \<Rightarrow> mempool \<Rightarrow> (mempool \<times> nat option) option" where
  "mempool_block_insert_head block type pool =
     (case block of
        None \<Rightarrow> None
      | Some a \<Rightarrow> Some (pool\<lparr>mp_links := list_insert_after (Block_lh type) (Hook a) (mp_links pool)\<rparr>, Some a))"

definition mempool_block_remove_head :: "nat \<Rightarrow> mempool \<Rightarrow> (mempool \<times> nat option) option" where
  "mempool_block_remove_head type pool =
     (let head = Block_lh type; block = lnext (mp_links pool) head in
      if block \<noteq> head
      then (case block of
          Hook a \<Rightarrow> Some (pool\<lparr>mp_links := list_remove (Hook a) (mp_links pool)\<rparr>, Some a)
        | _ \<Rightarrow> None)
      else Some (pool, None))"

definition mempool_init :: "u64 \<Rightarrow> mempool \<Rightarrow> mempool" where
  "mempool_init sz pool =
     (let pool = fold (\<lambda>i pool. pool\<lparr>list_len := (list_len pool)(i := lib_atomic_init (list_len pool i)),
                                     mp_links := INIT_LIST_HEAD (Block_lh i) (mp_links pool)\<rparr>)
                   [0..<MEMBLOCK_LH_COUNT] pool
      in pool\<lparr>mp_links := INIT_LIST_HEAD Pool_hook (mp_links pool), pool_free_size := 0, pool_size := sz, pool_start := 0\<rparr>)"

definition len_add :: "nat \<Rightarrow> u32 \<Rightarrow> mempool \<Rightarrow> mempool" where
  "len_add i v pool = pool\<lparr>list_len := (list_len pool)(i := lib_atomic_add (list_len pool i) v)\<rparr>"

definition len_sub :: "nat \<Rightarrow> u32 \<Rightarrow> mempool \<Rightarrow> mempool" where
  "len_sub i v pool = pool\<lparr>list_len := (list_len pool)(i := lib_atomic_sub (list_len pool i) v)\<rparr>"

text \<open>
  \<open>alloc i sz\<close> is what the \<open>i\<close>-th call of \<open>block_alloc\<close> returns and leaves in \<open>*size\<close>, \<open>ok i\<close> whether the
  \<open>i\<close>-th allocation of a block descriptor succeeds; \<open>k\<close> rounds are left.  The counter is an \<open>int\<close>.
\<close>

fun create_loop :: "(nat \<Rightarrow> u64 \<Rightarrow> ptr \<times> u64) \<Rightarrow> (nat \<Rightarrow> bool) \<Rightarrow> nat \<Rightarrow> nat \<Rightarrow> u64 \<Rightarrow> mempool \<Rightarrow> mempool option" where
  "create_loop alloc ok i 0 sz pool = Some pool"
| "create_loop alloc ok i (Suc k) sz pool =
     (let (start, sz) = alloc i sz; (pool, block) = mempool_block_alloc (ok i) start sz pool in
      case mempool_block_insert_head block FREE_MEMBLOCK_LH pool of
        None \<Rightarrow> None
      | Some (pool, _) \<Rightarrow>
          let pool = len_add FREE_MEMBLOCK_LH 1 pool; pool = pool\<lparr>pool_free_size := pool_free_size pool + sz\<rparr>
          in if Suc i = 2 ^ 31 then None else create_loop alloc ok (Suc i) k sz pool)"

text \<open>\<open>mem\<close> is the pool the allocation returns, or nothing; \<open>alloc\<close> is nothing when \<open>block_alloc\<close> is \<open>NULL\<close>.\<close>

definition mempool_create ::
    "mempool option \<Rightarrow> u64 \<Rightarrow> u64 \<Rightarrow> (nat \<Rightarrow> u64 \<Rightarrow> ptr \<times> u64) option \<Rightarrow> (nat \<Rightarrow> bool) \<Rightarrow> mempool option option" where
  "mempool_create mem block_size block_count block_alloc ok =
     (case (block_alloc, mem) of
        (Some alloc, Some pool) \<Rightarrow>
          if block_size = 0 \<or> block_count = 0 then Some None
          else map_option (\<lambda>pool. Some (len_add USED_MEMBLOCK_LH 1 pool))
                 (create_loop alloc ok 0 (unat block_count) block_size (mempool_init (block_count * block_size) pool))
      | _ \<Rightarrow> Some None)"

text \<open>The loop of \<open>mempool_destroy\<close>, with the pointers given to \<open>block_free\<close> so far.\<close>

partial_function (option) destroy_free :: "mempool \<Rightarrow> ptr list \<Rightarrow> (mempool \<times> ptr list) option" where
  "destroy_free pool freed =
     (if lib_atomic_is_null (list_len pool FREE_MEMBLOCK_LH) then Some (pool, freed)
      else case mempool_block_remove_head FREE_MEMBLOCK_LH pool of
        None \<Rightarrow> None
      | Some (pool, None) \<Rightarrow> destroy_free pool freed
      | Some (pool, Some a) \<Rightarrow>
          (case mp_blocks pool a of
             None \<Rightarrow> None
           | Some b \<Rightarrow> destroy_free (pool\<lparr>mp_blocks := (mp_blocks pool)(a := None)\<rparr>) (freed @ [block_start b])))"

definition mempool_destroy :: "mempool option \<Rightarrow> (mempool option \<times> ptr list \<times> int) option" where
  "mempool_destroy pool =
     (case pool of
        None \<Rightarrow> Some (None, [], - 1)
      | Some pool \<Rightarrow>
          let pool = len_sub USED_MEMBLOCK_LH 1 pool in
          if \<not> lib_atomic_is_null (list_len pool USED_MEMBLOCK_LH)
          then Some (Some (len_add USED_MEMBLOCK_LH 1 pool), [], - 1)
          else map_option (\<lambda>(pool, freed). (None, freed, 0)) (destroy_free pool []))"

definition mempool_alloc :: "mempool option \<Rightarrow> (mempool option \<times> nat option) option" where
  "mempool_alloc pool =
     (case pool of
        None \<Rightarrow> Some (None, None)
      | Some pool \<Rightarrow> do {
          let pool = len_sub FREE_MEMBLOCK_LH 1 (len_add USED_MEMBLOCK_LH 1 pool);
          (pool, block) \<leftarrow> mempool_block_remove_head FREE_MEMBLOCK_LH pool;
          case block of
            None \<Rightarrow> Some (Some pool, None)
          | Some a \<Rightarrow> do {
              (pool, _) \<leftarrow> mempool_block_insert_head (Some a) USED_MEMBLOCK_LH pool;
              Some (Some pool, Some a)
            }
        })"

definition mempool_free :: "mempool option \<Rightarrow> nat option \<Rightarrow> mempool option option" where
  "mempool_free pool block =
     (case (pool, block) of
        (Some pool, Some a) \<Rightarrow> do {
          let pool = len_sub USED_MEMBLOCK_LH 1 (len_add FREE_MEMBLOCK_LH 1 pool);
          let pool = pool\<lparr>mp_links := list_del_init (Hook a) (mp_links pool)\<rparr>;
          (pool, _) \<leftarrow> mempool_block_insert_head (Some a) FREE_MEMBLOCK_LH pool;
          Some (Some pool)
        }
      | _ \<Rightarrow> Some pool)"

section \<open>Well-formed pools\<close>

fun mp_lists :: "nat list \<Rightarrow> nat list \<Rightarrow> mnode \<Rightarrow> mnode list" where
  "mp_lists fs us (Block_lh i) = (if i = 0 then map Hook fs else if i = 1 then map Hook us else [])"
| "mp_lists fs us _ = []"

abbreviation mp_heads :: "mnode set" where
  "mp_heads \<equiv> {Block_lh 0, Block_lh 1, Pool_hook}"

text \<open>\<open>fs\<close> and \<open>us\<close> are the free and the used blocks, \<open>e\<close> is the number of allocations that found no block.\<close>

definition mp_shape :: "mempool \<Rightarrow> nat list \<Rightarrow> nat list \<Rightarrow> bool" where
  "mp_shape pool fs us \<longleftrightarrow> rings (mp_links pool) mp_heads (mp_lists fs us) \<and>
     set (fs @ us) = dom (mp_blocks pool) \<and> (\<forall>a \<in> dom (mp_blocks pool). a < mp_fresh pool)"

definition mp_inv :: "mempool \<Rightarrow> nat list \<Rightarrow> nat list \<Rightarrow> nat \<Rightarrow> bool" where
  "mp_inv pool fs us e \<longleftrightarrow> mp_shape pool fs us \<and>
     list_len pool FREE_MEMBLOCK_LH = of_nat (length fs) - of_nat e \<and>
     list_len pool USED_MEMBLOCK_LH = 1 + of_nat (length us) + of_nat e"

lemma mp_invD:
  assumes "mp_inv pool fs us e"
  shows "rings (mp_links pool) mp_heads (mp_lists fs us)" "set (fs @ us) = dom (mp_blocks pool)"
    "\<And>a. a \<in> dom (mp_blocks pool) \<Longrightarrow> a < mp_fresh pool"
    "list_len pool FREE_MEMBLOCK_LH = of_nat (length fs) - of_nat e"
    "list_len pool USED_MEMBLOCK_LH = 1 + of_nat (length us) + of_nat e"
  using assms by (auto simp: mp_inv_def mp_shape_def)

lemma mp_lists_upd:
  "(mp_lists fs us)(Block_lh 0 := map Hook xs) = mp_lists xs us"
  "(mp_lists fs us)(Block_lh 1 := map Hook xs) = mp_lists fs xs"
proof -
  show "(mp_lists fs us)(Block_lh 0 := map Hook xs) = mp_lists xs us"
  proof
    fix l show "((mp_lists fs us)(Block_lh 0 := map Hook xs)) l = mp_lists xs us l" by (cases l) auto
  qed
  show "(mp_lists fs us)(Block_lh 1 := map Hook xs) = mp_lists fs xs"
  proof
    fix l show "((mp_lists fs us)(Block_lh 1 := map Hook xs)) l = mp_lists fs xs l" by (cases l) auto
  qed
qed

lemma mp_distinct:
  assumes "mp_inv pool fs us e"
  shows "distinct (fs @ us)"
proof -
  note r = mp_invD(1) [OF assms]
  have "ring (mp_links pool) (Block_lh 0) (map Hook fs)" "ring (mp_links pool) (Block_lh 1) (map Hook us)"
    using ringsD [OF r, of "Block_lh 0"] ringsD [OF r, of "Block_lh 1"] by simp_all
  moreover have "Hook ` set fs \<inter> Hook ` set us = {}"
    using rings_disjoint [OF r, of "Block_lh 0" "Block_lh 1"] by simp
  ultimately show ?thesis by (auto simp: ring_def distinct_map)
qed

lemma remove_head_spec:
  assumes "rings (mp_links pool) mp_heads (mp_lists fs us)"
  shows "mempool_block_remove_head FREE_MEMBLOCK_LH pool = (case fs of
      [] \<Rightarrow> Some (pool, None) | a # _ \<Rightarrow> Some (pool\<lparr>mp_links := list_remove (Hook a) (mp_links pool)\<rparr>, Some a))"
    and "fs = a # fs' \<Longrightarrow> rings (list_remove (Hook a) (mp_links pool)) mp_heads (mp_lists fs' us)"
proof -
  have "lnext (mp_links pool) (Block_lh 0) = (case fs of [] \<Rightarrow> Block_lh 0 | a # _ \<Rightarrow> Hook a)"
    using ring_ends(1) [OF ringsD [OF assms, of "Block_lh 0"]] by (cases fs) (simp_all add: startp_def)
  then show "mempool_block_remove_head FREE_MEMBLOCK_LH pool = (case fs of
      [] \<Rightarrow> Some (pool, None) | a # _ \<Rightarrow> Some (pool\<lparr>mp_links := list_remove (Hook a) (mp_links pool)\<rparr>, Some a))"
    by (cases fs) (simp_all add: mempool_block_remove_head_def Let_def)
  show "rings (list_remove (Hook a) (mp_links pool)) mp_heads (mp_lists fs' us)" if "fs = a # fs'"
    using rings_remove [OF assms, of "Block_lh 0" "[]" "Hook a" "map Hook fs'"] that mp_lists_upd(1) [of fs us fs'] by simp
qed

lemma hook_free:
  "a \<notin> set (fs @ us) \<Longrightarrow> m \<in> mp_heads \<Longrightarrow> Hook a \<notin> set (m # mp_lists fs us m)"
  by auto

lemma insert_head_spec:
  assumes "rings h mp_heads (mp_lists fs us)" and "a \<notin> set (fs @ us)"
  shows "rings (list_insert_after (Block_lh 0) (Hook a) h) mp_heads (mp_lists (a # fs) us)"
    and "rings (list_insert_after (Block_lh 1) (Hook a) h) mp_heads (mp_lists fs (a # us))"
  using rings_insert_after [OF assms(1) _ hook_free [OF assms(2)], of "Block_lh 0"] mp_lists_upd(1) [of fs us "a # fs"]
    rings_insert_after [OF assms(1) _ hook_free [OF assms(2)], of "Block_lh 1"] mp_lists_upd(2) [of fs us "a # us"]
  by simp_all


section \<open>What the operations do\<close>

lemma alloc_some:
  assumes "mp_inv pool (a # fs) us e"
  obtains pool' where "mempool_alloc (Some pool) = Some (Some pool', Some a)" and "mp_inv pool' fs (a # us) e"
proof -
  note f = mp_invD [OF assms]
  let ?p1 = "len_sub FREE_MEMBLOCK_LH 1 (len_add USED_MEMBLOCK_LH 1 pool)"
  have l1: "mp_links ?p1 = mp_links pool" by (simp add: len_sub_def len_add_def)
  note rm = remove_head_spec [of ?p1 "a # fs" us, unfolded l1, OF f(1)]
  let ?h = "list_insert_after (Block_lh 1) (Hook a) (list_remove (Hook a) (mp_links pool))"
  let ?p = "?p1\<lparr>mp_links := ?h\<rparr>"
  have "a \<notin> set (fs @ us)" using mp_distinct [OF assms] by auto
  from insert_head_spec(2) [OF rm(2) [OF refl] this] have "rings ?h mp_heads (mp_lists fs (a # us))" .
  moreover have "list_len ?p 0 = of_nat (length fs) - of_nat e" "list_len ?p 1 = 1 + of_nat (length (a # us)) + of_nat e"
    using f(4,5) by (simp_all add: len_add_def len_sub_def lib_atomic_defs)
  ultimately have "mp_inv ?p fs (a # us) e"
    using f(2,3) by (auto simp: mp_inv_def mp_shape_def len_add_def len_sub_def)
  moreover have "mempool_alloc (Some pool) = Some (Some ?p, Some a)"
    using rm(1) l1 by (simp add: mempool_alloc_def mempool_block_insert_head_def Let_def)
  ultimately show thesis using that by blast
qed

lemma alloc_none:
  assumes "mp_inv pool [] us e"
  obtains pool' where "mempool_alloc (Some pool) = Some (Some pool', None)" and "mp_inv pool' [] us (Suc e)"
proof -
  note f = mp_invD [OF assms]
  let ?p = "len_sub FREE_MEMBLOCK_LH 1 (len_add USED_MEMBLOCK_LH 1 pool)"
  have l1: "mp_links ?p = mp_links pool" by (simp add: len_sub_def len_add_def)
  have "mp_inv ?p [] us (Suc e)"
    using f by (auto simp: mp_inv_def mp_shape_def len_add_def len_sub_def lib_atomic_defs)
  moreover have "mempool_alloc (Some pool) = Some (Some ?p, None)"
    using remove_head_spec(1) [of ?p "[]" us, unfolded l1, OF f(1)] by (simp add: mempool_alloc_def Let_def)
  ultimately show thesis using that by blast
qed

lemma free_used:
  assumes "mp_inv pool fs us e" and "a \<in> set us"
  obtains pool' where "mempool_free (Some pool) (Some a) = Some (Some pool')" and "mp_inv pool' (a # fs) (remove1 a us) e"
proof -
  note f = mp_invD [OF assms(1)]
  obtain xs ys where us: "us = xs @ a # ys" using assms(2) by (metis in_set_conv_decomp)
  have d: "distinct (fs @ us)" using mp_distinct [OF assms(1)] .
  then have rm: "remove1 a us = xs @ ys" and a: "a \<notin> set (fs @ xs @ ys)" using us by (auto simp: remove1_append)
  let ?p1 = "len_sub USED_MEMBLOCK_LH 1 (len_add FREE_MEMBLOCK_LH 1 pool)"
  let ?h = "list_insert_after (Block_lh 0) (Hook a) (list_del_init (Hook a) (mp_links pool))"
  let ?p = "?p1\<lparr>mp_links := ?h\<rparr>"
  have "rings (list_del_init (Hook a) (mp_links pool)) mp_heads (mp_lists fs (xs @ ys))"
    using rings_del_init [OF f(1), of "Block_lh 1" "map Hook xs" "Hook a" "map Hook ys"] us mp_lists_upd(2) [of fs us "xs @ ys"]
    by simp
  from insert_head_spec(1) [OF this a] have "rings ?h mp_heads (mp_lists (a # fs) (xs @ ys))" .
  moreover have "list_len ?p 0 = of_nat (length (a # fs)) - of_nat e" "list_len ?p 1 = 1 + of_nat (length (xs @ ys)) + of_nat e"
    using f(4,5) us by (simp_all add: len_add_def len_sub_def lib_atomic_defs)
  ultimately have "mp_inv ?p (a # fs) (xs @ ys) e"
    using f(2,3) us by (auto simp: mp_inv_def mp_shape_def len_add_def len_sub_def)
  moreover have "mempool_free (Some pool) (Some a) = Some (Some ?p)"
    by (simp add: mempool_free_def mempool_block_insert_head_def len_add_def len_sub_def Let_def)
  ultimately show thesis using that rm by simp
qed

lemma mempool_keeps_blocks:
  "mempool_alloc (Some pool) = Some (Some pool', r) \<Longrightarrow> mp_blocks pool' = mp_blocks pool"
  "mempool_free (Some pool) (Some a) = Some (Some pool'') \<Longrightarrow> mp_blocks pool'' = mp_blocks pool"
proof -
  show "mp_blocks pool' = mp_blocks pool" if "mempool_alloc (Some pool) = Some (Some pool', r)"
    using that by (auto simp: mempool_alloc_def mempool_block_remove_head_def mempool_block_insert_head_def Let_def
        len_add_def len_sub_def split: if_splits mnode.splits option.splits)
  show "mp_blocks pool'' = mp_blocks pool" if "mempool_free (Some pool) (Some a) = Some (Some pool'')"
    using that by (auto simp: mempool_free_def mempool_block_insert_head_def Let_def len_add_def len_sub_def)
qed

lemma create_loop_spec:
  assumes "mp_shape pool fs []" and "\<forall>j. ok j" and "i + k < 2 ^ 31"
  shows "\<exists>pool'. create_loop alloc ok i k sz pool = Some pool' \<and> mp_shape pool' (rev [mp_fresh pool..<mp_fresh pool + k] @ fs) [] \<and>
    list_len pool' 0 = list_len pool 0 + of_nat k \<and> list_len pool' 1 = list_len pool 1"
  using assms(1,3)
proof (induction k arbitrary: i sz pool fs)
  case 0
  then show ?case by simp
next
  case (Suc k)
  obtain st sz' where al: "alloc i sz = (st, sz')" by (cases "alloc i sz")
  let ?a = "mp_fresh pool"
  let ?p = "pool\<lparr>mp_blocks := (mp_blocks pool)(?a \<mapsto> \<lparr>mb_size = sz', block_start = st\<rparr>), mp_fresh := Suc ?a,
      mp_links := list_insert_after (Block_lh 0) (Hook ?a) (mp_links pool),
      list_len := (list_len pool)(0 := list_len pool 0 + 1), pool_free_size := pool_free_size pool + sz'\<rparr>"
  have f: "rings (mp_links pool) mp_heads (mp_lists fs [])" "set fs = dom (mp_blocks pool)"
      "\<forall>a \<in> dom (mp_blocks pool). a < ?a" using Suc.prems(1) by (simp_all add: mp_shape_def)
  have a: "?a \<notin> set (fs @ [])" using f(2,3) by auto
  have sh: "mp_shape ?p (?a # fs) []"
    using insert_head_spec(1) [OF f(1) a] f(2,3) by (auto simp: mp_shape_def less_Suc_eq)
  have step: "create_loop alloc ok i (Suc k) sz pool = create_loop alloc ok (Suc i) k sz' ?p"
    using assms(2) Suc.prems(2) al
    by (simp add: mempool_block_alloc_def mempool_block_insert_head_def len_add_def lib_atomic_defs Let_def)
  have "Suc i + k < 2 ^ 31" using Suc.prems(2) by simp
  from Suc.IH [OF sh this, of sz'] obtain pool' where r:
    "create_loop alloc ok (Suc i) k sz' ?p = Some pool'" "mp_shape pool' (rev [mp_fresh ?p..<mp_fresh ?p + k] @ ?a # fs) []"
    "list_len pool' 0 = list_len ?p 0 + of_nat k" "list_len pool' 1 = list_len ?p 1" by blast
  have "rev [mp_fresh ?p..<mp_fresh ?p + k] @ ?a # fs = rev [?a..<?a + Suc k] @ fs"
    by (simp add: upt_conv_Cons del: upt_Suc)
  then have "mp_shape pool' (rev [?a..<?a + Suc k] @ fs) []" using r(2) by (simp only:)
  then show ?case unfolding step using r(1,3,4) by (intro exI [of _ pool']) (simp del: upt_Suc)
qed

lemma create_spec:
  assumes "block_size \<noteq> 0" and "block_count \<noteq> 0" and "unat block_count < 2 ^ 31" and "\<forall>j. ok j" and "mp_blocks mem = Map.empty"
  obtains pool where "mempool_create (Some mem) block_size block_count (Some alloc) ok = Some (Some pool)"
    and "mp_inv pool (rev [mp_fresh mem..<mp_fresh mem + unat block_count]) [] 0"
proof -
  let ?p = "mempool_init (block_count * block_size) mem"
  have "rings (mp_links ?p) mp_heads (mp_lists [] [])"
  proof -
    have r: "rings (INIT_LIST_HEAD (Block_lh 0) (mp_links mem)) {Block_lh 0} (mp_lists [] [])"
      using ring_init [of "Block_lh 0" "mp_links mem"] by (simp add: rings_def)
    have "rings (INIT_LIST_HEAD (Block_lh 1) (INIT_LIST_HEAD (Block_lh 0) (mp_links mem))) {Block_lh 1, Block_lh 0} (mp_lists [] [])"
      by (rule rings_new_head [OF r]) auto
    then have "rings (INIT_LIST_HEAD Pool_hook (INIT_LIST_HEAD (Block_lh 1) (INIT_LIST_HEAD (Block_lh 0) (mp_links mem))))
        {Pool_hook, Block_lh 1, Block_lh 0} (mp_lists [] [])"
      by (rule rings_new_head) auto
    then show ?thesis by (simp add: mempool_init_def Let_def insert_commute numeral_2_eq_2)
  qed
  then have sh: "mp_shape ?p [] []" and len: "list_len ?p 0 = 0" "list_len ?p 1 = 0" and fr: "mp_fresh ?p = mp_fresh mem"
    using assms(5) by (simp_all add: mp_shape_def mempool_init_def Let_def numeral_2_eq_2 lib_atomic_defs)
  have "0 + unat block_count < 2 ^ 31" using assms(3) by simp
  from create_loop_spec [OF sh assms(4) this, of alloc block_size] fr len obtain pool where
    pool: "create_loop alloc ok 0 (unat block_count) block_size ?p = Some pool"
      "mp_shape pool (rev [mp_fresh mem..<mp_fresh mem + unat block_count]) []"
      "list_len pool 0 = of_nat (unat block_count)" "list_len pool 1 = 0" by auto
  have "mempool_create (Some mem) block_size block_count (Some alloc) ok = Some (Some (len_add 1 1 pool))"
    using assms(1,2) pool(1) by (simp add: mempool_create_def)
  moreover have "mp_inv (len_add 1 1 pool) (rev [mp_fresh mem..<mp_fresh mem + unat block_count]) [] 0"
    using pool(2-4) by (simp add: mp_inv_def mp_shape_def len_add_def lib_atomic_defs)
  ultimately show thesis using that by blast
qed


section \<open>Runs of a client\<close>

datatype mp_op = MAlloc | MFree nat

text \<open>The abstract pool: free and used blocks and the number of failed allocations; freeing a block that is not used is an error of the client.\<close>

fun apool_run :: "mp_op list \<Rightarrow> nat list \<times> nat list \<times> nat \<Rightarrow> ((nat list \<times> nat list \<times> nat) \<times> nat option list) option" where
  "apool_run [] s = Some (s, [])"
| "apool_run (MAlloc # ops) ([], us, e) = map_option (\<lambda>(s, rs). (s, None # rs)) (apool_run ops ([], us, Suc e))"
| "apool_run (MAlloc # ops) (a # fs, us, e) = map_option (\<lambda>(s, rs). (s, Some a # rs)) (apool_run ops (fs, a # us, e))"
| "apool_run (MFree a # ops) (fs, us, e) = (if a \<in> set us then apool_run ops (a # fs, remove1 a us, e) else None)"

fun mp_run :: "mp_op list \<Rightarrow> mempool \<Rightarrow> (mempool \<times> nat option list) option" where
  "mp_run [] pool = Some (pool, [])"
| "mp_run (MAlloc # ops) pool = (case mempool_alloc (Some pool) of
     Some (Some pool, r) \<Rightarrow> map_option (\<lambda>(p, rs). (p, r # rs)) (mp_run ops pool)
   | _ \<Rightarrow> None)"
| "mp_run (MFree a # ops) pool = (case mempool_free (Some pool) (Some a) of
     Some (Some pool) \<Rightarrow> mp_run ops pool
   | _ \<Rightarrow> None)"

lemma mp_run_refines:
  assumes "mp_inv pool fs us e" and "apool_run ops (fs, us, e) = Some ((fs', us', e'), rs)"
  shows "\<exists>pool'. mp_run ops pool = Some (pool', rs) \<and> mp_inv pool' fs' us' e'"
  using assms
proof (induction ops "(fs, us, e)" arbitrary: pool fs us e rs rule: apool_run.induct)
  case (2 ops us e)
  obtain p where p: "mempool_alloc (Some pool) = Some (Some p, None)" "mp_inv p [] us (Suc e)"
    by (rule alloc_none [OF 2(2)]) (rule that)
  from 2(3) obtain rs1 where "apool_run ops ([], us, Suc e) = Some ((fs', us', e'), rs1)" "rs = None # rs1" by auto
  with 2(1) [OF p(2)] p(1) show ?case by auto
next
  case (3 ops a fs us e)
  obtain p where p: "mempool_alloc (Some pool) = Some (Some p, Some a)" "mp_inv p fs (a # us) e"
    by (rule alloc_some [OF 3(2)]) (rule that)
  from 3(3) obtain rs1 where "apool_run ops (fs, a # us, e) = Some ((fs', us', e'), rs1)" "rs = Some a # rs1" by auto
  with 3(1) [OF p(2)] p(1) show ?case by auto
next
  case (4 a ops fs us e)
  then have a: "a \<in> set us" by (auto split: if_splits)
  obtain p where p: "mempool_free (Some pool) (Some a) = Some (Some p)" "mp_inv p (a # fs) (remove1 a us) e"
    by (rule free_used [OF 4(2) a]) (rule that)
  from 4(1) [OF a p(2)] 4(3) a p(1) show ?case by simp
qed simp

text \<open>
  (C23) The block pool of \<open>lib\<close> at pointer level.  A pool of \<open>n\<close> blocks that was created without failure
  behaves, for every sequence of allocations and of frees of used blocks, as a stack of free
  blocks: \<open>mempool_alloc\<close> returns the block freed last or, when none is free, \<open>NULL\<close>; no block is
  handed out twice; and the two counters are the numbers of free and used blocks, off by the
  number of allocations that failed.
\<close>

theorem mempool_refines_stack:
  assumes "block_size \<noteq> 0" and "block_count \<noteq> 0" and "unat block_count < 2 ^ 31" and "\<forall>j. ok j" and "mp_blocks mem = Map.empty"
    and "apool_run ops (rev [mp_fresh mem..<mp_fresh mem + unat block_count], [], 0) = Some ((fs, us, e), rs)"
  shows "\<exists>pool pool'. mempool_create (Some mem) block_size block_count (Some alloc) ok = Some (Some pool) \<and>
    mp_run ops pool = Some (pool', rs) \<and> distinct (fs @ us) \<and>
    list_len pool' FREE_MEMBLOCK_LH = of_nat (length fs) - of_nat e \<and>
    list_len pool' USED_MEMBLOCK_LH = 1 + of_nat (length us) + of_nat e"
proof -
  obtain pool where pool: "mempool_create (Some mem) block_size block_count (Some alloc) ok = Some (Some pool)"
      "mp_inv pool (rev [mp_fresh mem..<mp_fresh mem + unat block_count]) [] 0"
    by (rule create_spec [OF assms(1-5)]) (rule that)
  from mp_run_refines [OF pool(2) assms(6)] obtain pool' where r: "mp_run ops pool = Some (pool', rs)" "mp_inv pool' fs us e" by blast
  then show ?thesis using pool(1) mp_distinct [OF r(2)] mp_invD(4,5) [OF r(2)] by blast
qed

definition mp_mem :: mempool where
  "mp_mem = \<lparr>mp_links = \<lparr>lnext = (\<lambda>_. Pool_hook), lprev = (\<lambda>_. Pool_hook)\<rparr>, list_len = (\<lambda>_. 7), pool_free_size = 5, pool_size = 5,
     pool_start = 5, mp_blocks = Map.empty, mp_fresh = 0\<rparr>"

theorem mempool_refines_stack_witness:
  "\<exists>pool pool'. mempool_create (Some mp_mem) 64 2 (Some (\<lambda>i sz. (of_nat (Suc i), sz))) (\<lambda>_. True) = Some (Some pool) \<and>
     mp_run [MAlloc, MAlloc, MAlloc, MFree 1, MAlloc] pool = Some (pool', [Some 1, Some 0, None, Some 1]) \<and>
     list_len pool' FREE_MEMBLOCK_LH = - 1 \<and> list_len pool' USED_MEMBLOCK_LH = 4"
proof -
  have "apool_run [MAlloc, MAlloc, MAlloc, MFree 1, MAlloc] (rev [mp_fresh mp_mem..<mp_fresh mp_mem + unat (2 :: u64)], [], 0) =
      Some (([], [1, 0], 1), [Some 1, Some 0, None, Some 1])"
    by (simp add: mp_mem_def upt_conv_Cons)
  from mempool_refines_stack [OF _ _ _ _ _ this, of 64 "\<lambda>_. True" "\<lambda>i sz. (of_nat (Suc i), sz)"] show ?thesis
    by (auto simp: mp_mem_def)
qed

section \<open>Destroying a pool\<close>

lemma remove_head_len: "mempool_block_remove_head t pool = Some (pool', r) \<Longrightarrow> list_len pool' = list_len pool"
  by (auto simp: mempool_block_remove_head_def Let_def split: if_splits mnode.splits)

lemma destroy_spins:
  assumes "list_len pool FREE_MEMBLOCK_LH \<noteq> 0"
  shows "destroy_free pool freed = None"
proof -
  have "list_len pool FREE_MEMBLOCK_LH = 0" if "destroy_free pool freed = Some y" for pool freed y
    by (rule destroy_free.raw_induct [OF _ that, of "\<lambda>pool _ _. list_len pool FREE_MEMBLOCK_LH = 0"])
      (force simp: lib_atomic_is_null_def dest: remove_head_len split: if_splits option.splits prod.splits)
  then show ?thesis using assms by (cases "destroy_free pool freed") auto
qed

text \<open>
  \<open>mempool_destroy\<close> never frees a pool.  Its loop runs until the counter of free blocks is 0 but
  nothing in it changes the counter.  On a pool from which no allocation failed it returns
  \<open>-EMEMPOOLUSING\<close> while a block is used, and does not return once all are free.  After a failed
  allocation it reports blocks in use for ever, although all are free.
\<close>

theorem mempool_destroy_never_frees:
  assumes "mp_inv pool fs us e" and "length (fs @ us) + e < 2 ^ 31" and "fs @ us \<noteq> []"
  shows "mempool_destroy (Some pool) = (if us = [] \<and> e = 0 then None else Some (Some pool, [], - 1))"
proof -
  note f = mp_invD [OF assms(1)]
  have b: "length us + e < 2 ^ 32" using assms(2) by simp
  have z: "of_nat (length us) + of_nat e = (0 :: u32) \<longleftrightarrow> us = [] \<and> e = 0"
    using b by (simp add: of_nat_add [symmetric] word_of_nat_eq_0_iff del: of_nat_add) (auto dest!: nat_dvd_not_less [rotated])
  let ?p = "len_sub USED_MEMBLOCK_LH 1 pool"
  have u: "list_len ?p 1 = of_nat (length us) + of_nat e" using f(5) by (simp add: len_sub_def lib_atomic_defs)
  have undo: "len_add USED_MEMBLOCK_LH 1 ?p = pool" by (cases pool) (simp add: len_add_def len_sub_def lib_atomic_defs)
  show ?thesis
  proof (cases "us = [] \<and> e = 0")
    case True
    then have "fs \<noteq> []" "list_len ?p 0 = of_nat (length fs)" "length fs < 2 ^ 32"
      using assms(2,3) f(4) by (auto simp: len_sub_def lib_atomic_defs)
    then have "list_len ?p 0 \<noteq> 0" by (auto simp: word_of_nat_eq_0_iff dest!: nat_dvd_not_less [rotated])
    from destroy_spins [OF this] True u show ?thesis by (simp add: mempool_destroy_def Let_def lib_atomic_is_null_def)
  next
    case False
    then have nz: "list_len ?p 1 \<noteq> 0" using u z by simp
    then show ?thesis using False undo by (simp add: mempool_destroy_def Let_def lib_atomic_is_null_def)
  qed
qed


theorem mempool_destroy_never_frees_witness:
  "\<exists>pool. mempool_create (Some mp_mem) 64 2 (Some (\<lambda>i sz. (of_nat (Suc i), sz))) (\<lambda>_. True) = Some (Some pool) \<and>
     mempool_destroy (Some pool) = None"
proof -
  obtain pool where pool: "mempool_create (Some mp_mem) 64 2 (Some (\<lambda>i sz. (of_nat (Suc i), sz))) (\<lambda>_. True) = Some (Some pool)"
      "mp_inv pool (rev [mp_fresh mp_mem..<mp_fresh mp_mem + unat (2 :: u64)]) [] 0"
    by (rule create_spec [of 64 2 "\<lambda>_. True" mp_mem "\<lambda>i sz. (of_nat (Suc i), sz)"]) (auto simp: mp_mem_def)
  from mempool_destroy_never_frees [OF pool(2)] pool(1) show ?thesis by (simp add: upt_conv_Cons)
qed

end
