(* ===== verification/Rpc_Service.thy ===== *)
theory Rpc_Service
  imports Lib_Hashlist Lib_Mempool
begin

text \<open>
  \<open>rpc_test/rpc_daemon\<close>, \<open>rpc_test/rpc_server\<close> and \<open>rpc_test/rpc_client\<close>: services that are found by
  number, clients that send them requests, and the server thread that gives every client a block of
  shared memory and calls the handlers of the service.  The component is a client of the library
  hash table and block pool, and queues its requests on kernel lists.

  Threads interleave.  A client's call is the sequence of its steps (prepare the request, queue it,
  post the server's semaphore, wait on its own), and so is a round of the server (wait, take a
  request, file the waiter, copy the request, serve it).  The spin lock makes the two accesses to
  the request list single steps.

  The results of this theory concern the daemon: registering, looking up and unregistering are
  inverse to each other, and unregistering an unknown number frees a wild pointer.  What the
  threads do together is in \<open>Rpc_Threads\<close>.
\<close>

section \<open>Data\<close>

datatype rnode = Req_list u64 | Rsp_list u64 | Service_hook u64

abbreviation (input) CLIENT_REQ_SERVICE_WITH_RSP :: u64 where "CLIENT_REQ_SERVICE_WITH_RSP \<equiv> 0"
abbreviation (input) CLIENT_REQ_SERVICE_WITHOUT_RSP :: u64 where "CLIENT_REQ_SERVICE_WITHOUT_RSP \<equiv> 1"
abbreviation (input) CLIENT_GET_SERVICE :: u64 where "CLIENT_GET_SERVICE \<equiv> 2"
abbreviation (input) CLIENT_STOP_SERVICE :: u64 where "CLIENT_STOP_SERVICE \<equiv> 3"
abbreviation (input) RPC_CLIENT_REQ_TOTAL_TYPE_COUNT :: u32 where "RPC_CLIENT_REQ_TOTAL_TYPE_COUNT \<equiv> 4"
abbreviation (input) MAX_RPC_SERVICE_BUCKET_COUNT :: u64 where "MAX_RPC_SERVICE_BUCKET_COUNT \<equiv> 128"
abbreviation (input) MAX_RPC_SHM_BLOCK_COUNT :: u64 where "MAX_RPC_SHM_BLOCK_COUNT \<equiv> 256"
abbreviation (input) RPC_PAGE_SIZE :: u64 where "RPC_PAGE_SIZE \<equiv> 4096"

text \<open>A handler is one of the two default handlers, which only log, or a function of the user.\<close>

datatype rpc_srv_handler = Default_with_rsp | Default_without_rsp | User_handler ptr

record rpc_srv_params =
  client_id :: u64
  req_type :: u64
  rpc_shm_vaddr :: ptr
  rpc_param :: u64

record rpc_service =
  server_id :: u64
  server_sem :: nat
  srv_handlers :: "rpc_srv_handler option list"

record rpc_client =
  service_cap :: u64
  client_sem :: nat
  rpc_params :: rpc_srv_params

record rpc_mem =
  services :: "u64 \<Rightarrow> rpc_service option"
  clients :: "u64 \<Rightarrow> rpc_client option"
  rpc_links :: "rnode lheap"
  service_cap_hash :: "lib_linkhash option"

section \<open>The daemon: services by number\<close>

text \<open>\<open>new\<close> is the address the allocation returns, \<open>NULL\<close> if it fails, \<open>hs\<close> what the handler array holds then.\<close>

definition mk_rpc_service_cap :: "ptr \<Rightarrow> rpc_srv_handler option list \<Rightarrow> u64 \<Rightarrow> rpc_mem \<Rightarrow> rpc_mem \<times> u64" where
  "mk_rpc_service_cap new hs sid m =
     (if new \<noteq> NULL
      then (m\<lparr>rpc_links := INIT_LIST_HEAD (Rsp_list new) (INIT_LIST_HEAD (Req_list new) (rpc_links m)),
              services := (services m)(new \<mapsto> \<lparr>server_id = sid, server_sem = 0, srv_handlers = hs\<rparr>)\<rparr>, new)
      else (m, new))"

text \<open>Freeing anything but \<open>NULL\<close> or a live service is undefined behaviour.\<close>

definition del_rpc_service_cap :: "u64 \<Rightarrow> rpc_mem \<Rightarrow> rpc_mem option" where
  "del_rpc_service_cap p m =
     (if p = NULL then Some m
      else if services m p = None then None
      else Some (m\<lparr>services := (services m)(p := None)\<rparr>))"

text \<open>\<open>hmem\<close>, \<open>new\<close> and \<open>ok\<close> are the outcomes of the allocations of the table, the service and the table entry.\<close>

definition rpc_service_register ::
    "lib_linkhash option \<Rightarrow> ptr \<Rightarrow> rpc_srv_handler option list \<Rightarrow> bool \<Rightarrow> u64 \<Rightarrow> u64 \<Rightarrow> rpc_mem \<Rightarrow> (rpc_mem \<times> u64) option" where
  "rpc_service_register hmem new hs ok service_id sid m =
     (let m = (if service_cap_hash m = None
               then m\<lparr>service_cap_hash := lib_linkhash_create hmem MAX_RPC_SERVICE_BUCKET_COUNT\<rparr> else m) in
      if service_cap_hash m = None then Some (m, 0)
      else do {
        service_check \<leftarrow> lib_linkhash_get service_id (service_cap_hash m);
        if service_check \<noteq> 0 then Some (m, service_check)
        else do {
          let (m, cap) = mk_rpc_service_cap new hs sid m;
          (t, res) \<leftarrow> lib_linkhash_add ok service_id cap (service_cap_hash m);
          let m = m\<lparr>service_cap_hash := t\<rparr>;
          if res = - 1 then do { m \<leftarrow> del_rpc_service_cap cap m; Some (m, 0) }
          else Some (m, cap)
        }
      })"

definition rpc_service_unregister :: "u64 \<Rightarrow> rpc_mem \<Rightarrow> rpc_mem option" where
  "rpc_service_unregister service_id m = do {
     (t, cap) \<leftarrow> lib_linkhash_remove service_id (service_cap_hash m);
     let m = m\<lparr>service_cap_hash := t\<rparr>;
     if cap \<noteq> 0 then del_rpc_service_cap cap m else Some m
   }"

definition rpc_client_security_check :: "u64 \<Rightarrow> rpc_mem \<Rightarrow> u64 option" where
  "rpc_client_security_check service_id m = lib_linkhash_get service_id (service_cap_hash m)"

definition rpc_get_capobj_bycptr :: "u64 \<Rightarrow> ptr" where
  "rpc_get_capobj_bycptr cap = cap"

section \<open>Clients\<close>

text \<open>\<open>new\<close> is the address the allocation returns, \<open>g\<close> what the parameters hold there, \<open>tid\<close> the thread.\<close>

definition rpc_client_init :: "ptr \<Rightarrow> rpc_srv_params \<Rightarrow> u64 \<Rightarrow> u64 \<Rightarrow> rpc_mem \<Rightarrow> rpc_mem \<times> ptr" where
  "rpc_client_init new g tid cap m =
     (if new \<noteq> NULL
      then (m\<lparr>rpc_links := INIT_LIST_HEAD (Service_hook new) (rpc_links m),
              clients := (clients m)(new \<mapsto>
                \<lparr>service_cap = cap, client_sem = 0, rpc_params = g\<lparr>client_id := tid\<rparr>\<rparr>)\<rparr>, new)
      else (m, new))"

definition rpc_client_get_service :: "ptr \<Rightarrow> rpc_srv_params \<Rightarrow> u64 \<Rightarrow> u64 \<Rightarrow> rpc_mem \<Rightarrow> (rpc_mem \<times> ptr) option" where
  "rpc_client_get_service new g tid service_id m =
     (if service_cap_hash m = None then Some (m, NULL)
      else do {
        cap \<leftarrow> rpc_client_security_check service_id m;
        if cap = 0 then Some (m, NULL)
        else Some (rpc_client_init new g tid cap m)
      })"

definition rpc_client_stop_service :: "u64 \<Rightarrow> rpc_mem \<Rightarrow> rpc_mem" where
  "rpc_client_stop_service service_id m = m"

definition upd_client :: "u64 \<Rightarrow> (rpc_client \<Rightarrow> rpc_client) \<Rightarrow> rpc_mem \<Rightarrow> rpc_mem option" where
  "upd_client c f m = map_option (\<lambda>cl. m\<lparr>clients := (clients m)(c \<mapsto> f cl)\<rparr>) (clients m c)"

definition upd_service :: "u64 \<Rightarrow> (rpc_service \<Rightarrow> rpc_service) \<Rightarrow> rpc_mem \<Rightarrow> rpc_mem option" where
  "upd_service s f m = map_option (\<lambda>sv. m\<lparr>services := (services m)(s \<mapsto> f sv)\<rparr>) (services m s)"

definition client_post :: "u64 \<Rightarrow> rpc_mem \<Rightarrow> rpc_mem option" where
  "client_post c = upd_client c (\<lambda>cl. cl\<lparr>client_sem := Suc (client_sem cl)\<rparr>)"

definition rpc_client_package_params :: "u64 \<Rightarrow> u32 \<Rightarrow> rpc_mem \<Rightarrow> rpc_mem option" where
  "rpc_client_package_params c ty =
     upd_client c (\<lambda>cl. cl\<lparr>rpc_params := (rpc_params cl)\<lparr>req_type := scast ty\<rparr>\<rparr>)"

text \<open>The critical section of \<open>rpc_client_send_request\<close>, and its post of the server's semaphore.\<close>

definition send_queue :: "u64 \<Rightarrow> u64 \<Rightarrow> rpc_mem \<Rightarrow> rpc_mem option" where
  "send_queue s c m =
     (if services m s = None \<or> clients m c = None then None
      else Some (m\<lparr>rpc_links := list_add_tail (Service_hook c) (Req_list s) (rpc_links m)\<rparr>))"

definition send_post :: "u64 \<Rightarrow> rpc_mem \<Rightarrow> rpc_mem option" where
  "send_post s = upd_service s (\<lambda>sv. sv\<lparr>server_sem := Suc (server_sem sv)\<rparr>)"

text \<open>The checks before the request, \<open>Some False\<close> if the call returns \<open>NULL\<close>, and the result after it.\<close>

definition request_checks :: "u64 \<Rightarrow> u32 \<Rightarrow> rpc_mem \<Rightarrow> bool option" where
  "request_checks c ty m =
     (if c = NULL then Some False
      else do {
        cl \<leftarrow> clients m c;
        Some (rpc_get_capobj_bycptr (service_cap cl) \<noteq> NULL \<and> \<not> ty > RPC_CLIENT_REQ_TOTAL_TYPE_COUNT)
      })"

definition request_result :: "u64 \<Rightarrow> u32 \<Rightarrow> rpc_mem \<Rightarrow> ptr option" where
  "request_result c ty m =
     (if ucast ty \<in> {CLIENT_GET_SERVICE, CLIENT_REQ_SERVICE_WITH_RSP, CLIENT_REQ_SERVICE_WITHOUT_RSP, CLIENT_STOP_SERVICE}
      then map_option (\<lambda>cl. rpc_shm_vaddr (rpc_params cl)) (clients m c) else Some NULL)"

section \<open>The server\<close>

text \<open>
  \<open>rpc_service_get_request\<close>: taking the first request off the list, filing its client as a waiter
  or waking it, and copying the parameters.  A node that is not in a live client is undefined
  behaviour.
\<close>

definition request_take :: "u64 \<Rightarrow> rpc_mem \<Rightarrow> (rpc_mem \<times> u64) option" where
  "request_take s m =
     (case lnext (rpc_links m) (Req_list s) of
        Service_hook c \<Rightarrow>
          if clients m c = None then None
          else Some (m\<lparr>rpc_links := list_del_init (Service_hook c) (rpc_links m)\<rparr>, c)
      | _ \<Rightarrow> None)"

definition request_file :: "u64 \<Rightarrow> u64 \<Rightarrow> rpc_mem \<Rightarrow> rpc_mem option" where
  "request_file s c m = do {
     cl \<leftarrow> clients m c;
     if req_type (rpc_params cl) = CLIENT_GET_SERVICE \<or> req_type (rpc_params cl) = CLIENT_REQ_SERVICE_WITH_RSP
     then Some (m\<lparr>rpc_links := list_add_tail (Service_hook c) (Rsp_list s) (rpc_links m)\<rparr>)
     else client_post c m
   }"

definition first_waiter :: "u64 \<Rightarrow> rpc_mem \<Rightarrow> u64 option" where
  "first_waiter s m =
     (case lnext (rpc_links m) (Rsp_list s) of
        Service_hook c \<Rightarrow> if clients m c = None then None else Some c
      | _ \<Rightarrow> None)"

definition rpc_service_awake_waiter :: "u64 \<Rightarrow> rpc_mem \<Rightarrow> rpc_mem option" where
  "rpc_service_awake_waiter s m = do {
     c \<leftarrow> first_waiter s m;
     client_post c (m\<lparr>rpc_links := list_del_init (Service_hook c) (rpc_links m)\<rparr>)
   }"

definition rpc_service_send_response :: "u64 \<Rightarrow> rpc_srv_params \<Rightarrow> rpc_mem \<Rightarrow> rpc_mem option" where
  "rpc_service_send_response s rsp m = do {
     c \<leftarrow> first_waiter s m;
     upd_client c (\<lambda>cl. cl\<lparr>rpc_params :=
       (rpc_params cl)\<lparr>rpc_param := rpc_param rsp, rpc_shm_vaddr := rpc_shm_vaddr rsp\<rparr>\<rparr>) m
   }"

definition rpc_shm_block_alloc :: "(u64 \<Rightarrow> ptr) \<Rightarrow> u64 \<Rightarrow> ptr \<times> u64" where
  "rpc_shm_block_alloc malloc sz =
     (if sz > RPC_PAGE_SIZE then (NULL, sz)
      else let real_size = (sz + (RPC_PAGE_SIZE - 1)) AND NOT (RPC_PAGE_SIZE - 1) in (malloc real_size, real_size))"

text \<open>
  The state of the server thread.  Block descriptors are the numbers of \<open>Lib_Mempool\<close>; \<open>blk_addr\<close> are
  their addresses and \<open>addr_blk\<close> the descriptor at an address.
\<close>

datatype srv_pc = SWait | STake | SGot u64 | SFiled u64 | SServe rpc_srv_params

record rpc_server =
  shm_pool :: mempool
  shm_hash :: lib_linkhash
  spc :: srv_pc
  calls :: "(rpc_srv_handler \<times> rpc_srv_params) list"

record rpc_env =
  blk_addr :: "nat \<Rightarrow> ptr"
  addr_blk :: "ptr \<Rightarrow> nat"

text \<open>\<open>service_handler(&params)\<close>, with the handler of the request type.\<close>

definition call_handler :: "u64 \<Rightarrow> rpc_srv_params \<Rightarrow> rpc_mem \<times> rpc_server \<Rightarrow> (rpc_mem \<times> rpc_server) option" where
  "call_handler s p ms = do {
     sv \<leftarrow> services (fst ms) s;
     if unat (req_type p) < length (srv_handlers sv)
     then do { h \<leftarrow> srv_handlers sv ! unat (req_type p);
               Some (fst ms, (snd ms)\<lparr>calls := calls (snd ms) @ [(h, p)]\<rparr>) }
     else None
   }"

definition awake :: "u64 \<Rightarrow> rpc_mem \<times> rpc_server \<Rightarrow> (rpc_mem \<times> rpc_server) option" where
  "awake s ms = map_option (\<lambda>m. (m, snd ms)) (rpc_service_awake_waiter s (fst ms))"

text \<open>The case \<open>CLIENT_GET_SERVICE\<close> for a client without a block; \<open>ok\<close>: the allocation of the table entry succeeds.\<close>

definition serve_new :: "rpc_env \<Rightarrow> bool \<Rightarrow> u64 \<Rightarrow> rpc_srv_params \<Rightarrow> rpc_mem \<times> rpc_server \<Rightarrow> (rpc_mem \<times> rpc_server) option" where
  "serve_new E ok s p ms = (case ms of (m, sr) \<Rightarrow> do {
     (pp, b) \<leftarrow> mempool_alloc (Some (shm_pool sr));
     pool \<leftarrow> pp;
     let sr = sr\<lparr>shm_pool := pool\<rparr>;
     case b of
       None \<Rightarrow> awake s (m, sr)
     | Some a \<Rightarrow> do {
         (tp, r) \<leftarrow> lib_linkhash_add ok (client_id p) (blk_addr E a) (Some (shm_hash sr));
         t \<leftarrow> tp;
         let sr = sr\<lparr>shm_hash := t\<rparr>;
         if r \<noteq> 0 then do {
           pp \<leftarrow> mempool_free (Some (shm_pool sr)) (Some a);
           pool \<leftarrow> pp;
           awake s (m, sr\<lparr>shm_pool := pool\<rparr>)
         }
         else do {
           blk \<leftarrow> mp_blocks (shm_pool sr) (addr_blk E (blk_addr E a));
           let p = p\<lparr>rpc_shm_vaddr := block_start blk, rpc_param := mb_size blk\<rparr>;
           m \<leftarrow> rpc_service_send_response s p m;
           awake s (m, sr)
         }
       }
   })"

definition serve :: "rpc_env \<Rightarrow> bool \<Rightarrow> u64 \<Rightarrow> rpc_srv_params \<Rightarrow> rpc_mem \<times> rpc_server \<Rightarrow> (rpc_mem \<times> rpc_server) option" where
  "serve E ok s p ms = do {
     shm \<leftarrow> lib_linkhash_get (client_id p) (Some (shm_hash (snd ms)));
     if req_type p = CLIENT_GET_SERVICE then
       (if shm \<noteq> NULL then awake s ms else serve_new E ok s p ms)
     else if req_type p = CLIENT_REQ_SERVICE_WITH_RSP then
       (if shm = NULL then Some ms else do { ms \<leftarrow> call_handler s p ms; awake s ms })
     else if req_type p = CLIENT_REQ_SERVICE_WITHOUT_RSP then
       (if shm = NULL then Some ms else call_handler s p ms)
     else Some ms
   }"

section \<open>Whole calls, run alone\<close>

definition rpc_client_send_request :: "u64 \<Rightarrow> u64 \<Rightarrow> rpc_mem \<Rightarrow> rpc_mem option" where
  "rpc_client_send_request s c m = do { m \<leftarrow> send_queue s c m; send_post s m }"

definition rpc_service_get_request :: "u64 \<Rightarrow> rpc_mem \<Rightarrow> (rpc_mem \<times> rpc_srv_params) option" where
  "rpc_service_get_request s m = do {
     m \<leftarrow> upd_service s (\<lambda>sv. sv\<lparr>server_sem := server_sem sv - 1\<rparr>) m;
     (m, c) \<leftarrow> request_take s m;
     m \<leftarrow> request_file s c m;
     cl \<leftarrow> clients m c;
     Some (m, rpc_params cl)
   }"

text \<open>
  The start of the server thread: \<open>Some None\<close> if it gives up.  \<open>pm\<close>, \<open>hm\<close>, \<open>mal\<close> and \<open>ok\<close> are the outcomes of
  the allocations of the pool, of the table, of the blocks and of their descriptors.
\<close>

definition rpc_service_handler ::
    "mempool option \<Rightarrow> lib_linkhash option \<Rightarrow> (nat \<Rightarrow> u64 \<Rightarrow> ptr) \<Rightarrow> (nat \<Rightarrow> bool) \<Rightarrow> rpc_server option option" where
  "rpc_service_handler pm hm mal ok = do {
     pp \<leftarrow> mempool_create pm RPC_PAGE_SIZE MAX_RPC_SHM_BLOCK_COUNT (Some (\<lambda>i. rpc_shm_block_alloc (mal i))) ok;
     Some (case pp of
       None \<Rightarrow> None
     | Some pool \<Rightarrow> (case lib_linkhash_create hm MAX_RPC_SERVICE_BUCKET_COUNT of
         None \<Rightarrow> None
       | Some t \<Rightarrow> Some \<lparr>shm_pool = pool, shm_hash = t, spc = SWait, calls = []\<rparr>))
   }"

definition rpc_default_handlers :: "rpc_srv_handler option list" where
  "rpc_default_handlers = [Some Default_with_rsp, Some Default_without_rsp]"

text \<open>\<open>tid\<close> is the new thread, 0 if \<open>pthread_create\<close> fails.\<close>

definition rpc_service_start ::
    "u64 \<Rightarrow> u64 \<Rightarrow> rpc_srv_handler option list option \<Rightarrow> rpc_mem \<Rightarrow> (rpc_mem \<times> u64) option" where
  "rpc_service_start tid cap handlers m =
     (let service = rpc_get_capobj_bycptr cap in
      if service = NULL then Some (m, 0)
      else do {
        let hs = (case handlers of None \<Rightarrow> rpc_default_handlers | Some hs \<Rightarrow> hs);
        m \<leftarrow> upd_service service (\<lambda>sv. sv\<lparr>srv_handlers := hs\<rparr>) m;
        Some (m, tid)
      })"

section \<open>Threads\<close>

text \<open>The round of the server, one step at a time.\<close>

definition server_step :: "rpc_env \<Rightarrow> bool \<Rightarrow> u64 \<Rightarrow> rpc_mem \<times> rpc_server \<Rightarrow> (rpc_mem \<times> rpc_server) option" where
  "server_step E ok s ms = (case ms of (m, sr) \<Rightarrow>
     (case spc sr of
        SWait \<Rightarrow> do {
          m \<leftarrow> upd_service s (\<lambda>sv. sv\<lparr>server_sem := server_sem sv - 1\<rparr>) m;
          Some (m, sr\<lparr>spc := STake\<rparr>)
        }
      | STake \<Rightarrow> do { (m, c) \<leftarrow> request_take s m; Some (m, sr\<lparr>spc := SGot c\<rparr>) }
      | SGot c \<Rightarrow> do { m \<leftarrow> request_file s c m; Some (m, sr\<lparr>spc := SFiled c\<rparr>) }
      | SFiled c \<Rightarrow> do { cl \<leftarrow> clients m c; Some (m, sr\<lparr>spc := SServe (rpc_params cl)\<rparr>) }
      | SServe p \<Rightarrow> do { (m, sr) \<leftarrow> serve E ok s p (m, sr); Some (m, sr\<lparr>spc := SWait\<rparr>) }))"

text \<open>Where a client's thread is in \<open>rpc_client_request_service\<close>; outside it, what the last call returned.\<close>

datatype cli_pc = CIdle "ptr option" | CPacked u32 | CQueued u32 | CWaiting u32

record rpc_sys =
  mem :: rpc_mem
  srv :: rpc_server
  cpc :: "u64 \<Rightarrow> cli_pc"

text \<open>The server waits only on its semaphore.\<close>

definition server_ready :: "u64 \<Rightarrow> rpc_sys \<Rightarrow> bool" where
  "server_ready s \<sigma> \<longleftrightarrow> spc (srv \<sigma>) = SWait \<longrightarrow> (\<exists>sv. services (mem \<sigma>) s = Some sv \<and> 0 < server_sem sv)"

definition rpc_client_step :: "u64 \<Rightarrow> rpc_sys \<Rightarrow> rpc_sys option" where
  "rpc_client_step c \<sigma> =
     (case cpc \<sigma> c of
        CIdle r \<Rightarrow> None
      | CPacked ty \<Rightarrow> do {
          cl \<leftarrow> clients (mem \<sigma>) c;
          m \<leftarrow> send_queue (rpc_get_capobj_bycptr (service_cap cl)) c (mem \<sigma>);
          Some (\<sigma>\<lparr>mem := m, cpc := (cpc \<sigma>)(c := CQueued ty)\<rparr>)
        }
      | CQueued ty \<Rightarrow> do {
          cl \<leftarrow> clients (mem \<sigma>) c;
          m \<leftarrow> send_post (rpc_get_capobj_bycptr (service_cap cl)) (mem \<sigma>);
          Some (\<sigma>\<lparr>mem := m, cpc := (cpc \<sigma>)(c := CWaiting ty)\<rparr>)
        }
      | CWaiting ty \<Rightarrow> do {
          m \<leftarrow> upd_client c (\<lambda>cl. cl\<lparr>client_sem := client_sem cl - 1\<rparr>) (mem \<sigma>);
          r \<leftarrow> request_result c ty m;
          Some (\<sigma>\<lparr>mem := m, cpc := (cpc \<sigma>)(c := CIdle (Some r))\<rparr>)
        })"

definition client_ready :: "u64 \<Rightarrow> rpc_sys \<Rightarrow> bool" where
  "client_ready c \<sigma> \<longleftrightarrow> (case cpc \<sigma> c of CIdle r \<Rightarrow> False | CPacked ty \<Rightarrow> True | CQueued ty \<Rightarrow> True
     | CWaiting ty \<Rightarrow> (\<exists>cl. clients (mem \<sigma>) c = Some cl \<and> 0 < client_sem cl))"

definition rpc_client_call :: "u64 \<Rightarrow> u32 \<Rightarrow> rpc_sys \<Rightarrow> rpc_sys option" where
  "rpc_client_call c ty \<sigma> = do {
     go \<leftarrow> request_checks c ty (mem \<sigma>);
     if go then do {
       m \<leftarrow> rpc_client_package_params c ty (mem \<sigma>);
       Some (\<sigma>\<lparr>mem := m, cpc := (cpc \<sigma>)(c := CPacked ty)\<rparr>)
     }
     else Some (\<sigma>\<lparr>cpc := (cpc \<sigma>)(c := CIdle (Some NULL))\<rparr>)
   }"

text \<open>One step of the system; \<open>may \<sigma> c ty\<close> says that client \<open>c\<close> may call with request type \<open>ty\<close>.\<close>

inductive rpc_step :: "(rpc_sys \<Rightarrow> u64 \<Rightarrow> u32 \<Rightarrow> bool) \<Rightarrow> rpc_env \<Rightarrow> u64 \<Rightarrow> rpc_sys \<Rightarrow> rpc_sys \<Rightarrow> bool"
  for may E s where
  call: "cpc \<sigma> c = CIdle r \<Longrightarrow> clients (mem \<sigma>) c \<noteq> None \<Longrightarrow> may \<sigma> c ty \<Longrightarrow> rpc_client_call c ty \<sigma> = Some \<sigma>' \<Longrightarrow>
    rpc_step may E s \<sigma> \<sigma>'"
| client: "client_ready c \<sigma> \<Longrightarrow> rpc_client_step c \<sigma> = Some \<sigma>' \<Longrightarrow> rpc_step may E s \<sigma> \<sigma>'"
| server: "server_ready s \<sigma> \<Longrightarrow> server_step E ok s (mem \<sigma>, srv \<sigma>) = Some (m, sr) \<Longrightarrow>
    rpc_step may E s \<sigma> (\<sigma>\<lparr>mem := m, srv := sr\<rparr>)"

inductive rpc_reach :: "(rpc_sys \<Rightarrow> u64 \<Rightarrow> u32 \<Rightarrow> bool) \<Rightarrow> rpc_env \<Rightarrow> u64 \<Rightarrow> rpc_sys \<Rightarrow> rpc_sys \<Rightarrow> bool"
  for may E s \<sigma>0 where
  start: "rpc_reach may E s \<sigma>0 \<sigma>0"
| step: "rpc_reach may E s \<sigma>0 \<sigma> \<Longrightarrow> rpc_step may E s \<sigma> \<sigma>' \<Longrightarrow> rpc_reach may E s \<sigma>0 \<sigma>'"

section \<open>Registration\<close>

text \<open>The service 7 at address 256, with the default handlers, and the clients of the threads 11 and 12.\<close>

definition rpc_mem_ex :: rpc_mem where
  "rpc_mem_ex =
     (let m = \<lparr>services = Map.empty, clients = Map.empty,
               rpc_links = \<lparr>lnext = (\<lambda>_. Req_list 0), lprev = (\<lambda>_. Req_list 0)\<rparr>, service_cap_hash = None\<rparr>;
          g = \<lparr>client_id = 0, req_type = 0, rpc_shm_vaddr = 0, rpc_param = 0\<rparr>;
          m = fst (mk_rpc_service_cap 256 rpc_default_handlers 7 m);
          m = fst (rpc_client_init 512 g 11 256 m)
      in fst (rpc_client_init 768 g 12 256 m))"

text \<open>
  (C20) Registration.  Registering a service under a new number returns its capability; from then on clients
  are given this capability, registering the number again returns it and changes nothing, and the
  other numbers are unaffected.  Unregistering the number frees exactly this service, and clients no
  longer find it.
\<close>

theorem rpc_register_roundtrip:
  assumes "service_cap_hash m = Some t" and "lh_ok t" and "lh_absm t sid = []" and "new \<noteq> NULL" and "new \<noteq> - 1"
  shows "\<exists>m' m''. rpc_service_register hmem new hs True sid owner m = Some (m', new) \<and>
    services m' = (services m)(new \<mapsto> \<lparr>server_id = owner, server_sem = 0, srv_handlers = hs\<rparr>) \<and>
    rpc_client_security_check sid m' = Some new \<and>
    rpc_service_register hmem' new' hs' ok sid owner' m' = Some (m', new) \<and>
    (\<forall>i. i \<noteq> sid \<longrightarrow> rpc_client_security_check i m' = rpc_client_security_check i m) \<and>
    rpc_service_unregister sid m' = Some m'' \<and> services m'' = (services m)(new := None) \<and>
    rpc_client_security_check sid m'' = Some NULL"
proof -
  from hash_add(1) [OF assms(2,4,5), of sid] obtain t' where
    t': "lib_linkhash_add True sid new (Some t) = Some (Some t', 0)" "lh_ok t'" "lh_absm t' = (lh_absm t)(sid := [new])"
    using assms(3) by auto
  let ?m = "fst (mk_rpc_service_cap new hs owner m)\<lparr>service_cap_hash := Some t'\<rparr>"
  have reg: "rpc_service_register hmem new hs True sid owner m = Some (?m, new)"
    using assms(1,3,4) t'(1) hash_get_abs [OF assms(2), of sid] by (simp add: rpc_service_register_def mk_rpc_service_cap_def Let_def)
  have get: "lib_linkhash_get i (service_cap_hash ?m) = Some (case lh_absm t' i of [] \<Rightarrow> 0 | v # _ \<Rightarrow> v)" for i
    using hash_get_abs [OF t'(2)] by simp
  obtain t2 where t2: "lib_linkhash_remove sid (Some t') = Some (Some t2, case lh_absm t' sid of [] \<Rightarrow> - 1 | v # _ \<Rightarrow> v)" "lh_ok t2"
      "lh_absm t2 = (lh_absm t')(sid := tl (lh_absm t' sid))" by (rule hash_remove [OF t'(2)])
  let ?m2 = "?m\<lparr>service_cap_hash := Some t2, services := (services ?m)(new := None)\<rparr>"
  have svc: "services ?m = (services m)(new \<mapsto> \<lparr>server_id = owner, server_sem = 0, srv_handlers = hs\<rparr>)"
    using assms(4) by (simp add: mk_rpc_service_cap_def)
  have "rpc_service_unregister sid ?m = Some ?m2"
    using t2(1) t'(3) assms(4) svc by (simp add: rpc_service_unregister_def del_rpc_service_cap_def)
  moreover have "rpc_service_register hmem' new' hs' ok sid owner' ?m = Some (?m, new)"
    using get [of sid] t'(3) assms(4) by (simp add: rpc_service_register_def Let_def)
  moreover have "rpc_client_security_check sid ?m2 = Some NULL"
    using hash_get_abs [OF t2(2), of sid] t2(3) t'(3) by (simp add: rpc_client_security_check_def)
  ultimately show ?thesis
    using reg svc get t'(3) hash_get_abs [OF assms(2)] assms(1)
    by (intro exI [of _ ?m] exI [of _ ?m2]) (simp add: rpc_client_security_check_def)
qed

text \<open>
  Unregistering a number that is not registered, or before anything was registered, frees the
  address \<open>-1\<close>: \<open>linkhash_remove\<close> reports a missing key as \<open>-1\<close>, and \<open>rpc_service_unregister\<close> takes
  everything but 0 for a service.
\<close>

theorem rpc_unregister_unknown:
  assumes "case service_cap_hash m of None \<Rightarrow> True | Some t \<Rightarrow> lh_ok t \<and> lh_absm t sid = []" and "services m (- 1) = None"
  shows "rpc_service_unregister sid m = None"
proof (cases "service_cap_hash m")
  case None
  then show ?thesis using assms(2) by (simp add: rpc_service_unregister_def lib_linkhash_remove_def del_rpc_service_cap_def)
next
  case (Some t)
  then have ok: "lh_ok t" "lh_absm t sid = []" using assms(1) by simp_all
  obtain t' where "lib_linkhash_remove sid (Some t) = Some (Some t', case lh_absm t sid of [] \<Rightarrow> - 1 | v # _ \<Rightarrow> v)"
    by (rule hash_remove [OF ok(1)])
  then show ?thesis using assms(2) Some ok(2) by (simp add: rpc_service_unregister_def del_rpc_service_cap_def)
qed

theorem rpc_unregister_unknown_witness: "rpc_service_unregister 5 rpc_mem_ex = None"
  by (rule rpc_unregister_unknown)
    (simp_all add: rpc_mem_ex_def mk_rpc_service_cap_def rpc_client_init_def Let_def)

theorem rpc_register_roundtrip_witness:
  "\<exists>t m' m''. rpc_service_register None 1024 rpc_default_handlers True 5 9 (rpc_mem_ex\<lparr>service_cap_hash := Some t\<rparr>) = Some (m', 1024) \<and>
     rpc_client_security_check 5 m' = Some 1024 \<and> rpc_service_register None 2048 [] True 5 10 m' = Some (m', 1024) \<and>
     rpc_service_unregister 5 m' = Some m'' \<and> rpc_client_security_check 5 m'' = Some NULL"
proof -
  have hm: "lh_objs lib_hash_mem = Map.empty" by (simp add: lib_hash_mem_def)
  obtain t where t: "lib_linkhash_create (Some lib_hash_mem) 128 = Some t" by (simp add: lib_linkhash_create_def)
  have "(1024 :: u64) \<noteq> - 1" by (simp add: word_unat_eq_iff unat_minus_1_u64)
  then show ?thesis
    using rpc_register_roundtrip [OF _ lib_create_ok(1) [OF t hm], of "rpc_mem_ex\<lparr>service_cap_hash := Some t\<rparr>" 5 1024
        None rpc_default_handlers 9 None 2048 "[]" True 10] lib_create_ok(2) [OF t hm] by auto
qed

end
