(* ===== verification/Rpc_Threads.thy ===== *)
theory Rpc_Threads
  imports Rpc_Service
begin

text \<open>
  The threads of the RPC service together.  The invariant has two parts: the request and the
  response list, the semaphores and where every thread is (\<open>queue_inv\<close>), and the pool, the table and what
  the clients have been told about their memory (\<open>grant_inv\<close>).

  The results: if the clients follow the protocol, then under every interleaving the server never
  reaches undefined behaviour, every client has its own block, and no wake-up is lost.  Two runs
  of clients that do not follow it show that the memory of one client is handed to another, and
  that copying the parameters after the wake-up is a race.
\<close>

section \<open>Queues and semaphores\<close>

fun rpc_lists :: "u64 list \<Rightarrow> u64 list \<Rightarrow> rnode \<Rightarrow> rnode list" where
  "rpc_lists reqs rsps (Req_list s) = map Service_hook reqs"
| "rpc_lists reqs rsps (Rsp_list s) = map Service_hook rsps"
| "rpc_lists reqs rsps _ = []"

definition rpc_rings :: "u64 \<Rightarrow> rnode lheap \<Rightarrow> u64 list \<Rightarrow> u64 list \<Rightarrow> bool" where
  "rpc_rings s h reqs rsps \<longleftrightarrow> rings h {Req_list s, Rsp_list s} (rpc_lists reqs rsps)"

lemma rpc_rings_ends:
  assumes "rpc_rings s h reqs rsps"
  shows "lnext h (Req_list s) = (case reqs of [] \<Rightarrow> Req_list s | c # _ \<Rightarrow> Service_hook c)"
    and "lnext h (Rsp_list s) = (case rsps of [] \<Rightarrow> Rsp_list s | c # _ \<Rightarrow> Service_hook c)"
    and "distinct (reqs @ rsps)"
proof -
  note r = assms [unfolded rpc_rings_def]
  have q: "ring h (Req_list s) (map Service_hook reqs)" "ring h (Rsp_list s) (map Service_hook rsps)"
    using ringsD [OF r, of "Req_list s"] ringsD [OF r, of "Rsp_list s"] by simp_all
  show "lnext h (Req_list s) = (case reqs of [] \<Rightarrow> Req_list s | c # _ \<Rightarrow> Service_hook c)"
    using ring_ends(1) [OF q(1)] by (cases reqs) (simp_all add: startp_def)
  show "lnext h (Rsp_list s) = (case rsps of [] \<Rightarrow> Rsp_list s | c # _ \<Rightarrow> Service_hook c)"
    using ring_ends(1) [OF q(2)] by (cases rsps) (simp_all add: startp_def)
  have "Service_hook ` set reqs \<inter> Service_hook ` set rsps = {}"
    using rings_disjoint [OF r, of "Req_list s" "Rsp_list s"] by simp
  then show "distinct (reqs @ rsps)" using q by (auto simp: ring_def distinct_map)
qed

lemma rpc_rings_queue:
  assumes "rpc_rings s h reqs rsps" and "c \<notin> set (reqs @ rsps)"
  shows "rpc_rings s (list_add_tail (Service_hook c) (Req_list s) h) (reqs @ [c]) rsps"
    and "rpc_rings s (list_add_tail (Service_hook c) (Rsp_list s) h) reqs (rsps @ [c])"
proof -
  have "Service_hook c \<notin> set (l # rpc_lists reqs rsps l)" if "l \<in> {Req_list s, Rsp_list s}" for l
    using that assms(2) by auto
  note a = rings_add_tail [OF assms(1) [unfolded rpc_rings_def] _ this]
  show "rpc_rings s (list_add_tail (Service_hook c) (Req_list s) h) (reqs @ [c]) rsps"
    using a [of "Req_list s"] unfolding rpc_rings_def by (auto elim!: rings_cong_lists)
  show "rpc_rings s (list_add_tail (Service_hook c) (Rsp_list s) h) reqs (rsps @ [c])"
    using a [of "Rsp_list s"] unfolding rpc_rings_def by (auto elim!: rings_cong_lists)
qed

lemma rpc_rings_take:
  "rpc_rings s h (c # reqs) rsps \<Longrightarrow> rpc_rings s (list_del_init (Service_hook c) h) reqs rsps"
  "rpc_rings s h reqs (c # rsps) \<Longrightarrow> rpc_rings s (list_del_init (Service_hook c) h) reqs rsps"
  using rings_del_init [of h "{Req_list s, Rsp_list s}" "rpc_lists (c # reqs) rsps" "Req_list s" "[]" "Service_hook c" "map Service_hook reqs"]
    rings_del_init [of h "{Req_list s, Rsp_list s}" "rpc_lists reqs (c # rsps)" "Rsp_list s" "[]" "Service_hook c" "map Service_hook rsps"]
  unfolding rpc_rings_def by (auto elim!: rings_cong_lists)

fun active :: "cli_pc \<Rightarrow> u32 option" where
  "active (CIdle r) = None"
| "active (CPacked ty) = Some ty"
| "active (CQueued ty) = Some ty"
| "active (CWaiting ty) = Some ty"

fun sent :: "cli_pc \<Rightarrow> bool" where
  "sent (CQueued ty) = True"
| "sent (CWaiting ty) = True"
| "sent _ = False"

fun held :: "srv_pc \<Rightarrow> u64 list" where
  "held (SGot c) = [c]"
| "held _ = []"

text \<open>
  \<open>reqs\<close> are the queued requests, \<open>rsps\<close> the waiters, \<open>qs\<close> the clients that have queued a request
  but not yet posted the server; \<open>gr\<close> holds of the clients that have a block.
\<close>

definition client_inv :: "u64 \<Rightarrow> (u64 \<Rightarrow> bool) \<Rightarrow> u64 list \<Rightarrow> cli_pc \<Rightarrow> u64 \<Rightarrow> rpc_client \<Rightarrow> bool" where
  "client_inv s gr pend p c cl \<longleftrightarrow> service_cap cl = s \<and>
     client_sem cl = (if sent p \<and> c \<notin> set pend then 1 else 0) \<and>
     (\<forall>ty. active p = Some ty \<longrightarrow> req_type (rpc_params cl) = ucast ty \<and>
        (ty = 2 \<or> ty = 0 \<and> gr (client_id (rpc_params cl))))"

fun srv_waiters :: "rpc_mem \<Rightarrow> srv_pc \<Rightarrow> u64 list \<Rightarrow> bool" where
  "srv_waiters m (SFiled c) rsps \<longleftrightarrow> rsps = [c]"
| "srv_waiters m (SServe p) rsps \<longleftrightarrow> (\<exists>c cl. rsps = [c] \<and> clients m c = Some cl \<and> p = rpc_params cl)"
| "srv_waiters m _ rsps \<longleftrightarrow> rsps = []"

definition queue_inv ::
    "u64 \<Rightarrow> (u64 \<Rightarrow> bool) \<Rightarrow> rpc_mem \<Rightarrow> srv_pc \<Rightarrow> (u64 \<Rightarrow> cli_pc) \<Rightarrow> u64 list \<Rightarrow> u64 list \<Rightarrow> u64 list \<Rightarrow> bool" where
  "queue_inv s gr m p cp reqs rsps qs \<longleftrightarrow> s \<noteq> NULL \<and>
     rpc_rings s (rpc_links m) reqs rsps \<and>
     (\<exists>sv h0 h1. services m s = Some sv \<and> srv_handlers sv = [Some h0, Some h1] \<and>
        server_sem sv + length qs + (if p = STake then 1 else 0) = length reqs) \<and>
     distinct qs \<and> (\<forall>c. c \<in> set qs \<longleftrightarrow> (\<exists>ty. cp c = CQueued ty)) \<and>
     (\<forall>c \<in> set (reqs @ rsps @ held p). sent (cp c)) \<and> set (held p) \<inter> set reqs = {} \<and>
     (\<forall>c. cp c \<noteq> CIdle None \<longrightarrow> clients m c \<noteq> None) \<and>
     (\<forall>c cl. clients m c = Some cl \<longrightarrow> client_inv s gr (reqs @ rsps @ held p) (cp c) c cl) \<and>
     inj_on (\<lambda>c. client_id (rpc_params (the (clients m c)))) (dom (clients m)) \<and>
     srv_waiters m p rsps"

lemma queue_invD:
  assumes "queue_inv s gr m p cp reqs rsps qs"
  shows "s \<noteq> NULL" "rpc_rings s (rpc_links m) reqs rsps" "distinct qs" "\<And>c. c \<in> set qs \<longleftrightarrow> (\<exists>ty. cp c = CQueued ty)"
    "\<And>c. c \<in> set (reqs @ rsps @ held p) \<Longrightarrow> sent (cp c)" "set (held p) \<inter> set reqs = {}"
    "\<And>c. cp c \<noteq> CIdle None \<Longrightarrow> clients m c \<noteq> None"
    "\<And>c cl. clients m c = Some cl \<Longrightarrow> client_inv s gr (reqs @ rsps @ held p) (cp c) c cl"
    "inj_on (\<lambda>c. client_id (rpc_params (the (clients m c)))) (dom (clients m))" "srv_waiters m p rsps"
  using assms by (simp_all only: queue_inv_def) blast+

lemma queue_inv_srv:
  assumes "queue_inv s gr m p cp reqs rsps qs"
  obtains sv h0 h1 where "services m s = Some sv" "srv_handlers sv = [Some h0, Some h1]"
    "server_sem sv + length qs + (if p = STake then 1 else 0) = length reqs"
  using assms unfolding queue_inv_def by blast

text \<open>What the clients know of their shared memory.\<close>

definition shm_view :: "rpc_mem \<Rightarrow> u64 \<Rightarrow> (u64 \<times> ptr \<times> u64) option" where
  "shm_view m c = map_option (\<lambda>cl. let p = rpc_params cl in (client_id p, rpc_shm_vaddr p, rpc_param p)) (clients m c)"

lemmas mem_upd_defs = upd_client_def upd_service_def client_post_def

lemma inj_ids_upd:
  assumes "inj_on (\<lambda>c. client_id (rpc_params (the (cs c)))) (dom cs)" and "cs c = Some cl"
    and "client_id (rpc_params cl') = client_id (rpc_params cl)"
  shows "inj_on (\<lambda>d. client_id (rpc_params (the ((cs(c \<mapsto> cl')) d)))) (dom (cs(c \<mapsto> cl')))"
proof -
  have "client_id (rpc_params (the ((cs(c \<mapsto> cl')) d))) = client_id (rpc_params (the (cs d)))" for d
    using assms(2,3) by simp
  moreover have "dom (cs(c \<mapsto> cl')) = dom cs" using assms(2) by auto
  ultimately show ?thesis using assms(1) by simp
qed

lemma call_keeps_queue:
  assumes qi: "queue_inv s gr m p cp reqs rsps qs" and idle: "cp c = CIdle r" and cl: "clients m c = Some cl"
    and ty: "ty = 2 \<or> ty = 0 \<and> gr (client_id (rpc_params cl))"
  obtains m' where "rpc_client_package_params c ty m = Some m'"
    and "queue_inv s gr m' p (cp(c := CPacked ty)) reqs rsps qs"
    and "shm_view m' = shm_view m"
proof -
  note q = queue_invD [OF qi]
  let ?cl = "cl\<lparr>rpc_params := (rpc_params cl)\<lparr>req_type := scast ty\<rparr>\<rparr>"
  let ?m = "m\<lparr>clients := (clients m)(c \<mapsto> ?cl)\<rparr>"
  have run: "rpc_client_package_params c ty m = Some ?m"
    using cl by (simp add: rpc_client_package_params_def mem_upd_defs)
  have out: "c \<notin> set (reqs @ rsps @ held p)" using q(5) [of c] idle by auto
  have sc: "scast ty = (ucast ty :: u64)" using ty by auto
  have w: "srv_waiters ?m p rsps" using q(10) out by (cases p) auto
  have "queue_inv s gr ?m p (cp(c := CPacked ty)) reqs rsps qs"
    unfolding queue_inv_def
  proof (intro conjI allI impI)
    fix d dl assume "clients ?m d = Some dl"
    then show "client_inv s gr (reqs @ rsps @ held p) ((cp(c := CPacked ty)) d) d dl"
      using q(8) [of d] q(8) [OF cl] ty sc out idle by (auto simp: client_inv_def split: if_splits)
  next
    show "\<exists>sv h0 h1. services ?m s = Some sv \<and> srv_handlers sv = [Some h0, Some h1] \<and>
        server_sem sv + length qs + (if p = STake then 1 else 0) = length reqs"
      using qi by (simp add: queue_inv_def)
    show "inj_on (\<lambda>c. client_id (rpc_params (the (clients ?m c)))) (dom (clients ?m))"
      using inj_ids_upd [OF q(9) cl, of ?cl] by simp
    show "c' \<in> set qs \<longleftrightarrow> (\<exists>ty'. (cp(c := CPacked ty)) c' = CQueued ty')" for c' using q(4) idle by auto
    show "\<forall>d\<in>set (reqs @ rsps @ held p). sent ((cp(c := CPacked ty)) d)" using q(5) out by auto
  qed (use q w cl in auto)
  then show thesis by (rule that [OF run]) (use cl in \<open>auto simp: shm_view_def fun_eq_iff Let_def\<close>)
qed

lemma queue_step:
  assumes qi: "queue_inv s gr m p cp reqs rsps qs" and pk: "cp c = CPacked ty" and cl: "clients m c = Some cl"
  obtains m' where "send_queue (service_cap cl) c m = Some m'"
    and "queue_inv s gr m' p (cp(c := CQueued ty)) (reqs @ [c]) rsps (c # qs)" and "shm_view m' = shm_view m"
proof -
  note q = queue_invD [OF qi]
  have s: "service_cap cl = s" using q(8) [OF cl] by (simp add: client_inv_def)
  have out: "c \<notin> set (reqs @ rsps @ held p)" using q(5) [of c] pk by auto
  have qs: "c \<notin> set qs" using q(4) pk by simp
  let ?m = "m\<lparr>rpc_links := list_add_tail (Service_hook c) (Req_list s) (rpc_links m)\<rparr>"
  obtain sv h0 h1 where sv: "services m s = Some sv" "srv_handlers sv = [Some h0, Some h1]"
      "server_sem sv + length qs + (if p = STake then 1 else 0) = length reqs"
    by (rule queue_inv_srv [OF qi]) (rule that)
  have run: "send_queue (service_cap cl) c m = Some ?m" using s sv(1) cl by (simp add: send_queue_def)
  have w: "srv_waiters ?m p rsps" using q(10) by (cases p) auto
  have "queue_inv s gr ?m p (cp(c := CQueued ty)) (reqs @ [c]) rsps (c # qs)"
    unfolding queue_inv_def
  proof (intro conjI allI impI)
    fix d dl assume d: "clients ?m d = Some dl"
    then show "client_inv s gr ((reqs @ [c]) @ rsps @ held p) ((cp(c := CQueued ty)) d) d dl"
      using q(8) [of d] pk by (auto simp: client_inv_def)
  next
    show "clients ?m d \<noteq> None" if "(cp(c := CQueued ty)) d \<noteq> CIdle None" for d
      using that q(7) [of d] cl by (cases "d = c") auto
    show "rpc_rings s (rpc_links ?m) (reqs @ [c]) rsps" using rpc_rings_queue(1) [OF q(2)] out by simp
    show "c' \<in> set (c # qs) \<longleftrightarrow> (\<exists>ty'. (cp(c := CQueued ty)) c' = CQueued ty')" for c' using q(4) by auto
    show "\<forall>d\<in>set ((reqs @ [c]) @ rsps @ held p). sent ((cp(c := CQueued ty)) d)" using q(5) by auto
  qed (use q w cl sv qs out in auto)
  then show thesis by (rule that [OF run]) (simp add: shm_view_def fun_eq_iff)
qed

lemma post_step:
  assumes qi: "queue_inv s gr m p cp reqs rsps qs" and pk: "cp c = CQueued ty" and cl: "clients m c = Some cl"
  obtains m' where "send_post (service_cap cl) m = Some m'"
    and "queue_inv s gr m' p (cp(c := CWaiting ty)) reqs rsps (remove1 c qs)" and "shm_view m' = shm_view m"
proof -
  note q = queue_invD [OF qi]
  have s: "service_cap cl = s" using q(8) [OF cl] by (simp add: client_inv_def)
  have qs: "c \<in> set qs" using q(4) pk by simp
  obtain sv h0 h1 where sv: "services m s = Some sv" "srv_handlers sv = [Some h0, Some h1]"
      "server_sem sv + length qs + (if p = STake then 1 else 0) = length reqs"
    by (rule queue_inv_srv [OF qi]) (rule that)
  let ?m = "m\<lparr>services := (services m)(s \<mapsto> sv\<lparr>server_sem := Suc (server_sem sv)\<rparr>)\<rparr>"
  have run: "send_post (service_cap cl) m = Some ?m" using s sv(1) by (simp add: send_post_def mem_upd_defs)
  have w: "srv_waiters ?m p rsps" using q(10) by (cases p) auto
  have len: "Suc (length (remove1 c qs)) = length qs" using qs length_pos_if_in_set [OF qs] by (simp add: length_remove1)
  have "queue_inv s gr ?m p (cp(c := CWaiting ty)) reqs rsps (remove1 c qs)"
    unfolding queue_inv_def
  proof (intro conjI allI impI)
    fix d dl assume d: "clients ?m d = Some dl"
    then show "client_inv s gr (reqs @ rsps @ held p) ((cp(c := CWaiting ty)) d) d dl"
      using q(8) [of d] pk by (auto simp: client_inv_def)
  next
    show "clients ?m d \<noteq> None" if "(cp(c := CWaiting ty)) d \<noteq> CIdle None" for d
      using that q(7) [of d] cl by (cases "d = c") auto
    show "c' \<in> set (remove1 c qs) \<longleftrightarrow> (\<exists>ty'. (cp(c := CWaiting ty)) c' = CQueued ty')" for c'
      using q(3,4) by (auto simp: set_remove1_eq)
    show "\<forall>d\<in>set (reqs @ rsps @ held p). sent ((cp(c := CWaiting ty)) d)" using q(5) by auto
    show "\<exists>sv h0 h1. services ?m s = Some sv \<and> srv_handlers sv = [Some h0, Some h1] \<and>
        server_sem sv + length (remove1 c qs) + (if p = STake then 1 else 0) = length reqs"
      using sv len by auto
  qed (use q w cl in auto)
  then show thesis by (rule that [OF run]) (simp add: shm_view_def fun_eq_iff)
qed

lemma return_step:
  assumes qi: "queue_inv s gr m p cp reqs rsps qs" and pk: "cp c = CWaiting ty" and cl: "clients m c = Some cl"
    and up: "0 < client_sem cl"
  obtains m' where "upd_client c (\<lambda>cl. cl\<lparr>client_sem := client_sem cl - 1\<rparr>) m = Some m'"
    and "request_result c ty m' = Some (rpc_shm_vaddr (rpc_params cl))"
    and "queue_inv s gr m' p (cp(c := CIdle (Some (rpc_shm_vaddr (rpc_params cl))))) reqs rsps qs"
    and "shm_view m' = shm_view m"
proof -
  note q = queue_invD [OF qi]
  let ?cl = "cl\<lparr>client_sem := client_sem cl - 1\<rparr>" and ?v = "rpc_shm_vaddr (rpc_params cl)"
  let ?m = "m\<lparr>clients := (clients m)(c \<mapsto> ?cl)\<rparr>"
  note ci = q(8) [OF cl, unfolded client_inv_def pk]
  have out: "c \<notin> set (reqs @ rsps @ held p)" using ci up by (auto split: if_splits)
  have z: "client_sem ?cl = 0" and ty: "ty = 2 \<or> ty = 0" using ci out by auto
  have run: "upd_client c (\<lambda>cl. cl\<lparr>client_sem := client_sem cl - 1\<rparr>) m = Some ?m" using cl by (simp add: mem_upd_defs)
  have res: "request_result c ty ?m = Some ?v" using ty by (auto simp: request_result_def)
  have w: "srv_waiters ?m p rsps" using q(10) out by (cases p) auto
  let ?cp = "cp(c := CIdle (Some ?v))"
  have "queue_inv s gr ?m p ?cp reqs rsps qs"
    unfolding queue_inv_def
  proof (intro conjI allI impI)
    fix d dl assume d: "clients ?m d = Some dl"
    then show "client_inv s gr (reqs @ rsps @ held p) (?cp d) d dl"
      using q(8) [of d] ci z by (auto simp: client_inv_def split: if_splits)
  next
    show "\<exists>sv h0 h1. services ?m s = Some sv \<and> srv_handlers sv = [Some h0, Some h1] \<and>
        server_sem sv + length qs + (if p = STake then 1 else 0) = length reqs"
      using qi by (simp add: queue_inv_def)
    show "inj_on (\<lambda>c. client_id (rpc_params (the (clients ?m c)))) (dom (clients ?m))"
      using inj_ids_upd [OF q(9) cl, of ?cl] by simp
    show "c' \<in> set qs \<longleftrightarrow> (\<exists>ty'. ?cp c' = CQueued ty')" for c' using q(4) pk by auto
    show "\<forall>d\<in>set (reqs @ rsps @ held p). sent (?cp d)" using q(5) out by auto
  qed (use q w cl in auto)
  then show thesis by (rule that [OF run res]) (use cl in \<open>auto simp: shm_view_def fun_eq_iff Let_def\<close>)
qed

lemma take_steps:
  assumes qi: "queue_inv s gr m p cp reqs rsps qs"
  shows "p = SWait \<Longrightarrow> services m s = Some sv \<Longrightarrow> 0 < server_sem sv \<Longrightarrow>
      \<exists>m'. upd_service s (\<lambda>sv. sv\<lparr>server_sem := server_sem sv - 1\<rparr>) m = Some m' \<and>
        queue_inv s gr m' STake cp reqs rsps qs \<and> shm_view m' = shm_view m"
    and "p = STake \<Longrightarrow> \<exists>m' c reqs'. request_take s m = Some (m', c) \<and>
        queue_inv s gr m' (SGot c) cp reqs' rsps qs \<and> shm_view m' = shm_view m"
    and "p = SGot c \<Longrightarrow> \<exists>m'. request_file s c m = Some m' \<and>
        queue_inv s gr m' (SFiled c) cp reqs [c] qs \<and> shm_view m' = shm_view m"
    and "p = SFiled c \<Longrightarrow> \<exists>cl. clients m c = Some cl \<and> queue_inv s gr m (SServe (rpc_params cl)) cp reqs rsps qs"
proof -
  note q = queue_invD [OF qi]
  obtain sv' h0 h1 where sv: "services m s = Some sv'" "srv_handlers sv' = [Some h0, Some h1]"
      "server_sem sv' + length qs + (if p = STake then 1 else 0) = length reqs"
    by (rule queue_inv_srv [OF qi]) (rule that)
  show "\<exists>m'. upd_service s (\<lambda>sv. sv\<lparr>server_sem := server_sem sv - 1\<rparr>) m = Some m' \<and>
        queue_inv s gr m' STake cp reqs rsps qs \<and> shm_view m' = shm_view m"
    if "p = SWait" "services m s = Some sv" "0 < server_sem sv"
    using that sv qi by (simp add: mem_upd_defs queue_inv_def shm_view_def fun_eq_iff) auto
  show "\<exists>m' c reqs'. request_take s m = Some (m', c) \<and>
        queue_inv s gr m' (SGot c) cp reqs' rsps qs \<and> shm_view m' = shm_view m" if p: "p = STake"
  proof -
    obtain c reqs' where r: "reqs = c # reqs'" using sv(3) p by (cases reqs) auto
    have c: "sent (cp c)" using q(5) [of c] r by simp
    then obtain cl where cl: "clients m c = Some cl" using q(7) [of c] by (cases "cp c") auto
    let ?m = "m\<lparr>rpc_links := list_del_init (Service_hook c) (rpc_links m)\<rparr>"
    have d: "distinct (reqs @ rsps)" by (rule rpc_rings_ends(3) [OF q(2)])
    have run: "request_take s m = Some (?m, c)"
      using rpc_rings_ends(1) [OF q(2)] r cl by (simp add: request_take_def)
    have "client_inv s gr (reqs' @ rsps @ [c]) (cp d) d dl" if "clients m d = Some dl" for d dl
      using q(8) [OF that] r p by (auto simp: client_inv_def)
    then have "queue_inv s gr ?m (SGot c) cp reqs' rsps qs"
      using q(1,3,4,7,9) rpc_rings_take(1) [OF q(2) [unfolded r]] q(5,10) sv r p c d
      by (auto simp: queue_inv_def)
    then show ?thesis using run by (auto simp: shm_view_def fun_eq_iff)
  qed
  show "\<exists>m'. request_file s c m = Some m' \<and>
        queue_inv s gr m' (SFiled c) cp reqs [c] qs \<and> shm_view m' = shm_view m" if p: "p = SGot c"
  proof -
    have c: "sent (cp c)" "c \<notin> set reqs" "rsps = []" using q(5) [of c] q(6,10) p by auto
    then obtain cl where cl: "clients m c = Some cl" using q(7) [of c] by (cases "cp c") auto
    obtain ty where ty: "active (cp c) = Some ty" using c(1) by (cases "cp c") auto
    let ?m = "m\<lparr>rpc_links := list_add_tail (Service_hook c) (Rsp_list s) (rpc_links m)\<rparr>"
    have run: "request_file s c m = Some ?m"
      using q(8) [OF cl] ty cl by (auto simp: request_file_def client_inv_def)
    have "client_inv s gr (reqs @ [c]) (cp d) d dl" if "clients m d = Some dl" for d dl
      using q(8) [OF that] c p by (auto simp: client_inv_def)
    then have "queue_inv s gr ?m (SFiled c) cp reqs [c] qs"
      using q(1,3,4,7,9) rpc_rings_queue(2) [OF q(2), of c] q(5) sv p c
      by (auto simp: queue_inv_def)
    then show ?thesis using run by (auto simp: shm_view_def fun_eq_iff)
  qed
  show "\<exists>cl. clients m c = Some cl \<and> queue_inv s gr m (SServe (rpc_params cl)) cp reqs rsps qs" if p: "p = SFiled c"
  proof -
    have c: "sent (cp c)" "rsps = [c]" using q(5) [of c] q(10) p by auto
    then obtain cl where cl: "clients m c = Some cl" using q(7) [of c] by (cases "cp c") auto
    then show ?thesis using qi p c by (auto simp: queue_inv_def)
  qed
qed

lemma awake_step:
  assumes qi: "queue_inv s gr m (SServe p) cp reqs rsps qs" and mono: "\<And>i. gr i \<Longrightarrow> gr' i"
  obtains m' where "rpc_service_awake_waiter s m = Some m'"
    and "queue_inv s gr' m' SWait cp reqs [] qs" and "shm_view m' = shm_view m"
proof -
  note q = queue_invD [OF qi]
  from q(10) obtain c cl where c: "rsps = [c]" "clients m c = Some cl" "p = rpc_params cl" by auto
  let ?cl = "cl\<lparr>client_sem := Suc (client_sem cl)\<rparr>"
  let ?m = "m\<lparr>rpc_links := list_del_init (Service_hook c) (rpc_links m), clients := (clients m)(c \<mapsto> ?cl)\<rparr>"
  have run: "rpc_service_awake_waiter s m = Some ?m"
    using rpc_rings_ends(2) [OF q(2)] c by (simp add: rpc_service_awake_waiter_def first_waiter_def mem_upd_defs)
  have d: "c \<notin> set reqs" using rpc_rings_ends(3) [OF q(2)] c by simp
  have "client_inv s gr' reqs (cp d) d dl" if "((clients m)(c \<mapsto> ?cl)) d = Some dl" for d dl
    using q(8) [of d] q(5) [of c] that c d mono by (auto simp: client_inv_def split: if_splits)
  moreover have "rpc_rings s (rpc_links ?m) reqs []" using rpc_rings_take(2) [of s "rpc_links m" reqs c "[]"] q(2) c by simp
  moreover have "inj_on (\<lambda>d. client_id (rpc_params (the (clients ?m d)))) (dom (clients ?m))"
    using inj_ids_upd [OF q(9) c(2), of ?cl] by simp
  ultimately have "queue_inv s gr' ?m SWait cp reqs [] qs"
    using q(1,3,4,5,7) qi by (auto simp: queue_inv_def)
  then show thesis by (rule that [OF run]) (use c in \<open>auto simp: shm_view_def fun_eq_iff Let_def\<close>)
qed

section \<open>Shared memory\<close>

text \<open>What the allocator of the block descriptors promises: different blocks have different addresses, and none is \<open>NULL\<close>.\<close>

definition env_ok :: "rpc_env \<Rightarrow> bool" where
  "env_ok E \<longleftrightarrow> (\<forall>a < 256. addr_blk E (blk_addr E a) = a \<and> blk_addr E a \<noteq> 0 \<and> blk_addr E a \<noteq> - 1)"

abbreviation granted :: "rpc_server \<Rightarrow> u64 \<Rightarrow> bool" where
  "granted sr i \<equiv> lh_absm (shm_hash sr) i \<noteq> []"

definition grant_inv :: "rpc_env \<Rightarrow> rpc_mem \<Rightarrow> rpc_server \<Rightarrow> nat list \<Rightarrow> nat list \<Rightarrow> nat \<Rightarrow> bool" where
  "grant_inv E m sr fs us e \<longleftrightarrow> lh_ok (shm_hash sr) \<and> mp_inv (shm_pool sr) fs us e \<and> (\<forall>a \<in> set (fs @ us). a < 256) \<and>
     (\<forall>i. granted sr i \<longrightarrow> (\<exists>a \<in> set us. lh_absm (shm_hash sr) i = [blk_addr E a])) \<and>
     (\<forall>i j. granted sr i \<longrightarrow> lh_absm (shm_hash sr) i = lh_absm (shm_hash sr) j \<longrightarrow> i = j) \<and>
     (\<forall>c i va pa v. shm_view m c = Some (i, va, pa) \<longrightarrow> lh_absm (shm_hash sr) i = [v] \<longrightarrow>
        (\<exists>b. mp_blocks (shm_pool sr) (addr_blk E v) = Some b \<and> va = block_start b \<and> pa = mb_size b))"

lemma response_step:
  assumes qi: "queue_inv s gr m (SServe p) cp reqs rsps qs"
  obtains m' c va pa where "rpc_service_send_response s (p\<lparr>rpc_shm_vaddr := v, rpc_param := n\<rparr>) m = Some m'"
    and "queue_inv s gr m' (SServe (p\<lparr>rpc_shm_vaddr := v, rpc_param := n\<rparr>)) cp reqs rsps qs"
    and "shm_view m c = Some (client_id p, va, pa)" and "shm_view m' = (shm_view m)(c \<mapsto> (client_id p, v, n))"
proof -
  note q = queue_invD [OF qi]
  from q(10) obtain c cl where c: "rsps = [c]" "clients m c = Some cl" "p = rpc_params cl" by auto
  let ?p = "p\<lparr>rpc_shm_vaddr := v, rpc_param := n\<rparr>"
  let ?cl = "cl\<lparr>rpc_params := ?p\<rparr>"
  let ?m = "m\<lparr>clients := (clients m)(c \<mapsto> ?cl)\<rparr>"
  have swap: "p\<lparr>rpc_param := n, rpc_shm_vaddr := v\<rparr> = ?p" by (cases p) simp
  have "rpc_service_send_response s ?p m =
      Some (m\<lparr>clients := (clients m)(c \<mapsto> cl\<lparr>rpc_params := (rpc_params cl)\<lparr>rpc_param := n, rpc_shm_vaddr := v\<rparr>\<rparr>)\<rparr>)"
    using rpc_rings_ends(2) [OF q(2)] c(1,2) by (simp add: rpc_service_send_response_def first_waiter_def mem_upd_defs)
  then have run: "rpc_service_send_response s ?p m = Some ?m" unfolding c(3) [symmetric] swap .
  have "client_inv s gr (reqs @ rsps) (cp d) d dl" if "((clients m)(c \<mapsto> ?cl)) d = Some dl" for d dl
    using q(8) [of d] q(8) [OF c(2)] that c by (auto simp: client_inv_def split: if_splits)
  moreover have "inj_on (\<lambda>d. client_id (rpc_params (the (clients ?m d)))) (dom (clients ?m))"
    using inj_ids_upd [OF q(9) c(2), of ?cl] c(3) by simp
  ultimately have "queue_inv s gr ?m (SServe ?p) cp reqs rsps qs"
    using qi c by (auto simp: queue_inv_def)
  then show thesis
    by (rule that [OF run, of c "rpc_shm_vaddr p" "rpc_param p"]) (use c in \<open>auto simp: shm_view_def Let_def fun_eq_iff\<close>)
qed

lemma shm_ids:
  assumes "queue_inv s gr m p cp reqs rsps qs" and "shm_view m c = Some (i, x)" and "shm_view m d = Some (i, y)"
  shows "c = d"
proof -
  from assms(2,3) obtain cl dl where "clients m c = Some cl" "clients m d = Some dl"
      "client_id (rpc_params cl) = i" "client_id (rpc_params dl) = i" by (auto simp: shm_view_def Let_def)
  then show ?thesis using inj_onD [OF queue_invD(9) [OF assms(1)], of c d] by auto
qed

lemma grant_invD:
  assumes "grant_inv E m sr fs us e"
  shows "lh_ok (shm_hash sr)" "mp_inv (shm_pool sr) fs us e" "\<And>a. a \<in> set (fs @ us) \<Longrightarrow> a < 256"
    "\<And>i. granted sr i \<Longrightarrow> \<exists>a \<in> set us. lh_absm (shm_hash sr) i = [blk_addr E a]"
    "\<And>i j. granted sr i \<Longrightarrow> lh_absm (shm_hash sr) i = lh_absm (shm_hash sr) j \<Longrightarrow> i = j"
    "\<And>c i va pa v. shm_view m c = Some (i, va, pa) \<Longrightarrow> lh_absm (shm_hash sr) i = [v] \<Longrightarrow>
        \<exists>b. mp_blocks (shm_pool sr) (addr_blk E v) = Some b \<and> va = block_start b \<and> pa = mb_size b"
  using assms unfolding grant_inv_def by blast+

text \<open>The pool may change as long as it keeps its blocks and the used ones stay used.\<close>

lemma grant_inv_pool:
  assumes "grant_inv E m sr fs us e" and "mp_inv pool fs' us' e'" and "mp_blocks pool = mp_blocks (shm_pool sr)"
    and "set us \<subseteq> set us'" and "set (fs' @ us') = set (fs @ us)"
  shows "grant_inv E m (sr\<lparr>shm_pool := pool\<rparr>) fs' us' e'"
proof -
  note g = grant_invD [OF assms(1)]
  show ?thesis
    unfolding grant_inv_def
  proof (intro conjI allI impI)
    show "\<exists>a\<in>set us'. lh_absm (shm_hash (sr\<lparr>shm_pool := pool\<rparr>)) i = [blk_addr E a]" if "granted (sr\<lparr>shm_pool := pool\<rparr>) i" for i
      using g(4) [of i] that assms(4) by auto
    show "i = j" if "granted (sr\<lparr>shm_pool := pool\<rparr>) i"
      "lh_absm (shm_hash (sr\<lparr>shm_pool := pool\<rparr>)) i = lh_absm (shm_hash (sr\<lparr>shm_pool := pool\<rparr>)) j" for i j
      using g(5) [of i j] that by simp
    show "\<exists>b. mp_blocks (shm_pool (sr\<lparr>shm_pool := pool\<rparr>)) (addr_blk E v) = Some b \<and> va = block_start b \<and> pa = mb_size b"
      if "shm_view m c = Some (i, va, pa)" "lh_absm (shm_hash (sr\<lparr>shm_pool := pool\<rparr>)) i = [v]" for c i va pa v
      using g(6) [of c i va pa v] that assms(3) by simp
    show "\<forall>a\<in>set (fs' @ us'). a < 256" using g(3) assms(5) by blast
  qed (use g(1) assms(2) in simp_all)
qed

lemma grant_inv_view:
  assumes "grant_inv E m sr fs us e" and "shm_view m' = shm_view m"
  shows "grant_inv E m' sr fs us e"
  using assms(1) unfolding grant_inv_def assms(2) .

lemma grant_new:
  assumes gi: "grant_inv E m (sr\<lparr>shm_pool := pool\<rparr>) fs (a # us) e" and E: "env_ok E"
    and new: "lh_absm (shm_hash sr) (client_id p) = []" and a: "\<And>i. lh_absm (shm_hash sr) i \<noteq> [blk_addr E a]"
    and t: "lh_ok t" "lh_absm t = (lh_absm (shm_hash sr))(client_id p := [blk_addr E a])"
    and b: "mp_blocks pool a = Some b"
    and view: "shm_view m' = (shm_view m)(c \<mapsto> (client_id p, block_start b, mb_size b))"
    and c: "\<And>d x. shm_view m d = Some (client_id p, x) \<Longrightarrow> d = c"
  shows "grant_inv E m' (sr\<lparr>shm_pool := pool, shm_hash := t\<rparr>) fs (a # us) e"
proof -
  note g = grant_invD [OF gi]
  have ad: "addr_blk E (blk_addr E a) = a" using E g(3) [of a] by (simp add: env_ok_def)
  let ?sr = "sr\<lparr>shm_pool := pool, shm_hash := t\<rparr>"
  have abs: "lh_absm (shm_hash ?sr) i = (if i = client_id p then [blk_addr E a] else lh_absm (shm_hash sr) i)" for i
    using t(2) by simp
  have inj: "i = j" if "granted ?sr i" "lh_absm (shm_hash ?sr) i = lh_absm (shm_hash ?sr) j" for i j
    using g(5) [of i j] a [of i] a [of j] that unfolding abs by (simp split: if_split_asm)
  have own: "\<exists>x\<in>set (a # us). lh_absm (shm_hash ?sr) i = [blk_addr E x]" if "granted ?sr i" for i
    using g(4) [of i] that unfolding abs by (simp split: if_split_asm)
  have mem: "\<exists>b. mp_blocks (shm_pool ?sr) (addr_blk E v) = Some b \<and> va = block_start b \<and> pa = mb_size b"
    if d: "shm_view m' d = Some (i, va, pa)" "lh_absm (shm_hash ?sr) i = [v]" for d i va pa v
  proof (cases "d = c")
    case True
    then have i: "i = client_id p" "va = block_start b" "pa = mb_size b" using d(1) unfolding view by simp_all
    then have "v = blk_addr E a" using d(2) unfolding abs by simp
    then show ?thesis using i(2,3) b ad by simp
  next
    case False
    then have i: "shm_view m d = Some (i, va, pa)" using d(1) unfolding view by simp
    then have "i \<noteq> client_id p" using c [of d] False by auto
    then have "lh_absm (shm_hash sr) i = [v]" using d(2) unfolding abs by simp
    then show ?thesis using g(6) [OF i] by simp
  qed
  show ?thesis
    unfolding grant_inv_def
  proof (intro conjI allI impI)
    show "\<forall>x\<in>set (fs @ a # us). x < 256" using g(3) by blast
    show "lh_ok (shm_hash ?sr)" "mp_inv (shm_pool ?sr) fs (a # us) e" using g(2) t(1) by simp_all
  qed (rule own inj mem; assumption)+
qed

definition serve_ok :: "rpc_env \<Rightarrow> u64 \<Rightarrow> (u64 \<Rightarrow> cli_pc) \<Rightarrow> u64 list \<Rightarrow> u64 list \<Rightarrow> (rpc_mem \<times> rpc_server) option \<Rightarrow> bool" where
  "serve_ok E s cp reqs qs r \<longleftrightarrow> (\<exists>m sr fs us e. r = Some (m, sr) \<and>
     queue_inv s (granted sr) m SWait cp reqs [] qs \<and> grant_inv E m sr fs us e)"

lemma grant_inv_srv:
  assumes "grant_inv E m sr fs us e" and "shm_hash sr' = shm_hash sr" and "shm_pool sr' = shm_pool sr"
  shows "grant_inv E m sr' fs us e"
  using assms(1) unfolding grant_inv_def assms(2,3) .

lemma awake_ok:
  assumes "queue_inv s gr m (SServe p) cp reqs rsps qs" and "grant_inv E m sr fs us e" and "\<And>i. gr i \<Longrightarrow> granted sr i"
  shows "serve_ok E s cp reqs qs (awake s (m, sr))"
proof -
  obtain m' where m': "rpc_service_awake_waiter s m = Some m'" "queue_inv s (granted sr) m' SWait cp reqs [] qs" "shm_view m' = shm_view m"
    by (rule awake_step [where gr' = "granted sr", OF assms(1) assms(3)]) (assumption, rule that)
  have "awake s (m, sr) = Some (m', sr)" using m'(1) by (simp add: awake_def)
  then show ?thesis using m'(2) grant_inv_view [OF assms(2) m'(3)] unfolding serve_ok_def by blast
qed

lemma pool_alloc_grant:
  assumes "grant_inv E m sr fs us e"
  obtains (none) pool where "mempool_alloc (Some (shm_pool sr)) = Some (Some pool, None)" "grant_inv E m (sr\<lparr>shm_pool := pool\<rparr>) fs us (Suc e)"
  | (some) pool a fs' where "mempool_alloc (Some (shm_pool sr)) = Some (Some pool, Some a)" "fs = a # fs'"
      "mp_inv pool fs' (a # us) e" "grant_inv E m (sr\<lparr>shm_pool := pool\<rparr>) fs' (a # us) e"
proof (cases fs)
  case Nil
  have "mp_inv (shm_pool sr) [] us e" using grant_invD(2) [OF assms] Nil by simp
  then obtain pool where pool: "mempool_alloc (Some (shm_pool sr)) = Some (Some pool, None)" "mp_inv pool [] us (Suc e)"
    by (rule alloc_none) (rule that)
  then show thesis
    using grant_inv_pool [OF assms pool(2) mempool_keeps_blocks(1) [OF pool(1)]] Nil none by simp
next
  case (Cons a fs')
  have "mp_inv (shm_pool sr) (a # fs') us e" using grant_invD(2) [OF assms] Cons by simp
  then obtain pool where pool: "mempool_alloc (Some (shm_pool sr)) = Some (Some pool, Some a)" "mp_inv pool fs' (a # us) e"
    by (rule alloc_some) (rule that)
  have "set us \<subseteq> set (a # us)" "set (fs' @ a # us) = set (fs @ us)" using Cons by auto
  with grant_inv_pool [OF assms pool(2) mempool_keeps_blocks(1) [OF pool(1)]] some [OF pool(1) Cons pool(2)] show thesis by blast
qed

lemma serve_new_ok:
  assumes qi: "queue_inv s (granted sr) m (SServe p) cp reqs rsps qs" and gi: "grant_inv E m sr fs us e" and E: "env_ok E"
    and new: "\<not> granted sr (client_id p)"
  shows "serve_ok E s cp reqs qs (serve_new E ok s p (m, sr))"
  using gi
proof (cases rule: pool_alloc_grant)
  case (none pool)
  then have "serve_new E ok s p (m, sr) = awake s (m, sr\<lparr>shm_pool := pool\<rparr>)" by (simp add: serve_new_def)
  then show ?thesis using awake_ok [OF qi none(2)] by simp
next
  case (some pool a fs')
  let ?sr = "sr\<lparr>shm_pool := pool\<rparr>"
  have a: "a < 256" "a \<notin> set us" using grant_invD(3) [OF gi, of a] mp_distinct [OF some(3)] some(2) by auto
  then have ad: "addr_blk E (blk_addr E a) = a" "blk_addr E a \<noteq> 0" "blk_addr E a \<noteq> - 1" using E by (auto simp: env_ok_def)
  note ha = hash_add [OF grant_invD(1) [OF gi] ad(2,3), of "client_id p"]
  show ?thesis
  proof (cases ok)
    case False
    obtain pool' where p': "mempool_free (Some pool) (Some a) = Some (Some pool')" "mp_inv pool' (a # fs') (remove1 a (a # us)) e"
      by (rule free_used [OF some(3), of a]) (simp, rule that)
    have "serve_new E ok s p (m, sr) = awake s (m, sr\<lparr>shm_pool := pool'\<rparr>)"
      using some(1) ha(2) p'(1) False by (simp add: serve_new_def Let_def)
    moreover have "grant_inv E m (sr\<lparr>shm_pool := pool'\<rparr>) (a # fs') us e"
    proof (rule grant_inv_pool [OF gi])
      show "mp_inv pool' (a # fs') us e" using p'(2) by simp
      show "mp_blocks pool' = mp_blocks (shm_pool sr)"
        using mempool_keeps_blocks(2) [OF p'(1)] mempool_keeps_blocks(1) [OF some(1)] by simp
    qed (use some(2) in auto)
    ultimately show ?thesis using awake_ok [OF qi, of E "sr\<lparr>shm_pool := pool'\<rparr>"] by simp
  next
    case True
    from ha(1) obtain t where t: "lib_linkhash_add True (client_id p) (blk_addr E a) (Some (shm_hash sr)) = Some (Some t, 0)"
        "lh_ok t" "lh_absm t = (lh_absm (shm_hash sr))(client_id p := blk_addr E a # lh_absm (shm_hash sr) (client_id p))" by blast
    have t3: "lh_absm t = (lh_absm (shm_hash sr))(client_id p := [blk_addr E a])" using t(3) new by simp
    have "a \<in> dom (mp_blocks pool)" using mp_invD(2) [OF some(3)] by auto
    then obtain b where b: "mp_blocks pool a = Some b" by auto
    obtain m' c va pa where m': "rpc_service_send_response s (p\<lparr>rpc_shm_vaddr := block_start b, rpc_param := mb_size b\<rparr>) m = Some m'"
        "queue_inv s (granted sr) m' (SServe (p\<lparr>rpc_shm_vaddr := block_start b, rpc_param := mb_size b\<rparr>)) cp reqs rsps qs"
        "shm_view m c = Some (client_id p, va, pa)" "shm_view m' = (shm_view m)(c \<mapsto> (client_id p, block_start b, mb_size b))"
      by (rule response_step [OF qi]) (rule that)
    have run: "serve_new E ok s p (m, sr) = awake s (m', sr\<lparr>shm_pool := pool, shm_hash := t\<rparr>)"
      using some(1) t(1) b m'(1) ad(1) True by (simp add: serve_new_def Let_def)
    have notin: "lh_absm (shm_hash sr) i \<noteq> [blk_addr E a]" for i
    proof
      assume i: "lh_absm (shm_hash sr) i = [blk_addr E a]"
      then obtain x where x: "x \<in> set us" "blk_addr E a = blk_addr E x" using grant_invD(4) [OF gi, of i] by auto
      then have "x < 256" using grant_invD(3) [OF gi, of x] by auto
      then have "x = a" using x(2) ad(1) E unfolding env_ok_def by metis
      then show False using x(1) a(2) by simp
    qed
    have "grant_inv E m' (sr\<lparr>shm_pool := pool, shm_hash := t\<rparr>) fs' (a # us) e"
    proof (rule grant_new [OF some(4) E _ notin t(2) t3 b m'(4)])
      show "lh_absm (shm_hash sr) (client_id p) = []" using new by simp
      show "d = c" if "shm_view m d = Some (client_id p, x)" for d x by (rule shm_ids [OF qi that m'(3)])
    qed
    from awake_ok [OF m'(2) this] show ?thesis unfolding run by (simp add: t3)
  qed
qed

lemma serve_step_ok:
  assumes qi: "queue_inv s (granted sr) m (SServe p) cp reqs rsps qs" and gi: "grant_inv E m sr fs us e" and E: "env_ok E"
  shows "serve_ok E s cp reqs qs (serve E ok s p (m, sr))"
proof -
  note q = queue_invD [OF qi]
  from q(10) obtain c cl where c: "rsps = [c]" "clients m c = Some cl" "p = rpc_params cl" by auto
  obtain ty where ty: "active (cp c) = Some ty" using q(5) [of c] c by (cases "cp c") auto
  then have kind: "req_type p = 2 \<or> req_type p = 0 \<and> granted sr (client_id p)"
    using q(8) [OF c(2)] c(3) by (auto simp: client_inv_def)
  obtain shm where shm: "lib_linkhash_get (client_id p) (Some (shm_hash sr)) = Some shm" "shm = NULL \<longleftrightarrow> \<not> granted sr (client_id p)"
    by (rule hash_get [OF grant_invD(1) [OF gi], of "client_id p"]) auto
  obtain sv h0 h1 where sv: "services m s = Some sv" "srv_handlers sv = [Some h0, Some h1]" by (rule queue_inv_srv [OF qi])
  show ?thesis
  proof (cases "req_type p = 2")
    case True
    then have "serve E ok s p (m, sr) = (if shm \<noteq> NULL then awake s (m, sr) else serve_new E ok s p (m, sr))"
      using shm(1) by (simp add: serve_def)
    then show ?thesis using awake_ok [OF qi gi] serve_new_ok [OF qi gi E, of ok] shm(2) by simp
  next
    case False
    let ?sr = "sr\<lparr>calls := calls sr @ [(h0, p)]\<rparr>"
    have "serve E ok s p (m, sr) = awake s (m, ?sr)"
      using False kind shm sv by (simp add: serve_def call_handler_def)
    moreover have "grant_inv E m ?sr fs us e" by (rule grant_inv_srv [OF gi]) simp_all
    ultimately show ?thesis using awake_ok [OF qi, of E ?sr] by simp
  qed
qed

section \<open>Every interleaving\<close>

definition rpc_inv :: "rpc_env \<Rightarrow> u64 \<Rightarrow> rpc_sys \<Rightarrow> bool" where
  "rpc_inv E s \<sigma> \<longleftrightarrow> (\<exists>reqs rsps qs fs us e.
     queue_inv s (granted (srv \<sigma>)) (mem \<sigma>) (spc (srv \<sigma>)) (cpc \<sigma>) reqs rsps qs \<and> grant_inv E (mem \<sigma>) (srv \<sigma>) fs us e)"

text \<open>
  Clients that follow the protocol ask for memory (\<open>CLIENT_GET_SERVICE\<close>) or, once the server has
  given them memory, for a service with a response.
\<close>

definition polite :: "rpc_sys \<Rightarrow> u64 \<Rightarrow> u32 \<Rightarrow> bool" where
  "polite \<sigma> c ty \<longleftrightarrow> ty = 2 \<or>
     ty = 0 \<and> (case clients (mem \<sigma>) c of None \<Rightarrow> False
       | Some cl \<Rightarrow> lib_linkhash_get (client_id (rpc_params cl)) (Some (shm_hash (srv \<sigma>))) \<noteq> Some NULL)"

lemma server_step_inv:
  assumes "rpc_inv E s \<sigma>" and E: "env_ok E" and "server_ready s \<sigma>"
  obtains m sr where "server_step E ok s (mem \<sigma>, srv \<sigma>) = Some (m, sr)" and "rpc_inv E s (\<sigma>\<lparr>mem := m, srv := sr\<rparr>)"
proof -
  from assms(1) obtain reqs rsps qs fs us e where
    qi: "queue_inv s (granted (srv \<sigma>)) (mem \<sigma>) (spc (srv \<sigma>)) (cpc \<sigma>) reqs rsps qs" and
    gi: "grant_inv E (mem \<sigma>) (srv \<sigma>) fs us e" unfolding rpc_inv_def by blast
  note ts = take_steps [OF qi]
  note goal = that
  have finish: thesis if "server_step E ok s (mem \<sigma>, srv \<sigma>) = Some (m, (srv \<sigma>)\<lparr>spc := x\<rparr>)"
      "queue_inv s (granted (srv \<sigma>)) m x (cpc \<sigma>) reqs' rsps' qs" "shm_view m = shm_view (mem \<sigma>)" for m x reqs' rsps'
  proof (rule goal [OF that(1)])
    have "grant_inv E m ((srv \<sigma>)\<lparr>spc := x\<rparr>) fs us e"
      by (rule grant_inv_srv [OF grant_inv_view [OF gi that(3)]]) simp_all
    then show "rpc_inv E s (\<sigma>\<lparr>mem := m, srv := (srv \<sigma>)\<lparr>spc := x\<rparr>\<rparr>)"
      unfolding rpc_inv_def using that(2) by auto
  qed
  show thesis
  proof (cases "spc (srv \<sigma>)")
    case SWait
    then obtain sv where "services (mem \<sigma>) s = Some sv" "0 < server_sem sv" using assms(3) by (auto simp: server_ready_def)
    from ts(1) [OF SWait this] obtain m where r: "upd_service s (\<lambda>sv. sv\<lparr>server_sem := server_sem sv - 1\<rparr>) (mem \<sigma>) = Some m"
        "queue_inv s (granted (srv \<sigma>)) m STake (cpc \<sigma>) reqs rsps qs" "shm_view m = shm_view (mem \<sigma>)" by blast
    show ?thesis by (rule finish [OF _ r(2,3)]) (simp add: server_step_def SWait r(1) [simplified])
  next
    case STake
    from ts(2) [OF STake] obtain m c reqs' where r: "request_take s (mem \<sigma>) = Some (m, c)"
        "queue_inv s (granted (srv \<sigma>)) m (SGot c) (cpc \<sigma>) reqs' rsps qs" "shm_view m = shm_view (mem \<sigma>)" by blast
    show ?thesis by (rule finish [OF _ r(2,3)]) (simp add: server_step_def STake r(1) [simplified])
  next
    case (SGot c)
    from ts(3) [OF SGot] obtain m where r: "request_file s c (mem \<sigma>) = Some m"
        "queue_inv s (granted (srv \<sigma>)) m (SFiled c) (cpc \<sigma>) reqs [c] qs" "shm_view m = shm_view (mem \<sigma>)" by blast
    show ?thesis by (rule finish [OF _ r(2,3)]) (simp add: server_step_def SGot r(1) [simplified])
  next
    case (SFiled c)
    from ts(4) [OF SFiled] obtain cl where r: "clients (mem \<sigma>) c = Some cl"
        "queue_inv s (granted (srv \<sigma>)) (mem \<sigma>) (SServe (rpc_params cl)) (cpc \<sigma>) reqs rsps qs" by blast
    show ?thesis by (rule finish [OF _ r(2) refl]) (simp add: server_step_def SFiled r(1))
  next
    case (SServe p)
    from serve_step_ok [OF qi [unfolded SServe] gi E, of ok] obtain m sr fs' us' e' where
      r: "serve E ok s p (mem \<sigma>, srv \<sigma>) = Some (m, sr)" "queue_inv s (granted sr) m SWait (cpc \<sigma>) reqs [] qs" "grant_inv E m sr fs' us' e'"
      unfolding serve_ok_def by blast
    have "grant_inv E m (sr\<lparr>spc := SWait\<rparr>) fs' us' e'" by (rule grant_inv_srv [OF r(3)]) simp_all
    then have "rpc_inv E s (\<sigma>\<lparr>mem := m, srv := sr\<lparr>spc := SWait\<rparr>\<rparr>)" unfolding rpc_inv_def using r(2) by auto
    then show ?thesis by (rule goal [rotated]) (simp add: server_step_def SServe r(1))
  qed
qed

lemma client_step_inv:
  assumes "rpc_inv E s \<sigma>" and "client_ready c \<sigma>"
  obtains \<sigma>' where "rpc_client_step c \<sigma> = Some \<sigma>'" and "rpc_inv E s \<sigma>'" and "srv \<sigma>' = srv \<sigma>"
proof -
  from assms(1) obtain reqs rsps qs fs us e where
    qi: "queue_inv s (granted (srv \<sigma>)) (mem \<sigma>) (spc (srv \<sigma>)) (cpc \<sigma>) reqs rsps qs" and
    gi: "grant_inv E (mem \<sigma>) (srv \<sigma>) fs us e" unfolding rpc_inv_def by blast
  have "cpc \<sigma> c \<noteq> CIdle None" using assms(2) by (auto simp: client_ready_def)
  then obtain cl where cl: "clients (mem \<sigma>) c = Some cl" using queue_invD(7) [OF qi, of c] by auto
  note goal = that
  have finish: thesis if "rpc_client_step c \<sigma> = Some (\<sigma>\<lparr>mem := m, cpc := (cpc \<sigma>)(c := x)\<rparr>)"
      "queue_inv s (granted (srv \<sigma>)) m (spc (srv \<sigma>)) ((cpc \<sigma>)(c := x)) reqs' rsps qs'" "shm_view m = shm_view (mem \<sigma>)" for m x reqs' qs'
  proof (rule goal [OF that(1)])
    show "rpc_inv E s (\<sigma>\<lparr>mem := m, cpc := (cpc \<sigma>)(c := x)\<rparr>)"
      unfolding rpc_inv_def using that(2) grant_inv_view [OF gi that(3)] by auto
  qed simp
  show thesis
  proof (cases "cpc \<sigma> c")
    case (CPacked ty)
    obtain m where r: "send_queue (service_cap cl) c (mem \<sigma>) = Some m" "shm_view m = shm_view (mem \<sigma>)"
        "queue_inv s (granted (srv \<sigma>)) m (spc (srv \<sigma>)) ((cpc \<sigma>)(c := CQueued ty)) (reqs @ [c]) rsps (c # qs)"
      by (rule queue_step [OF qi CPacked cl])
    show ?thesis by (rule finish [OF _ r(3,2)]) (simp add: r(1) rpc_client_step_def CPacked cl rpc_get_capobj_bycptr_def)
  next
    case (CQueued ty)
    obtain m where r: "send_post (service_cap cl) (mem \<sigma>) = Some m" "shm_view m = shm_view (mem \<sigma>)"
        "queue_inv s (granted (srv \<sigma>)) m (spc (srv \<sigma>)) ((cpc \<sigma>)(c := CWaiting ty)) reqs rsps (remove1 c qs)"
      by (rule post_step [OF qi CQueued cl])
    show ?thesis by (rule finish [OF _ r(3,2)]) (simp add: r(1) rpc_client_step_def CQueued cl rpc_get_capobj_bycptr_def)
  next
    case (CWaiting ty)
    then have up: "0 < client_sem cl" using assms(2) cl by (simp add: client_ready_def)
    obtain m where r: "upd_client c (\<lambda>cl. cl\<lparr>client_sem := client_sem cl - 1\<rparr>) (mem \<sigma>) = Some m"
        "request_result c ty m = Some (rpc_shm_vaddr (rpc_params cl))" "shm_view m = shm_view (mem \<sigma>)"
        "queue_inv s (granted (srv \<sigma>)) m (spc (srv \<sigma>)) ((cpc \<sigma>)(c := CIdle (Some (rpc_shm_vaddr (rpc_params cl))))) reqs rsps qs"
      by (rule return_step [OF qi CWaiting cl up])
    show ?thesis by (rule finish [OF _ r(4,3)]) (simp add: rpc_client_step_def CWaiting r(1) [simplified] r(2))
  next
    case (CIdle r)
    then show ?thesis using assms(2) by (simp add: client_ready_def)
  qed
qed

lemma call_inv:
  assumes "rpc_inv E s \<sigma>" and "cpc \<sigma> c = CIdle r" and "clients (mem \<sigma>) c \<noteq> None" and "polite \<sigma> c ty"
    and "rpc_client_call c ty \<sigma> = Some \<sigma>'"
  shows "rpc_inv E s \<sigma>'"
proof -
  from assms(1) obtain reqs rsps qs fs us e where
    qi: "queue_inv s (granted (srv \<sigma>)) (mem \<sigma>) (spc (srv \<sigma>)) (cpc \<sigma>) reqs rsps qs" and
    gi: "grant_inv E (mem \<sigma>) (srv \<sigma>) fs us e" unfolding rpc_inv_def by blast
  from assms(3) obtain cl where cl: "clients (mem \<sigma>) c = Some cl" by auto
  obtain v where v: "lib_linkhash_get (client_id (rpc_params cl)) (Some (shm_hash (srv \<sigma>))) = Some v"
      "v = NULL \<longleftrightarrow> lh_absm (shm_hash (srv \<sigma>)) (client_id (rpc_params cl)) = []"
    by (rule hash_get [OF grant_invD(1) [OF gi]])
  then have ty: "ty = 2 \<or> ty = 0 \<and> granted (srv \<sigma>) (client_id (rpc_params cl))"
    using assms(4) cl by (auto simp: polite_def)
  obtain m where m: "rpc_client_package_params c ty (mem \<sigma>) = Some m" "shm_view m = shm_view (mem \<sigma>)"
      "queue_inv s (granted (srv \<sigma>)) m (spc (srv \<sigma>)) ((cpc \<sigma>)(c := CPacked ty)) reqs rsps qs"
    by (rule call_keeps_queue [OF qi assms(2) cl ty])
  consider "\<sigma>' = \<sigma>\<lparr>mem := m, cpc := (cpc \<sigma>)(c := CPacked ty)\<rparr>" | "c = NULL" "\<sigma>' = \<sigma>\<lparr>cpc := (cpc \<sigma>)(c := CIdle (Some NULL))\<rparr>"
    using assms(5) m(1) cl ty queue_invD(1,8) [OF qi]
    by (fastforce simp: rpc_client_call_def request_checks_def rpc_get_capobj_bycptr_def client_inv_def split: if_splits)
  then show ?thesis
  proof cases
    case 1
    then show ?thesis unfolding rpc_inv_def using m(3) grant_inv_view [OF gi m(2)] by auto
  next
    case 2
    note q = queue_invD [OF qi]
    have out: "c \<notin> set (reqs @ rsps @ held (spc (srv \<sigma>)))" using q(5) [of c] assms(2) by auto
    have "client_inv s (granted (srv \<sigma>)) (reqs @ rsps @ held (spc (srv \<sigma>))) (((cpc \<sigma>)(c := CIdle (Some NULL))) d) d dl"
      if "clients (mem \<sigma>) d = Some dl" for d dl
      using q(8) [OF that] assms(2) by (auto simp: client_inv_def)
    then have "queue_inv s (granted (srv \<sigma>)) (mem \<sigma>) (spc (srv \<sigma>)) ((cpc \<sigma>)(c := CIdle (Some NULL))) reqs rsps qs"
      using qi out assms(2) cl by (auto simp: queue_inv_def)
    then show ?thesis unfolding rpc_inv_def using 2(2) gi by auto
  qed
qed

lemma rpc_reach_inv:
  assumes "rpc_reach may E s \<sigma>0 \<sigma>" and "rpc_inv E s \<sigma>0" and "env_ok E" and "\<And>\<sigma> c ty. may \<sigma> c ty \<Longrightarrow> polite \<sigma> c ty"
  shows "rpc_inv E s \<sigma>"
  using assms(1)
proof induction
  case start
  then show ?case by (rule assms(2))
next
  case (step \<sigma> \<sigma>')
  from step.hyps(2) show ?case
  proof cases
    case (call c r ty)
    then show ?thesis using call_inv [OF step.IH] assms(4) by blast
  next
    case (client c)
    then show ?thesis using client_step_inv [OF step.IH client(1)] by (metis option.inject)
  next
    case (server ok m sr)
    then show ?thesis using server_step_inv [OF step.IH assms(3) server(2), of ok] by (metis option.inject prod.inject)
  qed
qed

text \<open>A service with no request, all of whose clients are idle, and a server that has just started.\<close>

definition rpc_start :: "u64 \<Rightarrow> rpc_sys \<Rightarrow> bool" where
  "rpc_start s \<sigma> \<longleftrightarrow> s \<noteq> NULL \<and> rpc_rings s (rpc_links (mem \<sigma>)) [] [] \<and>
     (\<exists>sv h0 h1. services (mem \<sigma>) s = Some sv \<and> srv_handlers sv = [Some h0, Some h1] \<and> server_sem sv = 0) \<and>
     (\<forall>c. cpc \<sigma> c = CIdle None) \<and>
     (\<forall>c cl. clients (mem \<sigma>) c = Some cl \<longrightarrow> service_cap cl = s \<and> client_sem cl = 0) \<and>
     inj_on (\<lambda>c. client_id (rpc_params (the (clients (mem \<sigma>) c)))) (dom (clients (mem \<sigma>)))"

lemma handler_start:
  assumes "rpc_service_handler (Some pm) (Some hm) mal (\<lambda>_. True) = Some (Some sr)"
    and "mp_blocks pm = Map.empty" and "mp_fresh pm = 0" and "lh_objs hm = Map.empty"
  shows "grant_inv E m sr (rev [0..<256]) [] 0" and "lh_absm (shm_hash sr) = (\<lambda>_. [])" and "spc sr = SWait"
proof -
  obtain pool where pool: "mempool_create (Some pm) 4096 256 (Some (\<lambda>i. rpc_shm_block_alloc (mal i))) (\<lambda>_. True) = Some (Some pool)"
      "mp_inv pool (rev [mp_fresh pm..<mp_fresh pm + unat (256 :: u64)]) [] 0"
    by (rule create_spec [of 4096 256 "\<lambda>_. True" pm "\<lambda>i. rpc_shm_block_alloc (mal i)"]) (use assms(2) in auto)
  obtain t where t: "lib_linkhash_create (Some hm) 128 = Some t" by (simp add: lib_linkhash_create_def)
  have sr: "sr = \<lparr>shm_pool = pool, shm_hash = t, spc = SWait, calls = []\<rparr>"
    using assms(1) pool(1) t by (simp add: rpc_service_handler_def)
  note l = lib_create_ok [OF t assms(4)]
  show "grant_inv E m sr (rev [0..<256]) [] 0" using pool(2) l assms(3) by (simp add: grant_inv_def sr)
  show "lh_absm (shm_hash sr) = (\<lambda>_. [])" "spc sr = SWait" using l by (simp_all add: sr)
qed

lemma start_inv:
  assumes "rpc_start s \<sigma>" and "rpc_service_handler (Some pm) (Some hm) mal (\<lambda>_. True) = Some (Some (srv \<sigma>))"
    and "mp_blocks pm = Map.empty" and "mp_fresh pm = 0" and "lh_objs hm = Map.empty"
  shows "rpc_inv E s \<sigma>"
proof -
  note h = handler_start(1) [OF assms(2-5), where E = E and m = "mem \<sigma>"] handler_start(2,3) [OF assms(2-5)]
  have "queue_inv s (granted (srv \<sigma>)) (mem \<sigma>) (spc (srv \<sigma>)) (cpc \<sigma>) [] [] []"
    using assms(1) h(3) by (auto simp: rpc_start_def queue_inv_def client_inv_def)
  then show ?thesis unfolding rpc_inv_def using h(1) by blast
qed

text \<open>
  (C4) Isolation of clients.  Take a service whose clients follow the protocol.  Under every
  interleaving of their threads with the server: no step of the server is undefined behaviour;
  the memory and the size the server has entered for a client are the ones the client has been
  told; and different clients have different blocks.
\<close>

theorem rpc_memory_isolated:
  assumes "rpc_start s \<sigma>0" and "rpc_service_handler (Some pm) (Some hm) mal (\<lambda>_. True) = Some (Some (srv \<sigma>0))"
    and "mp_blocks pm = Map.empty" and "mp_fresh pm = 0" and "lh_objs hm = Map.empty" and "env_ok E"
    and "rpc_reach polite E s \<sigma>0 \<sigma>"
  shows "(server_ready s \<sigma> \<longrightarrow> server_step E ok s (mem \<sigma>, srv \<sigma>) \<noteq> None) \<and>
    (\<forall>c cl v. clients (mem \<sigma>) c = Some cl \<longrightarrow>
       lib_linkhash_get (client_id (rpc_params cl)) (Some (shm_hash (srv \<sigma>))) = Some v \<longrightarrow> v \<noteq> NULL \<longrightarrow>
       (\<exists>b. mp_blocks (shm_pool (srv \<sigma>)) (addr_blk E v) = Some b \<and>
          rpc_shm_vaddr (rpc_params cl) = block_start b \<and> rpc_param (rpc_params cl) = mb_size b) \<and>
       (\<forall>d dl. clients (mem \<sigma>) d = Some dl \<longrightarrow> d \<noteq> c \<longrightarrow>
          lib_linkhash_get (client_id (rpc_params dl)) (Some (shm_hash (srv \<sigma>))) \<noteq> Some v))"
proof -
  have inv: "rpc_inv E s \<sigma>" by (rule rpc_reach_inv [OF assms(7) start_inv [OF assms(1-5)] assms(6)])
  then obtain reqs rsps qs fs us e where
    qi: "queue_inv s (granted (srv \<sigma>)) (mem \<sigma>) (spc (srv \<sigma>)) (cpc \<sigma>) reqs rsps qs" and
    gi: "grant_inv E (mem \<sigma>) (srv \<sigma>) fs us e" unfolding rpc_inv_def by blast
  have one: "lh_absm (shm_hash (srv \<sigma>)) i = [v]" if "lib_linkhash_get i (Some (shm_hash (srv \<sigma>))) = Some v" "v \<noteq> NULL" for i v
  proof -
    have "lh_get i (shm_hash (srv \<sigma>)) = Some (Some v)" using that by (simp add: lh_get_def)
    then show ?thesis using lh.get_abs [OF grant_invD(1) [OF gi], of i] grant_invD(4) [OF gi, of i]
      by (cases "lh_absm (shm_hash (srv \<sigma>)) i") auto
  qed
  show ?thesis
  proof (intro conjI allI impI)
    show "server_step E ok s (mem \<sigma>, srv \<sigma>) \<noteq> None" if "server_ready s \<sigma>"
      using server_step_inv [OF inv assms(6) that, of ok] by blast
  next
    fix c cl v assume c: "clients (mem \<sigma>) c = Some cl" and v: "v \<noteq> NULL"
      "lib_linkhash_get (client_id (rpc_params cl)) (Some (shm_hash (srv \<sigma>))) = Some v"
    note a = one [OF v(2,1)]
    show "\<exists>b. mp_blocks (shm_pool (srv \<sigma>)) (addr_blk E v) = Some b \<and>
        rpc_shm_vaddr (rpc_params cl) = block_start b \<and> rpc_param (rpc_params cl) = mb_size b"
      using grant_invD(6) [OF gi _ a] c by (fastforce simp: shm_view_def Let_def)
    fix d dl assume d: "clients (mem \<sigma>) d = Some dl" "d \<noteq> c"
    show "lib_linkhash_get (client_id (rpc_params dl)) (Some (shm_hash (srv \<sigma>))) \<noteq> Some v"
    proof
      assume "lib_linkhash_get (client_id (rpc_params dl)) (Some (shm_hash (srv \<sigma>))) = Some v"
      then have "client_id (rpc_params dl) = client_id (rpc_params cl)"
        using one [OF _ v(1)] a grant_invD(5) [OF gi, of "client_id (rpc_params dl)" "client_id (rpc_params cl)"] by simp
      then show False using inj_onD [OF queue_invD(9) [OF qi], of c d] c d by auto
    qed
  qed
qed

text \<open>
  (C19) No wake-up is lost.  If the clients follow the protocol, a client that waits for its
  response can go on, or the server can, or a client that has queued its request and is about to post the
  server.
\<close>

theorem rpc_no_lost_wakeup:
  assumes "rpc_start s \<sigma>0" and "rpc_service_handler (Some pm) (Some hm) mal (\<lambda>_. True) = Some (Some (srv \<sigma>0))"
    and "mp_blocks pm = Map.empty" and "mp_fresh pm = 0" and "lh_objs hm = Map.empty" and "env_ok E"
    and "rpc_reach polite E s \<sigma>0 \<sigma>" and "cpc \<sigma> c = CWaiting ty"
  shows "client_ready c \<sigma> \<or> server_ready s \<sigma> \<or> (\<exists>d t. cpc \<sigma> d = CQueued t)"
proof -
  have "rpc_inv E s \<sigma>" by (rule rpc_reach_inv [OF assms(7) start_inv [OF assms(1-5)] assms(6)])
  then obtain reqs rsps qs where
    qi: "queue_inv s (granted (srv \<sigma>)) (mem \<sigma>) (spc (srv \<sigma>)) (cpc \<sigma>) reqs rsps qs" unfolding rpc_inv_def by blast
  note q = queue_invD [OF qi]
  obtain sv h0 h1 where sv: "services (mem \<sigma>) s = Some sv" "srv_handlers sv = [Some h0, Some h1]"
      "server_sem sv + length qs + (if spc (srv \<sigma>) = STake then 1 else 0) = length reqs" by (rule queue_inv_srv [OF qi])
  obtain cl where cl: "clients (mem \<sigma>) c = Some cl" using q(7) [of c] assms(8) by auto
  show ?thesis
  proof (cases "spc (srv \<sigma>) = SWait \<and> client_sem cl = 0")
    case True
    then have "c \<in> set reqs" using q(8) [OF cl] q(10) assms(8) by (auto simp: client_inv_def split: if_splits)
    then have "0 < server_sem sv \<or> qs \<noteq> []" using sv(3) True by (cases reqs) auto
    then show ?thesis
    proof
      assume "0 < server_sem sv"
      then show ?thesis using sv(1) by (simp add: server_ready_def)
    next
      assume "qs \<noteq> []"
      then show ?thesis using q(4) [of "hd qs"] by auto
    qed
  next
    case False
    then show ?thesis using assms(8) cl by (auto simp: server_ready_def client_ready_def)
  qed
qed

section \<open>Runs of one client after the other\<close>

lemma reach_trans:
  assumes "rpc_reach may E s \<sigma>1 \<sigma>2" and "rpc_reach may E s \<sigma>0 \<sigma>1"
  shows "rpc_reach may E s \<sigma>0 \<sigma>2"
  using assms by (induction rule: rpc_reach.induct) (auto intro: rpc_reach.step)

lemma reach_call:
  assumes "rpc_reach may E s \<sigma>0 \<sigma>" and "cpc \<sigma> c = CIdle r" and "clients (mem \<sigma>) c \<noteq> None" and "may \<sigma> c ty"
    and "rpc_client_call c ty \<sigma> = Some \<sigma>'"
  shows "rpc_reach may E s \<sigma>0 \<sigma>'"
  using rpc_reach.step [OF assms(1) rpc_step.call [of \<sigma> c r may ty \<sigma>' E s]] assms(2-5) by blast

lemma reach_client:
  assumes "rpc_reach may E s \<sigma>0 \<sigma>" and "client_ready c \<sigma>" and "rpc_client_step c \<sigma> = Some \<sigma>'"
  shows "rpc_reach may E s \<sigma>0 \<sigma>'"
  using rpc_reach.step [OF assms(1) rpc_step.client [OF assms(2,3)]] .

lemma reach_server:
  assumes "rpc_reach may E s \<sigma>0 \<sigma>" and "server_ready s \<sigma>" and "server_step E True s (mem \<sigma>, srv \<sigma>) = Some (m, sr)"
  shows "rpc_reach may E s \<sigma>0 (\<sigma>\<lparr>mem := m, srv := sr\<rparr>)"
  using rpc_reach.step [OF assms(1) rpc_step.server [OF assms(2,3)]] .

text \<open>The states of these runs, spelled out: memory, server and threads.\<close>

abbreviation rpc_at :: "rpc_mem \<Rightarrow> rpc_server \<Rightarrow> (u64 \<Rightarrow> cli_pc) \<Rightarrow> rpc_sys" where
  "rpc_at m sr cp \<equiv> \<lparr>mem = m, srv = sr, cpc = cp\<rparr>"

definition typed :: "u32 \<Rightarrow> rpc_client \<Rightarrow> rpc_client" where
  "typed ty cl = cl\<lparr>rpc_params := (rpc_params cl)\<lparr>req_type := scast ty\<rparr>\<rparr>"

text \<open>A client calls, queues its request and posts the server.\<close>

lemma submit:
  assumes "rpc_reach may E s \<sigma>0 (rpc_at m sr cp)" and "cp c = CIdle r" and "may (rpc_at m sr cp) c ty"
    and "clients m c = Some cl" and "service_cap cl = s" and "s \<noteq> NULL" and "c \<noteq> NULL" and "ty \<le> 4"
    and "services m s = Some sv" and "rpc_rings s (rpc_links m) reqs rsps" and "c \<notin> set (reqs @ rsps)"
  obtains L where "rpc_rings s L (reqs @ [c]) rsps"
    and "rpc_reach may E s \<sigma>0 (rpc_at (m\<lparr>clients := (clients m)(c \<mapsto> typed ty cl), rpc_links := L,
        services := (services m)(s \<mapsto> sv\<lparr>server_sem := Suc (server_sem sv)\<rparr>)\<rparr>) sr (cp(c := CWaiting ty)))"
proof -
  let ?L = "list_add_tail (Service_hook c) (Req_list s) (rpc_links m)"
  let ?m1 = "m\<lparr>clients := (clients m)(c \<mapsto> typed ty cl)\<rparr>"
  have "rpc_client_call c ty (rpc_at m sr cp) = Some (rpc_at ?m1 sr (cp(c := CPacked ty)))"
    using assms(4-8) by (simp add: rpc_client_call_def request_checks_def rpc_get_capobj_bycptr_def
        rpc_client_package_params_def mem_upd_defs typed_def not_less)
  from reach_call [OF assms(1) _ _ assms(3) this] assms(2,4)
  have 1: "rpc_reach may E s \<sigma>0 (rpc_at ?m1 sr (cp(c := CPacked ty)))" by simp
  have "rpc_client_step c (rpc_at ?m1 sr (cp(c := CPacked ty))) = Some (rpc_at (?m1\<lparr>rpc_links := ?L\<rparr>) sr (cp(c := CQueued ty)))"
    using assms(5,9) by (simp add: rpc_client_step_def send_queue_def rpc_get_capobj_bycptr_def typed_def)
  from reach_client [OF 1 _ this] have 2: "rpc_reach may E s \<sigma>0 (rpc_at (?m1\<lparr>rpc_links := ?L\<rparr>) sr (cp(c := CQueued ty)))"
    by (simp add: client_ready_def)
  have "rpc_client_step c (rpc_at (?m1\<lparr>rpc_links := ?L\<rparr>) sr (cp(c := CQueued ty))) =
      Some (rpc_at (?m1\<lparr>rpc_links := ?L, services := (services m)(s \<mapsto> sv\<lparr>server_sem := Suc (server_sem sv)\<rparr>)\<rparr>) sr (cp(c := CWaiting ty)))"
    using assms(5,9) by (simp add: rpc_client_step_def send_post_def mem_upd_defs rpc_get_capobj_bycptr_def typed_def)
  from reach_client [OF 2 _ this]
  have "rpc_reach may E s \<sigma>0 (rpc_at (?m1\<lparr>rpc_links := ?L, services := (services m)(s \<mapsto> sv\<lparr>server_sem := Suc (server_sem sv)\<rparr>)\<rparr>) sr (cp(c := CWaiting ty)))"
    by (simp add: client_ready_def)
  then show thesis by (intro that [OF rpc_rings_queue(1) [OF assms(10,11)]]) simp
qed

text \<open>The server takes the first request; if it wants a response, the client is filed and its parameters are copied.\<close>

lemma server_takes:
  assumes "rpc_reach may E s \<sigma>0 (rpc_at m sr cp)" and "spc sr = SWait" and "services m s = Some sv" and "server_sem sv = Suc n"
    and "rpc_rings s (rpc_links m) (c # reqs) rsps" and "clients m c = Some cl"
  obtains L where "rpc_rings s L reqs rsps"
    and "rpc_reach may E s \<sigma>0 (rpc_at (m\<lparr>services := (services m)(s \<mapsto> sv\<lparr>server_sem := n\<rparr>), rpc_links := L\<rparr>) (sr\<lparr>spc := SGot c\<rparr>) cp)"
proof -
  let ?m1 = "m\<lparr>services := (services m)(s \<mapsto> sv\<lparr>server_sem := n\<rparr>)\<rparr>"
  have "server_step E True s (m, sr) = Some (?m1, sr\<lparr>spc := STake\<rparr>)"
    using assms(2-4) by (simp add: server_step_def mem_upd_defs)
  from reach_server [OF assms(1), of ?m1 "sr\<lparr>spc := STake\<rparr>"] this assms(3,4)
  have 1: "rpc_reach may E s \<sigma>0 (rpc_at ?m1 (sr\<lparr>spc := STake\<rparr>) cp)" by (simp add: server_ready_def)
  let ?L = "list_del_init (Service_hook c) (rpc_links m)"
  have "server_step E True s (?m1, sr\<lparr>spc := STake\<rparr>) = Some (?m1\<lparr>rpc_links := ?L\<rparr>, sr\<lparr>spc := SGot c\<rparr>)"
    using rpc_rings_ends(1) [OF assms(5)] assms(6) by (simp add: server_step_def request_take_def)
  from reach_server [OF 1, of "?m1\<lparr>rpc_links := ?L\<rparr>" "sr\<lparr>spc := SGot c\<rparr>"] this
  have "rpc_reach may E s \<sigma>0 (rpc_at (?m1\<lparr>rpc_links := ?L\<rparr>) (sr\<lparr>spc := SGot c\<rparr>) cp)" by (simp add: server_ready_def)
  then show thesis by (intro that [OF rpc_rings_take(1) [OF assms(5)]]) simp
qed

lemma server_files:
  assumes "rpc_reach may E s \<sigma>0 (rpc_at m sr cp)" and "spc sr = SGot c" and "clients m c = Some cl"
    and "rpc_rings s (rpc_links m) reqs rsps" and "c \<notin> set (reqs @ rsps)" and "req_type (rpc_params cl) \<in> {0, 2}"
  obtains L where "rpc_rings s L reqs (rsps @ [c])"
    and "rpc_reach may E s \<sigma>0 (rpc_at (m\<lparr>rpc_links := L\<rparr>) (sr\<lparr>spc := SServe (rpc_params cl)\<rparr>) cp)"
proof -
  let ?L = "list_add_tail (Service_hook c) (Rsp_list s) (rpc_links m)"
  have "server_step E True s (m, sr) = Some (m\<lparr>rpc_links := ?L\<rparr>, sr\<lparr>spc := SFiled c\<rparr>)"
    using assms(2,3,6) by (auto simp: server_step_def request_file_def)
  from reach_server [OF assms(1), of "m\<lparr>rpc_links := ?L\<rparr>" "sr\<lparr>spc := SFiled c\<rparr>"] this assms(2)
  have 1: "rpc_reach may E s \<sigma>0 (rpc_at (m\<lparr>rpc_links := ?L\<rparr>) (sr\<lparr>spc := SFiled c\<rparr>) cp)" by (simp add: server_ready_def)
  have "server_step E True s (m\<lparr>rpc_links := ?L\<rparr>, sr\<lparr>spc := SFiled c\<rparr>) = Some (m\<lparr>rpc_links := ?L\<rparr>, sr\<lparr>spc := SServe (rpc_params cl)\<rparr>)"
    using assms(3) by (simp add: server_step_def)
  from reach_server [OF 1, of "m\<lparr>rpc_links := ?L\<rparr>" "sr\<lparr>spc := SServe (rpc_params cl)\<rparr>"] this
  have "rpc_reach may E s \<sigma>0 (rpc_at (m\<lparr>rpc_links := ?L\<rparr>) (sr\<lparr>spc := SServe (rpc_params cl)\<rparr>) cp)" by (simp add: server_ready_def)
  then show thesis by (rule that [OF rpc_rings_queue(2) [OF assms(4,5)]])
qed

text \<open>A client that has been woken returns.\<close>

definition woken :: "nat \<Rightarrow> rpc_client \<Rightarrow> rpc_client" where
  "woken n cl = cl\<lparr>client_sem := n\<rparr>"

lemma client_returns:
  assumes "rpc_reach may E s \<sigma>0 (rpc_at m sr cp)" and "cp c = CWaiting ty" and "clients m c = Some cl"
    and "client_sem cl = Suc n" and "ty < 4"
  shows "rpc_reach may E s \<sigma>0 (rpc_at (m\<lparr>clients := (clients m)(c \<mapsto> woken n cl)\<rparr>) sr
      (cp(c := CIdle (Some (rpc_shm_vaddr (rpc_params cl))))))"
proof (rule reach_client [OF assms(1), of c])
  have "ty = 0 \<or> ty = 1 \<or> ty = 2 \<or> ty = 3" using assms(5) by (auto simp: word_less_nat_alt word_unat_eq_iff)
  then have "ucast ty \<in> {2, 0, 1, 3 :: u64}" by auto
  then show "rpc_client_step c (rpc_at m sr cp) = Some (rpc_at (m\<lparr>clients := (clients m)(c \<mapsto> woken n cl)\<rparr>) sr
      (cp(c := CIdle (Some (rpc_shm_vaddr (rpc_params cl))))))"
    using assms(2-4) by (simp add: rpc_client_step_def mem_upd_defs request_result_def woken_def)
  show "client_ready c (rpc_at m sr cp)" using assms(2-4) by (simp add: client_ready_def)
qed

text \<open>A request for memory is served: the block goes to the first waiter, whoever it is.\<close>

definition answered :: "mempool_block \<Rightarrow> rpc_client \<Rightarrow> rpc_client" where
  "answered b cl = cl\<lparr>rpc_params := (rpc_params cl)\<lparr>rpc_param := mb_size b, rpc_shm_vaddr := block_start b\<rparr>,
     client_sem := Suc (client_sem cl)\<rparr>"

lemma serve_grants:
  assumes "rpc_reach may E s \<sigma>0 (rpc_at m sr cp)" and "spc sr = SServe p" and "req_type p = 2"
    and gi: "grant_inv E m' sr (a # fs) us e" and E: "env_ok E" and new: "\<not> granted sr (client_id p)"
    and "rpc_rings s (rpc_links m) reqs (w # rsps)" and "clients m w = Some wl"
  obtains L sr' b where "rpc_rings s L reqs rsps"
    and "rpc_reach may E s \<sigma>0 (rpc_at (m\<lparr>clients := (clients m)(w \<mapsto> answered b wl), rpc_links := L\<rparr>) sr' cp)"
    and "spc sr' = SWait" and "lh_ok (shm_hash sr')" and "lh_absm (shm_hash sr') = (lh_absm (shm_hash sr))(client_id p := [blk_addr E a])"
    and "mp_blocks (shm_pool sr') a = Some b"
proof -
  have "mp_inv (shm_pool sr) (a # fs) us e" using grant_invD(2) [OF gi] .
  then obtain pool where pool: "mempool_alloc (Some (shm_pool sr)) = Some (Some pool, Some a)" "mp_inv pool fs (a # us) e"
    by (rule alloc_some) (rule that)
  have ad: "addr_blk E (blk_addr E a) = a" "blk_addr E a \<noteq> 0" "blk_addr E a \<noteq> - 1"
    using E grant_invD(3) [OF gi, of a] by (auto simp: env_ok_def)
  from hash_add(1) [OF grant_invD(1) [OF gi] ad(2,3), of "client_id p"] obtain t where
    t: "lib_linkhash_add True (client_id p) (blk_addr E a) (Some (shm_hash sr)) = Some (Some t, 0)" "lh_ok t"
      "lh_absm t = (lh_absm (shm_hash sr))(client_id p := blk_addr E a # lh_absm (shm_hash sr) (client_id p))" by blast
  have "a \<in> dom (mp_blocks pool)" using mp_invD(2) [OF pool(2)] by auto
  then obtain b where b: "mp_blocks pool a = Some b" by auto
  obtain shm where shm: "lib_linkhash_get (client_id p) (Some (shm_hash sr)) = Some shm" "shm = NULL \<longleftrightarrow> \<not> granted sr (client_id p)"
    by (rule hash_get [OF grant_invD(1) [OF gi], of "client_id p"]) auto
  let ?L = "list_del_init (Service_hook w) (rpc_links m)" and ?sr = "sr\<lparr>shm_pool := pool, shm_hash := t, spc := SWait\<rparr>"
  let ?m = "m\<lparr>clients := (clients m)(w \<mapsto> answered b wl), rpc_links := ?L\<rparr>"
  have fw: "lnext (rpc_links m) (Rsp_list s) = Service_hook w" using rpc_rings_ends(2) [OF assms(7)] by simp
  have "server_step E True s (m, sr) = Some (?m, ?sr)"
    using assms(2,3,8) shm new pool(1) t(1) b ad(1) fw
    by (simp add: server_step_def serve_def serve_new_def awake_def rpc_service_awake_waiter_def rpc_service_send_response_def
        first_waiter_def mem_upd_defs answered_def Let_def)
  from reach_server [OF assms(1), of ?m ?sr] this assms(2)
  have "rpc_reach may E s \<sigma>0 (rpc_at ?m ?sr cp)" by (simp add: server_ready_def)
  then show thesis
    by (rule that [OF rpc_rings_take(2) [OF assms(7)]]) (use t new b in \<open>simp_all\<close>)
qed

lemma rpc_startD:
  assumes "rpc_start s \<sigma>"
  shows "s \<noteq> NULL" "rpc_rings s (rpc_links (mem \<sigma>)) [] []" "\<And>c. cpc \<sigma> c = CIdle None"
    "\<And>c cl. clients (mem \<sigma>) c = Some cl \<Longrightarrow> service_cap cl = s \<and> client_sem cl = 0"
    "\<And>c d cl dl. clients (mem \<sigma>) c = Some cl \<Longrightarrow> clients (mem \<sigma>) d = Some dl \<Longrightarrow>
       client_id (rpc_params cl) = client_id (rpc_params dl) \<Longrightarrow> c = d"
proof -
  show "s \<noteq> NULL" "rpc_rings s (rpc_links (mem \<sigma>)) [] []" "\<And>c. cpc \<sigma> c = CIdle None"
    "\<And>c cl. clients (mem \<sigma>) c = Some cl \<Longrightarrow> service_cap cl = s \<and> client_sem cl = 0"
    using assms by (auto simp: rpc_start_def)
  have inj: "inj_on (\<lambda>c. client_id (rpc_params (the (clients (mem \<sigma>) c)))) (dom (clients (mem \<sigma>)))"
    using assms by (simp add: rpc_start_def)
  show "c = d" if "clients (mem \<sigma>) c = Some cl" "clients (mem \<sigma>) d = Some dl"
    "client_id (rpc_params cl) = client_id (rpc_params dl)" for c d cl dl
    using inj_onD [OF inj, of c d] that by auto
qed

text \<open>The fields of a memory are independent.\<close>

lemma mem_order [simp]:
  "m\<lparr>services := x, rpc_links := y\<rparr> = m\<lparr>rpc_links := y, services := x\<rparr>"
  "m\<lparr>rpc_links := y, clients := z\<rparr> = m\<lparr>clients := z, rpc_links := y\<rparr>"
  "m\<lparr>services := x, clients := z\<rparr> = m\<lparr>clients := z, services := x\<rparr>"
  by simp_all

lemma sem_same: "server_sem sv = n \<Longrightarrow> sv\<lparr>server_sem := n\<rparr> = sv"
  by (cases sv) simp

lemma reach_self: "rpc_reach may E s \<sigma> (rpc_at (mem \<sigma>) (srv \<sigma>) (cpc \<sigma>))"
proof -
  have "rpc_at (mem \<sigma>) (srv \<sigma>) (cpc \<sigma>) = \<sigma>" by simp
  then show ?thesis using rpc_reach.start by metis
qed

lemma start_srv:
  assumes "rpc_start s \<sigma>"
  obtains sv h0 h1 where "services (mem \<sigma>) s = Some sv" "srv_handlers sv = [Some h0, Some h1]" "server_sem sv = 0"
  using assms unfolding rpc_start_def by blast

lemma typed_sel [simp]:
  "service_cap (typed ty cl) = service_cap cl" "client_sem (typed ty cl) = client_sem cl"
  "client_id (rpc_params (typed ty cl)) = client_id (rpc_params cl)" "req_type (rpc_params (typed ty cl)) = scast ty"
  "rpc_shm_vaddr (rpc_params (typed ty cl)) = rpc_shm_vaddr (rpc_params cl)"
  by (simp_all add: typed_def)

lemma woken_sel [simp]:
  "service_cap (woken n cl) = service_cap cl" "client_sem (woken n cl) = n" "rpc_params (woken n cl) = rpc_params cl"
  by (simp_all add: woken_def)

lemma answered_sel [simp]:
  "service_cap (answered b cl) = service_cap cl" "client_sem (answered b cl) = Suc (client_sem cl)"
  "client_id (rpc_params (answered b cl)) = client_id (rpc_params cl)" "rpc_shm_vaddr (rpc_params (answered b cl)) = block_start b"
  by (simp_all add: answered_def)

text \<open>A whole request that wants a response, up to the point where the server serves it.\<close>

lemma filed:
  assumes "rpc_reach may E s \<sigma>0 (rpc_at m sr cp)" and "spc sr = SWait" and "cp c = CIdle r" and "may (rpc_at m sr cp) c ty"
    and "clients m c = Some cl" and "service_cap cl = s" and "s \<noteq> NULL" and "c \<noteq> NULL" and "ty = 0 \<or> ty = 2"
    and sv: "services m s = Some sv" "server_sem sv = 0" and "rpc_rings s (rpc_links m) [] rsps" and "c \<notin> set rsps"
  obtains L where "rpc_rings s L [] (rsps @ [c])"
    and "rpc_reach may E s \<sigma>0 (rpc_at (m\<lparr>clients := (clients m)(c \<mapsto> typed ty cl), rpc_links := L\<rparr>)
      (sr\<lparr>spc := SServe (rpc_params (typed ty cl))\<rparr>) (cp(c := CWaiting ty)))"
proof -
  obtain L1 where r1: "rpc_rings s L1 ([] @ [c]) rsps" and
    1: "rpc_reach may E s \<sigma>0 (rpc_at (m\<lparr>clients := (clients m)(c \<mapsto> typed ty cl), rpc_links := L1,
        services := (services m)(s \<mapsto> sv\<lparr>server_sem := Suc (server_sem sv)\<rparr>)\<rparr>) sr (cp(c := CWaiting ty)))"
    by (rule submit [OF assms(1,3-8) _ sv(1) assms(12)]) (use assms(9,13) in auto)
  obtain L2 where r2: "rpc_rings s L2 [] rsps" and
    2: "rpc_reach may E s \<sigma>0 (rpc_at (m\<lparr>clients := (clients m)(c \<mapsto> typed ty cl), rpc_links := L2\<rparr>)
      (sr\<lparr>spc := SGot c\<rparr>) (cp(c := CWaiting ty)))"
    by (rule server_takes [OF 1 assms(2), of _ 0 c "[]" rsps])
      (use r1 sv map_upd_triv [where t = "services m" and k = s and x = sv, OF sv(1)] in \<open>auto simp: sem_same [OF sv(2)]\<close>)
  show thesis
    by (rule server_files [OF 2, of c "typed ty cl" "[]" rsps], (use r2 assms(9,13) in auto)[5]) (rule that, auto)
qed

text \<open>
  (C36) A client that asks for a service before it has memory is not answered but stays the first waiter, and the memory of another client can be
  given to it.  Every service with two clients has a run in which the one asks for a service and the other for memory, and
  which ends in a state where the first has returned with the block that the server has entered for the other, the other still
  waits, and no thread can make a step before some client makes a new call.
\<close>

theorem rpc_memory_misdelivered:
  assumes "rpc_start s \<sigma>0" and "rpc_service_handler (Some pm) (Some hm) mal (\<lambda>_. True) = Some (Some (srv \<sigma>0))"
    and "mp_blocks pm = Map.empty" and "mp_fresh pm = 0" and "lh_objs hm = Map.empty" and "env_ok E"
    and "clients (mem \<sigma>0) c = Some cl" and "clients (mem \<sigma>0) d = Some dl" and "c \<noteq> d" and "c \<noteq> NULL" and "d \<noteq> NULL"
  shows "\<exists>\<sigma> v b. rpc_reach (\<lambda>_ _ _. True) E s \<sigma>0 \<sigma> \<and>
    lib_linkhash_get (client_id (rpc_params dl)) (Some (shm_hash (srv \<sigma>))) = Some v \<and>
    mp_blocks (shm_pool (srv \<sigma>)) (addr_blk E v) = Some b \<and> cpc \<sigma> c = CIdle (Some (block_start b)) \<and>
    cpc \<sigma> d = CWaiting (ucast CLIENT_GET_SERVICE) \<and> (\<forall>\<sigma>'. \<not> rpc_step (\<lambda>_ _ _. False) E s \<sigma> \<sigma>')"
proof -
  let ?may = "\<lambda>_ _ _. True" and ?m = "mem \<sigma>0" and ?sr = "srv \<sigma>0" and ?cp = "cpc \<sigma>0"
  note st = rpc_startD [OF assms(1)] and c0 = rpc_startD(4) [OF assms(1,7)] and d0 = rpc_startD(4) [OF assms(1,8)]
  note h = handler_start(1) [OF assms(2-5), where E = E and m = ?m] handler_start(2,3) [OF assms(2-5)]
  obtain sv where sv: "services ?m s = Some sv" "server_sem sv = 0" by (rule start_srv [OF assms(1)])
  let ?p = "rpc_params (typed 0 cl)" and ?q = "rpc_params (typed 2 dl)"
  obtain L1 where r1: "rpc_rings s L1 [] [c]" and
    1: "rpc_reach ?may E s \<sigma>0 (rpc_at (?m\<lparr>clients := (clients ?m)(c \<mapsto> typed 0 cl), rpc_links := L1\<rparr>)
      (?sr\<lparr>spc := SServe ?p\<rparr>) (?cp(c := CWaiting 0)))"
    by (rule filed [where ty = 0, OF reach_self h(3) st(3) TrueI assms(7) _ st(1) assms(10) _ sv st(2)]) (use c0 in auto)
  let ?m1 = "?m\<lparr>clients := (clients ?m)(c \<mapsto> typed 0 cl), rpc_links := L1\<rparr>"
  obtain shm where "lib_linkhash_get (client_id ?p) (Some (shm_hash ?sr)) = Some shm" "shm = NULL"
    by (rule hash_get [OF grant_invD(1) [OF h(1)], of "client_id ?p"]) (simp add: h(2))
  then have "server_step E True s (?m1, ?sr\<lparr>spc := SServe ?p\<rparr>) = Some (?m1, ?sr\<lparr>spc := SWait\<rparr>)"
    by (simp add: server_step_def serve_def)
  then have 2: "rpc_reach ?may E s \<sigma>0 (rpc_at ?m1 (?sr\<lparr>spc := SWait\<rparr>) (?cp(c := CWaiting 0)))"
    using reach_server [OF 1, of ?m1 "?sr\<lparr>spc := SWait\<rparr>"] by (simp add: server_ready_def)
  obtain L3 where r3: "rpc_rings s L3 [] [c, d]" and
    3: "rpc_reach ?may E s \<sigma>0 (rpc_at (?m\<lparr>clients := (clients ?m)(c \<mapsto> typed 0 cl, d \<mapsto> typed 2 dl), rpc_links := L3\<rparr>)
      (?sr\<lparr>spc := SServe ?q\<rparr>) (?cp(c := CWaiting 0, d := CWaiting 2)))"
    by (rule filed [where c = d and r = None and ty = 2 and cl = dl and sv = sv and rsps = "[c]", OF 2])
      (use st assms(8,9,11) sv r1 d0 in auto)
  have gi: "grant_inv E ?m (?sr\<lparr>spc := SServe ?q\<rparr>) (255 # rev [0..<255]) [] 0"
    using grant_inv_srv [OF h(1), of "?sr\<lparr>spc := SServe ?q\<rparr>"] upt_Suc_append [of 0 255] by simp
  obtain L4 sr b where
    4: "rpc_reach ?may E s \<sigma>0 (rpc_at (?m\<lparr>clients := (clients ?m)(c \<mapsto> answered b (typed 0 cl), d \<mapsto> typed 2 dl), rpc_links := L4\<rparr>)
      sr (?cp(c := CWaiting 0, d := CWaiting 2)))"
    and sr: "spc sr = SWait" "lh_ok (shm_hash sr)" "lh_absm (shm_hash sr) (client_id ?q) = [blk_addr E 255]" "mp_blocks (shm_pool sr) 255 = Some b"
    by (rule serve_grants [OF 3 _ _ gi assms(6), of ?q "[]" c "[d]" "typed 0 cl"]) (use r3 h(2) assms(9) in \<open>auto simp: fun_upd_twist\<close>)
  let ?m5 = "?m\<lparr>clients := (clients ?m)(c \<mapsto> woken 0 (answered b (typed 0 cl)), d \<mapsto> typed 2 dl), rpc_links := L4\<rparr>"
  let ?\<sigma> = "rpc_at ?m5 sr (?cp(c := CIdle (Some (block_start b)), d := CWaiting 2))"
  have 5: "rpc_reach ?may E s \<sigma>0 ?\<sigma>"
    using client_returns [OF 4, of c 0 "answered b (typed 0 cl)" 0] assms(9) c0 by (simp add: fun_upd_twist)
  have ad: "addr_blk E (blk_addr E 255) = 255" using assms(6) by (simp add: env_ok_def)
  have "lh_get (client_id ?q) (shm_hash sr) = Some (Some (blk_addr E 255))" using lh.get_abs [OF sr(2)] sr(3) by simp
  then have "lib_linkhash_get (client_id (rpc_params dl)) (Some (shm_hash sr)) = Some (blk_addr E 255)"
    by (auto simp: lh_get_def split: if_splits)
  moreover have "\<not> rpc_step (\<lambda>_ _ _. False) E s ?\<sigma> \<sigma>'" for \<sigma>'
  proof -
    have "\<not> client_ready e ?\<sigma>" for e using d0 assms(9) st(3) by (auto simp: client_ready_def)
    moreover have "\<not> server_ready s ?\<sigma>" using sr(1) sv by (simp add: server_ready_def)
    ultimately show ?thesis by (auto elim!: rpc_step.cases)
  qed
  ultimately show ?thesis
    using 5 sr(4) ad assms(9) by (intro exI [of _ ?\<sigma>] exI [of _ "blk_addr E 255"] exI [of _ b]) simp
qed

text \<open>The first client of a new server asks for memory and gets the last block of the pool.\<close>

lemma first_memory:
  assumes "rpc_start s \<sigma>0" and "rpc_service_handler (Some pm) (Some hm) mal (\<lambda>_. True) = Some (Some (srv \<sigma>0))"
    and "mp_blocks pm = Map.empty" and "mp_fresh pm = 0" and "lh_objs hm = Map.empty" and "env_ok E"
    and "clients (mem \<sigma>0) c = Some cl" and "c \<noteq> NULL" and "\<And>\<sigma>. may \<sigma> c 2"
  obtains L sr b where "rpc_rings s L [] []"
    and "rpc_reach may E s \<sigma>0 (rpc_at ((mem \<sigma>0)\<lparr>clients := (clients (mem \<sigma>0))(c \<mapsto> answered b (typed 2 cl)), rpc_links := L\<rparr>)
      sr ((cpc \<sigma>0)(c := CWaiting 2)))"
    and "spc sr = SWait" "lh_ok (shm_hash sr)" "lh_absm (shm_hash sr) (client_id (rpc_params cl)) = [blk_addr E 255]"
    and "mp_blocks (shm_pool sr) 255 = Some b"
proof -
  let ?m = "mem \<sigma>0" and ?sr = "srv \<sigma>0" and ?q = "rpc_params (typed 2 cl)"
  note st = rpc_startD [OF assms(1)] and c0 = rpc_startD(4) [OF assms(1,7)]
  note h = handler_start(1) [OF assms(2-5), where E = E and m = ?m] handler_start(2,3) [OF assms(2-5)]
  obtain sv where sv: "services ?m s = Some sv" "server_sem sv = 0" by (rule start_srv [OF assms(1)])
  obtain L1 where r1: "rpc_rings s L1 [] [c]" and
    1: "rpc_reach may E s \<sigma>0 (rpc_at (?m\<lparr>clients := (clients ?m)(c \<mapsto> typed 2 cl), rpc_links := L1\<rparr>)
      (?sr\<lparr>spc := SServe ?q\<rparr>) ((cpc \<sigma>0)(c := CWaiting 2)))"
    by (rule filed [where ty = 2 and may = may and c = c, OF reach_self h(3) st(3) assms(9,7) _ st(1) assms(8) _ sv st(2)]) (use c0 in auto)
  have gi: "grant_inv E ?m (?sr\<lparr>spc := SServe ?q\<rparr>) (255 # rev [0..<255]) [] 0"
    using grant_inv_srv [OF h(1), of "?sr\<lparr>spc := SServe ?q\<rparr>"] upt_Suc_append [of 0 255] by simp
  show thesis
    by (rule serve_grants [OF 1 _ _ gi assms(6), of ?q "[]" c "[]" "typed 2 cl"]) (use r1 h(2) in \<open>auto intro: that\<close>)
qed

text \<open>
  A client that obtains memory and sends a request without response is woken before the server copies the parameters of the
  request.
\<close>

lemma woken_early:
  assumes "rpc_start s \<sigma>0" and "rpc_service_handler (Some pm) (Some hm) mal (\<lambda>_. True) = Some (Some (srv \<sigma>0))"
    and "mp_blocks pm = Map.empty" and "mp_fresh pm = 0" and "lh_objs hm = Map.empty" and "env_ok E"
    and "clients (mem \<sigma>0) c = Some cl" and "c \<noteq> NULL" and "\<And>\<sigma> ty. may \<sigma> c ty"
  obtains L bl sr r where "rpc_reach may E s \<sigma>0 (rpc_at ((mem \<sigma>0)\<lparr>clients := (clients (mem \<sigma>0))(c \<mapsto> bl), rpc_links := L\<rparr>)
      (sr\<lparr>spc := SFiled c\<rparr>) ((cpc \<sigma>0)(c := CIdle r)))"
    and "rpc_rings s L [] []" "service_cap bl = s" "req_type (rpc_params bl) = 1" "client_id (rpc_params bl) = client_id (rpc_params cl)"
    and "lh_ok (shm_hash sr)" "lh_absm (shm_hash sr) (client_id (rpc_params cl)) = [blk_addr E 255]"
proof -
  let ?m = "mem \<sigma>0" and ?sr = "srv \<sigma>0" and ?cp = "cpc \<sigma>0"
  note st = rpc_startD [OF assms(1)] and c0 = rpc_startD(4) [OF assms(1,7)]
  obtain sv where sv: "services ?m s = Some sv" "server_sem sv = 0" by (rule start_srv [OF assms(1)])
  obtain L2 sr b where r2: "rpc_rings s L2 [] []" and
    2: "rpc_reach may E s \<sigma>0 (rpc_at (?m\<lparr>clients := (clients ?m)(c \<mapsto> answered b (typed 2 cl)), rpc_links := L2\<rparr>) sr (?cp(c := CWaiting 2)))"
    and sr: "spc sr = SWait" "lh_ok (shm_hash sr)" "lh_absm (shm_hash sr) (client_id (rpc_params cl)) = [blk_addr E 255]"
    by (rule first_memory [OF assms(1-8), of may]) (rule assms(9), blast)
  define al where "al = woken 0 (answered b (typed 2 cl))"
  have al: "service_cap al = s" "client_sem al = 0" "client_id (rpc_params al) = client_id (rpc_params cl)"
    using c0 by (simp_all add: al_def)
  let ?r = "CIdle (Some (rpc_shm_vaddr (rpc_params al)))"
  have 3: "rpc_reach may E s \<sigma>0 (rpc_at (?m\<lparr>clients := (clients ?m)(c \<mapsto> al), rpc_links := L2\<rparr>) sr (?cp(c := ?r)))"
    using client_returns [OF 2, of c 2 "answered b (typed 2 cl)" 0] c0 by (simp add: al_def)
  obtain L4 where r4: "rpc_rings s L4 ([] @ [c]) []" and
    4: "rpc_reach may E s \<sigma>0 (rpc_at (?m\<lparr>clients := (clients ?m)(c \<mapsto> typed 1 al), rpc_links := L4,
        services := (services ?m)(s \<mapsto> sv\<lparr>server_sem := 1\<rparr>)\<rparr>) sr (?cp(c := CWaiting 1)))"
    by (rule submit [where ty = 1 and cl = al and c = c and sv = sv and reqs = "[]" and rsps = "[]", OF 3]) (use st(1) assms(8,9) al sv r2 in auto)
  obtain L where r5: "rpc_rings s L [] []" and
    5: "rpc_reach may E s \<sigma>0 (rpc_at (?m\<lparr>clients := (clients ?m)(c \<mapsto> typed 1 al), rpc_links := L\<rparr>) (sr\<lparr>spc := SGot c\<rparr>) (?cp(c := CWaiting 1)))"
    by (rule server_takes [OF 4 sr(1), of _ 0 c "[]" "[]"])
      (use r4 map_upd_triv [where t = "services ?m" and k = s and x = sv, OF sv(1)] in \<open>auto simp: sem_same [OF sv(2)]\<close>)
  let ?m5 = "\<lambda>cl. ?m\<lparr>clients := (clients ?m)(c \<mapsto> cl), rpc_links := L\<rparr>"
  have "server_step E True s (?m5 (typed 1 al), sr\<lparr>spc := SGot c\<rparr>) = Some (?m5 (woken 1 (typed 1 al)), sr\<lparr>spc := SFiled c\<rparr>)"
    using al(2) by (simp add: server_step_def request_file_def mem_upd_defs woken_def)
  from reach_server [OF 5, of "?m5 (woken 1 (typed 1 al))" "sr\<lparr>spc := SFiled c\<rparr>"] this
  have 6: "rpc_reach may E s \<sigma>0 (rpc_at (?m5 (woken 1 (typed 1 al))) (sr\<lparr>spc := SFiled c\<rparr>) (?cp(c := CWaiting 1)))"
    by (simp add: server_ready_def)
  have 7: "rpc_reach may E s \<sigma>0 (rpc_at (?m5 (woken 0 (woken 1 (typed 1 al)))) (sr\<lparr>spc := SFiled c\<rparr>) (?cp(c := ?r)))"
    using client_returns [OF 6, of c 1 "woken 1 (typed 1 al)" 0] by simp
  show thesis by (rule that [OF 7 r5 _ _ _ sr(2,3)]) (simp_all add: al)
qed

text \<open>
  (C35) The parameters of a request are copied after its client has been woken, which is a race.  Every service with a client has a run to a state
  in which the server has woken the client for a request without response and is about to copy the parameters, while no client waits
  for a response.  From there the server completes the request if it is left alone.  If the client first makes its
  next request, one with response, then the server copies the parameters of this one, takes the head of the empty list of waiters
  for a client, and its behaviour is undefined.
\<close>

theorem rpc_params_race:
  assumes "rpc_start s \<sigma>0" and "rpc_service_handler (Some pm) (Some hm) mal (\<lambda>_. True) = Some (Some (srv \<sigma>0))"
    and "mp_blocks pm = Map.empty" and "mp_fresh pm = 0" and "lh_objs hm = Map.empty" and "env_ok E"
    and "clients (mem \<sigma>0) c = Some cl" and "c \<noteq> NULL"
  shows "\<exists>\<sigma>1 bl r. rpc_reach (\<lambda>_ _ _. True) E s \<sigma>0 \<sigma>1 \<and> spc (srv \<sigma>1) = SFiled c \<and> cpc \<sigma>1 c = CIdle r \<and>
    clients (mem \<sigma>1) c = Some bl \<and> req_type (rpc_params bl) = CLIENT_REQ_SERVICE_WITHOUT_RSP \<and>
    lnext (rpc_links (mem \<sigma>1)) (Rsp_list s) = Rsp_list s \<and>
    (\<exists>ms ms'. server_step E ok s (mem \<sigma>1, srv \<sigma>1) = Some ms \<and> server_step E ok s ms = Some ms') \<and>
    (\<exists>\<sigma>2 m sr p. rpc_client_call c (ucast CLIENT_REQ_SERVICE_WITH_RSP) \<sigma>1 = Some \<sigma>2 \<and> server_step E ok s (mem \<sigma>2, srv \<sigma>2) = Some (m, sr) \<and>
      spc sr = SServe p \<and> req_type p = CLIENT_REQ_SERVICE_WITH_RSP \<and> client_id p = client_id (rpc_params cl) \<and>
      lnext (rpc_links m) (Rsp_list s) = Rsp_list s \<and> server_step E ok s (m, sr) = None)"
proof -
  obtain sv h0 h1 where sv: "services (mem \<sigma>0) s = Some sv" "srv_handlers sv = [Some h0, Some h1]"
    by (rule start_srv [OF assms(1)])
  obtain L bl sr r where reach: "rpc_reach (\<lambda>_ _ _. True) E s \<sigma>0 (rpc_at ((mem \<sigma>0)\<lparr>clients := (clients (mem \<sigma>0))(c \<mapsto> bl), rpc_links := L\<rparr>)
        (sr\<lparr>spc := SFiled c\<rparr>) ((cpc \<sigma>0)(c := CIdle r)))" (is "rpc_reach _ _ _ _ ?\<sigma>")
      and rings: "rpc_rings s L [] []" and bl: "service_cap bl = s" "req_type (rpc_params bl) = 1" "client_id (rpc_params bl) = client_id (rpc_params cl)"
      and sr: "lh_ok (shm_hash sr)" "lh_absm (shm_hash sr) (client_id (rpc_params cl)) = [blk_addr E 255]"
    by (rule woken_early [OF assms(1-8)]) (rule TrueI)
  obtain v where v: "lib_linkhash_get (client_id (rpc_params cl)) (Some (shm_hash sr)) = Some v" "v \<noteq> NULL"
    by (rule hash_get [OF sr(1), of "client_id (rpc_params cl)"]) (use sr(2) in auto)
  let ?m = "\<lambda>cl. (mem \<sigma>0)\<lparr>clients := (clients (mem \<sigma>0))(c \<mapsto> cl), rpc_links := L\<rparr>"
  let ?\<sigma>2 = "rpc_at (?m (typed 0 bl)) (sr\<lparr>spc := SFiled c\<rparr>) ((cpc \<sigma>0)(c := CPacked 0))"
  have "\<exists>ms ms'. server_step E ok s (mem ?\<sigma>, srv ?\<sigma>) = Some ms \<and> server_step E ok s ms = Some ms'"
    using v sv bl by (simp add: server_step_def serve_def call_handler_def)
  moreover have "rpc_client_call c (ucast CLIENT_REQ_SERVICE_WITH_RSP) ?\<sigma> = Some ?\<sigma>2"
    using bl(1) rpc_startD(1) [OF assms(1)] assms(8) by (simp add: rpc_client_call_def request_checks_def rpc_get_capobj_bycptr_def
        rpc_client_package_params_def mem_upd_defs typed_def)
  moreover have "server_step E ok s (mem ?\<sigma>2, srv ?\<sigma>2) = Some (?m (typed 0 bl), sr\<lparr>spc := SServe (rpc_params (typed 0 bl))\<rparr>)"
    by (simp add: server_step_def)
  moreover have "server_step E ok s (?m (typed 0 bl), sr\<lparr>spc := SServe (rpc_params (typed 0 bl))\<rparr>) = None"
    using rpc_rings_ends(2) [OF rings] v sv bl
    by (simp add: server_step_def serve_def call_handler_def awake_def rpc_service_awake_waiter_def first_waiter_def)
  ultimately show ?thesis
    using reach bl rpc_rings_ends(2) [OF rings] by (intro exI [of _ ?\<sigma>] exI [of _ bl] exI [of _ r] conjI exI [of _ ?\<sigma>2]) auto
qed

section \<open>A concrete service\<close>

definition rpc_env_ex :: rpc_env where
  "rpc_env_ex = \<lparr>blk_addr = (\<lambda>n. of_nat (Suc n)), addr_blk = (\<lambda>p. unat p - 1)\<rparr>"

lemma rpc_env_ex_ok: "env_ok rpc_env_ex"
proof -
  have "unat (of_nat (Suc a) :: u64) = Suc a" if "a < 256" for a using that by (simp add: unat_of_nat del: of_nat_Suc)
  then show ?thesis by (auto simp: env_ok_def rpc_env_ex_def word_unat_eq_iff unat_minus_1_u64 simp del: of_nat_Suc)
qed

definition rpc_sys_ex :: "rpc_server \<Rightarrow> rpc_sys" where
  "rpc_sys_ex sr = \<lparr>mem = rpc_mem_ex, srv = sr, cpc = (\<lambda>_. CIdle None)\<rparr>"

definition rpc_client_ex :: "u64 \<Rightarrow> rpc_client" where
  "rpc_client_ex tid = \<lparr>service_cap = 256, client_sem = 0,
     rpc_params = \<lparr>client_id = tid, req_type = 0, rpc_shm_vaddr = 0, rpc_param = 0\<rparr>\<rparr>"

lemma rpc_ex_start: "rpc_start 256 (rpc_sys_ex sr)"
proof -
  have "rpc_rings 256 (rpc_links rpc_mem_ex) [] []"
    by (simp add: rpc_rings_def rings_def ring_def rpc_mem_ex_def mk_rpc_service_cap_def rpc_client_init_def INIT_LIST_HEAD_def Let_def)
  then show ?thesis
    by (auto simp: rpc_start_def rpc_sys_ex_def rpc_mem_ex_def mk_rpc_service_cap_def rpc_client_init_def rpc_default_handlers_def
        Let_def inj_on_def split: if_splits)
qed

lemma rpc_ex_clients: "clients (mem (rpc_sys_ex sr)) 512 = Some (rpc_client_ex 11)" "clients (mem (rpc_sys_ex sr)) 768 = Some (rpc_client_ex 12)"
  by (simp_all add: rpc_sys_ex_def rpc_mem_ex_def mk_rpc_service_cap_def rpc_client_init_def rpc_client_ex_def Let_def)

lemma rpc_ex_server:
  obtains sr where "rpc_service_handler (Some mp_mem) (Some lib_hash_mem) (\<lambda>i _. of_nat i) (\<lambda>_. True) = Some (Some (srv (rpc_sys_ex sr)))"
proof -
  obtain pool where pool: "mempool_create (Some mp_mem) 4096 256 (Some (\<lambda>i. rpc_shm_block_alloc (\<lambda>_. of_nat i))) (\<lambda>_. True) = Some (Some pool)"
    by (rule create_spec [of 4096 256 "\<lambda>_. True" mp_mem "\<lambda>i. rpc_shm_block_alloc (\<lambda>_. of_nat i)"]) (auto simp: mp_mem_def)
  obtain t where "lib_linkhash_create (Some lib_hash_mem) 128 = Some t" by (simp add: lib_linkhash_create_def)
  then show thesis using pool by (intro that [of "\<lparr>shm_pool = pool, shm_hash = t, spc = SWait, calls = []\<rparr>"])
    (simp add: rpc_service_handler_def rpc_sys_ex_def)
qed

lemmas rpc_ex = rpc_ex_start rpc_ex_clients rpc_env_ex_ok

lemma rpc_ex_mem: "mp_blocks mp_mem = Map.empty" "mp_fresh mp_mem = 0" "lh_objs lib_hash_mem = Map.empty"
  by (simp_all add: mp_mem_def lib_hash_mem_def)

theorem rpc_params_race_witness:
  "\<exists>sr \<sigma>1 bl. rpc_reach (\<lambda>_ _ _. True) rpc_env_ex 256 (rpc_sys_ex sr) \<sigma>1 \<and> spc (srv \<sigma>1) = SFiled 512 \<and>
     clients (mem \<sigma>1) 512 = Some bl \<and> req_type (rpc_params bl) = CLIENT_REQ_SERVICE_WITHOUT_RSP \<and>
     (\<exists>ms ms'. server_step rpc_env_ex True 256 (mem \<sigma>1, srv \<sigma>1) = Some ms \<and> server_step rpc_env_ex True 256 ms = Some ms') \<and>
     (\<exists>\<sigma>2 m sr'. rpc_client_call 512 (ucast CLIENT_REQ_SERVICE_WITH_RSP) \<sigma>1 = Some \<sigma>2 \<and>
       server_step rpc_env_ex True 256 (mem \<sigma>2, srv \<sigma>2) = Some (m, sr') \<and> server_step rpc_env_ex True 256 (m, sr') = None)"
proof -
  obtain sr where sr: "rpc_service_handler (Some mp_mem) (Some lib_hash_mem) (\<lambda>i _. of_nat i) (\<lambda>_. True) = Some (Some (srv (rpc_sys_ex sr)))"
    by (rule rpc_ex_server)
  have "(512 :: u64) \<noteq> NULL" by simp
  from rpc_params_race [OF rpc_ex_start sr rpc_ex_mem rpc_env_ex_ok rpc_ex_clients(1) this, of True] show ?thesis by metis
qed

theorem rpc_memory_misdelivered_witness:
  "\<exists>sr \<sigma> v b. rpc_reach (\<lambda>_ _ _. True) rpc_env_ex 256 (rpc_sys_ex sr) \<sigma> \<and>
     lib_linkhash_get 12 (Some (shm_hash (srv \<sigma>))) = Some v \<and> mp_blocks (shm_pool (srv \<sigma>)) (addr_blk rpc_env_ex v) = Some b \<and>
     cpc \<sigma> 512 = CIdle (Some (block_start b)) \<and> cpc \<sigma> 768 = CWaiting 2"
proof -
  obtain sr where sr: "rpc_service_handler (Some mp_mem) (Some lib_hash_mem) (\<lambda>i _. of_nat i) (\<lambda>_. True) = Some (Some (srv (rpc_sys_ex sr)))"
    by (rule rpc_ex_server)
  have id: "client_id (rpc_params (rpc_client_ex 12)) = 12" by (simp add: rpc_client_ex_def)
  from rpc_memory_misdelivered [OF rpc_ex_start sr rpc_ex_mem rpc_env_ex_ok rpc_ex_clients] obtain \<sigma> v b where
    "rpc_reach (\<lambda>_ _ _. True) rpc_env_ex 256 (rpc_sys_ex sr) \<sigma>"
    "lib_linkhash_get (client_id (rpc_params (rpc_client_ex 12))) (Some (shm_hash (srv \<sigma>))) = Some v"
    "mp_blocks (shm_pool (srv \<sigma>)) (addr_blk rpc_env_ex v) = Some b" "cpc \<sigma> 512 = CIdle (Some (block_start b))" "cpc \<sigma> 768 = CWaiting 2"
    by auto
  then show ?thesis unfolding id by blast
qed

text \<open>In the concrete service the client of thread 11 asks for memory.\<close>

lemma rpc_ex_run:
  obtains sr \<sigma> cl where "rpc_service_handler (Some mp_mem) (Some lib_hash_mem) (\<lambda>i _. of_nat i) (\<lambda>_. True) = Some (Some (srv (rpc_sys_ex sr)))"
    and "rpc_reach polite rpc_env_ex 256 (rpc_sys_ex sr) \<sigma>" and "cpc \<sigma> 512 = CWaiting 2" and "clients (mem \<sigma>) 512 = Some cl"
    and "lib_linkhash_get (client_id (rpc_params cl)) (Some (shm_hash (srv \<sigma>))) = Some 256"
proof -
  obtain sr where sr: "rpc_service_handler (Some mp_mem) (Some lib_hash_mem) (\<lambda>i _. of_nat i) (\<lambda>_. True) = Some (Some (srv (rpc_sys_ex sr)))"
    by (rule rpc_ex_server)
  let ?\<sigma> = "rpc_sys_ex sr" and ?cl = "rpc_client_ex 11"
  have may: "polite \<sigma> 512 2" for \<sigma> by (simp add: polite_def)
  obtain L sr' b where r: "rpc_reach polite rpc_env_ex 256 ?\<sigma> (rpc_at ((mem ?\<sigma>)\<lparr>clients := (clients (mem ?\<sigma>))(512 \<mapsto> answered b (typed 2 ?cl)), rpc_links := L\<rparr>)
      sr' ((cpc ?\<sigma>)(512 := CWaiting 2)))"
    and ok: "lh_ok (shm_hash sr')" "lh_absm (shm_hash sr') (client_id (rpc_params ?cl)) = [blk_addr rpc_env_ex 255]"
    by (rule first_memory [where may = polite, OF rpc_ex_start sr rpc_ex_mem rpc_env_ex_ok rpc_ex_clients(1) _ may]) auto
  show thesis
    by (rule that [OF sr r, of "answered b (typed 2 ?cl)"]) (use hash_get_abs [OF ok(1), of "client_id (rpc_params ?cl)"] ok(2) in \<open>auto simp: rpc_env_ex_def\<close>)
qed

theorem rpc_memory_isolated_witness:
  "\<exists>sr \<sigma> cl b. rpc_reach polite rpc_env_ex 256 (rpc_sys_ex sr) \<sigma> \<and> clients (mem \<sigma>) 512 = Some cl \<and>
     mp_blocks (shm_pool (srv \<sigma>)) 255 = Some b \<and> rpc_shm_vaddr (rpc_params cl) = block_start b"
proof -
  obtain sr \<sigma> cl where r: "rpc_service_handler (Some mp_mem) (Some lib_hash_mem) (\<lambda>i _. of_nat i) (\<lambda>_. True) = Some (Some (srv (rpc_sys_ex sr)))"
      "rpc_reach polite rpc_env_ex 256 (rpc_sys_ex sr) \<sigma>" "clients (mem \<sigma>) 512 = Some cl"
      "lib_linkhash_get (client_id (rpc_params cl)) (Some (shm_hash (srv \<sigma>))) = Some 256"
    by (rule rpc_ex_run)
  have ad: "addr_blk rpc_env_ex 256 = 255" "(256 :: u64) \<noteq> NULL" by (simp_all add: rpc_env_ex_def)
  from rpc_memory_isolated [OF rpc_ex_start r(1) rpc_ex_mem rpc_env_ex_ok r(2), of True] r(3,4) ad(2)
  obtain b where "mp_blocks (shm_pool (srv \<sigma>)) (addr_blk rpc_env_ex 256) = Some b" "rpc_shm_vaddr (rpc_params cl) = block_start b" by meson
  then show ?thesis using r(2,3) ad(1) by auto
qed

theorem rpc_no_lost_wakeup_witness:
  "\<exists>sr \<sigma>. rpc_reach polite rpc_env_ex 256 (rpc_sys_ex sr) \<sigma> \<and> cpc \<sigma> 512 = CWaiting 2 \<and>
     (client_ready 512 \<sigma> \<or> server_ready 256 \<sigma> \<or> (\<exists>d t. cpc \<sigma> d = CQueued t))"
proof -
  obtain sr \<sigma> where r: "rpc_service_handler (Some mp_mem) (Some lib_hash_mem) (\<lambda>i _. of_nat i) (\<lambda>_. True) = Some (Some (srv (rpc_sys_ex sr)))"
      "rpc_reach polite rpc_env_ex 256 (rpc_sys_ex sr) \<sigma>" "cpc \<sigma> 512 = CWaiting 2"
    by (rule rpc_ex_run)
  from rpc_no_lost_wakeup [OF rpc_ex_start r(1) rpc_ex_mem rpc_env_ex_ok r(2,3)] r(2,3) show ?thesis by blast
qed

end
