(* ===== verification/Ipc_Shm.thy ===== *)
theory Ipc_Shm
  imports Interfaces
begin

text \<open>
  \<open>ipc_test/ipc_test.h\<close> and \<open>ipc_test/dep.h\<close>: messages through shared memory.  The shared memory
  starts with a header of 512 bytes; behind it lie the buffers.  The free buffers form a singly
  linked list of indices in the header.  A message takes the first buffers of this list and is known by
  a tag with the index of its first buffer and its length; the receiver copies the buffers out
  and puts them back.

  The calls are modelled as the functions they are; the spin lock guards only the two
  list operations.  The array \<open>ipcinfo\<close> has 252 entries; an access behind it, an access behind the
  shared memory and a division by zero are undefined behaviour (\<open>None\<close>).
\<close>

section \<open>Tags\<close>

definition msgtag_get_extra :: "u32 \<Rightarrow> u8" where
  "msgtag_get_extra tag = ucast (drop_bit 24 tag AND 0xff)"

definition msgtag_get_len :: "u64 \<Rightarrow> u64" where
  "msgtag_get_len tag = drop_bit 16 tag AND 0xff"

text \<open>The operands are promoted to \<open>int\<close>, whose sign is extended to 64 bits; the shift into the sign bit is the one of two's complement.\<close>

definition msgtag_make :: "u8 \<Rightarrow> u16 \<Rightarrow> u8 \<Rightarrow> u64" where
  "msgtag_make len id_op extra =
     scast ((push_bit 24 (ucast extra) OR push_bit 16 (ucast len) OR ucast id_op) :: u32)"

section \<open>Shared memory and the list of free buffers\<close>

abbreviation (input) IPC_MAX_MSGCOUNT :: nat where "IPC_MAX_MSGCOUNT \<equiv> 252"
abbreviation (input) IPC_SHM_HEADER_BYTES :: nat where "IPC_SHM_HEADER_BYTES \<equiv> 512"
abbreviation (input) IPC_MAX_MSGBYTES :: nat where "IPC_MAX_MSGBYTES \<equiv> 2040"

text \<open>\<open>que_len\<close> is the number of bytes behind the header.\<close>

record ep_ipc_que =
  slist :: u8
  slist_len :: u8
  userbufsize :: u16
  next_buf_idx :: "nat \<Rightarrow> u8"
  msg_count :: "nat \<Rightarrow> u8"
  que :: "nat \<Rightarrow> u8"
  que_len :: nat

definition seq_in_static_list :: "nat \<Rightarrow> nat \<Rightarrow> nat \<Rightarrow> ep_ipc_que \<Rightarrow> ep_ipc_que option" where
  "seq_in_static_list start end_idx bufcount h =
     (if bufcount = 0 then Some h
      else if end_idx \<ge> IPC_MAX_MSGCOUNT then None
      else let h = h\<lparr>next_buf_idx := (next_buf_idx h)(end_idx := slist h)\<rparr>;
               h = h\<lparr>slist := of_nat start\<rparr>
           in Some (h\<lparr>slist_len := slist_len h + of_nat bufcount\<rparr>))"

fun seq_skip :: "(nat \<Rightarrow> u8) \<Rightarrow> nat \<Rightarrow> nat \<Rightarrow> nat option" where
  "seq_skip nx 0 first = Some first"
| "seq_skip nx (Suc k) first = (if first \<ge> IPC_MAX_MSGCOUNT then None else seq_skip nx k (unat (nx first)))"

definition seq_out_static_list :: "nat \<Rightarrow> ep_ipc_que \<Rightarrow> (ep_ipc_que \<times> nat) option" where
  "seq_out_static_list bufcount h = do {
     let next = unat (slist h);
     first \<leftarrow> seq_skip (next_buf_idx h) bufcount next;
     Some (h\<lparr>slist_len := slist_len h - of_nat bufcount, slist := of_nat first\<rparr>, next)
   }"

definition calculate_ipcbuf_count :: "u64 \<Rightarrow> u64 \<Rightarrow> u64 option" where
  "calculate_ipcbuf_count pages bufsize =
     (if bufsize = 0 then None else Some ((push_bit 12 pages - 512) div bufsize))"

text \<open>
  With no buffer the bound of the loop is the largest number, and with more than 252 the loop or the
  last assignment leaves the array.
\<close>

definition init_ep_ipc_que_header :: "ep_ipc_que \<Rightarrow> u64 \<Rightarrow> u64 \<Rightarrow> (ep_ipc_que \<times> u64) option" where
  "init_ep_ipc_que_header h pages bufsize = do {
     bufcount \<leftarrow> calculate_ipcbuf_count pages bufsize;
     if unat (bufcount - 1) \<ge> IPC_MAX_MSGCOUNT then None
     else do {
       let h = h\<lparr>next_buf_idx := fold (\<lambda>i nx. nx(i := of_nat (i + 1))) [0..<unat (bufcount - 1)] (next_buf_idx h)\<rparr>;
       let h = h\<lparr>slist := 0\<rparr>;
       let h = h\<lparr>next_buf_idx := (next_buf_idx h)(unat (bufcount - 1) := - 1)\<rparr>;
       let h = h\<lparr>slist_len := ucast bufcount, userbufsize := ucast bufsize\<rparr>;
       Some (h, bufcount)
     }
   }"

definition init_ep_ipc_que :: "ep_ipc_que \<Rightarrow> u64 \<Rightarrow> u64 \<Rightarrow> (ep_ipc_que \<times> u64) option" where
  "init_ep_ipc_que h pages bufsize = init_ep_ipc_que_header h pages bufsize"

section \<open>Sending and receiving\<close>

text \<open>The copy into \<open>k\<close> buffers from \<open>start\<close> on; \<open>bs\<close> is what is left of the message.\<close>

fun send_copy :: "nat \<Rightarrow> nat \<Rightarrow> u8 list \<Rightarrow> ep_ipc_que \<Rightarrow> ep_ipc_que option" where
  "send_copy 0 start bs h = Some h"
| "send_copy (Suc k) start bs h =
     (let bufsize = unat (userbufsize h); seg = take bufsize bs in
      if bufsize * start + length seg > que_len h \<or> start \<ge> IPC_MAX_MSGCOUNT then None
      else send_copy k (unat (next_buf_idx h start)) (drop bufsize bs) (h\<lparr>que := setb (que h) (bufsize * start) seg\<rparr>))"

text \<open>\<open>- 1\<close> is \<open>-EIPCOUTIPCBUF\<close>.\<close>

definition ipc_shm_send_data :: "u8 list \<Rightarrow> ep_ipc_que \<Rightarrow> (ep_ipc_que \<times> u32) option" where
  "ipc_shm_send_data bs h =
     (let bufsize = unat (userbufsize h); sz = length bs; len = (sz + 8 - 1) div 8 in
      if bufsize = 0 then None
      else let bufcount = (sz + bufsize - 1) div bufsize in
        if bufcount > unat (slist_len h) then Some (h, - 1)
        else do {
          (h, start) \<leftarrow> seq_out_static_list bufcount h;
          let tag = (ucast (msgtag_make (of_nat len) 0 (of_nat start)) :: u32);
          if start \<ge> IPC_MAX_MSGCOUNT then None
          else do {
            let h = h\<lparr>msg_count := (msg_count h)(start := of_nat bufcount)\<rparr>;
            h \<leftarrow> send_copy bufcount start bs h;
            Some (h, tag)
          }
        })"

text \<open>
  The copy out of \<open>k\<close> buffers from \<open>nxt\<close> on to the receiver's memory \<open>dst\<close> from \<open>off\<close> on, with
  the last buffer; \<open>tmpsize\<close> is unsigned.
\<close>

definition mem_write :: "u8 list \<Rightarrow> nat \<Rightarrow> u8 list \<Rightarrow> u8 list" where
  "mem_write dst off bs = take off dst @ bs @ drop (off + length bs) dst"

fun recv_copy :: "nat \<Rightarrow> nat \<Rightarrow> nat \<Rightarrow> u64 \<Rightarrow> nat \<Rightarrow> u8 list \<Rightarrow> ep_ipc_que \<Rightarrow> (u8 list \<times> nat) option" where
  "recv_copy 0 nxt end_idx tmpsize off dst h = Some (dst, end_idx)"
| "recv_copy (Suc k) nxt end_idx tmpsize off dst h =
     (let bufsize = unat (userbufsize h); n = (if tmpsize > of_nat bufsize then bufsize else unat tmpsize) in
      if bufsize * nxt + n > que_len h \<or> nxt \<ge> IPC_MAX_MSGCOUNT \<or> off + n > length dst then None
      else recv_copy k (unat (next_buf_idx h nxt)) nxt (tmpsize - of_nat bufsize) (off + bufsize)
             (mem_write dst off (map (\<lambda>i. que h (bufsize * nxt + i)) [0..<n])) h)"

text \<open>\<open>dst\<close> is the memory behind the receiver's pointer; \<open>maxsize\<close> is not looked at.\<close>

definition ipc_shm_recv_data :: "u8 list \<Rightarrow> u32 \<Rightarrow> u64 \<Rightarrow> ep_ipc_que \<Rightarrow> (ep_ipc_que \<times> u8 list \<times> u32) option" where
  "ipc_shm_recv_data dst tag maxsize h =
     (let start = unat (msgtag_get_extra tag) in
      if start \<ge> IPC_MAX_MSGCOUNT then None
      else let bufcount = unat (msg_count h start); sz = msgtag_get_len (ucast tag) * 8 in
        do {
          (dst, end_idx) \<leftarrow> recv_copy bufcount start start sz 0 dst h;
          h \<leftarrow> seq_in_static_list start end_idx bufcount h;
          Some (h, dst, ucast sz)
        })"

text \<open>The endpoint: the shared memory and the tags \<open>g_tag\<close>, of which the argument \<open>block\<close> selects one.\<close>

record ipc_ep =
  shm :: ep_ipc_que
  g_tag :: "nat \<Rightarrow> u32"

definition get_tag :: "u32 \<Rightarrow> ipc_ep \<Rightarrow> u32 option" where
  "get_tag idx ep = (if unat idx < IPC_MAX_MSGCOUNT then Some (g_tag ep (unat idx)) else None)"

definition set_tag :: "u32 \<Rightarrow> u32 \<Rightarrow> ipc_ep \<Rightarrow> (ipc_ep \<times> u32) option" where
  "set_tag tag idx ep =
     (if unat idx < IPC_MAX_MSGCOUNT then Some (ep\<lparr>g_tag := (g_tag ep)(unat idx := tag)\<rparr>, tag) else None)"

text \<open>A null pointer is \<open>None\<close>; \<open>block\<close> is a signed character.\<close>

definition ipc_shm_send :: "u8 list option \<Rightarrow> u8 \<Rightarrow> ipc_ep option \<Rightarrow> (ipc_ep option \<times> u32) option" where
  "ipc_shm_send buf block shmaddr =
     (case (shmaddr, buf) of
        (Some ep, Some bs) \<Rightarrow>
          if length bs > IPC_MAX_MSGBYTES then Some (Some ep, - 1)
          else do {
            (h, tag) \<leftarrow> ipc_shm_send_data bs (shm ep);
            let ep = ep\<lparr>shm := h\<rparr>;
            if tag = - 1 then Some (Some ep, tag)
            else do { (ep, r) \<leftarrow> set_tag tag (scast block) ep; Some (Some ep, r) }
          }
      | _ \<Rightarrow> Some (shmaddr, - 1))"

definition ipc_shm_recv :: "u8 list option \<Rightarrow> u64 \<Rightarrow> u8 \<Rightarrow> ipc_ep option \<Rightarrow> (ipc_ep option \<times> u8 list option \<times> u32) option" where
  "ipc_shm_recv buf maxsize block shmaddr =
     (case (shmaddr, buf) of
        (Some ep, Some dst) \<Rightarrow> do {
          tag \<leftarrow> get_tag (scast block) ep;
          if tag = - 1 then Some (Some ep, buf, tag)
          else do {
            (h, dst, r) \<leftarrow> ipc_shm_recv_data dst tag maxsize (shm ep);
            Some (Some (ep\<lparr>shm := h\<rparr>), Some dst, r)
          }
        }
      | _ \<Rightarrow> Some (shmaddr, buf, - 1))"

section \<open>Round trip of the tags\<close>

lemma tag_u32: "(ucast (msgtag_make l op e) :: u32) = push_bit 24 (ucast e) OR push_bit 16 (ucast l) OR ucast op"
  unfolding msgtag_make_def by (rule bit_word_eqI) (auto simp: bit_simps)

lemma mask_255: "(255 :: 'a::len word) = mask 8"
  by (simp add: mask_eq_exp_minus_1)

lemma tag_roundtrip:
  "msgtag_get_extra (ucast (msgtag_make l op e)) = e"
  "msgtag_get_len (ucast (ucast (msgtag_make l op e) :: u32)) = ucast l"
proof -
  have hi: "\<not> bit l (8 + n)" "\<not> bit op (24 + n)" "\<not> bit op (16 + n)" for n
    by (auto dest: bit_imp_le_length)
  show "msgtag_get_extra (ucast (msgtag_make l op e)) = e"
    unfolding msgtag_get_extra_def tag_u32 mask_255 by (rule bit_word_eqI) (auto simp: bit_simps hi)
  show "msgtag_get_len (ucast (ucast (msgtag_make l op e) :: u32)) = ucast l"
    unfolding msgtag_get_len_def tag_u32 mask_255
    by (rule bit_word_eqI) (auto simp: bit_simps hi dest: bit_imp_le_length)
qed

lemma tag_not_error: "(ucast (msgtag_make l 0 e) :: u32) \<noteq> - 1"
proof -
  have "\<not> bit (ucast (msgtag_make l 0 e) :: u32) 0" unfolding tag_u32 by (simp add: bit_simps)
  moreover have "bit (- 1 :: u32) 0" by simp
  ultimately show ?thesis by metis
qed

section \<open>Chains of buffers\<close>

fun bpath :: "(nat \<Rightarrow> u8) \<Rightarrow> nat \<Rightarrow> nat list \<Rightarrow> bool" where
  "bpath nx i [] = True"
| "bpath nx i (x # xs) = (i = x \<and> x < 252 \<and> bpath nx (unat (nx x)) xs)"

definition bend :: "(nat \<Rightarrow> u8) \<Rightarrow> nat \<Rightarrow> nat list \<Rightarrow> nat" where
  "bend nx i xs = (if xs = [] then i else unat (nx (last xs)))"

lemma bpath_append: "bpath nx i (xs @ ys) \<longleftrightarrow> bpath nx i xs \<and> bpath nx (bend nx i xs) ys"
  by (induction xs arbitrary: i) (auto simp: bend_def)

lemma bpath_skip: "bpath nx i xs \<Longrightarrow> seq_skip nx (length xs) i = Some (bend nx i xs)"
  by (induction xs arbitrary: i) (auto simp: bend_def)

lemma bpath_cong: "(\<And>x. x \<in> set (butlast xs) \<Longrightarrow> nx' x = nx x) \<Longrightarrow> bpath nx' i xs = bpath nx i xs"
proof (induction xs arbitrary: i)
  case (Cons a xs)
  then show ?case by (cases "xs = []") auto
qed simp

lemma bpath_hd: "bpath nx i xs \<Longrightarrow> xs \<noteq> [] \<Longrightarrow> i = hd xs"
  by (cases xs) auto

lemma bpath_join:
  assumes "bpath nx i xs" and "xs \<noteq> []" and "distinct xs" and "bpath nx (unat v) ys" and "last xs \<notin> set ys"
  shows "bpath (nx(last xs := v)) i (xs @ ys)"
proof -
  have "last xs \<notin> set (butlast xs)" using assms(2,3) by (metis append_butlast_last_id distinct_append disjoint_insert(1) list.simps(15))
  then have "bpath (nx(last xs := v)) i xs" using assms(1) by (subst bpath_cong [of _ _ nx]) auto
  moreover have "bpath (nx(last xs := v)) (unat v) ys"
    using assms(4,5) by (subst bpath_cong [of _ _ nx]) (auto dest: in_set_butlastD)
  ultimately show ?thesis using assms(2) by (simp add: bpath_append bend_def)
qed

text \<open>The buffers \<open>cs\<close> of \<open>bz\<close> bytes hold the message \<open>bs\<close>.\<close>

fun stored :: "(nat \<Rightarrow> u8) \<Rightarrow> nat \<Rightarrow> nat list \<Rightarrow> u8 list \<Rightarrow> bool" where
  "stored q bz [] bs \<longleftrightarrow> bs = []"
| "stored q bz (c # cs) bs \<longleftrightarrow> (\<forall>j < length (take bz bs). q (bz * c + j) = bs ! j) \<and> stored q bz cs (drop bz bs)"

lemma stored_cong:
  assumes "\<And>x. x div bz \<in> set cs \<Longrightarrow> q' x = q x"
  shows "stored q' bz cs bs = stored q bz cs bs"
  using assms
proof (induction cs arbitrary: bs)
  case (Cons c cs)
  have "q' (bz * c + j) = q (bz * c + j)" if "j < bz" for j using Cons.prems [of "bz * c + j"] that by simp
  then show ?case using Cons.IH [of "drop bz bs"] Cons.prems by simp
qed simp

lemma send_copy_spec:
  assumes "bpath (next_buf_idx h) i cs" and "distinct cs" and "\<forall>c \<in> set cs. bz * Suc c \<le> que_len h"
    and "unat (userbufsize h) = bz" and "0 < bz" and "length bs \<le> bz * length cs"
  shows "\<exists>q. send_copy (length cs) i bs h = Some (h\<lparr>que := q\<rparr>) \<and> stored q bz cs bs \<and>
    (\<forall>x. x div bz \<notin> set cs \<longrightarrow> q x = que h x)"
  using assms
proof (induction cs arbitrary: i bs h)
  case Nil
  then show ?case by (intro exI [of _ "que h"]) simp
next
  case (Cons c cs)
  let ?h = "h\<lparr>que := setb (que h) (bz * c) (take bz bs)\<rparr>"
  have "\<exists>q. send_copy (length cs) (unat (next_buf_idx ?h c)) (drop bz bs) ?h = Some (?h\<lparr>que := q\<rparr>) \<and>
      stored q bz cs (drop bz bs) \<and> (\<forall>x. x div bz \<notin> set cs \<longrightarrow> q x = que ?h x)"
    by (rule Cons.IH) (use Cons.prems in auto)
  then obtain q where q: "send_copy (length cs) (unat (next_buf_idx h c)) (drop bz bs) ?h = Some (h\<lparr>que := q\<rparr>)"
      "stored q bz cs (drop bz bs)" "\<And>x. x div bz \<notin> set cs \<Longrightarrow> q x = setb (que h) (bz * c) (take bz bs) x" by auto
  have "bz * Suc c \<le> que_len h" using Cons.prems(3) by simp
  then have "bz * c + min (length bs) bz \<le> que_len h" using min.cobounded2 [of "length bs" bz] by simp
  then have "send_copy (length (c # cs)) i bs h = Some (h\<lparr>que := q\<rparr>)"
    using Cons.prems(1,4) q(1) by (simp add: Let_def not_less)
  moreover have "q (bz * c + j) = bs ! j" if "j < length (take bz bs)" for j
    using q(3) [of "bz * c + j"] Cons.prems(2) that by (simp add: setb_def)
  moreover have "q x = que h x" if "x div bz \<notin> set (c # cs)" for x
  proof -
    have "\<not> (bz * c \<le> x \<and> x < bz * c + bz)"
    proof
      assume x: "bz * c \<le> x \<and> x < bz * c + bz"
      then have "x div bz = c" using Cons.prems(5) by (intro div_nat_eqI) (auto simp: mult.commute)
      then show False using that by simp
    qed
    then show ?thesis using q(3) [of x] that by (auto simp: setb_def)
  qed
  ultimately show ?case using q(2) by auto
qed

lemma mem_write_length: "off + length bs \<le> length dst \<Longrightarrow> length (mem_write dst off bs) = length dst"
  by (simp add: mem_write_def)

lemma mem_write_append:
  "off + length xs \<le> length dst \<Longrightarrow> mem_write (mem_write dst off xs) (off + length xs) ys = mem_write dst off (xs @ ys)"
  by (simp add: mem_write_def add.commute add.left_commute)

lemma recv_copy_spec:
  assumes "bpath (next_buf_idx h) i cs" and "cs \<noteq> []" and "\<forall>c \<in> set cs. bz * Suc c \<le> que_len h"
    and "unat (userbufsize h) = bz" and "0 < bz" and "stored (que h) bz cs bs"
    and "bz * (length cs - 1) < length bs" and "length bs \<le> T" and "T < 2 ^ 32"
  shows "\<exists>xs. recv_copy (length cs) i e (of_nat T) off dst h =
      (if off + length xs > length dst then None else Some (mem_write dst off xs, last cs)) \<and>
    prefix bs xs \<and> length xs = min T (bz * length cs)"
  using assms
proof (induction cs arbitrary: i bs T e off dst)
  case (Cons c cs)
  have "unat (userbufsize h) < 2 ^ LENGTH(16)" by (rule unsigned_less)
  then have bz: "bz < 2 ^ 16" using Cons.prems(4) by simp
  have T: "(of_nat T :: u64) > of_nat bz \<longleftrightarrow> T > bz" "unat (of_nat T :: u64) = T"
    using Cons.prems(9) bz by (simp_all add: word_less_nat_alt unat_of_nat)
  let ?n = "if T > bz then bz else T"
  have n: "?n \<le> bz" by simp
  have "bz * Suc c \<le> que_len h" using Cons.prems(3) by simp
  then have fit: "\<not> bz * c + ?n > que_len h" using n by (simp split: if_splits)
  let ?seg = "map (\<lambda>j. que h (bz * c + j)) [0..<?n]"
  have run: "recv_copy (length (c # cs)) i e (of_nat T) off dst h = (if off + ?n > length dst then None
      else recv_copy (length cs) (unat (next_buf_idx h c)) c (of_nat T - of_nat bz) (off + bz) (mem_write dst off ?seg) h)"
    using Cons.prems(1,4) T fit by (cases "bz < T") (simp_all add: Let_def)
  have seg: "?seg ! j = bs ! j" if "j < ?n" "j < length bs" for j
    using Cons.prems(6) that n by (simp add: nth_append)
  show ?case
  proof (cases "cs = []")
    case True
    have "length bs \<le> bz" using Cons.prems(6) True by simp
    then have le: "length bs \<le> ?n" using Cons.prems(8) by simp
    have "prefix bs ?seg"
      using le seg by (intro prefixI [of _ _ "drop (length bs) ?seg"] nth_equalityI) (auto simp: nth_append)
    then show ?thesis using run True by (intro exI [of _ ?seg]) auto
  next
    case False
    then have len: "bz < length bs" "bz < T"
      using Cons.prems(5,7,8) by (cases cs; simp)+
    have sub: "(of_nat T - of_nat bz :: u64) = of_nat (T - bz)" using len by (simp add: of_nat_diff)
    have eq: "?seg = take bz bs" using len seg by (intro nth_equalityI) auto
    let ?dst = "mem_write dst off (take bz bs)"
    have "\<exists>xs. recv_copy (length cs) (unat (next_buf_idx h c)) c (of_nat (T - bz)) (off + bz) ?dst h =
        (if off + bz + length xs > length ?dst then None else Some (mem_write ?dst (off + bz) xs, last cs)) \<and>
        prefix (drop bz bs) xs \<and> length xs = min (T - bz) (bz * length cs)"
    proof (rule Cons.IH [OF _ False _ Cons.prems(4,5)])
      show "bz * (length cs - 1) < length (drop bz bs)" using Cons.prems(7) False by (cases cs) simp_all
      show "bpath (next_buf_idx h) (unat (next_buf_idx h c)) cs" using Cons.prems(1) by simp
      show "\<forall>c\<in>set cs. bz * Suc c \<le> que_len h" using Cons.prems(3) by simp
      show "stored (que h) bz cs (drop bz bs)" using Cons.prems(6) by simp
      show "length (drop bz bs) \<le> T - bz" "T - bz < 2 ^ 32" using Cons.prems(8,9) by simp_all
    qed
    then obtain xs where xs: "recv_copy (length cs) (unat (next_buf_idx h c)) c (of_nat (T - bz)) (off + bz) ?dst h =
        (if off + bz + length xs > length ?dst then None else Some (mem_write ?dst (off + bz) xs, last cs))"
        "prefix (drop bz bs) xs" "length xs = min (T - bz) (bz * length cs)" by blast
    from xs(2) obtain ys where "xs = drop bz bs @ ys" by (auto simp: prefix_def)
    then have pre: "prefix bs (take bz bs @ xs)" by (metis append.assoc append_take_drop_id prefixI)
    have l: "length (take bz bs @ xs) = bz + length xs" using len by simp
    have "recv_copy (length (c # cs)) i e (of_nat T) off dst h =
      (if off + length (take bz bs @ xs) > length dst then None else Some (mem_write dst off (take bz bs @ xs), last (c # cs)))"
      unfolding run eq sub xs(1) l
      using len False mem_write_length [of off "take bz bs" dst] mem_write_append [of off "take bz bs" dst xs] by (simp add: min_def)
    then show ?thesis using pre l len False xs(3) by (intro exI [of _ "take bz bs @ xs"]) auto
  qed
qed simp

section \<open>Well-formed endpoints\<close>

definition ipc_cost :: "nat \<Rightarrow> u8 list \<Rightarrow> nat" where
  "ipc_cost bz bs = (length bs + bz - 1) div bz"

abbreviation ipc_len :: "u8 list \<Rightarrow> nat" where
  "ipc_len bs \<equiv> ipc_cost 8 bs"

definition msg_ok :: "nat \<Rightarrow> ep_ipc_que \<Rightarrow> u32 \<Rightarrow> nat list \<Rightarrow> u8 list \<Rightarrow> bool" where
  "msg_ok bz h tag cs bs \<longleftrightarrow> 0 < length bs \<and> length bs \<le> 2040 \<and> length cs = ipc_cost bz bs \<and> distinct cs \<and>
     bpath (next_buf_idx h) (hd cs) cs \<and> unat (msg_count h (hd cs)) = length cs \<and> stored (que h) bz cs bs \<and>
     tag = ucast (msgtag_make (of_nat (ipc_len bs)) 0 (of_nat (hd cs)))"

text \<open>\<open>fs\<close> is the list of free buffers, \<open>ch i\<close> the buffers of the message in slot \<open>i\<close>, \<open>n\<close> the number of buffers.\<close>

definition ipc_inv :: "nat \<Rightarrow> nat \<Rightarrow> ipc_ep \<Rightarrow> (nat \<Rightarrow> u8 list option) \<Rightarrow> nat list \<Rightarrow> (nat \<Rightarrow> nat list) \<Rightarrow> bool" where
  "ipc_inv n bz ep m fs ch \<longleftrightarrow> n \<le> 252 \<and> 0 < bz \<and> unat (userbufsize (shm ep)) = bz \<and> n * bz \<le> que_len (shm ep) \<and>
     bpath (next_buf_idx (shm ep)) (unat (slist (shm ep))) fs \<and> distinct fs \<and> set fs \<subseteq> {..<n} \<and>
     unat (slist_len (shm ep)) = length fs \<and>
     (\<forall>i bs. m i = Some bs \<longrightarrow> i < 128 \<and> msg_ok bz (shm ep) (g_tag ep i) (ch i) bs \<and> set (ch i) \<subseteq> {..<n} \<and> set (ch i) \<inter> set fs = {}) \<and>
     (\<forall>i j. m i \<noteq> None \<longrightarrow> m j \<noteq> None \<longrightarrow> i \<noteq> j \<longrightarrow> set (ch i) \<inter> set (ch j) = {})"

definition ipc_rel :: "nat \<Rightarrow> nat \<Rightarrow> ipc_ep \<Rightarrow> (nat \<Rightarrow> u8 list option) \<Rightarrow> nat \<Rightarrow> bool" where
  "ipc_rel n bz ep m f \<longleftrightarrow> (\<exists>fs ch. ipc_inv n bz ep m fs ch \<and> f = length fs)"

lemma ipc_invD:
  assumes "ipc_inv n bz ep m fs ch"
  shows "n \<le> 252" "0 < bz" "unat (userbufsize (shm ep)) = bz" "n * bz \<le> que_len (shm ep)"
    "bpath (next_buf_idx (shm ep)) (unat (slist (shm ep))) fs" "distinct fs" "set fs \<subseteq> {..<n}" "unat (slist_len (shm ep)) = length fs"
    "\<And>i bs. m i = Some bs \<Longrightarrow> i < 128 \<and> msg_ok bz (shm ep) (g_tag ep i) (ch i) bs \<and> set (ch i) \<subseteq> {..<n} \<and> set (ch i) \<inter> set fs = {}"
    "\<And>i j. m i \<noteq> None \<Longrightarrow> m j \<noteq> None \<Longrightarrow> i \<noteq> j \<Longrightarrow> set (ch i) \<inter> set (ch j) = {}"
  using assms unfolding ipc_inv_def by blast+

lemma cost_bounds:
  assumes "0 < bz" and "0 < length bs"
  shows "0 < ipc_cost bz bs" "length bs \<le> bz * ipc_cost bz bs" "bz * (ipc_cost bz bs - 1) < length bs"
proof -
  let ?x = "length bs - 1"
  have eq: "length bs + bz - 1 = ?x + bz" using assms(2) by linarith
  have e: "ipc_cost bz bs = Suc (?x div bz)" unfolding ipc_cost_def eq Suc_eq_plus1 by (rule div_add_self2) (use assms(1) in simp)
  show "0 < ipc_cost bz bs" by (simp add: e)
  have "?x < bz + bz * (?x div bz)" by (rule dividend_less_times_div [OF assms(1)])
  then show "length bs \<le> bz * ipc_cost bz bs" unfolding e mult_Suc_right using assms(2) by linarith
  have "bz * (?x div bz) \<le> ?x" by (rule times_div_less_eq_dividend)
  then show "bz * (ipc_cost bz bs - 1) < length bs" unfolding e diff_Suc_1 using assms(2) by linarith
qed

lemma len_bounds:
  assumes "length bs \<le> 2040"
  shows "ipc_len bs \<le> 255" "length bs \<le> 8 * ipc_len bs" "unat (of_nat (ipc_len bs) :: u8) = ipc_len bs"
proof -
  show l: "ipc_len bs \<le> 255" using assms by (simp add: ipc_cost_def)
  show "length bs \<le> 8 * ipc_len bs" by (simp add: ipc_cost_def)
  show "unat (of_nat (ipc_len bs) :: u8) = ipc_len bs" using l by (simp add: unat_of_nat)
qed

lemma msg_ok_cong:
  assumes "msg_ok bz h t cs bs" and "0 < bz"
    and "\<And>c. c \<in> set cs \<Longrightarrow> next_buf_idx h' c = next_buf_idx h c \<and> msg_count h' c = msg_count h c"
    and "\<And>x. x div bz \<in> set cs \<Longrightarrow> que h' x = que h x"
  shows "msg_ok bz h' t cs bs"
proof -
  have "cs \<noteq> []" using assms(1) cost_bounds(1) [OF assms(2), of bs] by (auto simp: msg_ok_def)
  then have "hd cs \<in> set cs" by simp
  moreover have "bpath (next_buf_idx h') (hd cs) cs = bpath (next_buf_idx h) (hd cs) cs"
    by (rule bpath_cong) (use assms(3) in \<open>auto dest: in_set_butlastD\<close>)
  ultimately show ?thesis using assms(1,3) stored_cong [OF assms(4)] by (simp add: msg_ok_def)
qed

lemma small_u8: "a < 256 \<Longrightarrow> unat (of_nat a :: u8) = a"
  by (simp add: unat_of_nat)

lemma slot_idx: "i < 128 \<Longrightarrow> unat (scast (of_nat i :: u8) :: u32) = i"
proof -
  assume i: "i < 128"
  have "sint (of_nat i :: u8) = int i" using i by (simp add: signed_of_nat signed_take_bit_int_eq_self)
  then have "(scast (of_nat i :: u8) :: u32) = of_nat i" by (metis of_int_of_nat_eq of_int_sint)
  then show ?thesis using i by (simp add: unat_of_nat)
qed


section \<open>The operations\<close>

lemma send_with_tag:
  assumes "ipc_shm_send_data bs (shm ep) = Some (h, tag)" and "length bs \<le> 2040" and "unat (scast b :: u32) = i" and "i < 128"
  shows "tag \<noteq> - 1 \<Longrightarrow> ipc_shm_send (Some bs) b (Some ep) = Some (Some (ep\<lparr>shm := h, g_tag := (g_tag ep)(i := tag)\<rparr>), tag)"
    and "tag = - 1 \<Longrightarrow> ipc_shm_send (Some bs) b (Some ep) = Some (Some (ep\<lparr>shm := h\<rparr>), tag)"
  using assms by (simp_all add: ipc_shm_send_def set_tag_def Let_def)

text \<open>The header after the buffers \<open>cs\<close> were taken from the list of free buffers and after they were put back.\<close>

definition shm_taken :: "nat list \<Rightarrow> (nat \<Rightarrow> u8) \<Rightarrow> ep_ipc_que \<Rightarrow> ep_ipc_que" where
  "shm_taken cs q h = h\<lparr>slist_len := slist_len h - of_nat (length cs), slist := next_buf_idx h (last cs),
     msg_count := (msg_count h)(hd cs := of_nat (length cs)), que := q\<rparr>"

definition shm_freed :: "nat list \<Rightarrow> ep_ipc_que \<Rightarrow> ep_ipc_que" where
  "shm_freed cs h = h\<lparr>next_buf_idx := (next_buf_idx h)(last cs := slist h), slist := of_nat (hd cs),
     slist_len := slist_len h + of_nat (length cs)\<rparr>"

lemma shm_taken_simps [simp]:
  "next_buf_idx (shm_taken cs q h) = next_buf_idx h" "msg_count (shm_taken cs q h) = (msg_count h)(hd cs := of_nat (length cs))"
  "que (shm_taken cs q h) = q" "slist (shm_taken cs q h) = next_buf_idx h (last cs)"
  "slist_len (shm_taken cs q h) = slist_len h - of_nat (length cs)" "userbufsize (shm_taken cs q h) = userbufsize h"
  "que_len (shm_taken cs q h) = que_len h"
  by (simp_all add: shm_taken_def)

lemma shm_freed_simps [simp]:
  "next_buf_idx (shm_freed cs h) = (next_buf_idx h)(last cs := slist h)" "msg_count (shm_freed cs h) = msg_count h"
  "que (shm_freed cs h) = que h" "slist (shm_freed cs h) = of_nat (hd cs)"
  "slist_len (shm_freed cs h) = slist_len h + of_nat (length cs)" "userbufsize (shm_freed cs h) = userbufsize h"
  "que_len (shm_freed cs h) = que_len h"
  by (simp_all add: shm_freed_def)

lemma buffers_inside:
  assumes "ipc_inv n bz ep m fs ch" and "set cs \<subseteq> {..<n}"
  shows "\<forall>c \<in> set cs. bz * Suc c \<le> que_len (shm ep)"
proof
  fix c assume "c \<in> set cs"
  then have "bz * Suc c \<le> bz * n" using assms(2) by (intro mult_le_mono2) auto
  then show "bz * Suc c \<le> que_len (shm ep)" using ipc_invD(4) [OF assms(1)] by (simp add: mult.commute)
qed

lemma ipc_send_run:
  assumes inv: "ipc_inv n bz ep m (cs @ gs) ch" and bs: "0 < length bs" and k: "length cs = ipc_cost bz bs"
  shows "\<exists>q. ipc_shm_send_data bs (shm ep) = Some (shm_taken cs q (shm ep), ucast (msgtag_make (of_nat (ipc_len bs)) 0 (of_nat (hd cs)))) \<and>
    stored q bz cs bs \<and> (\<forall>x. x div bz \<notin> set cs \<longrightarrow> q x = que (shm ep) x)"
proof -
  note v = ipc_invD [OF inv]
  let ?h = "shm ep" and ?k = "ipc_cost bz bs"
  note cost = cost_bounds [OF v(2) bs]
  have ne: "cs \<noteq> []" using k cost(1) by auto
  have p: "bpath (next_buf_idx ?h) (unat (slist ?h)) cs" using v(5) unfolding bpath_append by blast
  have st: "unat (slist ?h) = hd cs" by (rule bpath_hd [OF p ne])
  have "hd cs \<in> {..<n}" using v(7) hd_in_set [OF ne] by auto
  then have hd: "hd cs < 252" using v(1) by simp
  let ?first = "bend (next_buf_idx ?h) (hd cs) cs"
  have f8: "of_nat ?first = next_buf_idx ?h (last cs)" unfolding bend_def using ne by simp
  let ?h1 = "?h\<lparr>slist_len := slist_len ?h - of_nat ?k, slist := of_nat ?first, msg_count := (msg_count ?h)(hd cs := of_nat ?k)\<rparr>"
  have "\<forall>c \<in> set cs. bz * Suc c \<le> que_len ?h1" using buffers_inside [OF inv, of cs] v(7) by simp
  then have "\<exists>q. send_copy (length cs) (hd cs) bs ?h1 = Some (?h1\<lparr>que := q\<rparr>) \<and> stored q bz cs bs \<and>
      (\<forall>x. x div bz \<notin> set cs \<longrightarrow> q x = que ?h1 x)"
    by (intro send_copy_spec) (use p st v(2,3,6) cost(2) k in auto)
  then obtain q where q: "send_copy (length cs) (hd cs) bs ?h1 = Some (?h1\<lparr>que := q\<rparr>)" "stored q bz cs bs"
      "\<And>x. x div bz \<notin> set cs \<Longrightarrow> q x = que ?h x" by auto
  have out: "seq_out_static_list ?k ?h = Some (?h\<lparr>slist_len := slist_len ?h - of_nat ?k, slist := of_nat ?first\<rparr>, hd cs)"
    using bpath_skip [OF p] st k by (simp add: seq_out_static_list_def Let_def)
  have eq: "?h1\<lparr>que := q\<rparr> = shm_taken cs q ?h" unfolding f8 shm_taken_def k by simp
  have "ipc_shm_send_data bs ?h = Some (?h1\<lparr>que := q\<rparr>, ucast (msgtag_make (of_nat (ipc_len bs)) 0 (of_nat (hd cs))))"
    unfolding ipc_shm_send_data_def Let_def ipc_cost_def [symmetric] v(3)
    using v(2,8) out q(1) k hd by (simp add: ipc_cost_def [symmetric])
  then show ?thesis using q(2,3) unfolding eq by blast
qed

lemma ipc_send_inv:
  assumes inv: "ipc_inv n bz ep m (cs @ gs) ch" and i: "i < 128" "m i = None" and bs: "0 < length bs" "length bs \<le> 2040"
    and k: "length cs = ipc_cost bz bs" and st: "stored q bz cs bs" and fr: "\<And>x. x div bz \<notin> set cs \<Longrightarrow> q x = que (shm ep) x"
    and ep': "shm ep' = shm_taken cs q (shm ep)" "g_tag ep' = (g_tag ep)(i := ucast (msgtag_make (of_nat (ipc_len bs)) 0 (of_nat (hd cs))))"
  shows "ipc_inv n bz ep' (m(i \<mapsto> bs)) gs (ch(i := cs))"
proof -
  note v = ipc_invD [OF inv]
  let ?h = "shm ep" and ?h2 = "shm_taken cs q (shm ep)" and ?ch = "ch(i := cs)"
  have ne: "cs \<noteq> []" using k cost_bounds(1) [OF v(2) bs(1)] by auto
  have p: "bpath (next_buf_idx ?h) (unat (slist ?h)) cs" "bpath (next_buf_idx ?h) (bend (next_buf_idx ?h) (unat (slist ?h)) cs) gs"
    using v(5) unfolding bpath_append by blast+
  have hd: "unat (slist ?h) = hd cs" by (rule bpath_hd [OF p(1) ne])
  have dis: "set cs \<inter> set gs = {}" "distinct cs" "distinct gs" using v(6) by auto
  have "length (cs @ gs) \<le> n" using card_mono [OF _ v(7)] distinct_card [OF v(6)] by simp
  then have cnt: "unat (of_nat (length cs) :: u8) = length cs" using v(1) by (intro small_u8) simp
  have "unat (slist_len ?h2) = unat (slist_len ?h) - unat (of_nat (length cs) :: u8)"
    unfolding shm_taken_simps by (rule unat_sub) (use v(8) cnt in \<open>simp add: word_le_nat_alt\<close>)
  then have left: "unat (slist_len ?h2) = length gs" using v(8) cnt by simp
  have new: "msg_ok bz ?h2 (g_tag ep' i) cs bs"
    using bs k dis(2) p(1) hd cnt st by (simp add: msg_ok_def ep')
  have old: "msg_ok bz ?h2 (g_tag ep' j) (ch j) xs \<and> set (ch j) \<subseteq> {..<n} \<and> set (ch j) \<inter> set (cs @ gs) = {} \<and> j < 128"
    if "m j = Some xs" for j xs
  proof -
    note o = v(9) [OF that]
    have "j \<noteq> i" using that i(2) by auto
    moreover have "msg_ok bz ?h2 (g_tag ep j) (ch j) xs"
      by (rule msg_ok_cong [OF _ v(2), of ?h]) (use o ne fr in auto)
    ultimately show ?thesis using o ep' by simp
  qed
  have one: "j < 128 \<and> msg_ok bz ?h2 (g_tag ep' j) (?ch j) xs \<and> set (?ch j) \<subseteq> {..<n} \<and> set (?ch j) \<inter> set gs = {}"
    if "(m(i \<mapsto> bs)) j = Some xs" for j xs
    using that new old [of j xs] i(1) v(7) dis(1) by (cases "j = i") auto
  have "set (ch j) \<inter> set cs = {}" if "m j \<noteq> None" for j using old [of j] that by auto
  then have two: "set (?ch j) \<inter> set (?ch l) = {}" if "(m(i \<mapsto> bs)) j \<noteq> None" "(m(i \<mapsto> bs)) l \<noteq> None" "j \<noteq> l" for j l
    using v(10) [of j l] that by (cases "j = i"; cases "l = i") (simp_all add: Int_commute)
  have "bpath (next_buf_idx ?h2) (unat (slist ?h2)) gs" using p(2) hd ne by (simp add: bend_def)
  then show ?thesis
    unfolding ipc_inv_def ep'(1) using left v(1-4) dis(3) v(7) one two by simp
qed

lemma ipc_send_space:
  assumes inv: "ipc_inv n bz ep m fs ch" and i: "i < 128" "m i = None" and bs: "0 < length bs" "length bs \<le> 2040"
    and sp: "ipc_cost bz bs \<le> length fs"
  obtains ep' tag ch' where "ipc_shm_send (Some bs) (of_nat i) (Some ep) = Some (Some ep', tag)" and "tag \<noteq> - 1"
    and "ipc_inv n bz ep' (m(i \<mapsto> bs)) (drop (ipc_cost bz bs) fs) ch'"
proof -
  let ?cs = "take (ipc_cost bz bs) fs"
  have inv': "ipc_inv n bz ep m (?cs @ drop (ipc_cost bz bs) fs) ch" and k: "length ?cs = ipc_cost bz bs" using inv sp by simp_all
  obtain q where q: "ipc_shm_send_data bs (shm ep) = Some (shm_taken ?cs q (shm ep), ucast (msgtag_make (of_nat (ipc_len bs)) 0 (of_nat (hd ?cs))))"
      "stored q bz ?cs bs" "\<And>x. x div bz \<notin> set ?cs \<Longrightarrow> q x = que (shm ep) x"
    using ipc_send_run [OF inv' bs(1) k] by blast
  note run = send_with_tag(1) [OF q(1) bs(2) slot_idx [OF i(1)] i(1) tag_not_error]
  show thesis by (rule that [OF run tag_not_error]) (rule ipc_send_inv [OF inv' i bs k q(2,3)], simp_all)
qed

lemma ipc_send_full:
  assumes inv: "ipc_inv n bz ep m fs ch" and i: "i < 128" and bs: "length bs \<le> 2040" and sp: "\<not> ipc_cost bz bs \<le> length fs"
  shows "ipc_shm_send (Some bs) (of_nat i) (Some ep) = Some (Some ep, - 1)"
proof -
  note v = ipc_invD [OF inv]
  have "ipc_shm_send_data bs (shm ep) = Some (shm ep, - 1)"
    unfolding ipc_shm_send_data_def Let_def v(3) ipc_cost_def [symmetric] using v(2,8) sp by simp
  from send_with_tag(2) [OF this bs slot_idx [OF i] i refl] show ?thesis by simp
qed

lemma ipc_recv_run:
  assumes inv: "ipc_inv n bz ep m fs ch" and i: "m i = Some bs"
  obtains xs where "ipc_shm_recv_data dst (g_tag ep i) maxsize (shm ep) =
      (if length xs > length dst then None else Some (shm_freed (ch i) (shm ep), mem_write dst 0 xs, ucast (of_nat (8 * ipc_len bs) :: u64)))"
    and "prefix bs xs" and "length xs = min (8 * ipc_len bs) (bz * ipc_cost bz bs)"
proof -
  note v = ipc_invD [OF inv]
  let ?h = "shm ep" and ?cs = "ch i"
  have mo: "msg_ok bz ?h (g_tag ep i) ?cs bs" and sub: "set ?cs \<subseteq> {..<n}" using v(9) [OF i] by blast+
  have bs: "0 < length bs" "length bs \<le> 2040" and k: "length ?cs = ipc_cost bz bs"
    and p: "bpath (next_buf_idx ?h) (hd ?cs) ?cs" and cnt: "unat (msg_count ?h (hd ?cs)) = length ?cs" and st: "stored (que ?h) bz ?cs bs"
    and tag: "g_tag ep i = ucast (msgtag_make (of_nat (ipc_len bs)) 0 (of_nat (hd ?cs)))"
    using mo unfolding msg_ok_def by blast+
  note cost = cost_bounds [OF v(2) bs(1)] and len = len_bounds [OF bs(2)]
  have ne: "?cs \<noteq> []" using k cost(1) by auto
  have "hd ?cs \<in> {..<n}" "last ?cs \<in> {..<n}" using sub hd_in_set [OF ne] last_in_set [OF ne] by blast+
  then have hd: "hd ?cs < 252" "last ?cs < 252" using v(1) by simp_all
  obtain xs where xs: "recv_copy (length ?cs) (hd ?cs) (hd ?cs) (of_nat (8 * ipc_len bs)) 0 dst ?h =
        (if length xs > length dst then None else Some (mem_write dst 0 xs, last ?cs))" "prefix bs xs"
      "length xs = min (8 * ipc_len bs) (bz * length ?cs)"
    using recv_copy_spec [OF p ne buffers_inside [OF inv sub] v(3,2) st, of "8 * ipc_len bs" "hd ?cs" 0 dst] cost(3) k len(1,2) by auto
  have ext: "unat (msgtag_get_extra (g_tag ep i)) = hd ?cs" unfolding tag tag_roundtrip(1) using hd(1) by (intro small_u8) simp
  have sz: "msgtag_get_len (ucast (g_tag ep i)) * 8 = of_nat (8 * ipc_len bs)"
    unfolding tag tag_roundtrip(2) using len(3) by (simp add: mult.commute) (metis of_nat_unat)
  have "seq_in_static_list (hd ?cs) (last ?cs) (length ?cs) ?h = Some (shm_freed ?cs ?h)"
    using ne hd(2) by (simp add: seq_in_static_list_def shm_freed_def)
  then have "ipc_shm_recv_data dst (g_tag ep i) maxsize ?h =
      (if length xs > length dst then None else Some (shm_freed ?cs ?h, mem_write dst 0 xs, ucast (of_nat (8 * ipc_len bs) :: u64)))"
    unfolding ipc_shm_recv_data_def Let_def ext sz cnt using hd(1) xs(1) by simp
  then show thesis by (rule that [OF _ xs(2)]) (simp only: xs(3) k)
qed

lemma ipc_recv_inv:
  assumes inv: "ipc_inv n bz ep m fs ch" and i: "m i = Some bs"
  shows "ipc_inv n bz (ep\<lparr>shm := shm_freed (ch i) (shm ep)\<rparr>) (m(i := None)) (ch i @ fs) ch"
proof -
  note v = ipc_invD [OF inv]
  let ?h = "shm ep" and ?cs = "ch i" and ?h2 = "shm_freed (ch i) (shm ep)"
  have mo: "msg_ok bz ?h (g_tag ep i) ?cs bs" and sub: "set ?cs \<subseteq> {..<n}" "set ?cs \<inter> set fs = {}" using v(9) [OF i] by blast+
  have k: "0 < length bs" "length ?cs = ipc_cost bz bs" and d: "distinct ?cs" and p: "bpath (next_buf_idx ?h) (hd ?cs) ?cs"
    using mo unfolding msg_ok_def by blast+
  have ne: "?cs \<noteq> []" using k cost_bounds(1) [OF v(2) k(1)] by auto
  have "hd ?cs \<in> {..<n}" using sub(1) hd_in_set [OF ne] by blast
  then have hd: "unat (of_nat (hd ?cs) :: u8) = hd ?cs" using v(1) by (intro small_u8) simp
  have tot: "length (?cs @ fs) \<le> n"
    using card_mono [of "{..<n}" "set (?cs @ fs)"] distinct_card [of "?cs @ fs"] sub v(6,7) d by simp
  have old: "msg_ok bz ?h2 (g_tag ep j) (ch j) ys" if j: "m j = Some ys" "j \<noteq> i" for j ys
  proof (rule msg_ok_cong [OF _ v(2), of ?h])
    show "msg_ok bz ?h (g_tag ep j) (ch j) ys" using v(9) [OF j(1)] by blast
    have "last ?cs \<notin> set (ch j)" using v(10) [of i j] i j last_in_set [OF ne] by auto
    then show "next_buf_idx ?h2 c = next_buf_idx ?h c \<and> msg_count ?h2 c = msg_count ?h c" if "c \<in> set (ch j)" for c
      using that by auto
  qed simp
  have one: "j < 128 \<and> msg_ok bz ?h2 (g_tag ep j) (ch j) ys \<and> set (ch j) \<subseteq> {..<n} \<and> set (ch j) \<inter> set (?cs @ fs) = {}"
    if "(m(i := None)) j = Some ys" for j ys
  proof -
    have j: "m j = Some ys" "j \<noteq> i" using that by (auto split: if_splits)
    show ?thesis using v(9) [OF j(1)] old [OF j] v(10) [of j i] i j by auto
  qed
  have two: "set (ch j) \<inter> set (ch l) = {}" if "(m(i := None)) j \<noteq> None" "(m(i := None)) l \<noteq> None" "j \<noteq> l" for j l
    using v(10) [of j l] that by (auto split: if_splits)
  have "last ?cs \<notin> set fs" using sub(2) last_in_set [OF ne] by blast
  then have "bpath ((next_buf_idx ?h)(last ?cs := slist ?h)) (hd ?cs) (?cs @ fs)" by (intro bpath_join p ne d v(5))
  then have path: "bpath (next_buf_idx ?h2) (unat (slist ?h2)) (?cs @ fs)" unfolding shm_freed_simps hd .
  have "slist_len ?h = of_nat (length fs)" unfolding v(8) [symmetric] by simp
  then have "slist_len ?h2 = of_nat (length (?cs @ fs))" by simp
  then have len: "unat (slist_len ?h2) = length (?cs @ fs)" using tot v(1) by (simp only:) (intro small_u8, simp)
  have "distinct (?cs @ fs)" "set (?cs @ fs) \<subseteq> {..<n}" using d v(6,7) sub by simp_all
  then show ?thesis unfolding ipc_inv_def using v(1-4) path len one two by simp
qed

lemma ipc_recv_message:
  assumes inv: "ipc_inv n bz ep m fs ch" and i: "m i = Some bs"
  obtains ep' xs r where "ipc_shm_recv (Some dst) maxsize (of_nat i) (Some ep) =
      (if length xs > length dst then None else Some (Some ep', Some (mem_write dst 0 xs), r))"
    and "prefix bs xs" and "length xs = min (8 * ipc_len bs) (bz * ipc_cost bz bs)" and "unat r = 8 * ipc_len bs"
    and "ipc_inv n bz ep' (m(i := None)) (ch i @ fs) ch"
proof -
  let ?r = "ucast (of_nat (8 * ipc_len bs) :: u64) :: u32" and ?ep = "ep\<lparr>shm := shm_freed (ch i) (shm ep)\<rparr>"
  have mo: "i < 128" "msg_ok bz (shm ep) (g_tag ep i) (ch i) bs" using ipc_invD(9) [OF inv i] by blast+
  obtain xs where xs: "ipc_shm_recv_data dst (g_tag ep i) maxsize (shm ep) =
      (if length xs > length dst then None else Some (shm_freed (ch i) (shm ep), mem_write dst 0 xs, ?r))"
    "prefix bs xs" "length xs = min (8 * ipc_len bs) (bz * ipc_cost bz bs)" by (rule ipc_recv_run [OF inv i])
  have gt: "get_tag (scast (of_nat i :: u8)) ep = Some (g_tag ep i)" unfolding get_tag_def slot_idx [OF mo(1)] using mo(1) by simp
  have "g_tag ep i \<noteq> - 1" using mo(2) tag_not_error unfolding msg_ok_def by metis
  then have run: "ipc_shm_recv (Some dst) maxsize (of_nat i) (Some ep) =
      (if length xs > length dst then None else Some (Some ?ep, Some (mem_write dst 0 xs), ?r))"
    unfolding ipc_shm_recv_def option.case prod.case gt using xs(1) by simp
  have "ipc_len bs \<le> 255" using mo(2) len_bounds(1) unfolding msg_ok_def by blast
  then have r: "unat ?r = 8 * ipc_len bs" unfolding unsigned_ucast_eq unat_of_nat by (simp add: take_bit_nat_eq_self)
  show thesis by (rule that [OF run xs(2,3) r ipc_recv_inv [OF inv i]])
qed

section \<open>The endpoint as slots for messages\<close>

definition ipc_send_op :: "nat \<Rightarrow> u8 list \<Rightarrow> ipc_ep \<Rightarrow> (ipc_ep \<times> bool) option" where
  "ipc_send_op i bs ep = (case ipc_shm_send (Some bs) (of_nat i) (Some ep) of
     Some (Some ep', tag) \<Rightarrow> Some (ep', tag \<noteq> - 1)
   | _ \<Rightarrow> None)"

text \<open>The receiver has 2040 bytes and looks at as many of them as the call returns.\<close>

definition ipc_recv_op :: "nat \<Rightarrow> ipc_ep \<Rightarrow> (ipc_ep \<times> u8 list) option" where
  "ipc_recv_op i ep = (case ipc_shm_recv (Some (replicate 2040 0)) 2040 (of_nat i) (Some ep) of
     Some (Some ep', Some dst, r) \<Rightarrow> Some (ep', take (unat r) dst)
   | _ \<Rightarrow> None)"

definition ipc_long :: "u8 list \<Rightarrow> bool" where
  "ipc_long bs \<longleftrightarrow> length bs > 2040"

definition ipc_fits :: "nat \<Rightarrow> u8 list \<Rightarrow> bool" where
  "ipc_fits i bs \<longleftrightarrow> i < 128 \<and> 0 < length bs \<and> length bs \<le> 2040"

lemma prefix_take_write:
  assumes "prefix bs xs" and "length bs \<le> k"
  shows "prefix bs (take k (mem_write dst 0 xs))"
proof -
  obtain ys where "xs = bs @ ys" using assms(1) by (auto simp: prefix_def)
  then show ?thesis using assms(2) by (simp add: mem_write_def)
qed

interpretation ipc: message_slots ipc_send_op ipc_recv_op "ipc_rel n bz" "ipc_cost bz" ipc_long ipc_fits for n bz
proof
  show "ipc_send_op i bs ep = Some (ep, False)" if "ipc_long bs" for ep i bs
    using that by (simp add: ipc_send_op_def ipc_shm_send_def ipc_long_def)
next
  fix ep m f i bs assume "ipc_rel n bz ep m f" and ok: "ipc_fits i bs" and free: "m i = None" and sp: "ipc_cost bz bs \<le> f"
  then obtain fs ch where inv: "ipc_inv n bz ep m fs ch" and f: "f = length fs" by (auto simp: ipc_rel_def)
  from ok have ok': "i < 128" "0 < length bs" "length bs \<le> 2040" by (simp_all add: ipc_fits_def)
  show "\<exists>ep'. ipc_send_op i bs ep = Some (ep', True) \<and> ipc_rel n bz ep' (m(i \<mapsto> bs)) (f - ipc_cost bz bs)"
  proof (rule ipc_send_space [OF inv ok'(1) free ok'(2,3) sp [unfolded f]])
    fix ep' tag ch' assume r: "ipc_shm_send (Some bs) (of_nat i) (Some ep) = Some (Some ep', tag)" "tag \<noteq> - 1"
      and inv': "ipc_inv n bz ep' (m(i \<mapsto> bs)) (drop (ipc_cost bz bs) fs) ch'"
    have "ipc_send_op i bs ep = Some (ep', True)" using r by (simp add: ipc_send_op_def)
    moreover have "ipc_rel n bz ep' (m(i \<mapsto> bs)) (f - ipc_cost bz bs)"
      unfolding ipc_rel_def by (intro exI conjI, rule inv') (simp add: f)
    ultimately show ?thesis by blast
  qed
next
  fix ep m f i bs assume rel: "ipc_rel n bz ep m f" and ok: "ipc_fits i bs" and sp: "\<not> ipc_cost bz bs \<le> f"
  then obtain fs ch where inv: "ipc_inv n bz ep m fs ch" and f: "f = length fs" by (auto simp: ipc_rel_def)
  from ok have ok': "i < 128" "length bs \<le> 2040" by (simp_all add: ipc_fits_def)
  show "\<exists>ep'. ipc_send_op i bs ep = Some (ep', False) \<and> ipc_rel n bz ep' m f"
    using ipc_send_full [OF inv ok' sp [unfolded f]] rel by (simp add: ipc_send_op_def)
next
  fix ep m f i bs assume "ipc_rel n bz ep m f" and i: "m i = Some bs"
  then obtain fs ch where inv: "ipc_inv n bz ep m fs ch" and f: "f = length fs" by (auto simp: ipc_rel_def)
  note mo = ipc_invD(9) [OF inv i]
  then have len: "length bs \<le> 2040" "length (ch i) = ipc_cost bz bs" by (simp_all add: msg_ok_def)
  show "\<exists>ep' xs. ipc_recv_op i ep = Some (ep', xs) \<and> prefix bs xs \<and> ipc_rel n bz ep' (m(i := None)) (f + ipc_cost bz bs)"
  proof (rule ipc_recv_message [OF inv i, of "replicate 2040 0" 2040])
    fix ep' xs r assume r: "ipc_shm_recv (Some (replicate 2040 0)) 2040 (of_nat i) (Some ep) =
        (if length xs > length (replicate 2040 0 :: u8 list) then None else Some (Some ep', Some (mem_write (replicate 2040 0) 0 xs), r))"
      and pre: "prefix bs xs" and l: "length xs = min (8 * ipc_len bs) (bz * ipc_cost bz bs)" and ur: "unat r = 8 * ipc_len bs"
      and inv': "ipc_inv n bz ep' (m(i := None)) (ch i @ fs) ch"
    note lb = len_bounds [OF len(1)]
    have "\<not> length xs > length (replicate 2040 0 :: u8 list)" using l lb(1) by simp
    then have "ipc_recv_op i ep = Some (ep', take (unat r) (mem_write (replicate 2040 0) 0 xs))" unfolding ipc_recv_op_def r by simp
    moreover have "prefix bs (take (unat r) (mem_write (replicate 2040 0) 0 xs))"
      by (rule prefix_take_write [OF pre]) (simp only: ur lb(2))
    moreover have "ipc_rel n bz ep' (m(i := None)) (f + ipc_cost bz bs)"
      unfolding ipc_rel_def by (intro exI conjI, rule inv') (simp add: f len(2))
    ultimately show ?thesis by blast
  qed
qed

lemma fold_next: "fold (\<lambda>i nx. nx(i := of_nat (i + 1))) [0..<k] nx = (\<lambda>i. if i < k then of_nat (i + 1) else (nx :: nat \<Rightarrow> u8) i)"
  by (induction k) (auto simp: fun_eq_iff less_Suc_eq)

lemma bpath_upt:
  assumes "\<And>j. j \<in> {i..<n - 1} \<Longrightarrow> nx j = of_nat (j + 1)" and "n \<le> 252"
  shows "bpath nx i [i..<n]"
  using assms(1)
proof (induction "n - i" arbitrary: i)
  case (Suc k)
  then have "[i..<n] = i # [Suc i..<n]" by (simp add: upt_conv_Cons)
  moreover have "bpath nx (Suc i) [Suc i..<n]" by (rule Suc.hyps(1)) (use Suc in auto)
  moreover have "nx i = of_nat (i + 1)" if "Suc i < n" using Suc.prems that by auto
  ultimately show ?case
    using Suc.hyps(2) assms(2) small_u8 [of "Suc i"] by (cases "Suc i < n") (auto simp del: of_nat_Suc)
qed simp

lemma ipc_init_rel:
  assumes "init_ep_ipc_que h pages bufsize = Some (h', cnt)" and "unat bufsize < 2 ^ 16"
    and "0 < unat pages" and "unat pages < 2 ^ 32" and "unat pages * 4096 - 512 \<le> que_len h"
  shows "ipc_rel (unat cnt) (unat bufsize) \<lparr>shm = h', g_tag = g\<rparr> Map.empty (unat cnt)"
proof -
  let ?bz = "unat bufsize" and ?n = "unat cnt"
  have cnt: "cnt = (push_bit 12 pages - 512) div bufsize" and nz: "bufsize \<noteq> 0" and le: "unat (cnt - 1) < 252"
    and h': "h' = h\<lparr>next_buf_idx := (fold (\<lambda>i nx. nx(i := of_nat (i + 1))) [0..<unat (cnt - 1)] (next_buf_idx h))(unat (cnt - 1) := - 1),
        slist := 0, slist_len := ucast cnt, userbufsize := ucast bufsize\<rparr>"
    using assms(1) by (auto simp: init_ep_ipc_que_def init_ep_ipc_que_header_def calculate_ipcbuf_count_def Let_def split: if_splits)
  have pb: "unat (push_bit 12 pages :: u64) = unat pages * 4096"
    using assms(4) by (simp add: push_bit_eq_mult unat_word_ariths)
  have "unat (push_bit 12 pages - 512 :: u64) = unat (push_bit 12 pages :: u64) - unat (512 :: u64)"
    by (rule unat_sub) (use assms(3) pb in \<open>simp add: word_le_nat_alt\<close>)
  then have n: "?n = (unat pages * 4096 - 512) div ?bz" using pb by (simp add: cnt unat_div_distrib)
  have "cnt \<noteq> 0" using le by (auto simp: unat_minus_1_u64)
  then have n1: "unat (cnt - 1) = ?n - 1" "0 < ?n" by (simp_all add: unat_minus_one unat_gt_0)
  then have n252: "?n \<le> 252" using le by simp
  have nx: "next_buf_idx h' j = of_nat (j + 1)" if "j < ?n - 1" for j
    using that unfolding h' fold_next n1(1) by simp
  have path: "bpath (next_buf_idx h') 0 [0..<?n]" by (rule bpath_upt [OF _ n252]) (use nx in simp)
  have w: "unat (userbufsize h') = ?bz" "unat (slist_len h') = ?n"
    using assms(2) n252 unfolding h' by (simp_all add: unsigned_ucast_eq take_bit_nat_eq_self)
  have "?n * ?bz \<le> unat pages * 4096 - 512" unfolding n by simp
  then have q: "?n * ?bz \<le> que_len h'" using assms(5) unfolding h' by simp
  have "0 < ?bz" using nz by (simp add: unat_gt_0)
  then have "ipc_inv ?n ?bz \<lparr>shm = h', g_tag = g\<rparr> Map.empty [0..<?n] (\<lambda>_. [])"
    using path w q n252 by (auto simp: ipc_inv_def h')
  then show ?thesis unfolding ipc_rel_def by force
qed

section \<open>Properties\<close>

text \<open>
  (C6) Messages through shared memory.  Take a freshly initialised endpoint and a client that keeps to the protocol: it uses the slots 0 to 127, sends no
  empty message, does not send another message to a slot before it has received the one that is there, receives only from slots with a
  message, and has 2040 bytes for what it receives.  Then every sequence of sends and receives behaves as slots for messages with as much
  space as there are buffers: a send fails exactly when the message is longer than 2040 bytes or the free buffers do not suffice, and
  then changes nothing; a receive delivers the message sent to its slot, possibly with more bytes behind it, whatever else was sent
  or received in between.
\<close>

theorem ipc_refines_slots:
  assumes "init_ep_ipc_que h pages bufsize = Some (h', cnt)" and "unat bufsize < 2 ^ 16"
    and "0 < unat pages" and "unat pages < 2 ^ 32" and "unat pages * 4096 - 512 \<le> que_len h"
    and "aslots_run (ipc_cost (unat bufsize)) ipc_long ipc_fits ops Map.empty (unat cnt) = Some rs"
  shows "\<exists>ep rs'. slots_run ipc_send_op ipc_recv_op ops \<lparr>shm = h', g_tag = g\<rparr> = Some (ep, rs') \<and> list_all2 res_covers rs rs'"
  by (rule ipc.slots_run_refines [OF ipc_init_rel [OF assms(1-5)] assms(6)])

text \<open>A page of shared memory with seven buffers, as the test program of the source sets it up.\<close>

definition ipc_mem_ex :: ep_ipc_que where
  "ipc_mem_ex = \<lparr>slist = 0, slist_len = 0, userbufsize = 0, next_buf_idx = (\<lambda>_. 0), msg_count = (\<lambda>_. 0), que = (\<lambda>_. 0), que_len = 3584\<rparr>"

definition ipc_ep_ex :: ipc_ep where
  "ipc_ep_ex = \<lparr>shm = fst (the (init_ep_ipc_que ipc_mem_ex 1 512)), g_tag = (\<lambda>_. 0)\<rparr>"

lemma ipc_init_ex: "init_ep_ipc_que ipc_mem_ex 1 512 = Some (shm ipc_ep_ex, 7)"
  by (simp add: ipc_ep_ex_def ipc_mem_ex_def init_ep_ipc_que_def init_ep_ipc_que_header_def calculate_ipcbuf_count_def)

lemma ipc_rel_ex: "ipc_rel 7 512 ipc_ep_ex Map.empty 7"
proof -
  have "ipc_rel (unat (7 :: u64)) (unat (512 :: u64)) \<lparr>shm = shm ipc_ep_ex, g_tag = (\<lambda>_. 0)\<rparr> Map.empty (unat (7 :: u64))"
    by (rule ipc_init_rel [OF ipc_init_ex]) (simp_all add: ipc_mem_ex_def)
  then show ?thesis by (simp add: ipc_ep_ex_def)
qed

lemma ipc_cost_ex: "ipc_cost 512 (replicate 513 x) = 2" "ipc_cost 512 [x, y] = 1" "ipc_cost 512 (replicate 2040 x) = 4" "ipc_cost 512 (replicate 128 x) = 1"
  by (simp_all add: ipc_cost_def)

theorem ipc_refines_slots_witness:
  "init_ep_ipc_que ipc_mem_ex 1 512 = Some (shm ipc_ep_ex, 7) \<and>
   (\<exists>ep rs'. slots_run ipc_send_op ipc_recv_op
        [Send 3 (replicate 2040 9), Send 5 (replicate 513 8), Send 6 (replicate 2040 7), Recv 3, Send 6 [1, 2], Send 6 (replicate 2041 6), Recv 5, Recv 6]
        \<lparr>shm = shm ipc_ep_ex, g_tag = (\<lambda>_. 0)\<rparr> = Some (ep, rs') \<and>
      list_all2 res_covers [Sent True, Sent True, Sent False, Got (replicate 2040 9), Sent True, Sent False, Got (replicate 513 8), Got [1, 2]] rs')"
proof (intro conjI ipc_init_ex)
  show "\<exists>ep rs'. slots_run ipc_send_op ipc_recv_op
        [Send 3 (replicate 2040 9), Send 5 (replicate 513 8), Send 6 (replicate 2040 7), Recv 3, Send 6 [1, 2], Send 6 (replicate 2041 6), Recv 5, Recv 6]
        \<lparr>shm = shm ipc_ep_ex, g_tag = (\<lambda>_. 0)\<rparr> = Some (ep, rs') \<and>
      list_all2 res_covers [Sent True, Sent True, Sent False, Got (replicate 2040 9), Sent True, Sent False, Got (replicate 513 8), Got [1, 2]] rs'"
    by (rule ipc_refines_slots [OF ipc_init_ex]) (simp_all add: ipc_mem_ex_def ipc_cost_ex ipc_fits_def ipc_long_def)
qed

text \<open>
  The size of the receiver's buffer is not looked at: receiving a message longer than the memory
  behind the receiver's pointer writes behind it, whatever \<open>maxsize\<close> the receiver gives.
\<close>

theorem ipc_recv_overruns:
  assumes "ipc_rel n bz ep m f" and "m i = Some bs" and "length dst < length bs"
  shows "ipc_shm_recv (Some dst) maxsize (of_nat i) (Some ep) = None"
proof -
  obtain fs ch where inv: "ipc_inv n bz ep m fs ch" using assms(1) by (auto simp: ipc_rel_def)
  show ?thesis
  proof (rule ipc_recv_message [OF inv assms(2), of dst maxsize])
    fix ep' xs r assume r: "ipc_shm_recv (Some dst) maxsize (of_nat i) (Some ep) =
        (if length xs > length dst then None else Some (Some ep', Some (mem_write dst 0 xs), r))" and "prefix bs xs"
    then have "length xs > length dst" using assms(3) prefix_length_le [of bs xs] by simp
    then show ?thesis using r by simp
  qed
qed

lemma ipc_sent_ex: "\<exists>ep. ipc_send_op 0 (replicate 128 104) ipc_ep_ex = Some (ep, True) \<and> ipc_rel 7 512 ep [0 \<mapsto> replicate 128 104] 6"
  using ipc.send_space [OF ipc_rel_ex, of 0 "replicate 128 104"] by (simp add: ipc_cost_ex ipc_fits_def)

theorem ipc_recv_overruns_witness:
  "\<exists>ep. ipc_send_op 0 (replicate 128 104) ipc_ep_ex = Some (ep, True) \<and> ipc_rel 7 512 ep [0 \<mapsto> replicate 128 104] 6 \<and>
    ipc_shm_recv (Some (replicate 32 0)) 32 (of_nat 0) (Some ep) = None"
proof -
  obtain ep where "ipc_send_op 0 (replicate 128 104) ipc_ep_ex = Some (ep, True)" and rel: "ipc_rel 7 512 ep [0 \<mapsto> replicate 128 104] 6"
    using ipc_sent_ex by blast
  moreover have "ipc_shm_recv (Some (replicate 32 0)) 32 (of_nat 0) (Some ep) = None"
    by (rule ipc_recv_overruns [OF rel, where bs = "replicate 128 104"]) simp_all
  ultimately show ?thesis by blast
qed

subsection \<open>Messages of one byte and of none\<close>

abbreviation ipc_tag :: "u8 \<Rightarrow> u8 \<Rightarrow> u32" where
  "ipc_tag l e \<equiv> ucast (msgtag_make l 0 e)"

definition ep_send1 :: "nat \<Rightarrow> u8 \<Rightarrow> ipc_ep \<Rightarrow> ipc_ep" where
  "ep_send1 i x ep = (let h = shm ep; s = unat (slist h) in
     ep\<lparr>shm := h\<lparr>slist := next_buf_idx h s, slist_len := slist_len h - 1, msg_count := (msg_count h)(s := 1),
          que := (que h)(unat (userbufsize h) * s := x)\<rparr>, g_tag := (g_tag ep)(i := ipc_tag 1 (slist h))\<rparr>)"

definition ep_send0 :: "nat \<Rightarrow> ipc_ep \<Rightarrow> ipc_ep" where
  "ep_send0 i ep = (let h = shm ep; s = unat (slist h) in
     ep\<lparr>shm := h\<lparr>msg_count := (msg_count h)(s := 0)\<rparr>, g_tag := (g_tag ep)(i := ipc_tag 0 (slist h))\<rparr>)"

definition ep_free1 :: "u8 \<Rightarrow> ipc_ep \<Rightarrow> ipc_ep" where
  "ep_free1 s ep = (let h = shm ep in
     ep\<lparr>shm := h\<lparr>next_buf_idx := (next_buf_idx h)(unat s := slist h), slist := s, slist_len := slist_len h + 1\<rparr>\<rparr>)"

text \<open>Buffer \<open>s\<close> lies in the array and in the shared memory.\<close>

definition buf_in :: "u8 \<Rightarrow> ipc_ep \<Rightarrow> bool" where
  "buf_in s ep \<longleftrightarrow> unat s < 252 \<and> 0 < unat (userbufsize (shm ep)) \<and> unat (userbufsize (shm ep)) * Suc (unat s) \<le> que_len (shm ep)"

lemma setb_single: "setb f a [x] = f(a := x)"
  by (auto simp: setb_def fun_eq_iff)

lemma send1:
  assumes "buf_in (slist (shm ep)) ep" and "slist_len (shm ep) \<noteq> 0" and "i < 128"
  shows "ipc_send_op i [x] ep = Some (ep_send1 i x ep, True)"
proof -
  let ?h = "shm ep" and ?s = "slist (shm ep)" and ?bz = "unat (userbufsize (shm ep))"
  have b: "unat ?s < 252" "0 < ?bz" "?bz * unat ?s + 1 \<le> que_len ?h" using assms(1) by (simp_all add: buf_in_def)
  have "0 < unat (slist_len ?h)" using assms(2) by (simp add: unat_gt_0)
  then have "ipc_shm_send_data [x] ?h = Some (shm (ep_send1 i x ep), ipc_tag 1 ?s)"
    using b by (simp add: ipc_shm_send_data_def seq_out_static_list_def Let_def setb_single ep_send1_def)
  note run = send_with_tag(1) [OF this _ slot_idx [OF assms(3)] assms(3) tag_not_error]
  show ?thesis using run tag_not_error by (simp add: ipc_send_op_def ep_send1_def Let_def)
qed

lemma send0:
  assumes "buf_in (slist (shm ep)) ep" and "i < 128"
  shows "ipc_send_op i [] ep = Some (ep_send0 i ep, True)"
proof -
  let ?h = "shm ep" and ?s = "slist (shm ep)" and ?bz = "unat (userbufsize (shm ep))"
  have b: "unat ?s < 252" "0 < ?bz" using assms(1) by (simp_all add: buf_in_def)
  then have "ipc_shm_send_data [] ?h = Some (shm (ep_send0 i ep), ipc_tag 0 ?s)"
    by (simp add: ipc_shm_send_data_def seq_out_static_list_def Let_def ep_send0_def)
  note run = send_with_tag(1) [OF this _ slot_idx [OF assms(2)] assms(2) tag_not_error]
  show ?thesis using run tag_not_error by (simp add: ipc_send_op_def ep_send0_def Let_def)
qed

lemma recv1:
  assumes "buf_in s ep" and "i < 128" and "g_tag ep i = ipc_tag l s" and "msg_count (shm ep) (unat s) = 1" and "l \<le> 1"
  shows "\<exists>xs. ipc_recv_op i ep = Some (ep_free1 s ep, xs) \<and> (l = 1 \<longrightarrow> (\<exists>zs. xs = que (shm ep) (unat (userbufsize (shm ep)) * unat s) # zs))"
proof -
  let ?h = "shm ep" and ?bz = "unat (userbufsize (shm ep))"
  have b: "unat s < 252" "0 < ?bz" "?bz * unat s + ?bz \<le> que_len ?h" using assms(1) by (simp_all add: buf_in_def)
  have bz16: "?bz < 2 ^ 16" using unsigned_less [of "userbufsize ?h"] by simp
  have l: "l = 0 \<or> l = 1" using assms(5) by (metis word_le_0_iff word_le_sub1 nle_le diff_self eq_iff_diff_eq_0 word_not_simps(1))
  define n where "n = (if l = 0 then 0 else min 8 ?bz)"
  let ?xs = "map (\<lambda>j. que ?h (?bz * unat s + j)) [0..<n]"
  have cmp: "(8 :: u64) > of_nat ?bz \<longleftrightarrow> 8 > ?bz" using bz16 by (simp add: word_less_nat_alt unsigned_ucast_eq take_bit_nat_eq_self)
  have cp: "recv_copy (Suc 0) (unat s) (unat s) (ucast l * 8) 0 dst ?h = Some (mem_write dst 0 ?xs, unat s)" if "8 \<le> length dst" for dst
    using l b cmp that by (auto simp: n_def min_def Let_def)
  have "ipc_shm_recv_data (replicate 2040 0) (g_tag ep i) 2040 ?h = Some (shm (ep_free1 s ep), mem_write (replicate 2040 0) 0 ?xs, ucast (ucast l * 8 :: u64))"
    using b(1) by (simp add: ipc_shm_recv_data_def assms(3,4) tag_roundtrip cp seq_in_static_list_def ep_free1_def Let_def del: recv_copy.simps)
  moreover have "get_tag (scast (of_nat i :: u8)) ep = Some (g_tag ep i)" unfolding get_tag_def slot_idx [OF assms(2)] using assms(2) by simp
  ultimately have "ipc_recv_op i ep = Some (ep_free1 s ep, take (unat (ucast (ucast l * 8 :: u64) :: u32)) (mem_write (replicate 2040 0) 0 ?xs))"
    using assms(3) tag_not_error by (simp add: ipc_recv_op_def ipc_shm_recv_def ep_free1_def Let_def)
  moreover have "take 8 (mem_write (replicate 2040 0) 0 ?xs) = que ?h (?bz * unat s) # drop 1 (take 8 (mem_write (replicate 2040 0) 0 ?xs))" if "l = 1"
  proof -
    have "[0..<n] = 0 # [1..<n]" using that b(2) by (simp add: n_def upt_conv_Cons)
    then show ?thesis by (simp add: mem_write_def)
  qed
  ultimately show ?thesis by auto
qed

lemma ep_fields [simp]:
  "userbufsize (shm (ep_send1 i x ep)) = userbufsize (shm ep)" "que_len (shm (ep_send1 i x ep)) = que_len (shm ep)"
  "slist (shm (ep_send1 i x ep)) = next_buf_idx (shm ep) (unat (slist (shm ep)))" "slist_len (shm (ep_send1 i x ep)) = slist_len (shm ep) - 1"
  "next_buf_idx (shm (ep_send1 i x ep)) = next_buf_idx (shm ep)" "msg_count (shm (ep_send1 i x ep)) = (msg_count (shm ep))(unat (slist (shm ep)) := 1)"
  "que (shm (ep_send1 i x ep)) = (que (shm ep))(unat (userbufsize (shm ep)) * unat (slist (shm ep)) := x)"
  "g_tag (ep_send1 i x ep) = (g_tag ep)(i := ipc_tag 1 (slist (shm ep)))"
  "userbufsize (shm (ep_send0 i ep)) = userbufsize (shm ep)" "que_len (shm (ep_send0 i ep)) = que_len (shm ep)"
  "slist (shm (ep_send0 i ep)) = slist (shm ep)" "slist_len (shm (ep_send0 i ep)) = slist_len (shm ep)"
  "next_buf_idx (shm (ep_send0 i ep)) = next_buf_idx (shm ep)" "g_tag (ep_send0 i ep) = (g_tag ep)(i := ipc_tag 0 (slist (shm ep)))"
  "userbufsize (shm (ep_free1 s ep)) = userbufsize (shm ep)" "que_len (shm (ep_free1 s ep)) = que_len (shm ep)"
  "slist (shm (ep_free1 s ep)) = s" "slist_len (shm (ep_free1 s ep)) = slist_len (shm ep) + 1"
  "next_buf_idx (shm (ep_free1 s ep)) = (next_buf_idx (shm ep))(unat s := slist (shm ep))" "msg_count (shm (ep_free1 s ep)) = msg_count (shm ep)"
  "que (shm (ep_free1 s ep)) = que (shm ep)" "g_tag (ep_free1 s ep) = g_tag ep"
  by (simp_all add: ep_send1_def ep_send0_def ep_free1_def Let_def)

lemma buf_in_same [simp]:
  "buf_in s (ep_send1 i x ep) = buf_in s ep" "buf_in s (ep_send0 i ep) = buf_in s ep" "buf_in s (ep_free1 t ep) = buf_in s ep"
  by (simp_all add: buf_in_def)

text \<open>The buffer of a message of one byte.\<close>

lemma one_byte_buffer:
  assumes "ipc_inv n bz ep m fs ch" and "m i = Some [a]"
  shows "\<exists>s. buf_in s ep \<and> i < 128 \<and> g_tag ep i = ipc_tag 1 s \<and> msg_count (shm ep) (unat s) = 1 \<and> length fs < 252"
proof -
  note v = ipc_invD [OF assms(1)]
  have o: "i < 128" "msg_ok bz (shm ep) (g_tag ep i) (ch i) [a]" "set (ch i) \<subseteq> {..<n}" "set (ch i) \<inter> set fs = {}" using v(9) [OF assms(2)] by blast+
  have ok: "length (ch i) = ipc_cost bz [a]" "unat (msg_count (shm ep) (hd (ch i))) = length (ch i)" "g_tag ep i = ipc_tag (of_nat (ipc_len [a])) (of_nat (hd (ch i)))"
    using o(2) unfolding msg_ok_def by blast+
  have "ipc_cost k [a] = 1" if "0 < k" for k using that by (simp add: ipc_cost_def)
  then have cost: "ipc_cost bz [a] = 1" "ipc_len [a] = 1" using v(2) by simp_all
  have "length (ch i) = 1" unfolding ok(1) by (rule cost(1))
  then obtain c where c: "ch i = [c]" by (auto simp: length_Suc_conv)
  have lt: "c < n" "c \<notin> set fs" using o(3,4) unfolding c by simp_all
  have u: "unat (of_nat c :: u8) = c" using v(1) lt(1) by (intro small_u8) simp
  have "bz * Suc c \<le> bz * n" using lt by (intro mult_le_mono2) simp
  then have "bz * Suc c \<le> que_len (shm ep)" using v(4) by (simp only: mult.commute [of bz n])
  then have "buf_in (of_nat c) ep" unfolding buf_in_def u v(3) using v(1,2) lt(1) by simp
  moreover have t: "g_tag ep i = ipc_tag 1 (of_nat c)" and mc: "unat (msg_count (shm ep) c) = unat (1 :: u8)"
    using ok(2,3) unfolding c cost(2) by simp_all
  moreover have "msg_count (shm ep) c = 1" by (rule word_unat_eq_iff [THEN iffD2, OF mc])
  moreover have "card (set (c # fs)) \<le> card {..<n}" by (rule card_mono) (use lt v(7) in auto)
  then have "length fs < 252" using v(1) lt(2) distinct_card [OF v(6)] by simp
  ultimately show ?thesis using o(1) by (intro exI [of _ "of_nat c :: u8"]) (simp only: u simp_thms)
qed

text \<open>
  (C38) The tag of a message stays when the message is received.  On every well-formed endpoint,
  receiving a message of one buffer twice puts its buffer on the list of free buffers twice; the
  next two messages share it, and the receiver of the first is given the second.
\<close>

theorem ipc_receive_twice:
  assumes "ipc_rel n bz ep m f" and "m i = Some [a]" and "j < 128" and "k < 128" and "distinct [i, j, k]"
  shows "\<exists>ep' xs ys zs. slots_run ipc_send_op ipc_recv_op [Recv i, Recv i, Send j [b], Send k [c], Recv j] ep =
     Some (ep', [Got xs, Got ys, Sent True, Sent True, Got (c # zs)])"
proof -
  obtain fs ch where inv: "ipc_inv n bz ep m fs ch" using assms(1) by (auto simp: ipc_rel_def)
  note v = ipc_invD [OF inv]
  obtain s where s: "buf_in s ep" "i < 128" "g_tag ep i = ipc_tag 1 s" "msg_count (shm ep) (unat s) = 1" "length fs < 252"
    using one_byte_buffer [OF inv assms(2)] by blast
  define ep1 where "ep1 = ep_free1 s (ep_free1 s ep)"
  define ep2 where "ep2 = ep_send1 k c (ep_send1 j b ep1)"
  obtain xs where r1: "ipc_recv_op i ep = Some (ep_free1 s ep, xs)" using recv1 [OF s(1-4)] by auto
  obtain ys where r2: "ipc_recv_op i (ep_free1 s ep) = Some (ep1, ys)" using recv1 [of s "ep_free1 s ep" i 1] s by (auto simp: ep1_def)
  have "unat (2 + slist_len (shm ep)) = 2 + length fs" "unat (1 + slist_len (shm ep)) = 1 + length fs"
    using v(8) s(5) by (simp_all add: unat_word_ariths)
  then have len: "2 + slist_len (shm ep) \<noteq> 0" "1 + slist_len (shm ep) \<noteq> 0" by (auto simp only: unsigned_0)
  have s1: "ipc_send_op j [b] ep1 = Some (ep_send1 j b ep1, True)" by (rule send1) (use s(1) len(1) assms(3) in \<open>simp_all add: ep1_def\<close>)
  have s2: "ipc_send_op k [c] (ep_send1 j b ep1) = Some (ep2, True)"
    unfolding ep2_def by (rule send1) (use s(1) len(2) assms(4) in \<open>simp_all add: ep1_def add.commute\<close>)
  have "\<exists>xs. ipc_recv_op j ep2 = Some (ep_free1 s ep2, xs) \<and> (1 = (1 :: u8) \<longrightarrow> (\<exists>zs. xs = que (shm ep2) (unat (userbufsize (shm ep2)) * unat s) # zs))"
    by (rule recv1) (use s(1) assms in \<open>simp_all add: ep2_def ep1_def\<close>)
  then obtain zs where r3: "ipc_recv_op j ep2 = Some (ep_free1 s ep2, c # zs)" by (auto simp: ep2_def ep1_def)
  show ?thesis by (simp add: r1 r2 s1 s2 r3)
qed

text \<open>
  A message without bytes takes no buffer, but its tag names the first free one.  When another
  message takes this buffer, receiving the empty message frees it, the next message is written over it, and
  the receiver of the first is given the second.
\<close>

theorem ipc_empty_message_frees:
  assumes "ipc_rel n bz ep m f" and "0 < f" and "i < 128" and "j < 128" and "k < 128" and "distinct [i, j, k]"
  shows "\<exists>ep' xs zs. slots_run ipc_send_op ipc_recv_op [Send i [], Send j [b], Recv i, Send k [c], Recv j] ep =
     Some (ep', [Sent True, Sent True, Got xs, Sent True, Got (c # zs)])"
proof -
  obtain fs ch where inv: "ipc_inv n bz ep m fs ch" and f: "f = length fs" using assms(1) by (auto simp: ipc_rel_def)
  note v = ipc_invD [OF inv]
  let ?s = "slist (shm ep)"
  have ne: "fs \<noteq> []" using f assms(2) by auto
  then have "unat ?s \<in> set fs" using bpath_hd [OF v(5)] by simp
  then have lt: "unat ?s < n" using v(7) by auto
  then have "bz * Suc (unat ?s) \<le> bz * n" by (intro mult_le_mono2) simp
  then have s: "buf_in ?s ep" using v(1-4) lt by (simp add: buf_in_def mult.commute)
  have len: "slist_len (shm ep) \<noteq> 0" using v(8) ne by (auto simp: word_unat_eq_iff)
  define ep1 where "ep1 = ep_send1 j b (ep_send0 i ep)"
  define ep2 where "ep2 = ep_send1 k c (ep_free1 ?s ep1)"
  have s1: "ipc_send_op i [] ep = Some (ep_send0 i ep, True)" by (rule send0) (use s assms in simp_all)
  have s2: "ipc_send_op j [b] (ep_send0 i ep) = Some (ep1, True)" unfolding ep1_def by (rule send1) (use s len assms in simp_all)
  obtain xs where r1: "ipc_recv_op i ep1 = Some (ep_free1 ?s ep1, xs)"
    using recv1 [of ?s ep1 i 0] s assms by (auto simp: ep1_def)
  have s3: "ipc_send_op k [c] (ep_free1 ?s ep1) = Some (ep2, True)"
    unfolding ep2_def by (rule send1) (use s len assms in \<open>simp_all add: ep1_def\<close>)
  have "\<exists>xs. ipc_recv_op j ep2 = Some (ep_free1 ?s ep2, xs) \<and> (1 = (1 :: u8) \<longrightarrow> (\<exists>zs. xs = que (shm ep2) (unat (userbufsize (shm ep2)) * unat ?s) # zs))"
    by (rule recv1) (use s assms in \<open>simp_all add: ep2_def ep1_def\<close>)
  then obtain zs where r2: "ipc_recv_op j ep2 = Some (ep_free1 ?s ep2, c # zs)" by (auto simp: ep2_def ep1_def)
  show ?thesis by (simp add: s1 s2 r1 s3 r2)
qed

theorem ipc_empty_message_frees_witness:
  "ipc_rel 7 512 ipc_ep_ex Map.empty 7 \<and>
   (\<exists>ep' xs zs. slots_run ipc_send_op ipc_recv_op [Send 0 [], Send 1 [10], Recv 0, Send 2 [20], Recv 1] ipc_ep_ex =
     Some (ep', [Sent True, Sent True, Got xs, Sent True, Got (20 # zs)]))"
  by (intro conjI ipc_rel_ex ipc_empty_message_frees [OF ipc_rel_ex]) simp_all

lemma ipc_sent1_ex: "\<exists>ep. ipc_send_op 0 [5] ipc_ep_ex = Some (ep, True) \<and> ipc_rel 7 512 ep [0 \<mapsto> [5]] 6"
  using ipc.send_space [OF ipc_rel_ex, of 0 "[5]"] by (simp add: ipc_cost_def ipc_fits_def)

theorem ipc_receive_twice_witness:
  "\<exists>ep. ipc_rel 7 512 ep [0 \<mapsto> [5]] 6 \<and>
     (\<exists>ep' xs ys zs. slots_run ipc_send_op ipc_recv_op [Recv 0, Recv 0, Send 1 [10], Send 2 [20], Recv 1] ep =
       Some (ep', [Got xs, Got ys, Sent True, Sent True, Got (20 # zs)]))"
proof -
  obtain ep where rel: "ipc_rel 7 512 ep [0 \<mapsto> [5]] 6" using ipc_sent1_ex by blast
  have "\<exists>ep' xs ys zs. slots_run ipc_send_op ipc_recv_op [Recv 0, Recv 0, Send 1 [10], Send 2 [20], Recv 1] ep =
       Some (ep', [Got xs, Got ys, Sent True, Sent True, Got (20 # zs)])"
    by (rule ipc_receive_twice [OF rel, of 0 5 1 2 10 20]) simp_all
  with rel show ?thesis by blast
qed

end
