(* ===== verification/Vdso_Sym.thy ===== *)
theory Vdso_Sym
  imports Interfaces
begin

text \<open>
  \<open>vdso_test/vdso_init/vdso_init.c\<close> and \<open>vdso.h\<close>: the lookup of a function in an ELF image that lies in
  memory.  The image is read through pointers that are computed from its own fields; reading outside the
  mapped memory is undefined behaviour (\<open>None\<close>), and so is the modulus by zero buckets.  A loop that
  follows the image without end has no result (\<open>None\<close>).  The offsets of the fields are those of the 64-bit structures of
  \<open>elf.h\<close>; \<open>ELF_BITS\<close> is 64, since \<open>unsigned long\<close> has 64 bits.
\<close>

section \<open>Memory and the structures of the image\<close>

text \<open>The bytes from \<open>m_lo\<close> to before \<open>m_hi\<close> are mapped.\<close>

record vmem =
  m_lo :: nat
  m_hi :: nat
  m_at :: "nat \<Rightarrow> u8"

definition mapped :: "vmem \<Rightarrow> ptr \<Rightarrow> nat \<Rightarrow> bool" where
  "mapped m a k \<longleftrightarrow> m_lo m \<le> unat a \<and> unat a + k \<le> m_hi m"

definition ld8 :: "vmem \<Rightarrow> ptr \<Rightarrow> u8 option" where
  "ld8 m a = (if mapped m a 1 then Some (m_at m (unat a)) else None)"

definition ld16 :: "vmem \<Rightarrow> ptr \<Rightarrow> u16 option" where
  "ld16 m a = (if mapped m a 2 then Some (rd16 (m_at m) (unat a)) else None)"

definition ld32 :: "vmem \<Rightarrow> ptr \<Rightarrow> u32 option" where
  "ld32 m a = (if mapped m a 4 then Some (rd32 (m_at m) (unat a)) else None)"

definition ld64 :: "vmem \<Rightarrow> ptr \<Rightarrow> u64 option" where
  "ld64 m a = (if mapped m a 8 then Some (rd64 (m_at m) (unat a)) else None)"

abbreviation (input) ELFCLASS64 :: u8 where "ELFCLASS64 \<equiv> 2"
abbreviation (input) PT_LOAD :: u32 where "PT_LOAD \<equiv> 1"
abbreviation (input) PT_DYNAMIC :: u32 where "PT_DYNAMIC \<equiv> 2"
abbreviation (input) DT_NULL :: u64 where "DT_NULL \<equiv> 0"
abbreviation (input) DT_HASH :: u64 where "DT_HASH \<equiv> 4"
abbreviation (input) DT_STRTAB :: u64 where "DT_STRTAB \<equiv> 5"
abbreviation (input) DT_SYMTAB :: u64 where "DT_SYMTAB \<equiv> 6"
abbreviation (input) DT_VERSYM :: u64 where "DT_VERSYM \<equiv> 0x6ffffff0"
abbreviation (input) DT_VERDEF :: u64 where "DT_VERDEF \<equiv> 0x6ffffffc"
abbreviation (input) STT_FUNC :: u8 where "STT_FUNC \<equiv> 2"
abbreviation (input) STB_GLOBAL :: u8 where "STB_GLOBAL \<equiv> 1"
abbreviation (input) STB_WEAK :: u8 where "STB_WEAK \<equiv> 2"

record vdso_info =
  valid :: int
  load_addr :: ptr
  load_offset :: u64
  symtab :: ptr
  symstrings :: ptr
  bucket :: ptr
  chain_tab :: ptr
  nbucket :: u32
  nchain :: u32
  versym :: ptr
  verdef :: ptr

section \<open>The hash of a name\<close>

text \<open>A name is the list of its bytes before the terminating zero.\<close>

definition elf_hash_step :: "u64 \<Rightarrow> u8 \<Rightarrow> u64" where
  "elf_hash_step h c =
     (let h = push_bit 4 h + ucast c;
          g = h AND 0xf0000000;
          h = (if g \<noteq> 0 then h XOR drop_bit 24 g else h)
      in h AND NOT g)"

definition elf_hash :: "u8 list \<Rightarrow> u64" where
  "elf_hash name = foldl elf_hash_step 0 name"

section \<open>Reading the headers\<close>

text \<open>The program headers from \<open>i\<close> on, \<open>k\<close> of them, with whether a loadable segment was found, the load offset and the dynamic table.\<close>

fun ph_loop :: "vmem \<Rightarrow> ptr \<Rightarrow> ptr \<Rightarrow> nat \<Rightarrow> nat \<Rightarrow> bool \<times> u64 \<times> ptr \<Rightarrow> (bool \<times> u64 \<times> ptr) option" where
  "ph_loop m base pt 0 i st = Some st"
| "ph_loop m base pt (Suc k) i (found_vaddr, lofs, dyn) = (let ph = pt + of_nat (56 * i) in do {
     p_type \<leftarrow> ld32 m ph;
     if p_type = PT_LOAD \<and> \<not> found_vaddr then do {
       p_offset \<leftarrow> ld64 m (ph + 8);
       p_vaddr \<leftarrow> ld64 m (ph + 16);
       ph_loop m base pt k (Suc i) (True, base + p_offset - p_vaddr, dyn)
     }
     else if p_type = PT_DYNAMIC then do {
       p_offset \<leftarrow> ld64 m (ph + 8);
       ph_loop m base pt k (Suc i) (found_vaddr, lofs, base + p_offset)
     }
     else ph_loop m base pt k (Suc i) (found_vaddr, lofs, dyn)
   })"

text \<open>One entry of the dynamic table.\<close>

definition dyn_entry :: "vmem \<Rightarrow> ptr \<Rightarrow> u64 \<Rightarrow> vdso_info \<times> ptr \<Rightarrow> (vdso_info \<times> ptr) option" where
  "dyn_entry m d tag st = (case st of (info, sysv_hash) \<Rightarrow>
     if tag = DT_STRTAB then do { p \<leftarrow> ld64 m (d + 8); Some (info\<lparr>symstrings := p + load_offset info\<rparr>, sysv_hash) }
     else if tag = DT_SYMTAB then do { p \<leftarrow> ld64 m (d + 8); Some (info\<lparr>symtab := p + load_offset info\<rparr>, sysv_hash) }
     else if tag = DT_HASH then do { p \<leftarrow> ld64 m (d + 8); Some (info, p + load_offset info) }
     else if tag = DT_VERSYM then do { p \<leftarrow> ld64 m (d + 8); Some (info\<lparr>versym := p + load_offset info\<rparr>, sysv_hash) }
     else if tag = DT_VERDEF then do { p \<leftarrow> ld64 m (d + 8); Some (info\<lparr>verdef := p + load_offset info\<rparr>, sysv_hash) }
     else Some (info, sysv_hash))"

partial_function (option) dyn_loop :: "vmem \<Rightarrow> ptr \<Rightarrow> nat \<Rightarrow> vdso_info \<times> ptr \<Rightarrow> (vdso_info \<times> ptr) option" where
  "dyn_loop m dyn i st = do {
     tag \<leftarrow> ld64 m (dyn + of_nat (16 * i));
     if tag = DT_NULL then Some st
     else do {
       st \<leftarrow> dyn_entry m (dyn + of_nat (16 * i)) tag st;
       dyn_loop m dyn (Suc i) st
     }
   }"

text \<open>The index \<open>nbucket + 2\<close> is computed in 32 bits.\<close>

definition hash_header :: "vmem \<Rightarrow> ptr \<Rightarrow> vdso_info \<Rightarrow> vdso_info option" where
  "hash_header m sysv_hash info = do {
     nb \<leftarrow> ld32 m sysv_hash;
     nc \<leftarrow> ld32 m (sysv_hash + 4);
     Some (info\<lparr>nbucket := nb, nchain := nc, bucket := sysv_hash + 8, chain_tab := sysv_hash + 4 * ucast (nb + 2), valid := 1\<rparr>)
   }"

definition vdso_init_from_sysinfo_ehdr :: "vmem \<Rightarrow> ptr \<Rightarrow> vdso_info \<Rightarrow> vdso_info option" where
  "vdso_init_from_sysinfo_ehdr m base info = do {
     let info = info\<lparr>valid := 0, load_addr := base\<rparr>;
     e_class \<leftarrow> ld8 m (base + 4);
     if e_class \<noteq> ELFCLASS64 then Some info
     else do {
       e_phoff \<leftarrow> ld64 m (base + 32);
       e_phnum \<leftarrow> ld16 m (base + 56);
       (found_vaddr, lofs, dyn) \<leftarrow> ph_loop m base (load_addr info + e_phoff) (unat e_phnum) 0 (False, load_offset info, NULL);
       let info = info\<lparr>load_offset := lofs\<rparr>;
       if \<not> found_vaddr \<or> dyn = NULL then Some info
       else do {
         (info, sysv_hash) \<leftarrow> dyn_loop m dyn 0 (info\<lparr>symstrings := NULL, symtab := NULL, versym := NULL, verdef := NULL\<rparr>, NULL);
         if symstrings info = NULL \<or> symtab info = NULL \<or> sysv_hash = NULL then Some info
         else do {
           let info = (if verdef info = NULL then info\<lparr>versym := NULL\<rparr> else info);
           hash_header m sysv_hash info
         }
       }
     }
   }"

section \<open>Looking up a symbol\<close>

text \<open>Whether \<open>strcmp\<close> of the name and the string at \<open>a\<close> is zero.\<close>

fun strcmp_eq :: "vmem \<Rightarrow> u8 list \<Rightarrow> ptr \<Rightarrow> bool option" where
  "strcmp_eq m [] a = do { b \<leftarrow> ld8 m a; Some (b = 0) }"
| "strcmp_eq m (c # cs) a = do { b \<leftarrow> ld8 m a; if b \<noteq> c then Some False else strcmp_eq m cs (a + 1) }"

definition sym_at :: "vdso_info \<Rightarrow> u32 \<Rightarrow> ptr" where
  "sym_at info c = symtab info + 24 * ucast c"

definition sym_matches :: "vmem \<Rightarrow> vdso_info \<Rightarrow> u8 list \<Rightarrow> ptr \<Rightarrow> bool option" where
  "sym_matches m info name symb = do {
     st_info \<leftarrow> ld8 m (symb + 4);
     if st_info AND 0xf \<noteq> STT_FUNC then Some False
     else if drop_bit 4 st_info \<noteq> STB_GLOBAL \<and> drop_bit 4 st_info \<noteq> STB_WEAK then Some False
     else do {
       st_shndx \<leftarrow> ld16 m (symb + 6);
       if st_shndx = 0 then Some False
       else do {
         st_name \<leftarrow> ld32 m symb;
         strcmp_eq m name (symstrings info + ucast st_name)
       }
     }
   }"

partial_function (option) sym_loop :: "vmem \<Rightarrow> vdso_info \<Rightarrow> u8 list \<Rightarrow> u32 \<Rightarrow> ptr option" where
  "sym_loop m info name c =
     (if c = 0 then Some NULL
      else do {
        found \<leftarrow> sym_matches m info name (sym_at info c);
        if found then do { v \<leftarrow> ld64 m (sym_at info c + 8); Some (load_offset info + v) }
        else do { c \<leftarrow> ld32 m (chain_tab info + 4 * ucast c); sym_loop m info name c }
      })"

definition vdso_lookup :: "vmem \<Rightarrow> vdso_info \<Rightarrow> u8 list \<Rightarrow> ptr option" where
  "vdso_lookup m info name =
     (if valid info = 0 then Some NULL
      else if nbucket info = 0 then None
      else do {
        c \<leftarrow> ld32 m (bucket info + 4 * (elf_hash name mod ucast (nbucket info)));
        sym_loop m info name c
      })"

text \<open>The structure on the stack that is used when the caller gives none.\<close>

definition vdso_tmp_info :: vdso_info where
  "vdso_tmp_info = \<lparr>valid = 0, load_addr = 0, load_offset = 0, symtab = 0, symstrings = 0, bucket = 0, chain_tab = 0,
     nbucket = 0, nchain = 0, versym = 0, verdef = 0\<rparr>"

text \<open>The result is the caller's structure and the address; the version is not looked at.\<close>

definition vdso_sym :: "vmem \<Rightarrow> ptr \<Rightarrow> u8 list option \<Rightarrow> vdso_info option \<Rightarrow> (vdso_info option \<times> ptr) option" where
  "vdso_sym m vdso_base name infop =
     (case name of
        None \<Rightarrow> Some (infop, NULL)
      | Some nm \<Rightarrow>
          if vdso_base = NULL \<and> infop = None then Some (infop, NULL)
          else do {
            let info = (case infop of None \<Rightarrow> vdso_tmp_info | Some info \<Rightarrow> info);
            info \<leftarrow> (if vdso_base \<noteq> NULL then vdso_init_from_sysinfo_ehdr m vdso_base info else Some info);
            r \<leftarrow> vdso_lookup m info nm;
            Some (map_option (\<lambda>_. info) infop, r)
          })"

section \<open>The hash of the ELF specification\<close>

text \<open>The specification computes in 32 bits.\<close>

definition elf_hash_spec_step :: "u32 \<Rightarrow> u8 \<Rightarrow> u32" where
  "elf_hash_spec_step h c =
     (let h = push_bit 4 h + ucast c;
          g = h AND 0xf0000000;
          h = (if g \<noteq> 0 then h XOR drop_bit 24 g else h)
      in h AND NOT g)"

definition elf_hash_spec :: "u8 list \<Rightarrow> u32" where
  "elf_hash_spec name = foldl elf_hash_spec_step 0 name"

lemma hash_mask: "(0xf0000000 :: u32) = push_bit 28 (mask 4)" "(0xf0000000 :: u64) = push_bit 28 (mask 4)"
  by (simp_all add: mask_eq_exp_minus_1 push_bit_eq_mult)

lemma unat_u8_less: "unat (c :: u8) < 256"
  using unsigned_less [of c] by simp

lemma hash_sum:
  assumes "16 * unat (h :: u32) + 255 < 2 ^ 32"
  shows "unat (push_bit 4 h + ucast c :: u32) = 16 * unat h + unat (c :: u8)" "push_bit 4 (ucast h) + ucast c = (ucast (push_bit 4 h + ucast c :: u32) :: u64)"
proof -
  have c: "unat c < 256" by (rule unat_u8_less)
  show s: "unat (push_bit 4 h + ucast c :: u32) = 16 * unat h + unat c"
    using assms c by (simp add: push_bit_eq_mult unat_word_ariths unsigned_ucast_eq take_bit_nat_eq_self)
  have "unat (push_bit 4 (ucast h) + ucast c :: u64) = 16 * unat h + unat c"
    using assms c by (simp add: push_bit_eq_mult unat_word_ariths unsigned_ucast_eq take_bit_nat_eq_self)
  moreover have "unat (ucast (push_bit 4 h + ucast c :: u32) :: u64) = 16 * unat h + unat c"
    using assms c s by (simp add: unsigned_ucast_eq take_bit_nat_eq_self)
  ultimately show "push_bit 4 (ucast h) + ucast c = (ucast (push_bit 4 h + ucast c :: u32) :: u64)"
    by (simp add: word_unat_eq_iff)
qed

lemma hash_step_agrees:
  assumes "16 * unat (h :: u32) + 255 < 2 ^ 32"
  shows "elf_hash_step (ucast h) c = ucast (elf_hash_spec_step h c)"
proof -
  define x where "x = push_bit 4 h + ucast c"
  have g: "(ucast x :: u64) AND 0xf0000000 = ucast (x AND 0xf0000000)"
    unfolding hash_mask by (rule bit_word_eqI) (auto simp: bit_simps)
  have z: "(ucast (x AND 0xf0000000) :: u64) = 0 \<longleftrightarrow> x AND 0xf0000000 = 0"
    using unat_lt_2p32 [of "x AND 0xf0000000"] by (simp add: word_unat_eq_iff unsigned_ucast_eq take_bit_nat_eq_self del: unat_lt_2p32)
  have "(ucast x XOR drop_bit 24 (ucast g) :: u64) AND NOT (ucast g) = ucast ((x XOR drop_bit 24 g) AND NOT g)"
    "(ucast x :: u64) AND NOT (ucast g) = ucast (x AND NOT g)" for g :: u32
    by (rule bit_word_eqI, auto simp: bit_simps dest: bit_imp_le_length)+
  then have f: "(if g = 0 then ucast x AND NOT (ucast g) else (ucast x XOR drop_bit 24 (ucast g) :: u64) AND NOT (ucast g)) =
      ucast (if g = 0 then x AND NOT g else (x XOR drop_bit 24 g) AND NOT g)" for g :: u32 by simp
  show ?thesis
    unfolding elf_hash_step_def elf_hash_spec_step_def hash_sum(2) [OF assms] x_def [symmetric] Let_def g z
    using f [of "x AND 0xf0000000"] by (cases "x AND 0xf0000000 = 0") (simp_all only: if_True if_False simp_thms)
qed

lemma hash_step_small:
  assumes "16 * unat (h :: u32) + unat (c :: u8) < 2 ^ 28"
  shows "unat (elf_hash_spec_step h c) = 16 * unat h + unat c"
proof -
  define x where "x = push_bit 4 h + ucast c"
  have u: "unat x = 16 * unat h + unat c" unfolding x_def by (rule hash_sum(1)) (use assms in simp)
  then have "take_bit 28 x = x" using assms by (simp add: word_unat_eq_iff unsigned_take_bit_eq take_bit_nat_eq_self)
  moreover have "take_bit 28 x AND push_bit 28 (mask 4) = 0" by (rule bit_word_eqI) (auto simp: bit_simps)
  ultimately have "x AND 0xf0000000 = 0" unfolding hash_mask by metis
  then show ?thesis unfolding elf_hash_spec_step_def x_def [symmetric] Let_def using u by simp
qed

lemma hash_short:
  assumes "length name \<le> 5"
  shows "unat (elf_hash_spec name) \<le> 17 * (16 ^ length name - 1) \<and> elf_hash name = ucast (elf_hash_spec name)"
  using assms
proof (induction name rule: rev_induct)
  case Nil
  then show ?case by (simp add: elf_hash_def elf_hash_spec_def)
next
  case (snoc c name)
  let ?h = "elf_hash_spec name"
  have c: "unat c < 256" by (rule unat_u8_less)
  have IH: "unat ?h \<le> 17 * (16 ^ length name - 1)" "elf_hash name = ucast ?h" using snoc by simp_all
  have "(16 :: nat) ^ length name \<le> 16 ^ 4" using snoc.prems by (intro power_increasing) auto
  then have b: "16 * unat ?h + 255 < 2 ^ 28" using IH(1) by simp
  have "unat (elf_hash_spec_step ?h c) = 16 * unat ?h + unat c" using b c by (intro hash_step_small) simp
  moreover have "16 * unat ?h + unat c \<le> 17 * (16 ^ length (name @ [c]) - 1)"
  proof -
    have "1 \<le> (16 :: nat) ^ length name" by simp
    then have "unat ?h + 17 \<le> 17 * 16 ^ length name" using IH(1) by linarith
    then show ?thesis using c by (simp add: diff_mult_distrib2)
  qed
  moreover have "elf_hash_step (ucast ?h) c = ucast (elf_hash_spec_step ?h c)" using b by (intro hash_step_agrees) simp
  ultimately show ?case using IH(2) by (simp add: elf_hash_def elf_hash_spec_def)
qed

lemma hash_six:
  assumes "length name \<le> 6"
  shows "elf_hash name = ucast (elf_hash_spec name)"
proof (cases name rule: rev_cases)
  case (snoc xs c)
  then have xs: "length xs \<le> 5" using assms by simp
  then have "(16 :: nat) ^ length xs \<le> 16 ^ 5" by (intro power_increasing) auto
  then have "16 * unat (elf_hash_spec xs) + 255 < 2 ^ 32" using hash_short [OF xs, THEN conjunct1] by (simp add: diff_mult_distrib2)
  from hash_step_agrees [OF this] show ?thesis using hash_short [OF xs] snoc by (simp add: elf_hash_def elf_hash_spec_def)
qed (simp add: elf_hash_def elf_hash_spec_def)

text \<open>
  (C25) The hash function is the one of the ELF specification for names of at most six bytes and for the names
  of the functions of the service.  For a longer name a carry out of the 32 bits of the
  specification can stay, since \<open>unsigned long\<close> has 64 bits: the seven bytes below have another hash.
\<close>

theorem elf_hash_spec_agrees:
  "(length name \<le> 6 \<longrightarrow> elf_hash name = ucast (elf_hash_spec name)) \<and>
   elf_hash (map of_char ''_kernel_get_info'') = ucast (elf_hash_spec (map of_char ''_kernel_get_info'')) \<and>
   elf_hash (map of_char ''_kernel_get_info_null'') = ucast (elf_hash_spec (map of_char ''_kernel_get_info_null'')) \<and>
   elf_hash [255, 15, 15, 15, 15, 15, 18] = 0x100000002 \<and> elf_hash_spec [255, 15, 15, 15, 15, 15, 18] = 2"
proof (intro conjI impI)
  show "elf_hash name = ucast (elf_hash_spec name)" if "length name \<le> 6" by (rule hash_six [OF that])
  show "elf_hash (map of_char ''_kernel_get_info'') = ucast (elf_hash_spec (map of_char ''_kernel_get_info''))"
    by code_simp
  show "elf_hash (map of_char ''_kernel_get_info_null'') = ucast (elf_hash_spec (map of_char ''_kernel_get_info_null''))"
    by code_simp
  show "elf_hash [255, 15, 15, 15, 15, 15, 18] = 0x100000002" by code_simp
  show "elf_hash_spec [255, 15, 15, 15, 15, 15, 18] = 2" by code_simp
qed

theorem elf_hash_spec_agrees_witness:
  "length [118, 100, 115, 111 :: u8] \<le> 6 \<and> elf_hash [118, 100, 115, 111] = ucast (elf_hash_spec [118, 100, 115, 111])"
  using elf_hash_spec_agrees [of "[118, 100, 115, 111]"] by simp

section \<open>Images in memory\<close>

fun cstring :: "vmem \<Rightarrow> ptr \<Rightarrow> u8 list \<Rightarrow> bool" where
  "cstring m a [] \<longleftrightarrow> ld8 m a = Some 0"
| "cstring m a (b # bs) \<longleftrightarrow> ld8 m a = Some b \<and> b \<noteq> 0 \<and> cstring m (a + 1) bs"

record elf_sym =
  sy_name :: "u8 list"
  sy_info :: u8
  sy_shndx :: u16
  sy_value :: u64

text \<open>The symbols a lookup may return: defined global or weak functions.\<close>

definition exported :: "elf_sym \<Rightarrow> bool" where
  "exported sy \<longleftrightarrow> sy_info sy AND 0xf = STT_FUNC \<and> (drop_bit 4 (sy_info sy) = STB_GLOBAL \<or> drop_bit 4 (sy_info sy) = STB_WEAK) \<and>
     sy_shndx sy \<noteq> 0"

definition sym_in :: "vmem \<Rightarrow> vdso_info \<Rightarrow> ptr \<Rightarrow> elf_sym \<Rightarrow> bool" where
  "sym_in m info a sy \<longleftrightarrow> ld8 m (a + 4) = Some (sy_info sy) \<and> ld16 m (a + 6) = Some (sy_shndx sy) \<and> ld64 m (a + 8) = Some (sy_value sy) \<and>
     (case ld32 m a of None \<Rightarrow> False | Some off \<Rightarrow> cstring m (symstrings info + ucast off) (sy_name sy))"

text \<open>The indices on the chain that starts with \<open>c\<close>.\<close>

fun on_chain :: "vmem \<Rightarrow> vdso_info \<Rightarrow> u32 \<Rightarrow> nat list \<Rightarrow> bool" where
  "on_chain m info c [] \<longleftrightarrow> c = 0"
| "on_chain m info c (i # is) \<longleftrightarrow> c \<noteq> 0 \<and> unat c = i \<and>
     (case ld32 m (chain_tab info + 4 * ucast c) of None \<Rightarrow> False | Some c' \<Rightarrow> on_chain m info c' is)"

text \<open>
  The symbol table \<open>syms\<close> with its hash table, as a linker lays it out: \<open>chs ! b\<close> is the chain of bucket \<open>b\<close>, and it has
  every exported symbol whose hash by the specification falls into the bucket.  The symbol with index 0 is undefined.
\<close>

definition sym_index :: "vmem \<Rightarrow> vdso_info \<Rightarrow> elf_sym list \<Rightarrow> nat list list \<Rightarrow> bool" where
  "sym_index m info syms chs \<longleftrightarrow> syms \<noteq> [] \<and> \<not> exported (syms ! 0) \<and>
     nbucket info \<noteq> 0 \<and> length chs = unat (nbucket info) \<and>
     (\<forall>i < length syms. sym_in m info (sym_at info (of_nat i)) (syms ! i)) \<and>
     (\<forall>b < length chs. (case ld32 m (bucket info + 4 * of_nat b) of None \<Rightarrow> False | Some c \<Rightarrow> on_chain m info c (chs ! b))) \<and>
     (\<forall>b < length chs. list_all (\<lambda>i. i < length syms) (chs ! b)) \<and>
     (\<forall>i < length syms. exported (syms ! i) \<longrightarrow> i \<in> set (chs ! (unat (elf_hash_spec (sy_name (syms ! i))) mod length chs)))"

lemma strcmp_spec: "cstring m a bs \<Longrightarrow> 0 \<notin> set name \<Longrightarrow> strcmp_eq m name a = Some (bs = name)"
proof (induction name arbitrary: a bs)
  case Nil
  then show ?case by (cases bs) auto
next
  case (Cons c name)
  then show ?case by (cases bs) auto
qed

lemma sym_matches_spec:
  "sym_in m info a sy \<Longrightarrow> 0 \<notin> set name \<Longrightarrow> sym_matches m info name a = Some (exported sy \<and> sy_name sy = name)"
  by (auto simp: sym_in_def sym_matches_def exported_def strcmp_spec split: option.splits)

definition sym_result :: "vdso_info \<Rightarrow> elf_sym list \<Rightarrow> u8 list \<Rightarrow> nat list \<Rightarrow> ptr" where
  "sym_result info syms name is =
     (case filter (\<lambda>i. exported (syms ! i) \<and> sy_name (syms ! i) = name) is of
        [] \<Rightarrow> NULL
      | i # _ \<Rightarrow> load_offset info + sy_value (syms ! i))"

lemma sym_loop_spec:
  assumes "on_chain m info c is" and "set is \<subseteq> {..<length syms}" and "0 \<notin> set name"
    and "\<forall>i < length syms. sym_in m info (sym_at info (of_nat i)) (syms ! i)"
  shows "sym_loop m info name c = Some (sym_result info syms name is)"
  using assms(1,2)
proof (induction "is" arbitrary: c)
  case Nil
  then show ?case by (simp add: sym_loop.simps sym_result_def)
next
  case (Cons i "is")
  have c: "c \<noteq> 0" "unat c = i" using Cons.prems(1) by simp_all
  then have cn: "c = of_nat i" by auto
  have s: "sym_in m info (sym_at info c) (syms ! i)" using assms(4) Cons.prems(2) unfolding cn by simp
  show ?case
  proof (cases "exported (syms ! i) \<and> sy_name (syms ! i) = name")
    case True
    then show ?thesis using c(1) s sym_matches_spec [OF s assms(3)]
      by (subst sym_loop.simps) (simp add: sym_result_def sym_in_def)
  next
    case False
    then have "sym_loop m info name c = do { c \<leftarrow> ld32 m (chain_tab info + 4 * ucast c); sym_loop m info name c }"
      using c(1) sym_matches_spec [OF s assms(3)] by (subst sym_loop.simps) auto
    moreover obtain c' where "ld32 m (chain_tab info + 4 * ucast c) = Some c'" "on_chain m info c' is" using Cons.prems(1) by (auto split: option.splits)
    moreover have "sym_result info syms name (i # is) = sym_result info syms name is" using False by (auto simp: sym_result_def)
    ultimately show ?thesis using Cons.IH Cons.prems(2) by simp
  qed
qed

lemma bucket_index:
  assumes "elf_hash name = ucast (elf_hash_spec name)"
  shows "elf_hash name mod ucast n = of_nat (unat (elf_hash_spec name) mod unat (n :: u32))"
proof -
  have "unat (ucast w :: u64) = unat w" for w :: u32
    using unat_lt_2p32 [of w] by (simp add: unsigned_ucast_eq take_bit_nat_eq_self del: unat_lt_2p32)
  moreover have "unat (elf_hash_spec name) mod unat n < 2 ^ 64"
    by (rule order_le_less_trans [OF mod_less_eq_dividend]) (rule less_trans [OF unat_lt_2p32], simp)
  ultimately show ?thesis unfolding assms by (simp add: word_unat_eq_iff unat_mod unat_of_nat)
qed

lemma vdso_lookup_spec:
  assumes "valid info \<noteq> 0" and "sym_index m info syms chs" and "0 \<notin> set name" and "elf_hash name = ucast (elf_hash_spec name)"
  defines "P \<equiv> \<lambda>i. i < length syms \<and> exported (syms ! i) \<and> sy_name (syms ! i) = name"
  shows "\<exists>r. vdso_lookup m info name = Some r \<and>
    (if \<exists>i. P i then \<exists>i. P i \<and> r = load_offset info + sy_value (syms ! i) else r = NULL)"
proof -
  define b where "b = unat (elf_hash_spec name) mod unat (nbucket info)"
  let ?is = "chs ! b" and ?Q = "\<lambda>i. exported (syms ! i) \<and> sy_name (syms ! i) = name"
  have ix: "nbucket info \<noteq> 0" "length chs = unat (nbucket info)" "\<forall>i < length syms. sym_in m info (sym_at info (of_nat i)) (syms ! i)"
    "\<forall>b < length chs. (case ld32 m (bucket info + 4 * of_nat b) of None \<Rightarrow> False | Some c \<Rightarrow> on_chain m info c (chs ! b))"
    "\<forall>b < length chs. list_all (\<lambda>i. i < length syms) (chs ! b)"
    "\<forall>i < length syms. exported (syms ! i) \<longrightarrow> i \<in> set (chs ! (unat (elf_hash_spec (sy_name (syms ! i))) mod length chs))"
    using assms(2) unfolding sym_index_def by blast+
  have b: "b < length chs" using ix(1,2) by (simp add: b_def unat_gt_0)
  then obtain c where c: "ld32 m (bucket info + 4 * of_nat b) = Some c" "on_chain m info c ?is" using ix(4) by (auto split: option.splits)
  have sub: "set ?is \<subseteq> {..<length syms}" using ix(5) b by (auto simp: list_all_iff)
  have run: "vdso_lookup m info name = Some (sym_result info syms name ?is)"
    unfolding vdso_lookup_def bucket_index [OF assms(4)] b_def [symmetric]
    using assms(1) ix(1) c(1) sym_loop_spec [OF c(2) sub assms(3) ix(3)] by simp
  show ?thesis
  proof (cases "filter ?Q ?is")
    case Nil
    have "\<not> P i" for i
    proof
      assume "P i"
      then have "i \<in> set ?is" "?Q i" using ix(2,6) unfolding P_def b_def by auto
      then show False using Nil by (auto simp: filter_empty_conv)
    qed
    then show ?thesis using run Nil by (auto simp: sym_result_def)
  next
    case (Cons i js)
    then have "i \<in> set (filter ?Q ?is)" by simp
    then have "P i" using sub unfolding P_def by auto
    then show ?thesis using run Cons by (auto simp: sym_result_def)
  qed
qed

section \<open>The headers of an image\<close>

text \<open>A program header is its type, offset and address; an entry of the dynamic table its tag and value.\<close>

definition ph_at :: "vmem \<Rightarrow> ptr \<Rightarrow> u32 \<times> u64 \<times> u64 \<Rightarrow> bool" where
  "ph_at m a ph \<longleftrightarrow> ld32 m a = Some (fst ph) \<and> ld64 m (a + 8) = Some (fst (snd ph)) \<and> ld64 m (a + 16) = Some (snd (snd ph))"

definition dyn_at :: "vmem \<Rightarrow> ptr \<Rightarrow> u64 \<times> u64 \<Rightarrow> bool" where
  "dyn_at m a d \<longleftrightarrow> ld64 m a = Some (fst d) \<and> fst d \<noteq> DT_NULL \<and> ld64 m (a + 8) = Some (snd d)"

text \<open>The first and the last entry of a list with a given key.\<close>

fun first_val :: "'k \<Rightarrow> ('k \<times> 'v) list \<Rightarrow> 'v option" where
  "first_val k [] = None"
| "first_val k (x # xs) = (if fst x = k then Some (snd x) else first_val k xs)"

definition last_val :: "'k \<Rightarrow> ('k \<times> 'v) list \<Rightarrow> 'v option" where
  "last_val k xs = first_val k (rev xs)"

lemma last_val_Nil [simp]: "last_val k [] = None"
  by (simp add: last_val_def)

lemma first_val_append: "first_val k (xs @ ys) = (case first_val k xs of None \<Rightarrow> first_val k ys | Some v \<Rightarrow> Some v)"
  by (induction xs) auto

lemma last_val_Cons: "last_val k (x # xs) = (case last_val k xs of None \<Rightarrow> if fst x = k then Some (snd x) else None | Some v \<Rightarrow> Some v)"
  by (simp add: last_val_def first_val_append split: option.split)

lemma ph_loop_spec:
  assumes "\<forall>j < length phs. ph_at m (pt + of_nat (56 * (i + j))) (phs ! j)"
  shows "ph_loop m base pt (length phs) i (f, l, d) = Some
    (f \<or> first_val PT_LOAD phs \<noteq> None,
     if f then l else (case first_val PT_LOAD phs of None \<Rightarrow> l | Some (off, va) \<Rightarrow> base + off - va),
     case last_val PT_DYNAMIC phs of None \<Rightarrow> d | Some (off, va) \<Rightarrow> base + off)"
  using assms
proof (induction phs arbitrary: i f l d)
  case (Cons ph phs)
  have "\<forall>j < length phs. ph_at m (pt + of_nat (56 * (Suc i + j))) (phs ! j)"
  proof (intro allI impI)
    fix j assume "j < length phs"
    then show "ph_at m (pt + of_nat (56 * (Suc i + j))) (phs ! j)" using Cons.prems [rule_format, of "Suc j"] by simp
  qed
  note IH = Cons.IH [OF this]
  have h: "ph_at m (pt + of_nat (56 * i)) ph" using Cons.prems [rule_format, of 0] by simp
  obtain ty off va where ph: "ph = (ty, off, va)" by (cases ph) auto
  show ?case using h IH unfolding ph
    by (auto simp: ph_at_def last_val_Cons split: option.splits simp del: of_nat_mult)
qed simp

text \<open>What the dynamic table says about one tag, relative to the load offset.\<close>

definition dyn_ptr :: "(u64 \<times> u64) list \<Rightarrow> u64 \<Rightarrow> u64 \<Rightarrow> ptr \<Rightarrow> ptr" where
  "dyn_ptr ds lofs tag old = (case last_val tag ds of None \<Rightarrow> old | Some p \<Rightarrow> p + lofs)"

definition dyn_result :: "(u64 \<times> u64) list \<Rightarrow> vdso_info \<times> ptr \<Rightarrow> vdso_info \<times> ptr" where
  "dyn_result ds st = (let info = fst st; p = dyn_ptr ds (load_offset info) in
     (info\<lparr>symstrings := p DT_STRTAB (symstrings info), symtab := p DT_SYMTAB (symtab info),
        versym := p DT_VERSYM (versym info), verdef := p DT_VERDEF (verdef info)\<rparr>,
      p DT_HASH (snd st)))"

lemma dyn_entry_spec:
  assumes "dyn_at m a d"
  shows "\<exists>st'. dyn_entry m a (fst d) st = Some st' \<and> dyn_result ds st' = dyn_result (d # ds) st"
proof -
  have v: "ld64 m (a + 8) = Some (snd d)" using assms by (simp add: dyn_at_def)
  obtain info h where st: "st = (info, h)" by (cases st)
  note simps = dyn_entry_def dyn_result_def dyn_ptr_def last_val_Cons Let_def st v
  consider "fst d = DT_STRTAB" | "fst d = DT_SYMTAB" | "fst d = DT_HASH" | "fst d = DT_VERSYM" | "fst d = DT_VERDEF"
    | "fst d \<noteq> DT_STRTAB" "fst d \<noteq> DT_SYMTAB" "fst d \<noteq> DT_HASH" "fst d \<noteq> DT_VERSYM" "fst d \<noteq> DT_VERDEF" by blast
  then show ?thesis by cases (simp_all add: simps split: option.split)
qed

lemma dyn_loop_spec:
  assumes "\<forall>j < length ds. dyn_at m (dyn + of_nat (16 * (i + j))) (ds ! j)"
    and "ld64 m (dyn + of_nat (16 * (i + length ds))) = Some DT_NULL"
  shows "dyn_loop m dyn i st = Some (dyn_result ds st)"
  using assms
proof (induction ds arbitrary: i st)
  case Nil
  then show ?case by (subst dyn_loop.simps) (cases st, simp add: dyn_result_def dyn_ptr_def Let_def)
next
  case (Cons d ds)
  have d: "dyn_at m (dyn + of_nat (16 * i)) d" using Cons.prems(1) [rule_format, of 0] by simp
  obtain st' where e: "dyn_entry m (dyn + of_nat (16 * i)) (fst d) st = Some st'" "dyn_result ds st' = dyn_result (d # ds) st"
    using dyn_entry_spec [OF d] by blast
  have "\<forall>j < length ds. dyn_at m (dyn + of_nat (16 * (Suc i + j))) (ds ! j)"
  proof (intro allI impI)
    fix j assume "j < length ds"
    then show "dyn_at m (dyn + of_nat (16 * (Suc i + j))) (ds ! j)" using Cons.prems(1) [rule_format, of "Suc j"] by simp
  qed
  moreover have "ld64 m (dyn + of_nat (16 * (Suc i + length ds))) = Some DT_NULL" using Cons.prems(2) by simp
  ultimately have "dyn_loop m dyn (Suc i) st' = Some (dyn_result ds st')" by (rule Cons.IH)
  then show ?case using d e by (subst dyn_loop.simps) (simp add: dyn_at_def del: of_nat_mult)
qed

text \<open>
  The tables of an image at \<open>base\<close> with the program headers \<open>phs\<close>, the dynamic table \<open>ds\<close> and the header \<open>nb\<close>, \<open>nc\<close> of its hash
  table: the first loadable segment gives the load offset, the last dynamic segment the dynamic table, and the last
  entry with a tag its address.
\<close>

definition elf_lofs :: "ptr \<Rightarrow> (u32 \<times> u64 \<times> u64) list \<Rightarrow> u64" where
  "elf_lofs base phs = (case first_val PT_LOAD phs of None \<Rightarrow> 0 | Some (off, va) \<Rightarrow> base + off - va)"

definition elf_dyn :: "ptr \<Rightarrow> (u32 \<times> u64 \<times> u64) list \<Rightarrow> ptr" where
  "elf_dyn base phs = (case last_val PT_DYNAMIC phs of None \<Rightarrow> NULL | Some (off, va) \<Rightarrow> base + off)"

definition elf_tables :: "ptr \<Rightarrow> (u32 \<times> u64 \<times> u64) list \<Rightarrow> (u64 \<times> u64) list \<Rightarrow> u32 \<Rightarrow> u32 \<Rightarrow> vdso_info" where
  "elf_tables base phs ds nb nc = (let lofs = elf_lofs base phs; p = (\<lambda>tag. dyn_ptr ds lofs tag NULL) in
     \<lparr>valid = 1, load_addr = base, load_offset = lofs, symtab = p DT_SYMTAB, symstrings = p DT_STRTAB,
      bucket = p DT_HASH + 8, chain_tab = p DT_HASH + 4 * ucast (nb + 2), nbucket = nb, nchain = nc,
      versym = (if p DT_VERDEF = NULL then NULL else p DT_VERSYM), verdef = p DT_VERDEF\<rparr>)"

definition elf_image :: "vmem \<Rightarrow> ptr \<Rightarrow> (u32 \<times> u64 \<times> u64) list \<Rightarrow> (u64 \<times> u64) list \<Rightarrow> u32 \<Rightarrow> u32 \<Rightarrow> bool" where
  "elf_image m base phs ds nb nc \<longleftrightarrow> (let dyn = elf_dyn base phs; p = (\<lambda>tag. dyn_ptr ds (elf_lofs base phs) tag NULL) in
     ld8 m (base + 4) = Some ELFCLASS64 \<and> ld16 m (base + 56) = Some (of_nat (length phs)) \<and> length phs < 2 ^ 16 \<and>
     (case ld64 m (base + 32) of None \<Rightarrow> False | Some phoff \<Rightarrow> \<forall>i < length phs. ph_at m (base + phoff + of_nat (56 * i)) (phs ! i)) \<and>
     first_val PT_LOAD phs \<noteq> None \<and> dyn \<noteq> NULL \<and>
     (\<forall>i < length ds. dyn_at m (dyn + of_nat (16 * i)) (ds ! i)) \<and> ld64 m (dyn + of_nat (16 * length ds)) = Some DT_NULL \<and>
     p DT_STRTAB \<noteq> NULL \<and> p DT_SYMTAB \<noteq> NULL \<and> p DT_HASH \<noteq> NULL \<and> ld32 m (p DT_HASH) = Some nb \<and> ld32 m (p DT_HASH + 4) = Some nc)"

lemma vdso_init_spec:
  assumes "elf_image m base phs ds nb nc"
  shows "vdso_init_from_sysinfo_ehdr m base info = Some (elf_tables base phs ds nb nc)"
proof -
  let ?l = "elf_lofs base phs" and ?dyn = "elf_dyn base phs"
  let ?p = "\<lambda>tag. dyn_ptr ds (elf_lofs base phs) tag NULL"
  obtain phoff where off: "ld64 m (base + 32) = Some phoff" "\<forall>i < length phs. ph_at m (base + phoff + of_nat (56 * i)) (phs ! i)"
    using assms by (auto simp: elf_image_def Let_def split: option.splits)
  have im: "ld8 m (base + 4) = Some ELFCLASS64" "ld16 m (base + 56) = Some (of_nat (length phs))" "length phs < 2 ^ 16"
    "first_val PT_LOAD phs \<noteq> None" "?dyn \<noteq> NULL"
    "\<forall>i < length ds. dyn_at m (?dyn + of_nat (16 * i)) (ds ! i)" "ld64 m (?dyn + of_nat (16 * length ds)) = Some DT_NULL"
    "?p DT_STRTAB \<noteq> NULL" "?p DT_SYMTAB \<noteq> NULL" "?p DT_HASH \<noteq> NULL" "ld32 m (?p DT_HASH) = Some nb" "ld32 m (?p DT_HASH + 4) = Some nc"
    using assms unfolding elf_image_def Let_def by blast+
  have n: "unat (of_nat (length phs) :: u16) = length phs" using im(3) by (simp add: unat_of_nat)
  have ph: "ph_loop m base (base + phoff) (length phs) 0 (False, l, NULL) = Some (True, ?l, ?dyn)" for l
    using ph_loop_spec [of phs m "base + phoff" 0 base False l NULL] off(2) im(4) by (auto simp: elf_lofs_def elf_dyn_def)
  have dy: "dyn_loop m ?dyn 0 st = Some (dyn_result ds st)" for st by (rule dyn_loop_spec) (use im(6,7) in simp_all)
  show ?thesis
    unfolding vdso_init_from_sysinfo_ehdr_def Let_def
    using im(1,2,5,8-12) by (simp add: off(1) n ph dy dyn_result_def Let_def hash_header_def elf_tables_def)
qed

text \<open>
  (C7) Looking up a name in a well-formed ELF image in memory, for a name whose \<open>elf_hash\<close> is the hash of the specification of the format, which the
  image was built with: the lookup ends, and if a defined global or weak function of the symbol table has the name, the result is the address of one; otherwise it is null.
  The structure of a caller who gives one holds the tables of the image afterwards, and looking up in it without the image gives
  the same.
\<close>

theorem vdso_sym_finds:
  assumes "base \<noteq> NULL" and "elf_image m base phs ds nb nc" and "sym_index m (elf_tables base phs ds nb nc) syms chs"
    and "0 \<notin> set name" and "elf_hash name = ucast (elf_hash_spec name)"
  shows "\<exists>r. vdso_sym m base (Some name) infop = Some (map_option (\<lambda>_. elf_tables base phs ds nb nc) infop, r) \<and>
    vdso_sym m NULL (Some name) (Some (elf_tables base phs ds nb nc)) = Some (Some (elf_tables base phs ds nb nc), r) \<and>
    (if \<exists>i < length syms. exported (syms ! i) \<and> sy_name (syms ! i) = name
     then \<exists>i < length syms. exported (syms ! i) \<and> sy_name (syms ! i) = name \<and> r = elf_lofs base phs + sy_value (syms ! i)
     else r = NULL)"
proof -
  let ?info = "elf_tables base phs ds nb nc" and ?P = "\<lambda>i. i < length syms \<and> exported (syms ! i) \<and> sy_name (syms ! i) = name"
  have v: "valid ?info \<noteq> 0" "load_offset ?info = elf_lofs base phs" by (simp_all add: elf_tables_def Let_def)
  obtain r where r: "vdso_lookup m ?info name = Some r"
      "if \<exists>i. ?P i then \<exists>i. ?P i \<and> r = elf_lofs base phs + sy_value (syms ! i) else r = NULL"
    using vdso_lookup_spec [OF v(1) assms(3-5)] unfolding v(2) by blast
  have "vdso_sym m base (Some name) infop = Some (map_option (\<lambda>_. ?info) infop, r)"
    using assms(1) r(1) by (simp add: vdso_sym_def vdso_init_spec [OF assms(2)])
  moreover have "vdso_sym m NULL (Some name) (Some ?info) = Some (Some ?info, r)" using r(1) by (simp add: vdso_sym_def)
  moreover note r(2)
  ultimately show ?thesis unfolding conj_assoc by blast
qed

text \<open>A small image with one function \<open>foo\<close> at offset 512: file header, program headers, dynamic table, strings, symbols and hash table.\<close>

definition foo_name :: "u8 list" where
  "foo_name = [102, 111, 111]"

definition elf_mem_ex :: vmem where
  "elf_mem_ex = \<lparr>m_lo = 4096, m_hi = 4412, m_at = (\<lambda>_. 0)(
     4100 := 2, 4128 := 64, 4152 := 2, 4160 := 1, 4216 := 2, 4224 := 176,
     4232 := 176, 4272 := 5, 4280 := 240, 4288 := 6, 4296 := 248, 4304 := 4,
     4312 := 40, 4313 := 1, 4337 := 102, 4338 := 111, 4339 := 111, 4368 := 1,
     4372 := 18, 4374 := 1, 4377 := 2, 4392 := 1, 4396 := 2, 4400 := 1)\<rparr>"

definition elf_phs_ex :: "(u32 \<times> u64 \<times> u64) list" where
  "elf_phs_ex = [(1, 0, 0), (2, 176, 176)]"

definition elf_ds_ex :: "(u64 \<times> u64) list" where
  "elf_ds_ex = [(5, 240), (6, 248), (4, 296)]"

definition elf_syms_ex :: "elf_sym list" where
  "elf_syms_ex = [\<lparr>sy_name = [], sy_info = 0, sy_shndx = 0, sy_value = 0\<rparr>, \<lparr>sy_name = foo_name, sy_info = 18, sy_shndx = 1, sy_value = 512\<rparr>]"

lemma elf_loads_ex:
  "ld8 elf_mem_ex 4100 = Some 2" "ld16 elf_mem_ex 4152 = Some 2" "ld64 elf_mem_ex 4128 = Some 64"
  "ld32 elf_mem_ex 4160 = Some 1" "ld64 elf_mem_ex 4168 = Some 0" "ld64 elf_mem_ex 4176 = Some 0"
  "ld32 elf_mem_ex 4216 = Some 2" "ld64 elf_mem_ex 4224 = Some 176" "ld64 elf_mem_ex 4232 = Some 176"
  "ld64 elf_mem_ex 4272 = Some 5" "ld64 elf_mem_ex 4280 = Some 240" "ld64 elf_mem_ex 4288 = Some 6" "ld64 elf_mem_ex 4296 = Some 248"
  "ld64 elf_mem_ex 4304 = Some 4" "ld64 elf_mem_ex 4312 = Some 296" "ld64 elf_mem_ex 4320 = Some 0"
  "ld8 elf_mem_ex 4336 = Some 0" "ld8 elf_mem_ex 4337 = Some 102" "ld8 elf_mem_ex 4338 = Some 111" "ld8 elf_mem_ex 4339 = Some 111" "ld8 elf_mem_ex 4340 = Some 0"
  "ld32 elf_mem_ex 4344 = Some 0" "ld8 elf_mem_ex 4348 = Some 0" "ld16 elf_mem_ex 4350 = Some 0" "ld64 elf_mem_ex 4352 = Some 0"
  "ld32 elf_mem_ex 4368 = Some 1" "ld8 elf_mem_ex 4372 = Some 18" "ld16 elf_mem_ex 4374 = Some 1" "ld64 elf_mem_ex 4376 = Some 512"
  "ld32 elf_mem_ex 4392 = Some 1" "ld32 elf_mem_ex 4396 = Some 2" "ld32 elf_mem_ex 4400 = Some 1" "ld32 elf_mem_ex 4408 = Some 0"
  by (simp_all add: ld8_def ld16_def ld32_def ld64_def mapped_def elf_mem_ex_def rd16_def rd32_def rd64_def)

lemma elf_ex:
  "elf_image elf_mem_ex 4096 elf_phs_ex elf_ds_ex 1 2"
  "sym_index elf_mem_ex (elf_tables 4096 elf_phs_ex elf_ds_ex 1 2) elf_syms_ex [[1]]"
proof -
  have d: "elf_dyn 4096 elf_phs_ex = 4272" "elf_lofs 4096 elf_phs_ex = 4096"
    by (simp_all add: elf_dyn_def elf_lofs_def elf_phs_ex_def last_val_def)
  have p: "dyn_ptr elf_ds_ex 4096 5 0 = 4336" "dyn_ptr elf_ds_ex 4096 6 0 = 4344" "dyn_ptr elf_ds_ex 4096 4 0 = 4392"
    by (simp_all add: dyn_ptr_def elf_ds_ex_def last_val_def)
  show "elf_image elf_mem_ex 4096 elf_phs_ex elf_ds_ex 1 2"
    unfolding elf_image_def Let_def d p
    by (simp add: elf_loads_ex elf_phs_ex_def elf_ds_ex_def ph_at_def dyn_at_def All_less_Suc)
  have t: "nbucket (elf_tables 4096 elf_phs_ex elf_ds_ex 1 2) = 1" "bucket (elf_tables 4096 elf_phs_ex elf_ds_ex 1 2) = 4400"
    "chain_tab (elf_tables 4096 elf_phs_ex elf_ds_ex 1 2) = 4404" "symtab (elf_tables 4096 elf_phs_ex elf_ds_ex 1 2) = 4344"
    "symstrings (elf_tables 4096 elf_phs_ex elf_ds_ex 1 2) = 4336"
    by (simp_all add: elf_tables_def Let_def d p)
  show "sym_index elf_mem_ex (elf_tables 4096 elf_phs_ex elf_ds_ex 1 2) elf_syms_ex [[1]]"
    unfolding sym_index_def
    by (simp add: elf_loads_ex t elf_syms_ex_def sym_in_def sym_at_def exported_def foo_name_def All_less_Suc)
qed

theorem vdso_sym_finds_witness:
  "elf_image elf_mem_ex 4096 elf_phs_ex elf_ds_ex 1 2 \<and> sym_index elf_mem_ex (elf_tables 4096 elf_phs_ex elf_ds_ex 1 2) elf_syms_ex [[1]] \<and>
   vdso_sym elf_mem_ex 4096 (Some foo_name) None = Some (None, 4608)"
proof -
  have h: "0 \<notin> set foo_name" "elf_hash foo_name = ucast (elf_hash_spec foo_name)" by code_simp+
  have ex: "length elf_syms_ex = 2" "exported (elf_syms_ex ! 1)" "sy_name (elf_syms_ex ! 1) = foo_name" "sy_value (elf_syms_ex ! 1) = 512"
    "\<not> exported (elf_syms_ex ! 0)" "elf_lofs 4096 elf_phs_ex = 4096" by code_simp+
  have "\<exists>r. vdso_sym elf_mem_ex 4096 (Some foo_name) None = Some (map_option (\<lambda>_. elf_tables 4096 elf_phs_ex elf_ds_ex 1 2) None, r) \<and>
    vdso_sym elf_mem_ex NULL (Some foo_name) (Some (elf_tables 4096 elf_phs_ex elf_ds_ex 1 2)) = Some (Some (elf_tables 4096 elf_phs_ex elf_ds_ex 1 2), r) \<and>
    (if \<exists>i < length elf_syms_ex. exported (elf_syms_ex ! i) \<and> sy_name (elf_syms_ex ! i) = foo_name
     then \<exists>i < length elf_syms_ex. exported (elf_syms_ex ! i) \<and> sy_name (elf_syms_ex ! i) = foo_name \<and> r = elf_lofs 4096 elf_phs_ex + sy_value (elf_syms_ex ! i)
     else r = NULL)"
    using vdso_sym_finds [OF _ elf_ex h, of None] by simp
  moreover have "i = 1" if "i < length elf_syms_ex" "exported (elf_syms_ex ! i)" for i
    using that ex(1,5) by (cases "i = 0") auto
  ultimately have "vdso_sym elf_mem_ex 4096 (Some foo_name) None = Some (None, 4608)"
    using ex by (auto split: if_splits)
  then show ?thesis using elf_ex by blast
qed

end
