(* ===== verification/Vdso_Domain.thy ===== *)
theory Vdso_Domain
  imports Kernel_List Interfaces
begin

text \<open>
  \<open>vdso_test/vdso_domain.c\<close>: threads, domains of shared data and endpoints, over kernel lists.  A client sends a request to an endpoint
  and sleeps until the server replies.  A call that sleeps is two operations, one up to the semaphore and one behind it, which
  can run once the semaphore is positive.  Here each of them runs as a whole; the source has no lock that ensures it, and \<open>Endpoint_Threads\<close> takes the
  accesses of the threads one by one.

  A null or dangling pointer that is followed is undefined behaviour (\<open>None\<close>), and so is a loop without end.
\<close>

section \<open>Data\<close>

datatype dnode = Domain_hook u64 | Endpoint_hook u64 | Domain_client u64 | Ep_client u64

record tcb =
  schedule :: nat
  tid :: u64
  reg_params :: u64
  extra :: u64

record domain =
  owner :: ptr
  domain_data_addr :: ptr

record dmem =
  tcbs :: "u64 \<Rightarrow> tcb option"
  domains :: "u64 \<Rightarrow> domain option"
  servers :: "u64 \<Rightarrow> ptr option"
  dlinks :: "dnode lheap"

text \<open>\<open>new\<close> is the address the allocation returns, \<open>NULL\<close> if it fails, \<open>g\<close> what is there, \<open>t\<close> the number of the thread.\<close>

definition tcb_create :: "ptr \<Rightarrow> tcb \<Rightarrow> u64 \<Rightarrow> dmem \<Rightarrow> dmem \<times> ptr" where
  "tcb_create new g t m =
     (if new \<noteq> NULL
      then (m\<lparr>dlinks := INIT_LIST_HEAD (Endpoint_hook new) (INIT_LIST_HEAD (Domain_hook new) (dlinks m)),
              tcbs := (tcbs m)(new \<mapsto> g\<lparr>schedule := 0, tid := t\<rparr>)\<rparr>, new)
      else (m, new))"

text \<open>With a null argument the function returns without a value, which its callers use; the allocation is not checked.\<close>

definition domain_create :: "ptr \<Rightarrow> ptr \<Rightarrow> ptr \<Rightarrow> dmem \<Rightarrow> (dmem \<times> ptr) option" where
  "domain_create new vdso_data_addr creator m =
     (if vdso_data_addr = NULL \<or> creator = NULL then None
      else if new = NULL \<or> tcbs m creator = None then None
      else Some (m\<lparr>domains := (domains m)(new \<mapsto> \<lparr>owner = creator, domain_data_addr = vdso_data_addr\<rparr>),
             dlinks := list_add (Domain_hook creator) (Domain_client new) (INIT_LIST_HEAD (Domain_client new) (dlinks m))\<rparr>, new))"

text \<open>The function walks over the clients of the domain for its log.\<close>

definition domain_refer :: "ptr \<Rightarrow> ptr \<Rightarrow> dmem \<Rightarrow> (dmem \<times> ptr) option" where
  "domain_refer d referrer m =
     (if d = NULL \<or> referrer = NULL then Some (m, NULL)
      else do {
        dm \<leftarrow> domains m d;
        _ \<leftarrow> tcbs m referrer;
        let m = m\<lparr>dlinks := list_add (Domain_hook referrer) (Domain_client d) (dlinks m)\<rparr>;
        _ \<leftarrow> list_for_each (dlinks m) (Domain_client d) (lnext (dlinks m) (Domain_client d));
        Some (m, domain_data_addr dm)
      })"

definition endpoint_create :: "ptr \<Rightarrow> ptr \<Rightarrow> dmem \<Rightarrow> dmem \<times> ptr" where
  "endpoint_create new creator m =
     (if creator = NULL then (m, NULL)
      else if new \<noteq> NULL
      then (m\<lparr>dlinks := INIT_LIST_HEAD (Ep_client new) (dlinks m), servers := (servers m)(new \<mapsto> creator)\<rparr>, new)
      else (m, new))"

definition upd_tcb :: "u64 \<Rightarrow> (tcb \<Rightarrow> tcb) \<Rightarrow> dmem \<Rightarrow> dmem option" where
  "upd_tcb t f m = map_option (\<lambda>c. m\<lparr>tcbs := (tcbs m)(t \<mapsto> f c)\<rparr>) (tcbs m t)"

definition sem_post :: "u64 \<Rightarrow> dmem \<Rightarrow> dmem option" where
  "sem_post t m = upd_tcb t (\<lambda>c. c\<lparr>schedule := schedule c + 1\<rparr>) m"

section \<open>Endpoints\<close>

text \<open>The part of \<open>endpoint_send\<close> before it sleeps; \<open>False\<close> if it returns 0 at once.\<close>

definition endpoint_send :: "ptr \<Rightarrow> ptr \<Rightarrow> u64 \<Rightarrow> u64 \<Rightarrow> dmem \<Rightarrow> (dmem \<times> bool) option" where
  "endpoint_send service client param ex m =
     (if service = NULL \<or> client = NULL then Some (m, False)
      else do {
        m \<leftarrow> upd_tcb client (\<lambda>c. c\<lparr>reg_params := param\<rparr>) m;
        srv \<leftarrow> servers m service;
        let m = m\<lparr>dlinks := list_add_tail (Endpoint_hook client) (Ep_client service) (dlinks m)\<rparr>;
        m \<leftarrow> upd_tcb client (\<lambda>c. c\<lparr>extra := ex\<rparr>) m;
        m \<leftarrow> sem_post srv m;
        Some (m, True)
      })"

text \<open>The rest of \<open>endpoint_send\<close>; it waits while the semaphore is 0, which is \<open>None\<close> in the result.\<close>

definition endpoint_send_wake :: "ptr \<Rightarrow> dmem \<Rightarrow> (dmem \<times> u64) option option" where
  "endpoint_send_wake client m = do {
     c \<leftarrow> tcbs m client;
     if schedule c = 0 then Some None
     else do {
       m \<leftarrow> upd_tcb client (\<lambda>c. c\<lparr>schedule := schedule c - 1\<rparr>) m;
       Some (Some (m, reg_params c))
     }
   }"

text \<open>The client that a node on the list of an endpoint belongs to.  The head of the list belongs to none.\<close>

fun hook_client :: "dnode \<Rightarrow> u64 option" where
  "hook_client (Endpoint_hook c) = Some c"
| "hook_client _ = None"

text \<open>
  The result of \<open>endpoint_recv\<close> is what it writes through its two pointers, the number of the client's thread and the extra value, and the parameter;
  it waits while the semaphore is 0.
\<close>

definition endpoint_recv :: "ptr \<Rightarrow> dmem \<Rightarrow> (dmem \<times> (u64 \<times> u64) option \<times> u64) option option" where
  "endpoint_recv service m = (if service = NULL then Some (Some (m, None, 0)) else do {
     srv \<leftarrow> servers m service;
     s \<leftarrow> tcbs m srv;
     if schedule s = 0 then Some None
     else do {
       m \<leftarrow> upd_tcb srv (\<lambda>c. c\<lparr>schedule := schedule c - 1\<rparr>) m;
       client \<leftarrow> hook_client (lnext (dlinks m) (Ep_client service));
       c \<leftarrow> tcbs m client;
       Some (Some (m, Some (tid c, extra c), reg_params c))
     }
   })"

definition endpoint_reply :: "ptr \<Rightarrow> u64 \<Rightarrow> dmem \<Rightarrow> dmem option" where
  "endpoint_reply service params m =
     (if params = 0 \<or> service = NULL then Some m
      else do {
        _ \<leftarrow> servers m service;
        let pos = lnext (dlinks m) (Ep_client service);
        if pos = Ep_client service then Some m
        else do {
          client \<leftarrow> hook_client pos;
          m \<leftarrow> upd_tcb client (\<lambda>c. c\<lparr>reg_params := params\<rparr>) m;
          let m = m\<lparr>dlinks := list_del_init (Endpoint_hook client) (dlinks m)\<rparr>;
          sem_post client m
        }
      })"

section \<open>Requests and replies\<close>

datatype ep_op = Post u64 u64 u64 | Take | Answer u64 | Wake u64

datatype ep_res = Posted | Taken u64 u64 u64 | Answered | Woken u64

text \<open>The operations of the threads on one endpoint; \<open>None\<close> also if a thread sleeps.\<close>

fun ep_step :: "ptr \<Rightarrow> ep_op \<Rightarrow> dmem \<Rightarrow> (dmem \<times> ep_res) option" where
  "ep_step e (Post c p x) m = do { (m, ok) \<leftarrow> endpoint_send e c p x m; if ok then Some (m, Posted) else None }"
| "ep_step e Take m = do { r \<leftarrow> endpoint_recv e m; (m, w, p) \<leftarrow> r; (t, x) \<leftarrow> w; Some (m, Taken t x p) }"
| "ep_step e (Answer v) m = do { m \<leftarrow> endpoint_reply e v m; Some (m, Answered) }"
| "ep_step e (Wake c) m = do { r \<leftarrow> endpoint_send_wake c m; (m, v) \<leftarrow> r; Some (m, Woken v) }"

fun ep_run :: "ptr \<Rightarrow> ep_op list \<Rightarrow> dmem \<Rightarrow> (dmem \<times> ep_res list) option" where
  "ep_run e [] m = Some (m, [])"
| "ep_run e (op # ops) m = do { (m, r) \<leftarrow> ep_step e op m; (m, rs) \<leftarrow> ep_run e ops m; Some (m, r # rs) }"

text \<open>
  The specification: the requests in the order of arrival, whether the server has taken the first, and the replies that were not picked up.
  A client has at most one request, and the server replies with a value that is not 0 to a request it has taken.
\<close>

record aep =
  aq :: "(u64 \<times> u64 \<times> u64) list"
  ataken :: bool
  areply :: "u64 \<Rightarrow> u64 option"

fun aep_step :: "u64 set \<Rightarrow> (u64 \<Rightarrow> u64) \<Rightarrow> ep_op \<Rightarrow> aep \<Rightarrow> (aep \<times> ep_res) option" where
  "aep_step C tids (Post c p x) a =
     (if c \<in> C \<and> c \<notin> fst ` set (aq a) \<and> areply a c = None then Some (a\<lparr>aq := aq a @ [(c, p, x)]\<rparr>, Posted) else None)"
| "aep_step C tids Take a =
     (case aq a of (c, p, x) # q \<Rightarrow> if ataken a then None else Some (a\<lparr>ataken := True\<rparr>, Taken (tids c) x p) | [] \<Rightarrow> None)"
| "aep_step C tids (Answer v) a =
     (case aq a of (c, p, x) # q \<Rightarrow>
        if ataken a \<and> v \<noteq> 0 then Some (\<lparr>aq = q, ataken = False, areply = (areply a)(c \<mapsto> v)\<rparr>, Answered) else None
      | [] \<Rightarrow> None)"
| "aep_step C tids (Wake c) a =
     (case areply a c of Some v \<Rightarrow> Some (a\<lparr>areply := (areply a)(c := None)\<rparr>, Woken v) | None \<Rightarrow> None)"

fun aep_run :: "u64 set \<Rightarrow> (u64 \<Rightarrow> u64) \<Rightarrow> ep_op list \<Rightarrow> aep \<Rightarrow> ep_res list option" where
  "aep_run C tids [] a = Some []"
| "aep_run C tids (op # ops) a = do { (a, r) \<leftarrow> aep_step C tids op a; rs \<leftarrow> aep_run C tids ops a; Some (r # rs) }"

text \<open>What a client's control block holds: its request while it waits, and the reply when there is one.\<close>

definition tcb_rel :: "(u64 \<Rightarrow> u64) \<Rightarrow> aep \<Rightarrow> u64 \<Rightarrow> tcb \<Rightarrow> bool" where
  "tcb_rel tids a c t \<longleftrightarrow> tid t = tids c \<and>
     (\<forall>p x. (c, p, x) \<in> set (aq a) \<longrightarrow> reg_params t = p \<and> extra t = x \<and> areply a c = None) \<and>
     (case areply a c of None \<Rightarrow> schedule t = 0 | Some v \<Rightarrow> schedule t = 1 \<and> reg_params t = v)"

definition ep_rel :: "ptr \<Rightarrow> ptr \<Rightarrow> u64 set \<Rightarrow> (u64 \<Rightarrow> u64) \<Rightarrow> dmem \<Rightarrow> aep \<Rightarrow> bool" where
  "ep_rel e srv C tids m a \<longleftrightarrow> e \<noteq> NULL \<and> NULL \<notin> C \<and> srv \<notin> C \<and> servers m e = Some srv \<and>
     (\<exists>s. tcbs m srv = Some s \<and> schedule s = length (aq a) - of_bool (ataken a)) \<and> (ataken a \<longrightarrow> aq a \<noteq> []) \<and>
     ring (dlinks m) (Ep_client e) (map (Endpoint_hook \<circ> fst) (aq a)) \<and> distinct (map fst (aq a)) \<and> fst ` set (aq a) \<subseteq> C \<and>
     (\<forall>c. areply a c \<noteq> None \<longrightarrow> c \<in> C) \<and> (\<forall>c \<in> C. \<exists>t. tcbs m c = Some t \<and> tcb_rel tids a c t)"

lemma ep_relD:
  assumes "ep_rel e srv C tids m a"
  shows "e \<noteq> NULL" "NULL \<notin> C" "srv \<notin> C" "servers m e = Some srv" "\<exists>s. tcbs m srv = Some s \<and> schedule s = length (aq a) - of_bool (ataken a)"
    "ataken a \<longrightarrow> aq a \<noteq> []" "ring (dlinks m) (Ep_client e) (map (Endpoint_hook \<circ> fst) (aq a))" "distinct (map fst (aq a))" "fst ` set (aq a) \<subseteq> C"
    "\<forall>c. areply a c \<noteq> None \<longrightarrow> c \<in> C" "\<And>c. c \<in> C \<Longrightarrow> \<exists>t. tcbs m c = Some t \<and> tcb_rel tids a c t"
  using assms unfolding ep_rel_def by blast+

lemma ep_post_step:
  assumes rel: "ep_rel e srv C tids m a" and st: "aep_step C tids (Post c p x) a = Some (a', r)"
  shows "\<exists>m'. ep_step e (Post c p x) m = Some (m', r) \<and> ep_rel e srv C tids m' a'"
proof -
  note v = ep_relD [OF rel]
  have c: "c \<in> C" "c \<notin> fst ` set (aq a)" "areply a c = None" and a': "a' = a\<lparr>aq := aq a @ [(c, p, x)]\<rparr>" "r = Posted"
    using st by (auto split: if_splits)
  obtain s where s: "tcbs m srv = Some s" "schedule s = length (aq a) - of_bool (ataken a)" using v(5) by blast
  obtain t where t: "tcbs m c = Some t" "tcb_rel tids a c t" using v(11) [OF c(1)] by blast
  have cs: "c \<noteq> srv" "c \<noteq> NULL" using c(1) v(2,3) by auto
  let ?m = "m\<lparr>tcbs := (tcbs m)(c \<mapsto> t\<lparr>reg_params := p, extra := x\<rparr>, srv \<mapsto> s\<lparr>schedule := schedule s + 1\<rparr>),
      dlinks := list_add_tail (Endpoint_hook c) (Ep_client e) (dlinks m)\<rparr>"
  have run: "endpoint_send e c p x m = Some (?m, True)"
    using v(1,4) cs s(1) t(1) by (simp add: endpoint_send_def upd_tcb_def sem_post_def)
  have "Endpoint_hook c \<notin> set (Ep_client e # map (Endpoint_hook \<circ> fst) (aq a))" using c(2) by auto
  from ring_add_tail [OF v(7) this] have rg: "ring (dlinks ?m) (Ep_client e) (map (Endpoint_hook \<circ> fst) (aq a'))" by (simp add: a')
  have tc: "\<exists>t. tcbs ?m d = Some t \<and> tcb_rel tids a' d t" if d: "d \<in> C" for d
  proof (cases "d = c")
    case True
    have "tcb_rel tids a' c (t\<lparr>reg_params := p, extra := x\<rparr>)" using t(2) c(2,3) by (auto simp: tcb_rel_def a' image_iff)
    then show ?thesis using True cs by simp
  next
    case False
    obtain u where "tcbs m d = Some u" "tcb_rel tids a d u" using v(11) [OF d] by blast
    moreover have "d \<noteq> srv" using d v(3) by auto
    ultimately show ?thesis using False by (auto simp: tcb_rel_def a')
  qed
  have "length (aq a) - of_bool (ataken a) + 1 = length (aq a') - of_bool (ataken a')" using v(6) by (cases "aq a") (auto simp: a')
  then have "ep_rel e srv C tids ?m a'"
    unfolding ep_rel_def using v(1-4,8-10) c s(2) rg tc by (auto simp: a')
  then show ?thesis using run by (simp add: a')
qed

lemma ep_take_step:
  assumes rel: "ep_rel e srv C tids m a" and st: "aep_step C tids Take a = Some (a', r)"
  shows "\<exists>m'. ep_step e Take m = Some (m', r) \<and> ep_rel e srv C tids m' a'"
proof -
  note v = ep_relD [OF rel]
  obtain c p x q where q: "aq a = (c, p, x) # q" "\<not> ataken a" and a': "a' = a\<lparr>ataken := True\<rparr>" "r = Taken (tids c) x p"
    using st by (auto split: list.splits if_splits)
  obtain s where s: "tcbs m srv = Some s" "schedule s = Suc (length q)" using v(5) q by auto
  have c: "c \<in> C" "c \<noteq> srv" using v(3,9) q by auto
  obtain t where t: "tcbs m c = Some t" "tcb_rel tids a c t" using v(11) [OF c(1)] by blast
  let ?m = "m\<lparr>tcbs := (tcbs m)(srv \<mapsto> s\<lparr>schedule := length q\<rparr>)\<rparr>"
  have n: "lnext (dlinks m) (Ep_client e) = Endpoint_hook c" using ring_ends(1) [OF v(7)] q by (simp add: startp_def)
  have "endpoint_recv e m = Some (Some (?m, Some (tids c, x), p))"
    using v(1,4) s t c q n by (auto simp: endpoint_recv_def upd_tcb_def tcb_rel_def)
  moreover have "ep_rel e srv C tids ?m a'"
    unfolding ep_rel_def using v(1-4,7-10) q v(11) by (auto simp: a' tcb_rel_def)
  ultimately show ?thesis by (simp add: a')
qed

lemma ep_answer_step:
  assumes rel: "ep_rel e srv C tids m a" and st: "aep_step C tids (Answer w) a = Some (a', r)"
  shows "\<exists>m'. ep_step e (Answer w) m = Some (m', r) \<and> ep_rel e srv C tids m' a'"
proof -
  note v = ep_relD [OF rel]
  obtain c p x q where q: "aq a = (c, p, x) # q" "ataken a" "w \<noteq> 0"
      and a': "a' = \<lparr>aq = q, ataken = False, areply = (areply a)(c \<mapsto> w)\<rparr>" "r = Answered"
    using st by (auto split: list.splits if_splits)
  obtain s where s: "tcbs m srv = Some s" "schedule s = length q" using v(5) q by auto
  have c: "c \<in> C" "c \<noteq> srv" "c \<notin> fst ` set q" using v(3,8,9) q by auto
  obtain t where t: "tcbs m c = Some t" "tcb_rel tids a c t" using v(11) [OF c(1)] by blast
  then have t0: "schedule t = 0" "areply a c = None" "tid t = tids c" using q by (auto simp: tcb_rel_def)
  let ?m = "m\<lparr>tcbs := (tcbs m)(c \<mapsto> t\<lparr>reg_params := w, schedule := 1\<rparr>), dlinks := list_del_init (Endpoint_hook c) (dlinks m)\<rparr>"
  have n: "lnext (dlinks m) (Ep_client e) = Endpoint_hook c" using ring_ends(1) [OF v(7)] q by (simp add: startp_def)
  have run: "endpoint_reply e w m = Some ?m"
    using v(1,4) q(3) n t(1) t0(1) by (simp add: endpoint_reply_def upd_tcb_def sem_post_def)
  have "ring (dlinks m) (Ep_client e) ([] @ Endpoint_hook c # map (Endpoint_hook \<circ> fst) q)" using v(7) q by simp
  from ring_del_init(1) [OF this] have rg: "ring (dlinks ?m) (Ep_client e) (map (Endpoint_hook \<circ> fst) (aq a'))" by (simp add: a')
  have tc: "\<exists>t. tcbs ?m d = Some t \<and> tcb_rel tids a' d t" if d: "d \<in> C" for d
  proof (cases "d = c")
    case True
    have "tcb_rel tids a' c (t\<lparr>reg_params := w, schedule := 1\<rparr>)" using t0(3) c(3) by (force simp: tcb_rel_def a')
    then show ?thesis using True by simp
  next
    case False
    obtain u where "tcbs m d = Some u" "tcb_rel tids a d u" using v(11) [OF d] by blast
    then show ?thesis using False q(1) by (auto simp: tcb_rel_def a')
  qed
  have "ep_rel e srv C tids ?m a'"
    unfolding ep_rel_def using v(1-4,8-10) s rg tc c(1,2) q by (auto simp: a')
  then show ?thesis using run by (simp add: a')
qed

lemma ep_wake_step:
  assumes rel: "ep_rel e srv C tids m a" and st: "aep_step C tids (Wake c) a = Some (a', r)"
  shows "\<exists>m'. ep_step e (Wake c) m = Some (m', r) \<and> ep_rel e srv C tids m' a'"
proof -
  note v = ep_relD [OF rel]
  obtain w where w: "areply a c = Some w" and a': "a' = a\<lparr>areply := (areply a)(c := None)\<rparr>" "r = Woken w"
    using st by (auto split: option.splits)
  have c: "c \<in> C" "c \<noteq> srv" using v(3,10) w by auto
  obtain t where t: "tcbs m c = Some t" "tcb_rel tids a c t" using v(11) [OF c(1)] by blast
  then have t0: "schedule t = 1" "reg_params t = w" "tid t = tids c" "c \<notin> fst ` set (aq a)" using w by (auto simp: tcb_rel_def)
  let ?m = "m\<lparr>tcbs := (tcbs m)(c \<mapsto> t\<lparr>schedule := 0\<rparr>)\<rparr>"
  have run: "endpoint_send_wake c m = Some (Some (?m, w))" using t(1) t0 by (simp add: endpoint_send_wake_def upd_tcb_def)
  have tc: "\<exists>t. tcbs ?m d = Some t \<and> tcb_rel tids a' d t" if d: "d \<in> C" for d
  proof (cases "d = c")
    case True
    have "tcb_rel tids a' c (t\<lparr>schedule := 0\<rparr>)" using t0(3,4) by (force simp: tcb_rel_def a')
    then show ?thesis using True by simp
  next
    case False
    obtain u where "tcbs m d = Some u" "tcb_rel tids a d u" using v(11) [OF d] by blast
    then show ?thesis using False by (auto simp: tcb_rel_def a')
  qed
  have "ep_rel e srv C tids ?m a'"
    unfolding ep_rel_def using v tc c(2) by (auto simp: a')
  then show ?thesis using run by (simp add: a')
qed

lemma ep_step_refines:
  assumes "ep_rel e srv C tids m a" and "aep_step C tids op a = Some (a', r)"
  shows "\<exists>m'. ep_step e op m = Some (m', r) \<and> ep_rel e srv C tids m' a'"
proof (cases op)
  case (Post c p x)
  show ?thesis unfolding Post by (rule ep_post_step [OF assms(1) assms(2) [unfolded Post]])
next
  case Take
  show ?thesis unfolding Take by (rule ep_take_step [OF assms(1) assms(2) [unfolded Take]])
next
  case (Answer w)
  show ?thesis unfolding Answer by (rule ep_answer_step [OF assms(1) assms(2) [unfolded Answer]])
next
  case (Wake c)
  show ?thesis unfolding Wake by (rule ep_wake_step [OF assms(1) assms(2) [unfolded Wake]])
qed

lemma ep_run_refines:
  assumes "ep_rel e srv C tids m a" and "aep_run C tids ops a = Some rs"
  shows "\<exists>m'. ep_run e ops m = Some (m', rs)"
  using assms
proof (induction ops arbitrary: m a rs)
  case (Cons op ops)
  then obtain a1 r rs1 where a1: "aep_step C tids op a = Some (a1, r)" "aep_run C tids ops a1 = Some rs1" "rs = r # rs1" by auto
  obtain m1 where m1: "ep_step e op m = Some (m1, r)" "ep_rel e srv C tids m1 a1" using ep_step_refines [OF Cons.prems(1) a1(1)] by blast
  from Cons.IH [OF m1(2) a1(2)] obtain m2 where "ep_run e ops m1 = Some (m2, rs1)" by blast
  then show ?case using m1(1) a1(3) by simp
qed simp

text \<open>
  Requests through an endpoint, if no operation of a thread overlaps with that of another: on an endpoint with a server and its clients, every order
  of operations in which the server replies to each request it has taken, and with a value that is not 0, behaves as a queue: the server is given
  the requests in the order of their arrival with the values that were sent, and each client wakes up once, with the reply to its own request.
\<close>

theorem endpoint_refines_queue:
  assumes "ep_rel e srv C tids m \<lparr>aq = [], ataken = False, areply = Map.empty\<rparr>"
    and "aep_run C tids ops \<lparr>aq = [], ataken = False, areply = Map.empty\<rparr> = Some rs"
  shows "\<exists>m'. ep_run e ops m = Some (m', rs)"
  by (rule ep_run_refines [OF assms])

text \<open>A server at 1, two clients at 2 and 3, and an endpoint at 9.\<close>

definition dmem0 :: dmem where
  "dmem0 = \<lparr>tcbs = Map.empty, domains = Map.empty, servers = Map.empty, dlinks = \<lparr>lnext = id, lprev = id\<rparr>\<rparr>"

definition tcb0 :: tcb where
  "tcb0 = \<lparr>schedule = 0, tid = 0, reg_params = 0, extra = 0\<rparr>"

definition dmem_ex :: dmem where
  "dmem_ex = fst (endpoint_create 9 1 (fst (tcb_create 3 tcb0 103 (fst (tcb_create 2 tcb0 102 (fst (tcb_create 1 tcb0 101 dmem0)))))))"

lemma ep_rel_ex: "ep_rel 9 1 {2, 3} (\<lambda>c. c + 100) dmem_ex \<lparr>aq = [], ataken = False, areply = Map.empty\<rparr>"
  unfolding ep_rel_def dmem_ex_def
  by (simp add: endpoint_create_def tcb_create_def dmem0_def tcb0_def tcb_rel_def ring_init)

theorem endpoint_refines_queue_witness:
  "ep_rel 9 1 {2, 3} (\<lambda>c. c + 100) dmem_ex \<lparr>aq = [], ataken = False, areply = Map.empty\<rparr> \<and>
   (\<exists>m'. ep_run 9 [Post 2 20 1, Post 3 30 10, Take, Answer 7, Take, Wake 2, Answer 8, Post 2 21 2, Wake 3] dmem_ex =
     Some (m', [Posted, Posted, Taken 102 1 20, Answered, Taken 103 10 30, Woken 7, Answered, Posted, Woken 8]))"
proof (rule conjI [OF ep_rel_ex])
  show "\<exists>m'. ep_run 9 [Post 2 20 1, Post 3 30 10, Take, Answer 7, Take, Wake 2, Answer 8, Post 2 21 2, Wake 3] dmem_ex =
     Some (m', [Posted, Posted, Taken 102 1 20, Answered, Taken 103 10 30, Woken 7, Answered, Posted, Woken 8])"
    by (rule endpoint_refines_queue [OF ep_rel_ex]) simp
qed

text \<open>
  A reply of 0 is dropped: the request stays the first of the endpoint, its client sleeps on, and when another request arrives, the server is
  given the first again.
\<close>

theorem endpoint_reply_zero:
  assumes "ep_rel e srv C tids m a" and "aq a = (c, p, x) # q" and "\<not> ataken a" and "q \<noteq> []"
  shows "\<exists>m1 m2. endpoint_recv e m = Some (Some (m1, Some (tids c, x), p)) \<and> endpoint_reply e 0 m1 = Some m1 \<and> endpoint_send_wake c m1 = Some None \<and>
    endpoint_recv e m1 = Some (Some (m2, Some (tids c, x), p))"
proof -
  note v = ep_relD [OF assms(1)]
  obtain s where s: "tcbs m srv = Some s" "schedule s = Suc (length q)" using v(5) assms(2,3) by auto
  have c: "c \<in> C" "c \<noteq> srv" using v(3,9) assms(2) by auto
  obtain t where t: "tcbs m c = Some t" "tcb_rel tids a c t" using v(11) [OF c(1)] by blast
  then have t0: "schedule t = 0" "tid t = tids c" "extra t = x" "reg_params t = p" using assms(2) by (auto simp: tcb_rel_def)
  have n: "lnext (dlinks m) (Ep_client e) = Endpoint_hook c" using ring_ends(1) [OF v(7)] assms(2) by (simp add: startp_def)
  obtain k where "length q = Suc k" using assms(4) by (cases q) auto
  then show ?thesis using v(1,4) s t(1) t0 c n
    by (simp add: endpoint_recv_def endpoint_reply_def endpoint_send_wake_def upd_tcb_def)
qed

lemma two_posted_ex:
  "\<exists>m. ep_rel 9 1 {2, 3} (\<lambda>c. c + 100) m \<lparr>aq = [(2, 20, 1), (3, 30, 10)], ataken = False, areply = Map.empty\<rparr>"
proof -
  from ep_post_step [OF ep_rel_ex, of 2 20 1] obtain m1 where
    m1: "ep_rel 9 1 {2, 3} (\<lambda>c. c + 100) m1 \<lparr>aq = [(2, 20, 1)], ataken = False, areply = Map.empty\<rparr>" by auto
  from ep_post_step [OF m1, of 3 30 10] show ?thesis by auto
qed

theorem endpoint_reply_zero_witness:
  "\<exists>m m1 m2. ep_rel 9 1 {2, 3} (\<lambda>c. c + 100) m \<lparr>aq = [(2, 20, 1), (3, 30, 10)], ataken = False, areply = Map.empty\<rparr> \<and>
    endpoint_recv 9 m = Some (Some (m1, Some (102, 1), 20)) \<and> endpoint_reply 9 0 m1 = Some m1 \<and> endpoint_send_wake 2 m1 = Some None \<and>
    endpoint_recv 9 m1 = Some (Some (m2, Some (102, 1), 20))"
proof -
  obtain m where m: "ep_rel 9 1 {2, 3} (\<lambda>c. c + 100) m \<lparr>aq = [(2, 20, 1), (3, 30, 10)], ataken = False, areply = Map.empty\<rparr>"
    using two_posted_ex by blast
  from endpoint_reply_zero [OF m, of 2 20 1 "[(3, 30, 10)]"] show ?thesis using m by auto
qed

section \<open>Domains\<close>

text \<open>A walk that stays among nodes other than the head never ends.\<close>

lemma for_each_lost:
  assumes "pos \<in> S" and "l \<notin> S" and "\<And>x. x \<in> S \<Longrightarrow> lnext h x \<in> S"
  shows "list_for_each h l pos = None"
proof -
  have "h' = h \<longrightarrow> l' = l \<longrightarrow> pos \<notin> S" if "list_for_each h' l' pos = Some y" for h' l' pos y
  proof (rule list_for_each.raw_induct [OF _ that, of "\<lambda>h' l' pos _. h' = h \<longrightarrow> l' = l \<longrightarrow> pos \<notin> S"])
    fix rec h' l' pos y
    assume IH: "\<And>h' l' pos y. rec h' l' pos = Some y \<Longrightarrow> h' = h \<longrightarrow> l' = l \<longrightarrow> pos \<notin> S"
      and run: "(if pos = l' then Some [] else do { xs \<leftarrow> rec h' l' (lnext h' pos); Some (pos # xs) }) = Some y"
    show "h' = h \<longrightarrow> l' = l \<longrightarrow> pos \<notin> S"
    proof (intro impI notI)
      assume eq: "h' = h" "l' = l" and pos: "pos \<in> S"
      then have "pos \<noteq> l'" using assms(2) by auto
      then obtain xs where "rec h' l' (lnext h' pos) = Some xs" using run by auto
      from IH [OF this] show False using eq assms(3) [OF pos] by simp
    qed
  qed
  then show ?thesis using assms(1) by (cases "list_for_each h l pos") auto
qed

lemma walk_closed: "walk f x ps \<Longrightarrow> y \<in> set (butlast (x # ps)) \<Longrightarrow> f y \<in> set ps"
  by (induction ps arbitrary: x) (auto split: if_splits)

text \<open>
  (C39) A thread has one hook for domains.  A thread that owns a domain and refers to another, as a client of the test program does,
  is moved to the list of the other without leaving the first: the list of its own domain then leads into the other's and
  not back, and when another thread refers to the domain, \<open>domain_refer\<close> does not return.
\<close>

theorem domain_hook_shared:
  assumes "ring (dlinks m) (Domain_client d1) [Domain_hook t]" and "ring (dlinks m) (Domain_client d0) xs"
    and "d0 \<noteq> d1" and "Domain_client d1 \<notin> set xs" and "Domain_hook t \<notin> set xs" and "Domain_hook u \<notin> set xs" and "u \<noteq> t"
    and "domain_refer d0 t m = Some (m', data)" and "d0 \<noteq> NULL" and "t \<noteq> NULL"
    and "domains m d1 \<noteq> None" and "tcbs m u \<noteq> None" and "d1 \<noteq> NULL" and "u \<noteq> NULL"
  shows "domain_refer d1 u m' = None"
proof -
  let ?l0 = "Domain_client d0" and ?l1 = "Domain_client d1" and ?t = "Domain_hook t" and ?u = "Domain_hook u"
  let ?h = "list_add ?t ?l0 (dlinks m)"
  have "m' = m\<lparr>dlinks := ?h\<rparr>"
    using assms(8-10) unfolding domain_refer_def Let_def by auto
  then have m': "dlinks m' = ?h" "domains m' = domains m" "tcbs m' = tcbs m" by simp_all
  have r0: "ring ?h ?l0 (?t # xs)" by (rule ring_add [OF assms(2)]) (use assms(5) in simp)
  have n1: "lnext ?h ?l1 = ?t"
    using ring_ends(1) [OF assms(1)] assms(3) by (simp add: list_add_def list_add_between_def startp_def)
  let ?S = "set (?l0 # ?t # xs)" and ?g = "list_add ?u ?l1 ?h"
  have g: "lnext ?g x = lnext ?h x" if "x \<noteq> ?u" "x \<noteq> ?l1" for x using that by (simp add: list_add_def list_add_between_def)
  have "lnext ?h x \<in> ?S" if "x \<in> ?S" for x
  proof -
    have "walk (lnext ?h) ?l0 ((?t # xs) @ [?l0])" using r0 by (simp add: ring_def)
    from walk_closed [OF this, of x] that show ?thesis by auto
  qed
  then have closed: "lnext ?g x \<in> ?S" if "x \<in> ?S" for x
  proof -
    have "x \<noteq> ?u" "x \<noteq> ?l1" using that assms(3,4,6,7) by auto
    then show ?thesis unfolding g [of x, OF \<open>x \<noteq> ?u\<close> \<open>x \<noteq> ?l1\<close>] using that \<open>\<And>x. x \<in> ?S \<Longrightarrow> lnext ?h x \<in> ?S\<close> by blast
  qed
  have gu: "lnext ?g ?u = ?t" "lnext ?g ?l1 = ?u" using n1 by (simp_all add: list_add_def list_add_between_def)
  have "list_for_each ?g ?l1 ?u = None"
  proof (rule for_each_lost)
    show "?u \<in> insert ?u ?S" by simp
    show "?l1 \<notin> insert ?u ?S" using assms(3,4) by simp
    show "lnext ?g x \<in> insert ?u ?S" if "x \<in> insert ?u ?S" for x
    proof (cases "x = ?u")
      case True
      then show ?thesis unfolding True gu(1) by simp
    next
      case False
      then show ?thesis using closed [of x] that by blast
    qed
  qed
  moreover obtain dm c where "domains m d1 = Some dm" "tcbs m u = Some c" using assms(11,12) by blast
  ultimately show ?thesis unfolding domain_refer_def m' using assms(13,14) gu(2) by simp
qed

text \<open>The threads 1, 2 and 3; the first two own the domains 20 and 21.\<close>

definition dom_links_ex :: "dnode lheap" where
  "dom_links_ex = \<lparr>
     lnext = id(Domain_client 20 := Domain_hook 1, Domain_hook 1 := Domain_client 20, Domain_client 21 := Domain_hook 2, Domain_hook 2 := Domain_client 21),
     lprev = id(Domain_client 20 := Domain_hook 1, Domain_hook 1 := Domain_client 20, Domain_client 21 := Domain_hook 2, Domain_hook 2 := Domain_client 21)\<rparr>"

definition dom_mem_ex :: dmem where
  "dom_mem_ex = \<lparr>tcbs = [1 \<mapsto> tcb0, 2 \<mapsto> tcb0, 3 \<mapsto> tcb0],
     domains = [20 \<mapsto> \<lparr>owner = 1, domain_data_addr = 4096\<rparr>, 21 \<mapsto> \<lparr>owner = 2, domain_data_addr = 8192\<rparr>],
     servers = Map.empty, dlinks = dom_links_ex\<rparr>"

lemma dom_created_ex:
  "\<exists>m. domain_create 20 4096 1 (fst (tcb_create 3 tcb0 0 (fst (tcb_create 2 tcb0 0 (fst (tcb_create 1 tcb0 0 dmem0)))))) = Some (m, 20) \<and>
     domain_create 21 8192 2 m = Some (dom_mem_ex, 21)"
  by (simp add: domain_create_def tcb_create_def dmem0_def tcb0_def dom_mem_ex_def dom_links_ex_def INIT_LIST_HEAD_def list_add_def list_add_between_def
      fun_eq_iff)

theorem domain_hook_shared_witness:
  "\<exists>m'. domain_refer 20 2 dom_mem_ex = Some (m', 4096) \<and> domain_refer 21 3 m' = None"
proof -
  have r: "ring (dlinks dom_mem_ex) (Domain_client 21) [Domain_hook 2]" "ring (dlinks dom_mem_ex) (Domain_client 20) [Domain_hook 1]"
    by (simp_all add: ring_def dom_mem_ex_def dom_links_ex_def)
  let ?h = "list_add (Domain_hook 2) (Domain_client 20) (dlinks dom_mem_ex)"
  have "ring ?h (Domain_client 20) [Domain_hook 2, Domain_hook 1]" by (rule ring_add [OF r(2)]) simp
  then have "list_for_each ?h (Domain_client 20) (lnext ?h (Domain_client 20)) = Some [Domain_hook 2, Domain_hook 1]"
    by (intro ring_for_each_from) (simp_all add: ring_def)
  then have run: "domain_refer 20 2 dom_mem_ex = Some (dom_mem_ex\<lparr>dlinks := ?h\<rparr>, 4096)"
    by (simp add: domain_refer_def Let_def) (simp add: dom_mem_ex_def)
  have "domain_refer 21 3 (dom_mem_ex\<lparr>dlinks := ?h\<rparr>) = None"
    by (rule domain_hook_shared [OF r _ _ _ _ _ run]) (simp_all add: dom_mem_ex_def)
  then show ?thesis using run by blast
qed

end
