(* ===== verification/Endpoint_Threads.thy ===== *)
theory Endpoint_Threads
  imports Vdso_Domain "HOL-Library.Sublist"
begin

text \<open>
  The endpoints of \<open>vdso_test/vdso_domain.c\<close> under threads.  The source takes no lock: \<open>endpoint_send\<close>, \<open>endpoint_recv\<close> and
  \<open>endpoint_reply\<close> are modelled one access to shared memory at a time, and the accesses of the threads interleave in any order.  A call
  whose accesses are not interrupted is the operation of \<open>Vdso_Domain\<close>.  With one client every interleaving is right; with two
  clients a request can be taken with a stale value, and a client can be lost from the list.

  As in \<open>Vdso_Domain\<close>, \<open>None\<close> is undefined behaviour.  An access is a whole load or store of a word, and the threads see the accesses of each other in
  the order of the program.
\<close>

section \<open>The calls, one access at a time\<close>

text \<open>
  Where a thread is in \<open>endpoint_send\<close>, \<open>endpoint_recv\<close> and \<open>endpoint_reply\<close>, with the values it has read; the list operations are those of
  \<open>kernel_list.h\<close>.  A thread that waits for a semaphore stays where it is.
\<close>

datatype send_pc =
    S_param | S_prev | S_link1 dnode | S_link2 dnode | S_link3 dnode | S_link4 dnode | S_extra | S_post | S_wait | S_ret | S_done u64

datatype recv_pc = R_wait | R_first | R_tid u64 | R_extra u64 u64 | R_param u64 u64 u64 | R_done u64 u64 u64

datatype reply_pc =
    P_first | P_param u64 | P_prev u64 | P_next u64 dnode | P_del1 u64 dnode dnode | P_del2 u64 dnode dnode | P_init1 u64 | P_init2 u64 | P_post u64 | P_done

definition set_next :: "dnode \<Rightarrow> dnode \<Rightarrow> dmem \<Rightarrow> dmem" where
  "set_next a b m = m\<lparr>dlinks := (dlinks m)\<lparr>lnext := (lnext (dlinks m))(a := b)\<rparr>\<rparr>"

definition set_prev :: "dnode \<Rightarrow> dnode \<Rightarrow> dmem \<Rightarrow> dmem" where
  "set_prev a b m = m\<lparr>dlinks := (dlinks m)\<lparr>lprev := (lprev (dlinks m))(a := b)\<rparr>\<rparr>"

definition sem_wait :: "u64 \<Rightarrow> dmem \<Rightarrow> dmem option option" where
  "sem_wait t m = do {
     c \<leftarrow> tcbs m t;
     if schedule c = 0 then Some None else map_option Some (upd_tcb t (\<lambda>c. c\<lparr>schedule := schedule c - 1\<rparr>) m)
   }"

fun send_access :: "ptr \<Rightarrow> ptr \<Rightarrow> u64 \<Rightarrow> u64 \<Rightarrow> send_pc \<Rightarrow> dmem \<Rightarrow> (dmem \<times> send_pc) option" where
  "send_access e c p x S_param m = do { m \<leftarrow> upd_tcb c (\<lambda>t. t\<lparr>reg_params := p\<rparr>) m; Some (m, S_prev) }"
| "send_access e c p x S_prev m = do { _ \<leftarrow> servers m e; Some (m, S_link1 (lprev (dlinks m) (Ep_client e))) }"
| "send_access e c p x (S_link1 q) m = Some (set_prev (Ep_client e) (Endpoint_hook c) m, S_link2 q)"
| "send_access e c p x (S_link2 q) m = Some (set_next (Endpoint_hook c) (Ep_client e) m, S_link3 q)"
| "send_access e c p x (S_link3 q) m = Some (set_prev (Endpoint_hook c) q m, S_link4 q)"
| "send_access e c p x (S_link4 q) m = Some (set_next q (Endpoint_hook c) m, S_extra)"
| "send_access e c p x S_extra m = do { m \<leftarrow> upd_tcb c (\<lambda>t. t\<lparr>extra := x\<rparr>) m; Some (m, S_post) }"
| "send_access e c p x S_post m = do { srv \<leftarrow> servers m e; m \<leftarrow> sem_post srv m; Some (m, S_wait) }"
| "send_access e c p x S_wait m = do { r \<leftarrow> sem_wait c m; Some (case r of None \<Rightarrow> (m, S_wait) | Some m \<Rightarrow> (m, S_ret)) }"
| "send_access e c p x S_ret m = do { t \<leftarrow> tcbs m c; Some (m, S_done (reg_params t)) }"
| "send_access e c p x (S_done v) m = None"

fun recv_access :: "ptr \<Rightarrow> recv_pc \<Rightarrow> dmem \<Rightarrow> (dmem \<times> recv_pc) option" where
  "recv_access e R_wait m = do {
     srv \<leftarrow> servers m e;
     r \<leftarrow> sem_wait srv m;
     Some (case r of None \<Rightarrow> (m, R_wait) | Some m \<Rightarrow> (m, R_first))
   }"
| "recv_access e R_first m = do { c \<leftarrow> hook_client (lnext (dlinks m) (Ep_client e)); Some (m, R_tid c) }"
| "recv_access e (R_tid c) m = do { t \<leftarrow> tcbs m c; Some (m, R_extra c (tid t)) }"
| "recv_access e (R_extra c n) m = do { t \<leftarrow> tcbs m c; Some (m, R_param c n (extra t)) }"
| "recv_access e (R_param c n x) m = do { t \<leftarrow> tcbs m c; Some (m, R_done n x (reg_params t)) }"
| "recv_access e (R_done n x p) m = None"

fun reply_access :: "ptr \<Rightarrow> u64 \<Rightarrow> reply_pc \<Rightarrow> dmem \<Rightarrow> (dmem \<times> reply_pc) option" where
  "reply_access e v P_first m = do {
     _ \<leftarrow> servers m e;
     let pos = lnext (dlinks m) (Ep_client e);
     if pos = Ep_client e then Some (m, P_done) else do { c \<leftarrow> hook_client pos; Some (m, P_param c) }
   }"
| "reply_access e v (P_param c) m = do { m \<leftarrow> upd_tcb c (\<lambda>t. t\<lparr>reg_params := v\<rparr>) m; Some (m, P_prev c) }"
| "reply_access e v (P_prev c) m = Some (m, P_next c (lprev (dlinks m) (Endpoint_hook c)))"
| "reply_access e v (P_next c q) m = Some (m, P_del1 c q (lnext (dlinks m) (Endpoint_hook c)))"
| "reply_access e v (P_del1 c q n) m = Some (set_prev n q m, P_del2 c q n)"
| "reply_access e v (P_del2 c q n) m = Some (set_next q n m, P_init1 c)"
| "reply_access e v (P_init1 c) m = Some (set_next (Endpoint_hook c) (Endpoint_hook c) m, P_init2 c)"
| "reply_access e v (P_init2 c) m = Some (set_prev (Endpoint_hook c) (Endpoint_hook c) m, P_post c)"
| "reply_access e v (P_post c) m = do { m \<leftarrow> sem_post c m; Some (m, P_done) }"
| "reply_access e v P_done m = None"

text \<open>A call that runs alone for \<open>n\<close> accesses.\<close>

fun alone :: "('p \<Rightarrow> dmem \<Rightarrow> (dmem \<times> 'p) option) \<Rightarrow> nat \<Rightarrow> 'p \<Rightarrow> dmem \<Rightarrow> (dmem \<times> 'p) option" where
  "alone f 0 pc m = Some (m, pc)"
| "alone f (Suc n) pc m = do { (m, pc) \<leftarrow> f pc m; alone f n pc m }"

lemma alone_numeral: "alone f (numeral k) pc m = do { (m, pc) \<leftarrow> f pc m; alone f (pred_numeral k) pc m }"
  by (simp add: numeral_eq_Suc)

lemma send_alone:
  assumes "e \<noteq> NULL" and "c \<noteq> NULL"
  shows "alone (send_access e c p x) 8 S_param m = map_option (\<lambda>(m, _). (m, S_wait)) (endpoint_send e c p x m)"
  using assms
  by (cases "tcbs m c"; cases "servers m e"; cases "tcbs m (the (servers m e))")
    (auto simp: alone_numeral endpoint_send_def upd_tcb_def sem_post_def set_next_def set_prev_def list_add_tail_def list_add_between_def Let_def)

lemma wake_alone:
  "alone (send_access e c p x) 2 S_wait m =
    (case endpoint_send_wake c m of None \<Rightarrow> None | Some None \<Rightarrow> Some (m, S_wait) | Some (Some (m, v)) \<Rightarrow> Some (m, S_done v))"
  by (cases "tcbs m c") (auto simp: alone_numeral endpoint_send_wake_def sem_wait_def upd_tcb_def)

lemma recv_alone:
  assumes "e \<noteq> NULL" and "endpoint_recv e m \<noteq> Some None"
  shows "alone (recv_access e) 5 R_wait m =
    map_option (\<lambda>r. case r of Some (m, Some (n, x), p) \<Rightarrow> (m, R_done n x p) | _ \<Rightarrow> (m, R_wait)) (endpoint_recv e m)"
  using assms
  by (cases "servers m e"; cases "tcbs m (the (servers m e))")
    (auto simp: alone_numeral endpoint_recv_def sem_wait_def upd_tcb_def split: option.splits bind_splits)

lemma reply_alone:
  assumes "e \<noteq> NULL" and "v \<noteq> 0" and "lnext (dlinks m) (Ep_client e) \<noteq> Ep_client e"
  shows "alone (reply_access e v) 9 P_first m = map_option (\<lambda>m. (m, P_done)) (endpoint_reply e v m)"
  using assms
  by (auto simp: alone_numeral endpoint_reply_def upd_tcb_def sem_post_def set_next_def set_prev_def list_del_init_def list_del_entry_def
      list_del_between_def INIT_LIST_HEAD_def Let_def split: option.splits bind_splits)

section \<open>Threads\<close>

text \<open>
  The threads of an endpoint \<open>e\<close>: clients that call \<open>endpoint_send\<close> whenever they like, and a server that takes a request, computes the
  reply \<open>f\<close> and gives it, over and over.  The log records the calls, the requests the server is given, and what the calls return.
\<close>

datatype client_state = Idle | Sending u64 u64 send_pc

datatype server_state = Taking recv_pc | Giving u64 reply_pc

datatype ep_event = Called u64 u64 u64 | Took u64 u64 u64 | Returned u64 u64

record ep_sys =
  emem :: dmem
  ecl :: "u64 \<Rightarrow> client_state"
  esrv :: server_state
  elog :: "ep_event list"

definition client_access :: "ptr \<Rightarrow> u64 \<Rightarrow> ep_sys \<Rightarrow> ep_sys option" where
  "client_access e c \<sigma> =
     (case ecl \<sigma> c of Idle \<Rightarrow> None
      | Sending p x pc \<Rightarrow> do {
          (m, pc) \<leftarrow> send_access e c p x pc (emem \<sigma>);
          Some (case pc of S_done v \<Rightarrow> \<sigma>\<lparr>emem := m, ecl := (ecl \<sigma>)(c := Idle), elog := elog \<sigma> @ [Returned c v]\<rparr>
                | _ \<Rightarrow> \<sigma>\<lparr>emem := m, ecl := (ecl \<sigma>)(c := Sending p x pc)\<rparr>)
        })"

definition reply_start :: "ptr \<Rightarrow> u64 \<Rightarrow> reply_pc" where
  "reply_start e v = (if v = 0 \<or> e = NULL then P_done else P_first)"

definition server_access :: "ptr \<Rightarrow> (u64 \<Rightarrow> u64 \<Rightarrow> u64 \<Rightarrow> u64) \<Rightarrow> ep_sys \<Rightarrow> ep_sys option" where
  "server_access e f \<sigma> =
     (case esrv \<sigma> of
        Taking pc \<Rightarrow> do {
          (m, pc) \<leftarrow> recv_access e pc (emem \<sigma>);
          Some (case pc of R_done n x p \<Rightarrow> \<sigma>\<lparr>emem := m, esrv := Giving (f n x p) (reply_start e (f n x p)), elog := elog \<sigma> @ [Took n x p]\<rparr>
                | _ \<Rightarrow> \<sigma>\<lparr>emem := m, esrv := Taking pc\<rparr>)
        }
      | Giving v P_done \<Rightarrow> Some (\<sigma>\<lparr>esrv := Taking R_wait\<rparr>)
      | Giving v pc \<Rightarrow> do { (m, pc) \<leftarrow> reply_access e v pc (emem \<sigma>); Some (\<sigma>\<lparr>emem := m, esrv := Giving v pc\<rparr>) })"

inductive ep_access :: "ptr \<Rightarrow> u64 set \<Rightarrow> (u64 \<Rightarrow> u64 \<Rightarrow> u64 \<Rightarrow> u64) \<Rightarrow> ep_sys \<Rightarrow> ep_sys \<Rightarrow> bool" for e C f where
  call: "c \<in> C \<Longrightarrow> ecl \<sigma> c = Idle \<Longrightarrow>
    ep_access e C f \<sigma> (\<sigma>\<lparr>ecl := (ecl \<sigma>)(c := Sending p x S_param), elog := elog \<sigma> @ [Called c p x]\<rparr>)"
| client: "c \<in> C \<Longrightarrow> client_access e c \<sigma> = Some \<sigma>' \<Longrightarrow> ep_access e C f \<sigma> \<sigma>'"
| server: "server_access e f \<sigma> = Some \<sigma>' \<Longrightarrow> ep_access e C f \<sigma> \<sigma>'"

definition ep_start :: "dmem \<Rightarrow> ep_sys" where
  "ep_start m = \<lparr>emem = m, ecl = \<lambda>_. Idle, esrv = Taking R_wait, elog = []\<rparr>"

section \<open>One client\<close>

text \<open>What the log of one client should be: for each request the call, the server's view of it, and the server's answer to it.\<close>

definition ep_round :: "(u64 \<Rightarrow> u64 \<Rightarrow> u64 \<Rightarrow> u64) \<Rightarrow> u64 \<Rightarrow> u64 \<Rightarrow> u64 \<times> u64 \<Rightarrow> ep_event list" where
  "ep_round f c n r = (case r of (p, x) \<Rightarrow> [Called c p x, Took n x p, Returned c (f n x p)])"

definition linked :: "dmem \<Rightarrow> dnode \<Rightarrow> dnode \<Rightarrow> bool" where
  "linked m h k \<longleftrightarrow> lnext (dlinks m) h = k \<and> lprev (dlinks m) h = k \<and> lnext (dlinks m) k = h \<and> lprev (dlinks m) k = h"

definition unlinked :: "dmem \<Rightarrow> dnode \<Rightarrow> bool" where
  "unlinked m h \<longleftrightarrow> lnext (dlinks m) h = h \<and> lprev (dlinks m) h = h"

text \<open>The memory while the one client \<open>c\<close> files its request: \<open>tc\<close> is its control block.\<close>

fun filing :: "dnode \<Rightarrow> dnode \<Rightarrow> dmem \<Rightarrow> tcb \<Rightarrow> u64 \<Rightarrow> u64 \<Rightarrow> send_pc \<Rightarrow> bool" where
  "filing h k m tc p x S_param = unlinked m h"
| "filing h k m tc p x S_prev = (unlinked m h \<and> reg_params tc = p)"
| "filing h k m tc p x (S_link1 q) = (unlinked m h \<and> q = h \<and> reg_params tc = p)"
| "filing h k m tc p x (S_link2 q) = (q = h \<and> lprev (dlinks m) h = k \<and> reg_params tc = p)"
| "filing h k m tc p x (S_link3 q) = (q = h \<and> lprev (dlinks m) h = k \<and> lnext (dlinks m) k = h \<and> reg_params tc = p)"
| "filing h k m tc p x (S_link4 q) = (q = h \<and> lprev (dlinks m) h = k \<and> lnext (dlinks m) k = h \<and> lprev (dlinks m) k = h \<and> reg_params tc = p)"
| "filing h k m tc p x S_extra = (linked m h k \<and> reg_params tc = p)"
| "filing h k m tc p x S_post = (linked m h k \<and> reg_params tc = p \<and> extra tc = x)"
| "filing h k m tc p x _ = False"

text \<open>The memory while the server has the request and the client sleeps; \<open>n\<close> is the number of the client's thread.\<close>

fun taking :: "u64 \<Rightarrow> dnode \<Rightarrow> dnode \<Rightarrow> dmem \<Rightarrow> tcb \<Rightarrow> tcb \<Rightarrow> u64 \<Rightarrow> u64 \<Rightarrow> recv_pc \<Rightarrow> bool" where
  "taking c h k m tc ts p x R_wait = (linked m h k \<and> schedule ts = 1)"
| "taking c h k m tc ts p x R_first = (linked m h k \<and> schedule ts = 0)"
| "taking c h k m tc ts p x (R_tid d) = (linked m h k \<and> schedule ts = 0 \<and> d = c)"
| "taking c h k m tc ts p x (R_extra d n) = (linked m h k \<and> schedule ts = 0 \<and> d = c \<and> n = tid tc)"
| "taking c h k m tc ts p x (R_param d n y) = (linked m h k \<and> schedule ts = 0 \<and> d = c \<and> n = tid tc \<and> y = x)"
| "taking c h k m tc ts p x _ = False"

fun giving :: "u64 \<Rightarrow> dnode \<Rightarrow> dnode \<Rightarrow> dmem \<Rightarrow> tcb \<Rightarrow> u64 \<Rightarrow> reply_pc \<Rightarrow> bool" where
  "giving c h k m tc v P_first = linked m h k"
| "giving c h k m tc v (P_param d) = (linked m h k \<and> d = c)"
| "giving c h k m tc v (P_prev d) = (linked m h k \<and> d = c \<and> reg_params tc = v)"
| "giving c h k m tc v (P_next d q) = (linked m h k \<and> d = c \<and> q = h \<and> reg_params tc = v)"
| "giving c h k m tc v (P_del1 d q r) = (linked m h k \<and> d = c \<and> q = h \<and> r = h \<and> reg_params tc = v)"
| "giving c h k m tc v (P_del2 d q r) = (lprev (dlinks m) h = h \<and> d = c \<and> q = h \<and> r = h \<and> reg_params tc = v)"
| "giving c h k m tc v (P_init1 d) = (unlinked m h \<and> d = c \<and> reg_params tc = v)"
| "giving c h k m tc v (P_init2 d) = (unlinked m h \<and> d = c \<and> reg_params tc = v)"
| "giving c h k m tc v (P_post d) = (unlinked m h \<and> d = c \<and> reg_params tc = v)"
| "giving c h k m tc v P_done = False"

text \<open>Where the client and the server can be at the same time.\<close>

inductive one_phase :: "u64 \<Rightarrow> dnode \<Rightarrow> dnode \<Rightarrow> (u64 \<Rightarrow> u64 \<Rightarrow> u64 \<Rightarrow> u64) \<Rightarrow> dmem \<Rightarrow> tcb \<Rightarrow> tcb \<Rightarrow> client_state \<Rightarrow> server_state \<Rightarrow> ep_event list \<Rightarrow> bool"
  for c h k f m tc ts where
  rest: "unlinked m h \<Longrightarrow> schedule tc = 0 \<Longrightarrow> schedule ts = 0 \<Longrightarrow> sv = Taking R_wait \<or> (\<exists>v. sv = Giving v P_done) \<Longrightarrow>
    one_phase c h k f m tc ts Idle sv []"
| filing: "filing h k m tc p x pc \<Longrightarrow> schedule tc = 0 \<Longrightarrow> schedule ts = 0 \<Longrightarrow> sv = Taking R_wait \<or> (\<exists>v. sv = Giving v P_done) \<Longrightarrow>
    one_phase c h k f m tc ts (Sending p x pc) sv [Called c p x]"
| late: "linked m h k \<Longrightarrow> reg_params tc = p \<Longrightarrow> extra tc = x \<Longrightarrow> schedule tc = 0 \<Longrightarrow> schedule ts = 1 \<Longrightarrow>
    one_phase c h k f m tc ts (Sending p x S_wait) (Giving v P_done) [Called c p x]"
| taking: "taking c h k m tc ts p x pc \<Longrightarrow> reg_params tc = p \<Longrightarrow> extra tc = x \<Longrightarrow> schedule tc = 0 \<Longrightarrow>
    one_phase c h k f m tc ts (Sending p x S_wait) (Taking pc) [Called c p x]"
| giving: "giving c h k m tc v pc \<Longrightarrow> n = tid tc \<Longrightarrow> v = f n x p \<Longrightarrow> schedule tc = 0 \<Longrightarrow> schedule ts = 0 \<Longrightarrow>
    one_phase c h k f m tc ts (Sending p x S_wait) (Giving v pc) [Called c p x, Took n x p]"
| woken: "unlinked m h \<Longrightarrow> n = tid tc \<Longrightarrow> reg_params tc = f n x p \<Longrightarrow> (pc = S_wait \<and> schedule tc = 1 \<or> pc = S_ret \<and> schedule tc = 0) \<Longrightarrow>
    schedule ts = 0 \<Longrightarrow> sv = Taking R_wait \<or> (\<exists>v. sv = Giving v P_done) \<Longrightarrow>
    one_phase c h k f m tc ts (Sending p x pc) sv [Called c p x, Took n x p]"

inductive_cases one_phaseE: "one_phase c h k f m tc ts cs sv l"

definition one_inv :: "ptr \<Rightarrow> u64 \<Rightarrow> u64 \<Rightarrow> u64 \<Rightarrow> (u64 \<Rightarrow> u64 \<Rightarrow> u64 \<Rightarrow> u64) \<Rightarrow> ep_sys \<Rightarrow> bool" where
  "one_inv e srv c n f \<sigma> \<longleftrightarrow> servers (emem \<sigma>) e = Some srv \<and>
     (\<exists>tc ts reqs l. tcbs (emem \<sigma>) c = Some tc \<and> tcbs (emem \<sigma>) srv = Some ts \<and> tid tc = n \<and>
       elog \<sigma> = concat (map (ep_round f c n) reqs) @ l \<and>
       one_phase c (Ep_client e) (Endpoint_hook c) f (emem \<sigma>) tc ts (ecl \<sigma> c) (esrv \<sigma>) l)"

lemma one_invI:
  assumes "servers (emem \<sigma>) e = Some srv" and "tcbs (emem \<sigma>) c = Some tc" and "tcbs (emem \<sigma>) srv = Some ts" and "tid tc = n"
    and "elog \<sigma> = concat (map (ep_round f c n) reqs) @ l"
    and "one_phase c (Ep_client e) (Endpoint_hook c) f (emem \<sigma>) tc ts (ecl \<sigma> c) (esrv \<sigma>) l"
  shows "one_inv e srv c n f \<sigma>"
  using assms unfolding one_inv_def by blast

lemmas access_defs = upd_tcb_def sem_post_def sem_wait_def set_next_def set_prev_def linked_def unlinked_def

definition after_send :: "ptr \<Rightarrow> u64 \<Rightarrow> u64 \<Rightarrow> (u64 \<Rightarrow> u64 \<Rightarrow> u64 \<Rightarrow> u64) \<Rightarrow> u64 \<Rightarrow> u64 \<Rightarrow> u64 \<Rightarrow> dmem \<Rightarrow> send_pc \<Rightarrow> server_state \<Rightarrow> ep_event list \<Rightarrow> bool" where
  "after_send e srv c f n p x m pc sv l \<longleftrightarrow> servers m e = Some srv \<and>
     (\<exists>tc ts. tcbs m c = Some tc \<and> tcbs m srv = Some ts \<and> tid tc = n \<and>
       (case pc of S_done v \<Rightarrow> one_phase c (Ep_client e) (Endpoint_hook c) f m tc ts Idle sv [] \<and> l @ [Returned c v] = ep_round f c n (p, x)
        | _ \<Rightarrow> one_phase c (Ep_client e) (Endpoint_hook c) f m tc ts (Sending p x pc) sv l))"

lemma phase_send:
  assumes ph: "one_phase c (Ep_client e) (Endpoint_hook c) f m tc ts (Sending p x pc) sv l"
    and m: "servers m e = Some srv" "tcbs m c = Some tc" "tcbs m srv = Some ts" "c \<noteq> srv"
  shows "\<exists>m' pc'. send_access e c p x pc m = Some (m', pc') \<and> after_send e srv c f (tid tc) p x m' pc' sv l"
  using ph
proof (cases rule: one_phase.cases)
  case filing
  show ?thesis
  proof (cases "pc = S_post")
    case True
    then show ?thesis using filing m by (auto simp: after_send_def access_defs intro!: one_phase.late one_phase.taking)
  next
    case False
    then show ?thesis using filing m by (cases pc) (auto simp: after_send_def access_defs intro!: one_phase.filing)
  qed
next
  case late
  then show ?thesis using m by (auto simp: after_send_def access_defs intro!: one_phase.late)
next
  case taking
  then show ?thesis using m by (auto simp: after_send_def sem_wait_def intro!: one_phase.taking)
next
  case giving
  then show ?thesis using m by (auto simp: after_send_def sem_wait_def intro!: one_phase.giving)
next
  case woken
  then show ?thesis using m by (auto simp: after_send_def access_defs ep_round_def intro!: one_phase.woken one_phase.rest)
qed

definition after_serve :: "ptr \<Rightarrow> u64 \<Rightarrow> u64 \<Rightarrow> (u64 \<Rightarrow> u64 \<Rightarrow> u64 \<Rightarrow> u64) \<Rightarrow> u64 \<Rightarrow> client_state \<Rightarrow> dmem \<Rightarrow> server_state \<Rightarrow> ep_event list \<Rightarrow> bool" where
  "after_serve e srv c f n cs m sv l \<longleftrightarrow> servers m e = Some srv \<and>
     (\<exists>tc ts. tcbs m c = Some tc \<and> tcbs m srv = Some ts \<and> tid tc = n \<and> one_phase c (Ep_client e) (Endpoint_hook c) f m tc ts cs sv l)"

lemma phase_recv:
  assumes ph: "one_phase c (Ep_client e) (Endpoint_hook c) f m tc ts cs (Taking pc) l"
    and m: "servers m e = Some srv" "tcbs m c = Some tc" "tcbs m srv = Some ts" "c \<noteq> srv"
    and f: "e \<noteq> NULL" "\<And>n x p. f n x p \<noteq> 0"
  shows "\<exists>m' pc'. recv_access e pc m = Some (m', pc') \<and>
    (case pc' of R_done n x p \<Rightarrow> after_serve e srv c f (tid tc) cs m' (Giving (f n x p) (reply_start e (f n x p))) (l @ [Took n x p])
     | _ \<Rightarrow> after_serve e srv c f (tid tc) cs m' (Taking pc') l)"
  using ph
proof (cases rule: one_phase.cases)
  case rest
  then show ?thesis using m by (auto simp: after_serve_def sem_wait_def intro!: one_phase.rest)
next
  case filing
  then show ?thesis using m by (auto simp: after_serve_def sem_wait_def intro!: one_phase.filing)
next
  case taking
  then show ?thesis using m f
    by (cases pc) (auto simp: after_serve_def access_defs reply_start_def intro!: one_phase.taking one_phase.giving)
next
  case woken
  then show ?thesis using m by (auto simp: after_serve_def sem_wait_def intro!: one_phase.woken)
qed

lemma phase_reply:
  assumes ph: "one_phase c (Ep_client e) (Endpoint_hook c) f m tc ts cs (Giving v pc) l" and pc: "pc \<noteq> P_done"
    and m: "servers m e = Some srv" "tcbs m c = Some tc" "tcbs m srv = Some ts" "c \<noteq> srv"
  shows "\<exists>m' pc'. reply_access e v pc m = Some (m', pc') \<and> after_serve e srv c f (tid tc) cs m' (Giving v pc') l"
  using ph
proof (cases rule: one_phase.cases)
  case giving
  show ?thesis
  proof (cases "\<exists>d. pc = P_post d")
    case True
    then show ?thesis using giving m by (auto simp: after_serve_def access_defs intro!: one_phase.woken)
  next
    case False
    then show ?thesis using giving m by (cases pc) (auto simp: after_serve_def access_defs intro!: one_phase.giving)
  qed
qed (use pc in auto)

lemma phase_again:
  assumes "one_phase c h k f m tc ts cs (Giving v P_done) l"
  shows "one_phase c h k f m tc ts cs (Taking R_wait) l"
  using assms by (cases rule: one_phase.cases) (auto intro: one_phase.intros)

lemma one_invE:
  assumes "one_inv e srv c n f \<sigma>"
  obtains tc ts reqs l where "servers (emem \<sigma>) e = Some srv" "tcbs (emem \<sigma>) c = Some tc" "tcbs (emem \<sigma>) srv = Some ts" "tid tc = n"
    "elog \<sigma> = concat (map (ep_round f c n) reqs) @ l"
    "one_phase c (Ep_client e) (Endpoint_hook c) f (emem \<sigma>) tc ts (ecl \<sigma> c) (esrv \<sigma>) l"
  using assms unfolding one_inv_def by blast

lemma one_inv_call:
  assumes "one_inv e srv c n f \<sigma>" and "ecl \<sigma> c = Idle"
  shows "one_inv e srv c n f (\<sigma>\<lparr>ecl := (ecl \<sigma>)(c := Sending p x S_param), elog := elog \<sigma> @ [Called c p x]\<rparr>)"
proof -
  obtain tc ts reqs l where m: "servers (emem \<sigma>) e = Some srv" "tcbs (emem \<sigma>) c = Some tc" "tcbs (emem \<sigma>) srv = Some ts" "tid tc = n"
    and l: "elog \<sigma> = concat (map (ep_round f c n) reqs) @ l"
    and ph: "one_phase c (Ep_client e) (Endpoint_hook c) f (emem \<sigma>) tc ts (ecl \<sigma> c) (esrv \<sigma>) l"
    using one_invE [OF assms(1)] .
  have "l = [] \<and> one_phase c (Ep_client e) (Endpoint_hook c) f (emem \<sigma>) tc ts (Sending p x S_param) (esrv \<sigma>) [Called c p x]"
    using ph assms(2) by (auto elim!: one_phase.cases intro!: one_phase.filing)
  then show ?thesis using m l by (intro one_invI [of _ _ _ _ tc ts _ _ reqs "[Called c p x]"]) auto
qed

lemma one_inv_client:
  assumes "one_inv e srv c n f \<sigma>" and "ecl \<sigma> c \<noteq> Idle" and "c \<noteq> srv"
  shows "\<exists>\<sigma>'. client_access e c \<sigma> = Some \<sigma>' \<and> one_inv e srv c n f \<sigma>'"
proof -
  obtain tc ts reqs l where m: "servers (emem \<sigma>) e = Some srv" "tcbs (emem \<sigma>) c = Some tc" "tcbs (emem \<sigma>) srv = Some ts" "tid tc = n"
    and l: "elog \<sigma> = concat (map (ep_round f c n) reqs) @ l"
    and ph: "one_phase c (Ep_client e) (Endpoint_hook c) f (emem \<sigma>) tc ts (ecl \<sigma> c) (esrv \<sigma>) l"
    using one_invE [OF assms(1)] .
  obtain p x pc where cl: "ecl \<sigma> c = Sending p x pc" using assms(2) by (cases "ecl \<sigma> c") auto
  from phase_send [OF ph [unfolded cl] m(1-3) assms(3)] obtain m' pc' where
    s: "send_access e c p x pc (emem \<sigma>) = Some (m', pc')" "after_send e srv c f n p x m' pc' (esrv \<sigma>) l" using m(4) by blast
  show ?thesis
  proof (cases "\<exists>v. pc' = S_done v")
    case True
    then obtain v where v: "pc' = S_done v" by blast
    then have "client_access e c \<sigma> = Some (\<sigma>\<lparr>emem := m', ecl := (ecl \<sigma>)(c := Idle), elog := elog \<sigma> @ [Returned c v]\<rparr>)"
      using s(1) cl by (simp add: client_access_def)
    then show ?thesis using s(2) v l
      by (auto simp: after_send_def intro!: one_invI [where reqs = "reqs @ [(p, x)]" and l = "[]"])
  next
    case False
    then have "client_access e c \<sigma> = Some (\<sigma>\<lparr>emem := m', ecl := (ecl \<sigma>)(c := Sending p x pc')\<rparr>)"
      using s(1) cl by (cases pc') (simp_all add: client_access_def)
    moreover have "\<exists>tc ts. servers m' e = Some srv \<and> tcbs m' c = Some tc \<and> tcbs m' srv = Some ts \<and> tid tc = n \<and>
        one_phase c (Ep_client e) (Endpoint_hook c) f m' tc ts (Sending p x pc') (esrv \<sigma>) l"
      using s(2) False by (cases pc') (auto simp: after_send_def)
    ultimately show ?thesis using l by (auto intro!: one_invI)
  qed
qed

lemma one_inv_server:
  assumes "one_inv e srv c n f \<sigma>" and "c \<noteq> srv" and "e \<noteq> NULL" and "\<And>n x p. f n x p \<noteq> 0"
  shows "\<exists>\<sigma>'. server_access e f \<sigma> = Some \<sigma>' \<and> one_inv e srv c n f \<sigma>'"
proof -
  obtain tc ts reqs l where m: "servers (emem \<sigma>) e = Some srv" "tcbs (emem \<sigma>) c = Some tc" "tcbs (emem \<sigma>) srv = Some ts" "tid tc = n"
    and l: "elog \<sigma> = concat (map (ep_round f c n) reqs) @ l"
    and ph: "one_phase c (Ep_client e) (Endpoint_hook c) f (emem \<sigma>) tc ts (ecl \<sigma> c) (esrv \<sigma>) l"
    using one_invE [OF assms(1)] .
  have inv: "one_inv e srv c n f (\<sigma>\<lparr>emem := m', esrv := sv, elog := concat (map (ep_round f c n) reqs) @ l'\<rparr>)"
    if "after_serve e srv c f n (ecl \<sigma> c) m' sv l'" for m' sv l'
    using that by (auto simp: after_serve_def intro!: one_invI)
  have inv': "one_inv e srv c n f (\<sigma>\<lparr>emem := m', esrv := sv\<rparr>)"
    if "after_serve e srv c f n (ecl \<sigma> c) m' sv l" for m' sv
    using that l by (auto simp: after_serve_def intro!: one_invI)
  show ?thesis
  proof (cases "esrv \<sigma>")
    case (Taking pc)
    from phase_recv [OF ph [unfolded Taking] m(1-3) assms(2-4)] obtain m' pc' where
      s: "recv_access e pc (emem \<sigma>) = Some (m', pc')" "case pc' of
        R_done k x p \<Rightarrow> after_serve e srv c f n (ecl \<sigma> c) m' (Giving (f k x p) (reply_start e (f k x p))) (l @ [Took k x p])
        | _ \<Rightarrow> after_serve e srv c f n (ecl \<sigma> c) m' (Taking pc') l" using m(4) by blast
    show ?thesis using s Taking inv inv' l by (cases pc') (auto simp: server_access_def)
  next
    case (Giving v pc)
    show ?thesis
    proof (cases "pc = P_done")
      case True
      then show ?thesis using Giving m l phase_again [OF ph [unfolded Giving True]]
        by (auto simp: server_access_def intro!: one_invI)
    next
      case False
      from phase_reply [OF ph [unfolded Giving] False m(1-3) assms(2)] obtain m' pc' where
        s: "reply_access e v pc (emem \<sigma>) = Some (m', pc')" "after_serve e srv c f n (ecl \<sigma> c) m' (Giving v pc') l" using m(4) by blast
      have "server_access e f \<sigma> = Some (\<sigma>\<lparr>emem := m', esrv := Giving v pc'\<rparr>)" using s(1) Giving False by (cases pc) (auto simp: server_access_def)
      then show ?thesis using inv' [OF s(2)] by blast
    qed
  qed
qed

lemma one_inv_access:
  assumes "one_inv e srv c n f \<sigma>" and st: "ep_access e {c} f \<sigma> \<sigma>'"
    and "c \<noteq> srv" "e \<noteq> NULL" "\<And>n x p. f n x p \<noteq> 0"
  shows "one_inv e srv c n f \<sigma>'"
  using st
proof cases
  case (call d p x)
  then show ?thesis using one_inv_call [OF assms(1)] by simp
next
  case (client d)
  then have "ecl \<sigma> c \<noteq> Idle" by (auto simp: client_access_def)
  from one_inv_client [OF assms(1) this assms(3)] client show ?thesis by auto
next
  case server
  then show ?thesis using one_inv_server [OF assms(1,3-5)] by auto
qed

text \<open>The accesses that are left of a call; the second argument says whether the server has taken the request.\<close>

fun client_left :: "send_pc \<Rightarrow> nat" where
  "client_left S_param = 10"
| "client_left S_prev = 9"
| "client_left (S_link1 _) = 8"
| "client_left (S_link2 _) = 7"
| "client_left (S_link3 _) = 6"
| "client_left (S_link4 _) = 5"
| "client_left S_extra = 4"
| "client_left S_post = 3"
| "client_left S_wait = 2"
| "client_left S_ret = 1"
| "client_left (S_done _) = 0"

fun server_left :: "bool \<Rightarrow> server_state \<Rightarrow> nat" where
  "server_left False (Giving _ _) = 16"
| "server_left False (Taking R_wait) = 15"
| "server_left False (Taking R_first) = 14"
| "server_left False (Taking (R_tid _)) = 13"
| "server_left False (Taking (R_extra _ _)) = 12"
| "server_left False (Taking _) = 11"
| "server_left True (Giving _ P_first) = 10"
| "server_left True (Giving _ (P_param _)) = 9"
| "server_left True (Giving _ (P_prev _)) = 8"
| "server_left True (Giving _ (P_next _ _)) = 7"
| "server_left True (Giving _ (P_del1 _ _ _)) = 6"
| "server_left True (Giving _ (P_del2 _ _ _)) = 5"
| "server_left True (Giving _ (P_init1 _)) = 4"
| "server_left True (Giving _ (P_init2 _)) = 3"
| "server_left True (Giving _ (P_post _)) = 2"
| "server_left True (Giving _ P_done) = 1"
| "server_left True (Taking _) = 0"

fun is_took :: "ep_event \<Rightarrow> bool" where
  "is_took (Took _ _ _) = True"
| "is_took _ = False"

definition left_of :: "u64 \<Rightarrow> ep_sys \<Rightarrow> nat" where
  "left_of c \<sigma> = (case ecl \<sigma> c of Idle \<Rightarrow> 0 | Sending p x pc \<Rightarrow> client_left pc) + server_left (is_took (last (elog \<sigma>))) (esrv \<sigma>)"

definition moves :: "ptr \<Rightarrow> u64 \<Rightarrow> (u64 \<Rightarrow> u64 \<Rightarrow> u64 \<Rightarrow> u64) \<Rightarrow> ep_sys \<Rightarrow> ep_sys \<Rightarrow> bool" where
  "moves e c f \<sigma> \<sigma>' \<longleftrightarrow> (client_access e c \<sigma> = Some \<sigma>' \<or> server_access e f \<sigma> = Some \<sigma>') \<and> \<sigma>' \<noteq> \<sigma>"

lemma client_moves:
  assumes ph: "one_phase c (Ep_client e) (Endpoint_hook c) f (emem \<sigma>) tc ts (Sending p x pc) (esrv \<sigma>) l" and cl: "ecl \<sigma> c = Sending p x pc"
    and m: "servers (emem \<sigma>) e = Some srv" "tcbs (emem \<sigma>) c = Some tc" "tcbs (emem \<sigma>) srv = Some ts" "c \<noteq> srv"
    and st: "client_access e c \<sigma> = Some \<sigma>'"
  shows "\<sigma>' = \<sigma> \<or> ecl \<sigma>' c = Idle \<or> left_of c \<sigma>' < left_of c \<sigma>"
  using ph
proof (cases rule: one_phase.cases)
  case filing
  then show ?thesis using m st cl by (cases pc) (auto simp: client_access_def access_defs left_of_def)
qed (use m st cl in \<open>auto simp: client_access_def access_defs left_of_def fun_upd_idem split: if_splits\<close>)

lemma server_moves:
  assumes ph: "one_phase c (Ep_client e) (Endpoint_hook c) f (emem \<sigma>) tc ts (Sending p x pc) (esrv \<sigma>) l" and cl: "ecl \<sigma> c = Sending p x pc"
    and l: "elog \<sigma> = l0 @ l"
    and m: "servers (emem \<sigma>) e = Some srv" "tcbs (emem \<sigma>) c = Some tc" "tcbs (emem \<sigma>) srv = Some ts" "c \<noteq> srv"
    and f: "e \<noteq> NULL" "\<And>n x p. f n x p \<noteq> 0"
    and st: "server_access e f \<sigma> = Some \<sigma>'"
  shows "\<sigma>' = \<sigma> \<or> left_of c \<sigma>' < left_of c \<sigma>"
  using ph
proof (cases rule: one_phase.cases)
  case (taking rpc)
  then show ?thesis using m st cl l f by (cases rpc) (auto simp: server_access_def access_defs left_of_def reply_start_def)
next
  case (giving v rpc n)
  then show ?thesis using m st cl l by (cases rpc) (auto simp: server_access_def access_defs left_of_def)
qed (use m st cl l in \<open>auto simp: server_access_def access_defs left_of_def split: if_splits\<close>)

lemma one_inv_moves:
  assumes "one_inv e srv c n f \<sigma>" and "ecl \<sigma> c \<noteq> Idle" and "moves e c f \<sigma> \<sigma>'" and "c \<noteq> srv" and "e \<noteq> NULL" and "\<And>n x p. f n x p \<noteq> 0"
  shows "ecl \<sigma>' c = Idle \<or> left_of c \<sigma>' < left_of c \<sigma>"
proof -
  obtain tc ts reqs l where m: "servers (emem \<sigma>) e = Some srv" "tcbs (emem \<sigma>) c = Some tc" "tcbs (emem \<sigma>) srv = Some ts" "tid tc = n"
    and l: "elog \<sigma> = concat (map (ep_round f c n) reqs) @ l"
    and ph: "one_phase c (Ep_client e) (Endpoint_hook c) f (emem \<sigma>) tc ts (ecl \<sigma> c) (esrv \<sigma>) l"
    using one_invE [OF assms(1)] .
  obtain p x pc where cl: "ecl \<sigma> c = Sending p x pc" using assms(2) by (cases "ecl \<sigma> c") auto
  show ?thesis
    using client_moves [OF ph [unfolded cl] cl m(1-3) assms(4)] server_moves [OF ph [unfolded cl] cl l m(1-3) assms(4-6)] assms(3)
    unfolding moves_def by blast
qed

text \<open>A call in progress and the server are never both held up.\<close>

lemma client_held:
  assumes ph: "one_phase c (Ep_client e) (Endpoint_hook c) f (emem \<sigma>) tc ts (Sending p x pc) (esrv \<sigma>) l" and cl: "ecl \<sigma> c = Sending p x pc"
    and m: "servers (emem \<sigma>) e = Some srv" "tcbs (emem \<sigma>) c = Some tc" "tcbs (emem \<sigma>) srv = Some ts" "c \<noteq> srv"
    and st: "client_access e c \<sigma> = Some \<sigma>"
  shows "pc = S_wait \<and> schedule tc = 0"
  using ph
proof (cases rule: one_phase.cases)
  case filing
  then show ?thesis using m st cl by (cases pc) (auto simp: client_access_def access_defs dest!: arg_cong [where f = "\<lambda>s. ecl s c"])
next
  case woken
  then show ?thesis using m st cl by (auto simp: client_access_def access_defs dest!: arg_cong [where f = "\<lambda>s. ecl s c"])
qed auto

lemma server_held:
  assumes ph: "one_phase c (Ep_client e) (Endpoint_hook c) f (emem \<sigma>) tc ts (Sending p x S_wait) (esrv \<sigma>) l" and t: "schedule tc = 0"
    and m: "servers (emem \<sigma>) e = Some srv" "tcbs (emem \<sigma>) c = Some tc" "tcbs (emem \<sigma>) srv = Some ts" "c \<noteq> srv"
  shows "server_access e f \<sigma> \<noteq> Some \<sigma>"
  using ph
proof (cases rule: one_phase.cases)
  case late
  then show ?thesis by (auto simp: server_access_def dest!: arg_cong [where f = esrv])
next
  case (taking rpc)
  then show ?thesis using m by (cases rpc) (auto simp: server_access_def access_defs dest!: arg_cong [where f = esrv])
next
  case (giving v rpc n)
  then show ?thesis using m by (cases rpc) (auto simp: server_access_def access_defs dest!: arg_cong [where f = esrv])
qed (use t in auto)

lemma one_inv_progress:
  assumes "one_inv e srv c n f \<sigma>" and "ecl \<sigma> c \<noteq> Idle" and "c \<noteq> srv" and "e \<noteq> NULL" and "\<And>n x p. f n x p \<noteq> 0"
  shows "\<exists>\<sigma>'. moves e c f \<sigma> \<sigma>'"
proof -
  obtain tc ts reqs l where m: "servers (emem \<sigma>) e = Some srv" "tcbs (emem \<sigma>) c = Some tc" "tcbs (emem \<sigma>) srv = Some ts" "tid tc = n"
    and ph: "one_phase c (Ep_client e) (Endpoint_hook c) f (emem \<sigma>) tc ts (ecl \<sigma> c) (esrv \<sigma>) l"
    using one_invE [OF assms(1)] .
  obtain \<sigma>1 where c1: "client_access e c \<sigma> = Some \<sigma>1" using one_inv_client [OF assms(1-3)] by blast
  obtain \<sigma>2 where s1: "server_access e f \<sigma> = Some \<sigma>2" using one_inv_server [OF assms(1,3-5)] by blast
  obtain p x pc where cl: "ecl \<sigma> c = Sending p x pc" using assms(2) by (cases "ecl \<sigma> c") auto
  note ph = ph [unfolded cl]
  have "\<sigma>2 \<noteq> \<sigma>" if "\<sigma>1 = \<sigma>"
  proof -
    have "pc = S_wait" "schedule tc = 0" using client_held [OF ph cl m(1-3) assms(3)] c1 that by auto
    then show ?thesis using server_held [OF _ _ m(1-3) assms(3), of f p x l] ph s1 by auto
  qed
  then show ?thesis using c1 s1 unfolding moves_def by blast
qed

lemma one_inv_start:
  assumes "ep_rel e srv {c} tids m \<lparr>aq = [], ataken = False, areply = Map.empty\<rparr>"
  shows "one_inv e srv c (tids c) f (ep_start m)" "c \<noteq> srv" "e \<noteq> NULL"
proof -
  note v = ep_relD [OF assms]
  obtain ts where "tcbs m srv = Some ts" "schedule ts = 0" using v(5) by auto
  moreover obtain tc where "tcbs m c = Some tc" "tcb_rel tids \<lparr>aq = [], ataken = False, areply = Map.empty\<rparr> c tc" using v(11) [of c] by auto
  moreover have "unlinked m (Ep_client e)" using ring_ends [OF v(7)] by (simp add: unlinked_def startp_def endp_def)
  ultimately show "one_inv e srv c (tids c) f (ep_start m)" using v(4)
    by (auto simp: ep_start_def tcb_rel_def intro!: one_invI [where reqs = "[]" and l = "[]"] one_phase.rest)
qed (use ep_relD [OF assms] in auto)

lemma one_inv_reach:
  assumes "ep_rel e srv {c} tids m \<lparr>aq = [], ataken = False, areply = Map.empty\<rparr>" and "\<And>n x p. f n x p \<noteq> 0"
    and "(ep_access e {c} f)\<^sup>*\<^sup>* (ep_start m) \<sigma>"
  shows "one_inv e srv c (tids c) f \<sigma>"
  using assms(3)
proof (induction rule: rtranclp_induct)
  case base
  show ?case by (rule one_inv_start(1) [OF assms(1)])
next
  case (step \<sigma> \<sigma>')
  then show ?case using one_inv_access [of e srv c "tids c" f \<sigma> \<sigma>', OF _ _ one_inv_start(2,3) [OF assms(1)] assms(2)] by blast
qed

lemma one_inv_prefix:
  assumes "one_inv e srv c n f \<sigma>"
  shows "\<exists>reqs. prefix (elog \<sigma>) (concat (map (ep_round f c n) reqs))"
proof -
  obtain tc ts reqs l where m: "tid tc = n" and l: "elog \<sigma> = concat (map (ep_round f c n) reqs) @ l"
    and ph: "one_phase c (Ep_client e) (Endpoint_hook c) f (emem \<sigma>) tc ts (ecl \<sigma> c) (esrv \<sigma>) l"
    using one_invE [OF assms] .
  have "\<exists>p x. prefix l (ep_round f c n (p, x))" using ph m by cases (auto simp: ep_round_def)
  then obtain r where "prefix l (ep_round f c n r)" by blast
  then have "prefix (elog \<sigma>) (concat (map (ep_round f c n) (reqs @ [r])))" using l by simp
  then show ?thesis by blast
qed

lemma one_inv_left:
  assumes "one_inv e srv c n f \<sigma>" and "ecl \<sigma> c \<noteq> Idle"
  shows "0 < left_of c \<sigma>"
proof -
  obtain tc ts reqs l where ph: "one_phase c (Ep_client e) (Endpoint_hook c) f (emem \<sigma>) tc ts (ecl \<sigma> c) (esrv \<sigma>) l"
    using one_invE [OF assms(1)] .
  obtain p x pc where cl: "ecl \<sigma> c = Sending p x pc" using assms(2) by (cases "ecl \<sigma> c") auto
  have "0 < client_left pc" using ph unfolding cl by cases (auto elim!: filing.elims)
  then show ?thesis using cl by (simp add: left_of_def)
qed

lemma left_of_bound: "left_of c \<sigma> \<le> 26"
proof -
  have "client_left pc \<le> 10" for pc by (cases pc) auto
  moreover have "server_left b sv \<le> 16" for b sv
    by (cases "(b, sv)" rule: server_left.cases) auto
  ultimately have "(case ecl \<sigma> c of Idle \<Rightarrow> 0 | Sending p x pc \<Rightarrow> client_left pc) \<le> 10" "server_left (is_took (last (elog \<sigma>))) (esrv \<sigma>) \<le> 16"
    by (simp_all split: client_state.split)
  then show ?thesis unfolding left_of_def by linarith
qed

lemma one_inv_returns:
  assumes "one_inv e srv c n f \<sigma>" and "c \<noteq> srv" and "e \<noteq> NULL" and f: "\<And>n x p. f n x p \<noteq> 0"
    and "((\<lambda>a b. ecl a c \<noteq> Idle \<and> moves e c f a b) ^^ k) \<sigma> \<sigma>'"
  shows "k \<le> left_of c \<sigma>"
  using assms(1,5)
proof (induction k arbitrary: \<sigma>)
  case (Suc k)
  then obtain \<sigma>1 where s: "ecl \<sigma> c \<noteq> Idle" "moves e c f \<sigma> \<sigma>1" "((\<lambda>a b. ecl a c \<noteq> Idle \<and> moves e c f a b) ^^ k) \<sigma>1 \<sigma>'"
    using relpowp_Suc_D2 [OF Suc.prems(2)] by blast
  have "ep_access e {c} f \<sigma> \<sigma>1" using s(2) by (auto simp: moves_def intro: ep_access.client ep_access.server)
  from one_inv_access [OF Suc.prems(1) this assms(2,3) f] have inv: "one_inv e srv c n f \<sigma>1" .
  show ?case
  proof (cases "ecl \<sigma>1 c = Idle")
    case True
    have "k = 0"
    proof (cases k)
      case (Suc j)
      then show ?thesis using relpowp_Suc_D2 [OF s(3) [unfolded Suc]] True by auto
    qed
    then show ?thesis using one_inv_left [OF Suc.prems(1) s(1)] by simp
  next
    case False
    then show ?thesis using one_inv_moves [OF Suc.prems(1) s(1,2) assms(2,3) f] Suc.IH [OF inv s(3)] by simp
  qed
qed simp

text \<open>
  (C11) A request through an endpoint with one client: the client calls \<open>endpoint_send\<close> as often as it likes, the server takes requests and
  replies with values that are not 0, and the accesses of the two to shared memory interleave in any order.  The server is given each request
  once, with the number of the client's thread and the two values that were sent, and the call returns the server's reply to
  it, before the next request.  Neither thread follows a bad pointer, and while a call is in progress one of the two can always go on; after at most
  26 accesses of the two, not counting those that find a semaphore at 0, the call has returned.
\<close>

theorem endpoint_one_client:
  assumes "ep_rel e srv {c} tids m \<lparr>aq = [], ataken = False, areply = Map.empty\<rparr>"
    and "\<And>n x p. f n x p \<noteq> 0"
    and "(ep_access e {c} f)\<^sup>*\<^sup>* (ep_start m) \<sigma>"
  shows "(\<exists>reqs. prefix (elog \<sigma>) (concat (map (ep_round f c (tids c)) reqs))) \<and>
    server_access e f \<sigma> \<noteq> None \<and>
    (ecl \<sigma> c \<noteq> Idle \<longrightarrow> client_access e c \<sigma> \<noteq> None \<and> (\<exists>\<sigma>'. moves e c f \<sigma> \<sigma>')) \<and>
    (\<forall>k \<sigma>'. ((\<lambda>a b. ecl a c \<noteq> Idle \<and> moves e c f a b) ^^ k) \<sigma> \<sigma>' \<longrightarrow> k \<le> 26)"
proof -
  note inv = one_inv_reach [of e srv c tids m f, OF assms]
  note st = one_inv_start(2,3) [OF assms(1)]
  show ?thesis
    using one_inv_prefix [OF inv] one_inv_server [of e srv c "tids c" f \<sigma>, OF inv st assms(2)] one_inv_client [OF inv _ st(1)]
      one_inv_progress [of e srv c "tids c" f \<sigma>, OF inv _ st assms(2)]
      one_inv_returns [of e srv c "tids c" f \<sigma>, OF inv st assms(2)] left_of_bound [of c \<sigma>]
    by (auto intro: le_trans)
qed

section \<open>Two clients\<close>

lemma call_reach:
  assumes "c \<in> C" and "ecl \<sigma> c = Idle"
  shows "(ep_access e C f)\<^sup>*\<^sup>* \<sigma> (\<sigma>\<lparr>ecl := (ecl \<sigma>)(c := Sending p x S_param), elog := elog \<sigma> @ [Called c p x]\<rparr>)"
  by (rule r_into_rtranclp) (rule ep_access.call [OF assms])

lemma server_reach:
  assumes "server_access e f \<sigma> = Some \<sigma>'"
  shows "(ep_access e C f)\<^sup>*\<^sup>* \<sigma> \<sigma>'"
  by (rule r_into_rtranclp) (rule ep_access.server [OF assms])

text \<open>A thread that makes accesses while the others rest.\<close>

lemma client_alone:
  assumes "c \<in> C" and "ecl \<sigma> c = Sending p x pc" and "alone (send_access e c p x) k pc (emem \<sigma>) = Some (m', pc')" and "\<forall>v. pc' \<noteq> S_done v"
  shows "(ep_access e C f)\<^sup>*\<^sup>* \<sigma> (\<sigma>\<lparr>emem := m', ecl := (ecl \<sigma>)(c := Sending p x pc')\<rparr>)"
  using assms(2-4)
proof (induction k arbitrary: \<sigma> pc)
  case (Suc k)
  then obtain m1 pc1 where s: "send_access e c p x pc (emem \<sigma>) = Some (m1, pc1)" "alone (send_access e c p x) k pc1 m1 = Some (m', pc')" by auto
  have nd: "\<forall>v. pc1 \<noteq> S_done v"
  proof (rule ccontr)
    assume "\<not> ?thesis"
    then show False using s(2) Suc.prems(3) by (cases k) auto
  qed
  let ?\<sigma> = "\<sigma>\<lparr>emem := m1, ecl := (ecl \<sigma>)(c := Sending p x pc1)\<rparr>"
  have "client_access e c \<sigma> = Some ?\<sigma>" using s(1) Suc.prems(1) nd by (cases pc1) (auto simp: client_access_def)
  then have "ep_access e C f \<sigma> ?\<sigma>" by (rule ep_access.client [OF assms(1)])
  moreover have "(ep_access e C f)\<^sup>*\<^sup>* ?\<sigma> (?\<sigma>\<lparr>emem := m', ecl := (ecl ?\<sigma>)(c := Sending p x pc')\<rparr>)"
    by (rule Suc.IH) (use s(2) Suc.prems(3) in auto)
  ultimately have "(ep_access e C f)\<^sup>*\<^sup>* \<sigma> (?\<sigma>\<lparr>emem := m', ecl := (ecl ?\<sigma>)(c := Sending p x pc')\<rparr>)"
    by (rule converse_rtranclp_into_rtranclp)
  moreover have "?\<sigma>\<lparr>emem := m', ecl := (ecl ?\<sigma>)(c := Sending p x pc')\<rparr> = \<sigma>\<lparr>emem := m', ecl := (ecl \<sigma>)(c := Sending p x pc')\<rparr>" by simp
  ultimately show ?case by (simp only:)
qed (auto simp: fun_upd_idem)

lemma server_alone:
  assumes "esrv \<sigma> = Taking pc" and "alone (recv_access e) (Suc k) pc (emem \<sigma>) = Some (m', R_done n x p)"
  shows "(ep_access e C f)\<^sup>*\<^sup>* \<sigma> (\<sigma>\<lparr>emem := m', esrv := Giving (f n x p) (reply_start e (f n x p)), elog := elog \<sigma> @ [Took n x p]\<rparr>)"
  using assms
proof (induction k arbitrary: \<sigma> pc)
  case 0
  then have "server_access e f \<sigma> = Some (\<sigma>\<lparr>emem := m', esrv := Giving (f n x p) (reply_start e (f n x p)), elog := elog \<sigma> @ [Took n x p]\<rparr>)"
    by (auto simp: server_access_def)
  then show ?case by (blast intro: ep_access.server)
next
  case (Suc k)
  then obtain m1 pc1 where s: "recv_access e pc (emem \<sigma>) = Some (m1, pc1)" "alone (recv_access e) (Suc k) pc1 m1 = Some (m', R_done n x p)" by auto
  let ?\<sigma> = "\<sigma>\<lparr>emem := m1, esrv := Taking pc1\<rparr>"
  have "server_access e f \<sigma> = Some ?\<sigma>" using s Suc.prems(1) by (cases pc1) (auto simp: server_access_def)
  then have "ep_access e C f \<sigma> ?\<sigma>" by (rule ep_access.server)
  moreover have "(ep_access e C f)\<^sup>*\<^sup>* ?\<sigma>
      (?\<sigma>\<lparr>emem := m', esrv := Giving (f n x p) (reply_start e (f n x p)), elog := elog ?\<sigma> @ [Took n x p]\<rparr>)"
    by (rule Suc.IH) (use s(2) in auto)
  ultimately have "(ep_access e C f)\<^sup>*\<^sup>* \<sigma>
      (?\<sigma>\<lparr>emem := m', esrv := Giving (f n x p) (reply_start e (f n x p)), elog := elog ?\<sigma> @ [Took n x p]\<rparr>)"
    by (rule converse_rtranclp_into_rtranclp)
  then show ?case by simp
qed

text \<open>
  With a second client the endpoint needs a lock it does not have: a client that is on the list and has not yet stored its extra value is taken
  for the other's request, and the server is given the extra value of an earlier call.
\<close>

theorem endpoint_stale_extra:
  assumes "ep_rel e srv C tids m \<lparr>aq = [], ataken = False, areply = Map.empty\<rparr>" and "b \<in> C" and "c \<in> C" and "b \<noteq> c" and "tcbs m b = Some t"
  shows "\<exists>\<sigma>. (ep_access e C f)\<^sup>*\<^sup>* (ep_start m) \<sigma> \<and> elog \<sigma> = [Called b p x, Called c q y, Took (tids b) (extra t) p]"
proof -
  note v = ep_relD [OF assms(1)]
  obtain ts where ts: "tcbs m srv = Some ts" "schedule ts = 0" using v(5) by auto
  obtain tc where tc: "tcbs m c = Some tc" using v(11) [OF assms(3)] by auto
  have t: "tid t = tids b" using v(11) [OF assms(2)] assms(5) by (auto simp: tcb_rel_def)
  have ne: "b \<noteq> srv" "c \<noteq> srv" using assms(2,3) v(3) by auto
  have h: "lnext (dlinks m) (Ep_client e) = Ep_client e" "lprev (dlinks m) (Ep_client e) = Ep_client e"
    using ring_ends [OF v(7)] by (simp_all add: startp_def endp_def)
  obtain m1 where m1: "alone (send_access e b p x) 6 S_param m = Some (m1, S_extra)" "tcbs m1 = (tcbs m)(b \<mapsto> t\<lparr>reg_params := p\<rparr>)"
      "servers m1 = servers m" "lnext (dlinks m1) (Ep_client e) = Endpoint_hook b" "lprev (dlinks m1) (Ep_client e) = Endpoint_hook b"
    using assms(5) v(4) h by (simp add: alone_numeral access_defs)
  obtain m2 where m2: "alone (send_access e c q y) 8 S_param m1 = Some (m2, S_wait)" "tcbs m2 b = Some (t\<lparr>reg_params := p\<rparr>)"
      "tcbs m2 srv = Some (ts\<lparr>schedule := 1\<rparr>)" "servers m2 = servers m" "lnext (dlinks m2) (Ep_client e) = Endpoint_hook b"
    using m1(2-5) tc ts v(4) assms(4) ne by (simp add: alone_numeral access_defs)
  obtain m3 where m3: "alone (recv_access e) (Suc 4) R_wait m2 = Some (m3, R_done (tids b) (extra t) p)"
    using m2(2-5) v(4) ne t by (simp add: alone_numeral access_defs)
  define \<sigma>1 where "\<sigma>1 = (ep_start m)\<lparr>ecl := (\<lambda>_. Idle)(b := Sending p x S_param), elog := [Called b p x]\<rparr>"
  define \<sigma>2 where "\<sigma>2 = \<sigma>1\<lparr>emem := m1, ecl := (ecl \<sigma>1)(b := Sending p x S_extra)\<rparr>"
  define \<sigma>3 where "\<sigma>3 = \<sigma>2\<lparr>ecl := (ecl \<sigma>2)(c := Sending q y S_param), elog := elog \<sigma>2 @ [Called c q y]\<rparr>"
  define \<sigma>4 where "\<sigma>4 = \<sigma>3\<lparr>emem := m2, ecl := (ecl \<sigma>3)(c := Sending q y S_wait)\<rparr>"
  let ?\<sigma> = "\<sigma>4\<lparr>emem := m3, esrv := Giving (f (tids b) (extra t) p) (reply_start e (f (tids b) (extra t) p)), elog := elog \<sigma>4 @ [Took (tids b) (extra t) p]\<rparr>"
  note defs = \<sigma>1_def \<sigma>2_def \<sigma>3_def \<sigma>4_def ep_start_def
  have r1: "(ep_access e C f)\<^sup>*\<^sup>* (ep_start m) \<sigma>1"
    using call_reach [OF assms(2), of "ep_start m" e f p x] by (simp add: defs)
  have r2: "(ep_access e C f)\<^sup>*\<^sup>* \<sigma>1 \<sigma>2"
    unfolding \<sigma>2_def by (rule client_alone [OF assms(2), of _ _ _ S_param _ 6]) (simp_all add: defs m1(1))
  have r3: "(ep_access e C f)\<^sup>*\<^sup>* \<sigma>2 \<sigma>3"
    unfolding \<sigma>3_def by (rule call_reach [OF assms(3)]) (use assms(4) in \<open>simp add: defs\<close>)
  have r4: "(ep_access e C f)\<^sup>*\<^sup>* \<sigma>3 \<sigma>4"
    unfolding \<sigma>4_def by (rule client_alone [OF assms(3), of _ _ _ S_param _ 8]) (simp_all add: defs m2(1))
  have r5: "(ep_access e C f)\<^sup>*\<^sup>* \<sigma>4 ?\<sigma>" by (rule server_alone [of _ R_wait _ 4]) (simp_all add: defs m3 [simplified])
  have "(ep_access e C f)\<^sup>*\<^sup>* (ep_start m) ?\<sigma>"
    by (rule rtranclp_trans [OF r1 rtranclp_trans [OF r2 rtranclp_trans [OF r3 rtranclp_trans [OF r4 r5]]]])
  moreover have "elog ?\<sigma> = [Called b p x, Called c q y, Took (tids b) (extra t) p]" by (simp add: defs)
  ultimately show ?thesis by blast
qed

lemma server_alone_reply:
  assumes "esrv \<sigma> = Giving v pc" and "alone (reply_access e v) k pc (emem \<sigma>) = Some (m', pc')"
  shows "(ep_access e C f)\<^sup>*\<^sup>* \<sigma> (\<sigma>\<lparr>emem := m', esrv := Giving v pc'\<rparr>)"
  using assms
proof (induction k arbitrary: \<sigma> pc)
  case (Suc k)
  then obtain m1 pc1 where s: "reply_access e v pc (emem \<sigma>) = Some (m1, pc1)" "alone (reply_access e v) k pc1 m1 = Some (m', pc')" by auto
  let ?\<sigma> = "\<sigma>\<lparr>emem := m1, esrv := Giving v pc1\<rparr>"
  have "server_access e f \<sigma> = Some ?\<sigma>" using s(1) Suc.prems(1) by (cases pc) (auto simp: server_access_def)
  then have "ep_access e C f \<sigma> ?\<sigma>" by (rule ep_access.server)
  moreover have "(ep_access e C f)\<^sup>*\<^sup>* ?\<sigma> (?\<sigma>\<lparr>emem := m', esrv := Giving v pc'\<rparr>)" by (rule Suc.IH) (use s(2) in auto)
  ultimately have "(ep_access e C f)\<^sup>*\<^sup>* \<sigma> (?\<sigma>\<lparr>emem := m', esrv := Giving v pc'\<rparr>)" by (rule converse_rtranclp_into_rtranclp)
  then show ?case by simp
next
  case 0
  then have "\<sigma>\<lparr>emem := m', esrv := Giving v pc'\<rparr> = \<sigma>" by auto
  then show ?case by (simp only: rtranclp.rtrancl_refl)
qed

lemma both_linked:
  assumes "ep_rel e srv C tids m \<lparr>aq = [], ataken = False, areply = Map.empty\<rparr>" and "b \<in> C" and "c \<in> C" and "b \<noteq> c"
  shows "\<exists>\<sigma> tc ts. (ep_access e C f)\<^sup>*\<^sup>* (ep_start m) \<sigma> \<and> elog \<sigma> = [Called b p x, Called c q y] \<and> esrv \<sigma> = Taking R_wait \<and>
    servers (emem \<sigma>) e = Some srv \<and> tcbs (emem \<sigma>) srv = Some ts \<and> schedule ts = 2 \<and>
    tcbs (emem \<sigma>) c = Some tc \<and> tid tc = tids c \<and> reg_params tc = q \<and> extra tc = y \<and> linked (emem \<sigma>) (Ep_client e) (Endpoint_hook c)"
proof -
  note v = ep_relD [OF assms(1)]
  obtain ts where ts: "tcbs m srv = Some ts" "schedule ts = 0" using v(5) by auto
  obtain tb where tb: "tcbs m b = Some tb" using v(11) [OF assms(2)] by auto
  obtain tc where tc: "tcbs m c = Some tc" "tid tc = tids c" using v(11) [OF assms(3)] by (auto simp: tcb_rel_def)
  have ne: "b \<noteq> srv" "c \<noteq> srv" using assms(2,3) v(3) by auto
  let ?h = "Ep_client e"
  have h: "lnext (dlinks m) ?h = ?h" "lprev (dlinks m) ?h = ?h" using ring_ends [OF v(7)] by (simp_all add: startp_def endp_def)
  obtain m1 where m1: "alone (send_access e b p x) 2 S_param m = Some (m1, S_link1 ?h)" "tcbs m1 = (tcbs m)(b \<mapsto> tb\<lparr>reg_params := p\<rparr>)"
      "servers m1 = servers m" "dlinks m1 = dlinks m"
    using tb v(4) h by (simp add: alone_numeral access_defs)
  obtain m2 where m2: "alone (send_access e c q y) 2 S_param m1 = Some (m2, S_link1 ?h)" "tcbs m2 = (tcbs m1)(c \<mapsto> tc\<lparr>reg_params := q\<rparr>)"
      "servers m2 = servers m" "dlinks m2 = dlinks m"
    using m1(2-4) tc v(4) h assms(4) by (simp add: alone_numeral access_defs)
  obtain m3 where m3: "alone (send_access e b p x) 6 (S_link1 ?h) m2 = Some (m3, S_wait)" "tcbs m3 c = Some (tc\<lparr>reg_params := q\<rparr>)"
      "tcbs m3 srv = Some (ts\<lparr>schedule := 1\<rparr>)" "servers m3 = servers m"
    using m1(2) m2(2-4) tb ts v(4) ne assms(4) by (simp add: alone_numeral access_defs)
  obtain m4 where m4: "alone (send_access e c q y) 6 (S_link1 ?h) m3 = Some (m4, S_wait)" "tcbs m4 c = Some (tc\<lparr>reg_params := q, extra := y\<rparr>)"
      "tcbs m4 srv = Some (ts\<lparr>schedule := 2\<rparr>)" "servers m4 = servers m" "linked m4 ?h (Endpoint_hook c)"
    using m3(2-4) v(4) ne by (simp add: alone_numeral access_defs)
  define \<sigma>1 where "\<sigma>1 = (ep_start m)\<lparr>ecl := (\<lambda>_. Idle)(b := Sending p x S_param), elog := [Called b p x]\<rparr>"
  define \<sigma>2 where "\<sigma>2 = \<sigma>1\<lparr>emem := m1, ecl := (ecl \<sigma>1)(b := Sending p x (S_link1 ?h))\<rparr>"
  define \<sigma>3 where "\<sigma>3 = \<sigma>2\<lparr>ecl := (ecl \<sigma>2)(c := Sending q y S_param), elog := elog \<sigma>2 @ [Called c q y]\<rparr>"
  define \<sigma>4 where "\<sigma>4 = \<sigma>3\<lparr>emem := m2, ecl := (ecl \<sigma>3)(c := Sending q y (S_link1 ?h))\<rparr>"
  define \<sigma>5 where "\<sigma>5 = \<sigma>4\<lparr>emem := m3, ecl := (ecl \<sigma>4)(b := Sending p x S_wait)\<rparr>"
  let ?\<sigma> = "\<sigma>5\<lparr>emem := m4, ecl := (ecl \<sigma>5)(c := Sending q y S_wait)\<rparr>"
  note defs = \<sigma>1_def \<sigma>2_def \<sigma>3_def \<sigma>4_def \<sigma>5_def ep_start_def
  have r1: "(ep_access e C f)\<^sup>*\<^sup>* (ep_start m) \<sigma>1" using call_reach [OF assms(2), of "ep_start m" e f p x] by (simp add: defs)
  have r2: "(ep_access e C f)\<^sup>*\<^sup>* \<sigma>1 \<sigma>2"
    unfolding \<sigma>2_def by (rule client_alone [OF assms(2), of _ _ _ S_param _ 2]) (simp_all add: defs m1(1))
  have r3: "(ep_access e C f)\<^sup>*\<^sup>* \<sigma>2 \<sigma>3" unfolding \<sigma>3_def by (rule call_reach [OF assms(3)]) (use assms(4) in \<open>simp add: defs\<close>)
  have r4: "(ep_access e C f)\<^sup>*\<^sup>* \<sigma>3 \<sigma>4"
    unfolding \<sigma>4_def by (rule client_alone [OF assms(3), of _ _ _ S_param _ 2]) (simp_all add: defs m2(1))
  have r5: "(ep_access e C f)\<^sup>*\<^sup>* \<sigma>4 \<sigma>5"
    unfolding \<sigma>5_def by (rule client_alone [OF assms(2), of _ _ _ "S_link1 ?h" _ 6]) (use assms(4) in \<open>simp_all add: defs m3(1)\<close>)
  have r6: "(ep_access e C f)\<^sup>*\<^sup>* \<sigma>5 ?\<sigma>"
    by (rule client_alone [OF assms(3), of _ _ _ "S_link1 ?h" _ 6]) (use assms(4) in \<open>simp_all add: defs m4(1)\<close>)
  have "(ep_access e C f)\<^sup>*\<^sup>* (ep_start m) ?\<sigma>"
    by (rule rtranclp_trans [OF r1 rtranclp_trans [OF r2 rtranclp_trans [OF r3 rtranclp_trans [OF r4 rtranclp_trans [OF r5 r6]]]]])
  moreover have "elog ?\<sigma> = [Called b p x, Called c q y]" "esrv ?\<sigma> = Taking R_wait" "emem ?\<sigma> = m4" by (simp_all add: defs)
  ultimately show ?thesis using m4(2-5) v(4) tc(2)
    by (intro exI [of _ ?\<sigma>] exI [of _ "tc\<lparr>reg_params := q, extra := y\<rparr>"] exI [of _ "ts\<lparr>schedule := 2\<rparr>"]) simp
qed

text \<open>
  Two clients that enter themselves at the same time both read the same end of the list, and the first is lost from it; both have woken the server, which
  after the second's request finds the list empty and takes its head for a client.
\<close>

theorem endpoint_lost_client:
  assumes "ep_rel e srv C tids m \<lparr>aq = [], ataken = False, areply = Map.empty\<rparr>" and "b \<in> C" and "c \<in> C" and "b \<noteq> c" and "f (tids c) y q \<noteq> 0"
  shows "\<exists>\<sigma>. (ep_access e C f)\<^sup>*\<^sup>* (ep_start m) \<sigma> \<and> elog \<sigma> = [Called b p x, Called c q y, Took (tids c) y q] \<and> server_access e f \<sigma> = None"
proof -
  note v = ep_relD [OF assms(1)]
  have ne: "c \<noteq> srv" using assms(3) v(3) by auto
  let ?h = "Ep_client e" and ?v = "f (tids c) y q"
  obtain \<sigma>6 tc ts where r6: "(ep_access e C f)\<^sup>*\<^sup>* (ep_start m) \<sigma>6" and s6: "elog \<sigma>6 = [Called b p x, Called c q y]" "esrv \<sigma>6 = Taking R_wait"
    and m4: "servers (emem \<sigma>6) e = Some srv" "tcbs (emem \<sigma>6) srv = Some ts" "schedule ts = 2"
      "tcbs (emem \<sigma>6) c = Some tc" "tid tc = tids c" "reg_params tc = q" "extra tc = y" "linked (emem \<sigma>6) ?h (Endpoint_hook c)"
    using both_linked [OF assms(1-4)] by blast
  obtain m5 where m5: "alone (recv_access e) (Suc 4) R_wait (emem \<sigma>6) = Some (m5, R_done (tids c) y q)" "tcbs m5 c = Some tc"
      "tcbs m5 srv = Some (ts\<lparr>schedule := 1\<rparr>)" "servers m5 e = Some srv" "linked m5 ?h (Endpoint_hook c)"
    using m4 ne by (simp add: alone_numeral access_defs)
  obtain m6 where m6: "alone (reply_access e ?v) 9 P_first m5 = Some (m6, P_done)"
      "tcbs m6 srv = Some (ts\<lparr>schedule := 1\<rparr>)" "servers m6 e = Some srv" "unlinked m6 ?h"
    using m5(2-5) ne by (simp add: alone_numeral access_defs Let_def)
  define \<sigma>7 where "\<sigma>7 = \<sigma>6\<lparr>emem := m5, esrv := Giving ?v (reply_start e ?v), elog := elog \<sigma>6 @ [Took (tids c) y q]\<rparr>"
  define \<sigma>8 where "\<sigma>8 = \<sigma>7\<lparr>emem := m6, esrv := Giving ?v P_done\<rparr>"
  define \<sigma>9 where "\<sigma>9 = \<sigma>8\<lparr>esrv := Taking R_wait\<rparr>"
  let ?\<sigma> = "\<sigma>9\<lparr>emem := m6\<lparr>tcbs := (tcbs m6)(srv \<mapsto> ts\<lparr>schedule := 0\<rparr>)\<rparr>, esrv := Taking R_first\<rparr>"
  have r7: "(ep_access e C f)\<^sup>*\<^sup>* \<sigma>6 \<sigma>7" unfolding \<sigma>7_def by (rule server_alone [OF s6(2) m5(1)])
  have r8: "(ep_access e C f)\<^sup>*\<^sup>* \<sigma>7 \<sigma>8"
    unfolding \<sigma>8_def by (rule server_alone_reply [of _ _ P_first _ 9]) (use v(1) assms(5) in \<open>simp_all add: \<sigma>7_def reply_start_def m6(1)\<close>)
  have r9: "(ep_access e C f)\<^sup>*\<^sup>* \<sigma>8 \<sigma>9" unfolding \<sigma>9_def by (rule server_reach) (simp add: server_access_def \<sigma>8_def)
  have r10: "(ep_access e C f)\<^sup>*\<^sup>* \<sigma>9 ?\<sigma>"
    by (rule server_reach) (use m6 in \<open>simp add: server_access_def \<sigma>9_def \<sigma>8_def access_defs\<close>)
  have "(ep_access e C f)\<^sup>*\<^sup>* (ep_start m) ?\<sigma>"
    by (rule rtranclp_trans [OF r6 rtranclp_trans [OF r7 rtranclp_trans [OF r8 rtranclp_trans [OF r9 r10]]]])
  moreover have "server_access e f ?\<sigma> = None" using m6(4) by (simp add: server_access_def unlinked_def)
  moreover have "elog ?\<sigma> = [Called b p x, Called c q y, Took (tids c) y q]" by (simp add: \<sigma>7_def \<sigma>8_def \<sigma>9_def s6(1))
  ultimately show ?thesis by blast
qed

section \<open>An example\<close>

lemma ep_rel_one: "ep_rel 9 1 {2} (\<lambda>c. c + 100) dmem_ex \<lparr>aq = [], ataken = False, areply = Map.empty\<rparr>"
  using ep_rel_ex unfolding ep_rel_def by auto

text \<open>The client is in its first call and the server has taken the request.\<close>

lemma one_taken_ex:
  assumes "ep_rel e srv {c} tids m \<lparr>aq = [], ataken = False, areply = Map.empty\<rparr>"
  shows "\<exists>\<sigma>. (ep_access e {c} f)\<^sup>*\<^sup>* (ep_start m) \<sigma> \<and> ecl \<sigma> c = Sending p x S_wait \<and> elog \<sigma> = [Called c p x, Took (tids c) x p]"
proof -
  note v = ep_relD [OF assms]
  obtain ts where ts: "tcbs m srv = Some ts" "schedule ts = 0" using v(5) by auto
  obtain tc where tc: "tcbs m c = Some tc" "tid tc = tids c" using v(11) [of c] by (auto simp: tcb_rel_def)
  have ne: "c \<noteq> srv" using v(3) by auto
  have h: "lnext (dlinks m) (Ep_client e) = Ep_client e" "lprev (dlinks m) (Ep_client e) = Ep_client e"
    using ring_ends [OF v(7)] by (simp_all add: startp_def endp_def)
  obtain m1 where m1: "alone (send_access e c p x) 8 S_param m = Some (m1, S_wait)" "tcbs m1 c = Some (tc\<lparr>reg_params := p, extra := x\<rparr>)"
      "tcbs m1 srv = Some (ts\<lparr>schedule := 1\<rparr>)" "servers m1 = servers m" "lnext (dlinks m1) (Ep_client e) = Endpoint_hook c"
    using tc ts v(4) ne h by (simp add: alone_numeral access_defs)
  obtain m2 where m2: "alone (recv_access e) (Suc 4) R_wait m1 = Some (m2, R_done (tids c) x p)"
    using m1(2-5) v(4) ne tc by (simp add: alone_numeral access_defs)
  define \<sigma>1 where "\<sigma>1 = (ep_start m)\<lparr>ecl := (\<lambda>_. Idle)(c := Sending p x S_param), elog := [Called c p x]\<rparr>"
  define \<sigma>2 where "\<sigma>2 = \<sigma>1\<lparr>emem := m1, ecl := (ecl \<sigma>1)(c := Sending p x S_wait)\<rparr>"
  let ?\<sigma> = "\<sigma>2\<lparr>emem := m2, esrv := Giving (f (tids c) x p) (reply_start e (f (tids c) x p)), elog := elog \<sigma>2 @ [Took (tids c) x p]\<rparr>"
  note defs = \<sigma>1_def \<sigma>2_def ep_start_def
  have r1: "(ep_access e {c} f)\<^sup>*\<^sup>* (ep_start m) \<sigma>1" using call_reach [of c "{c}" "ep_start m" e f p x] by (simp add: defs)
  have r2: "(ep_access e {c} f)\<^sup>*\<^sup>* \<sigma>1 \<sigma>2"
    unfolding \<sigma>2_def by (rule client_alone [of _ _ _ _ _ S_param _ 8]) (simp_all add: defs m1(1))
  have r3: "(ep_access e {c} f)\<^sup>*\<^sup>* \<sigma>2 ?\<sigma>" by (rule server_alone [of _ R_wait _ 4]) (simp_all add: defs m2 [simplified])
  have "(ep_access e {c} f)\<^sup>*\<^sup>* (ep_start m) ?\<sigma>" by (rule rtranclp_trans [OF r1 rtranclp_trans [OF r2 r3]])
  moreover have "ecl ?\<sigma> c = Sending p x S_wait" "elog ?\<sigma> = [Called c p x, Took (tids c) x p]" by (simp_all add: defs)
  ultimately show ?thesis by blast
qed

theorem endpoint_one_client_witness:
  "\<exists>\<sigma>. (ep_access 9 {2} (\<lambda>n x p. 7))\<^sup>*\<^sup>* (ep_start dmem_ex) \<sigma> \<and> ecl \<sigma> 2 = Sending 20 1 S_wait \<and> elog \<sigma> = [Called 2 20 1, Took 102 1 20] \<and>
     client_access 9 2 \<sigma> \<noteq> None \<and> (\<exists>\<sigma>'. moves 9 2 (\<lambda>n x p. 7) \<sigma> \<sigma>') \<and>
     (\<forall>k \<sigma>'. ((\<lambda>a b. ecl a 2 \<noteq> Idle \<and> moves 9 2 (\<lambda>n x p. 7) a b) ^^ k) \<sigma> \<sigma>' \<longrightarrow> k \<le> 26)"
proof -
  obtain \<sigma> where s: "(ep_access 9 {2} (\<lambda>n x p. 7))\<^sup>*\<^sup>* (ep_start dmem_ex) \<sigma>" "ecl \<sigma> 2 = Sending 20 1 S_wait" "elog \<sigma> = [Called 2 20 1, Took 102 1 20]"
    using one_taken_ex [OF ep_rel_one, of "\<lambda>n x p. 7" 20 1] by auto
  have "ecl \<sigma> 2 \<noteq> Idle" using s(2) by simp
  then show ?thesis using endpoint_one_client [of 9 1 2 "\<lambda>c. c + 100" dmem_ex "\<lambda>n x p. 7", OF ep_rel_one _ s(1)] s by auto
qed

end
