(* ===== verification/Dsdb_Node.thy ===== *)
theory Dsdb_Node
  imports Interfaces
begin

text \<open>
  \<open>dsdb/dump/clib/node_init.c\<close> with \<open>include/node.h\<close>, and the transfers of \<open>include/unix_domain.h\<close>: nodes join a
  cluster by sending their address to a monitor, which answers with the list of all addresses.

  The system calls \<open>read\<close> and \<open>write\<close> are parameters \<open>rd\<close> and \<open>wr\<close> on the state of a connection:
  \<open>rd n\<close> returns at most \<open>n\<close> bytes, none at the end of the stream, and \<open>wr bs\<close> the number of bytes it took; \<open>None\<close> is the
  error result.  The result of \<open>malloc\<close> is a parameter, too.  The log calls are left out.

  An access outside an array is undefined behaviour (\<open>None\<close>), and so is a loop that does not end.
\<close>

section \<open>Transfers of a given size\<close>

type_synonym 's read_call = "nat \<Rightarrow> 's \<Rightarrow> 's \<times> u8 list option"
type_synonym 's write_call = "u8 list \<Rightarrow> 's \<Rightarrow> 's \<times> nat option"

text \<open>The bytes in the buffer, and whether the result is the size rather than \<open>-1\<close>; \<open>acc\<close> has the bytes read so far.\<close>

partial_function (option) xread :: "'s read_call \<Rightarrow> nat \<Rightarrow> u8 list \<Rightarrow> 's \<Rightarrow> ('s \<times> u8 list \<times> bool) option" where
  "xread rd sz acc s = (case rd (sz - length acc) s of
      (s, None) \<Rightarrow> Some (s, acc, False)
    | (s, Some bs) \<Rightarrow> if length acc + length bs = sz then Some (s, acc @ bs, True) else xread rd sz (acc @ bs) s)"

text \<open>\<open>bs\<close> is what is left of the buffer.\<close>

partial_function (option) xwrite :: "'s write_call \<Rightarrow> u8 list \<Rightarrow> 's \<Rightarrow> ('s \<times> bool) option" where
  "xwrite wr bs s = (case wr bs s of
      (s, None) \<Rightarrow> Some (s, False)
    | (s, Some k) \<Rightarrow> if k = length bs then Some (s, True) else xwrite wr (drop k bs) s)"

section \<open>Lists of nodes\<close>

abbreviation (input) DSDB_MAX_NODE_EP_PATH_LEN :: nat where "DSDB_MAX_NODE_EP_PATH_LEN \<equiv> 64"
abbreviation (input) DSDB_DEFAULT_MAX_NODE_COUNT :: u64 where "DSDB_DEFAULT_MAX_NODE_COUNT \<equiv> 1024"

type_synonym node_addr = "u8 list"

text \<open>The 32 bytes of a \<open>node_ep_t\<close>.\<close>

type_synonym node_ep = "nat \<Rightarrow> u8"

definition ep_connector :: "node_ep \<Rightarrow> u64" where "ep_connector ep = rd64 ep 0"
definition ep_type :: "node_ep \<Rightarrow> u64" where "ep_type ep = rd64 ep 8"
definition node_id :: "node_ep \<Rightarrow> u64" where "node_id ep = rd64 ep 16"
definition epfd :: "node_ep \<Rightarrow> u32" where "epfd ep = rd32 ep 24"

definition set_node_id :: "u64 \<Rightarrow> node_ep \<Rightarrow> node_ep" where
  "set_node_id v ep = wr64 ep 16 v"

record node_ep_list =
  ep_count :: u64
  ep_addr_list :: "node_addr list"
  eplist :: "node_ep list"

text \<open>The bytes \<open>bs\<close> at the start of an address; those behind them stay.\<close>

definition store_addr :: "nat \<Rightarrow> u8 list \<Rightarrow> node_ep_list \<Rightarrow> node_ep_list option" where
  "store_addr i bs l =
     (if bs = [] then Some l
      else if i \<ge> length (ep_addr_list l) then None
      else Some (l\<lparr>ep_addr_list := (ep_addr_list l)[i := bs @ drop (length bs) (ep_addr_list l ! i)]\<rparr>))"

definition store_node_id :: "nat \<Rightarrow> u64 \<Rightarrow> node_ep_list \<Rightarrow> node_ep_list option" where
  "store_node_id i v l =
     (if i \<ge> length (eplist l) then None else Some (l\<lparr>eplist := (eplist l)[i := set_node_id v (eplist l ! i)]\<rparr>))"

definition le64 :: "u64 \<Rightarrow> u8 list" where
  "le64 v = map (wr64 (\<lambda>_. 0) 0 v) [0..<8]"

definition u64_of :: "u8 list \<Rightarrow> u64" where
  "u64_of bs = rd64 (\<lambda>i. if i < length bs then bs ! i else 0) 0"

section \<open>Joining\<close>

text \<open>
  \<open>mem_eps\<close> and \<open>mem_addrs\<close> are what \<open>malloc\<close> returns for the two arrays.  The result is the list and the number
  of the node itself.
\<close>

definition check_node_list_bysocket :: "'s read_call \<Rightarrow> 's write_call \<Rightarrow> node_addr \<Rightarrow> node_ep list option \<Rightarrow> node_addr list option \<Rightarrow>
    u64 \<Rightarrow> 's \<Rightarrow> ('s \<times> u64 \<times> node_ep_list option) option" where
  "check_node_list_bysocket rd wr newnode mem_eps mem_addrs g_local_nodeid s = do {
     (s, ok) \<leftarrow> xwrite wr newnode s;
     if \<not> ok then Some (s, g_local_nodeid, None)
     else do {
       (s, bs, ok) \<leftarrow> xread rd 8 [] s;
       if \<not> ok then Some (s, g_local_nodeid, None)
       else do {
         let count = u64_of bs + 1;
         if count > DSDB_DEFAULT_MAX_NODE_COUNT then Some (s, g_local_nodeid, None)
         else (case (mem_eps, mem_addrs) of
           (Some eps, Some addrs) \<Rightarrow> do {
             (s, bs, ok) \<leftarrow> xread rd (unat count * DSDB_MAX_NODE_EP_PATH_LEN) [] s;
             if \<not> ok then Some (s, g_local_nodeid, None)
             else if unat count > length eps \<or> unat count > length addrs then None
             else Some (s, count - 1, Some
               \<lparr>ep_count = count,
                ep_addr_list = map (\<lambda>i. take 64 (drop (64 * i) bs)) [0..<unat count] @ drop (unat count) addrs,
                eplist = map (\<lambda>i. set_node_id (of_nat i) (eps ! i)) [0..<unat count] @ drop (unat count) eps\<rparr>)
           }
         | _ \<Rightarrow> Some (s, g_local_nodeid, None))
       }
     }
   }"

definition check_nodes_list :: "'s read_call \<Rightarrow> 's write_call \<Rightarrow> node_ep option \<Rightarrow> node_addr option \<Rightarrow> node_ep list option \<Rightarrow> node_addr list option \<Rightarrow>
    u64 \<Rightarrow> 's \<Rightarrow> ('s \<times> u64 \<times> node_ep_list option) option" where
  "check_nodes_list rd wr monitor newnode mem_eps mem_addrs g_local_nodeid s =
     (case (monitor, newnode) of
        (Some mon, Some nn) \<Rightarrow>
          if ep_type mon \<le> 2 then check_node_list_bysocket rd wr nn mem_eps mem_addrs g_local_nodeid s
          else Some (s, g_local_nodeid, None)
      | _ \<Rightarrow> Some (s, g_local_nodeid, None))"

section \<open>The monitor\<close>

text \<open>One request, from the accepted connection to its closing.\<close>

definition server_request :: "'s read_call \<Rightarrow> 's write_call \<Rightarrow> node_ep_list \<Rightarrow> 's \<Rightarrow> (node_ep_list \<times> 's) option" where
  "server_request rd wr l s = do {
     let expect_ep_id = ep_count l;
     if ep_count l > DSDB_DEFAULT_MAX_NODE_COUNT then Some (l, s)
     else do {
       (s, bs, ok) \<leftarrow> xread rd 64 [] s;
       l \<leftarrow> store_addr (unat expect_ep_id) bs l;
       if \<not> ok then Some (l, s)
       else do {
         l \<leftarrow> store_node_id (unat expect_ep_id) expect_ep_id l;
         (s, ok) \<leftarrow> xwrite wr (le64 expect_ep_id) s;
         if \<not> ok then Some (l, s)
         else if unat (ep_count l + 1) > length (ep_addr_list l) then None
         else do {
           (s, ok) \<leftarrow> xwrite wr (concat (take (unat (ep_count l + 1)) (ep_addr_list l))) s;
           if \<not> ok then Some (l, s)
           else Some (l\<lparr>ep_count := ep_count l + 1\<rparr>, s)
         }
       }
     }
   }"

text \<open>
  The results of \<open>accept\<close> in turn: a connection, or \<open>None\<close> for the error that ends the loop.  The result of the call is
  \<open>- 1\<close> then, and none while it waits for the next connection.
\<close>

fun server_node_register_bysocket :: "'s read_call \<Rightarrow> 's write_call \<Rightarrow> node_ep_list \<Rightarrow> 's option list \<Rightarrow> (node_ep_list \<times> 's list \<times> int option) option" where
  "server_node_register_bysocket rd wr l [] = Some (l, [], None)"
| "server_node_register_bysocket rd wr l (None # cs) = Some (l, [], Some (- 1))"
| "server_node_register_bysocket rd wr l (Some s # cs) = do {
     (l, s) \<leftarrow> server_request rd wr l s;
     (l, ss, r) \<leftarrow> server_node_register_bysocket rd wr l cs;
     Some (l, s # ss, r)
   }"

definition server_node_register :: "'s read_call \<Rightarrow> 's write_call \<Rightarrow> node_ep_list \<Rightarrow> node_ep option \<Rightarrow> 's option list \<Rightarrow>
    (node_ep_list \<times> 's list \<times> int option) option" where
  "server_node_register rd wr l monitor cs =
     (case monitor of
        None \<Rightarrow> Some (l, [], Some (- 1))
      | Some mon \<Rightarrow> if ep_type mon \<le> 2 then server_node_register_bysocket rd wr l cs else Some (l, [], Some (- 1)))"

text \<open>\<open>strncpy\<close> of \<open>n\<close> bytes: after a zero byte of the source only zeros are written.\<close>

definition strncpy_ep :: "node_ep \<Rightarrow> node_ep" where
  "strncpy_ep src = (\<lambda>i. if \<forall>j < Suc i. src j \<noteq> 0 then src i else 0)"

definition strncpy_addr :: "node_addr \<Rightarrow> node_addr" where
  "strncpy_addr src = (let str = takeWhile (\<lambda>c. c \<noteq> 0) src in str @ replicate (length src - length str) 0)"

text \<open>The pointer \<open>ep\<close> is not checked.  The result has the caller's \<open>ep\<close> with its number.\<close>

definition insert_node_ep :: "node_ep_list option \<Rightarrow> node_ep option \<Rightarrow> node_addr option \<Rightarrow> (node_ep_list option \<times> node_ep option \<times> int) option" where
  "insert_node_ep lp ep epaddr =
     (case (lp, epaddr) of
        (Some l, Some addr) \<Rightarrow>
          let new_ep_id = ep_count l in
          if new_ep_id > DSDB_DEFAULT_MAX_NODE_COUNT then Some (lp, ep, - 1)
          else if unat new_ep_id \<ge> length (eplist l) \<or> unat new_ep_id \<ge> length (ep_addr_list l) then None
          else (case ep of None \<Rightarrow> None | Some e \<Rightarrow>
            Some (Some (l\<lparr>eplist := (eplist l)[unat new_ep_id := set_node_id new_ep_id (strncpy_ep e)],
                        ep_addr_list := (ep_addr_list l)[unat new_ep_id := strncpy_addr addr],
                        ep_count := ep_count l + 1\<rparr>),
                  Some (set_node_id new_ep_id e), 0))
      | _ \<Rightarrow> Some (lp, ep, - 1))"

definition get_local_nodeid :: "u64 \<Rightarrow> u64" where
  "get_local_nodeid g_local_nodeid = g_local_nodeid"

section \<open>Transfers over a connection\<close>

text \<open>
  The documented behaviour of \<open>read\<close> and \<open>write\<close> on a connection without errors, with \<open>inp\<close> the bytes that are still to be read and
  \<open>out\<close> those written so far: a read returns some of the next bytes, and none only at the end; a write takes
  some of the bytes.
\<close>

definition conn_ok :: "'s read_call \<Rightarrow> 's write_call \<Rightarrow> ('s \<Rightarrow> u8 list) \<Rightarrow> ('s \<Rightarrow> u8 list) \<Rightarrow> bool" where
  "conn_ok rd wr inp out \<longleftrightarrow>
     (\<forall>n s. \<exists>s' bs. rd n s = (s', Some bs) \<and> length bs \<le> n \<and> inp s = bs @ inp s' \<and> out s' = out s \<and> (bs = [] \<longrightarrow> n = 0 \<or> inp s = [])) \<and>
     (\<forall>bs s. \<exists>s' k. wr bs s = (s', Some k) \<and> k \<le> length bs \<and> out s' = out s @ take k bs \<and> inp s' = inp s \<and> (k = 0 \<longrightarrow> bs = []))"

lemma xread_all:
  assumes "conn_ok rd wr inp out" and "length acc \<le> sz" and "sz \<le> length acc + length (inp s)"
  shows "\<exists>s'. xread rd sz acc s = Some (s', acc @ take (sz - length acc) (inp s), True) \<and>
    inp s' = drop (sz - length acc) (inp s) \<and> out s' = out s"
  using assms(2,3)
proof (induction "sz - length acc" arbitrary: acc s rule: less_induct)
  case less
  let ?n = "sz - length acc"
  from assms(1) obtain s1 bs where r: "rd ?n s = (s1, Some bs)" "length bs \<le> ?n" "inp s = bs @ inp s1" "out s1 = out s"
      "bs = [] \<Longrightarrow> ?n = 0 \<or> inp s = []" unfolding conn_ok_def by blast
  show ?case
  proof (cases "length acc + length bs = sz")
    case True
    then have "?n = length bs" by simp
    then show ?thesis using r True by (subst xread.simps) simp
  next
    case False
    then have lt: "length acc + length bs < sz" using r(2) less.prems(1) by linarith
    have ne: "0 < length bs" using r(5) lt less.prems by (cases "bs = []") auto
    have "sz - length (acc @ bs) < sz - length acc" unfolding length_append using lt ne by linarith
    then have "\<exists>s'. xread rd sz (acc @ bs) s1 = Some (s', (acc @ bs) @ take (sz - length (acc @ bs)) (inp s1), True) \<and>
        inp s' = drop (sz - length (acc @ bs)) (inp s1) \<and> out s' = out s1"
      by (rule less.hyps) (use lt less.prems(2) r(3) in simp_all)
    moreover have "take ?n (inp s) = bs @ take (sz - length (acc @ bs)) (inp s1)" "drop ?n (inp s) = drop (sz - length (acc @ bs)) (inp s1)"
      unfolding r(3) using r(2) by simp_all
    ultimately show ?thesis using r(1,4) False by (subst xread.simps) simp
  qed
qed

lemma xread_exact:
  assumes "conn_ok rd wr inp out" and "inp s = bs @ rest" and "length bs = sz"
  obtains s' where "xread rd sz [] s = Some (s', bs, True)" and "inp s' = rest" and "out s' = out s"
  using xread_all [OF assms(1), of "[]" sz s] assms(2,3) by auto

lemma xwrite_all:
  assumes "conn_ok rd wr inp out"
  shows "\<exists>s'. xwrite wr bs s = Some (s', True) \<and> out s' = out s @ bs \<and> inp s' = inp s"
proof (induction "length bs" arbitrary: bs s rule: less_induct)
  case less
  from assms obtain s1 k where r: "wr bs s = (s1, Some k)" "k \<le> length bs" "out s1 = out s @ take k bs" "inp s1 = inp s" "k = 0 \<Longrightarrow> bs = []"
    unfolding conn_ok_def by blast
  show ?case
  proof (cases "k = length bs")
    case True
    then show ?thesis using r(1,3,4) by (subst xwrite.simps) simp
  next
    case False
    then have "bs \<noteq> []" using r(2) by auto
    moreover have "k \<noteq> 0" using r(5) \<open>bs \<noteq> []\<close> by blast
    ultimately have "length (drop k bs) < length bs" by simp
    then obtain s2 where s2: "xwrite wr (drop k bs) s1 = Some (s2, True)" "out s2 = out s1 @ drop k bs" "inp s2 = inp s1" using less by blast
    have "xwrite wr bs s = Some (s2, True)" using r(1) False s2(1) by (subst xwrite.simps) simp
    then show ?thesis using s2(2,3) r(3,4) by simp
  qed
qed

lemma xread_end_loops:
  assumes "conn_ok rd wr inp out" and "length acc + length (inp s) < sz"
  shows "xread rd sz acc s = None"
proof -
  have "conn_ok rd wr inp out \<longrightarrow> \<not> length acc + length (inp s) < sz" if "xread rd sz acc s = Some y" for rd sz acc s y
  proof (rule xread.raw_induct [OF _ that, of "\<lambda>rd sz acc s _. conn_ok rd wr inp out \<longrightarrow> \<not> length acc + length (inp s) < sz"])
    fix xr rd sz acc s y
    assume IH: "\<And>rd sz acc s y. xr rd sz acc s = Some y \<Longrightarrow> conn_ok rd wr inp out \<longrightarrow> \<not> length acc + length (inp s) < sz"
      and run: "(case rd (sz - length acc) s of (s, None) \<Rightarrow> Some (s, acc, False)
        | (s, Some bs) \<Rightarrow> if length acc + length bs = sz then Some (s, acc @ bs, True) else xr rd sz (acc @ bs) s) = Some y"
    show "conn_ok rd wr inp out \<longrightarrow> \<not> length acc + length (inp s) < sz"
    proof (intro impI notI)
      assume c: "conn_ok rd wr inp out" and lt: "length acc + length (inp s) < sz"
      from c obtain s1 bs where r: "rd (sz - length acc) s = (s1, Some bs)" "inp s = bs @ inp s1" unfolding conn_ok_def by blast
      have "length acc + length bs \<noteq> sz" using lt r(2) by simp
      then have "xr rd sz (acc @ bs) s1 = Some y" using run r(1) by simp
      from IH [OF this] show False using c lt r(2) by simp
    qed
  qed
  then show ?thesis using assms by (cases "xread rd sz acc s") auto
qed

section \<open>Joining the cluster\<close>

text \<open>A list of \<open>n\<close> nodes in arrays of full size.\<close>

definition nodes_ok :: "nat \<Rightarrow> node_ep_list \<Rightarrow> bool" where
  "nodes_ok n l \<longleftrightarrow> n \<le> 1024 \<and> ep_count l = of_nat n \<and> length (ep_addr_list l) = 1024 \<and> length (eplist l) = 1024 \<and>
     (\<forall>a \<in> set (ep_addr_list l). length a = 64) \<and> (\<forall>i < n. node_id (eplist l ! i) = of_nat i)"

lemma u64_of_le64: "u64_of (le64 v) = v"
proof -
  have "rd64 (\<lambda>i. if i < length (le64 v) then le64 v ! i else 0) 0 = rd64 (wr64 (\<lambda>_. 0) 0 v) 0"
    by (rule rd64_cong) (simp add: le64_def)
  then show ?thesis by (simp add: u64_of_def rd64_wr64)
qed

lemma length_le64: "length (le64 v) = 8"
  by (simp add: le64_def)

lemma node_id_set [simp]: "node_id (set_node_id v ep) = v"
  by (simp add: node_id_def set_node_id_def rd64_wr64)

lemma chunk_concat:
  assumes "\<forall>a \<in> set as. length a = 64" and "i < length as"
  shows "take 64 (drop (64 * i) (concat as)) = as ! i"
  using assms
proof (induction as arbitrary: i)
  case (Cons a as)
  then show ?case by (cases i) simp_all
qed simp

lemma rd_zero: "rd64 (\<lambda>_. 0) a = 0" "rd32 (\<lambda>_. 0) a = 0"
  by (simp_all add: rd64_def rd32_def)

lemma length_concat_64: "\<forall>a \<in> set as. length a = 64 \<Longrightarrow> length (concat as) = length as * 64"
  by (induction as) simp_all

lemma server_request_spec:
  assumes "nodes_ok n l" and "n < 1024" and "conn_ok rd wr inp out" and "inp s = addr" and "length addr = 64"
  defines "l' \<equiv> l\<lparr>ep_addr_list := (ep_addr_list l)[n := addr], eplist := (eplist l)[n := set_node_id (of_nat n) (eplist l ! n)], ep_count := of_nat (Suc n)\<rparr>"
  shows "\<exists>s'. server_request rd wr l s = Some (l', s') \<and> out s' = out s @ le64 (of_nat n) @ concat (take (Suc n) (ep_addr_list l'))"
proof -
  have ok: "ep_count l = of_nat n" "length (ep_addr_list l) = 1024" "length (eplist l) = 1024" "\<forall>a \<in> set (ep_addr_list l). length a = 64"
    using assms(1) by (simp_all add: nodes_ok_def)
  have n: "unat (of_nat n :: u64) = n" "unat (of_nat n + 1 :: u64) = Suc n" "\<not> (of_nat n :: u64) > 1024"
    using assms(2) by (simp_all add: unat_of_nat unat_word_ariths word_less_nat_alt)
  have slot: "length (ep_addr_list l ! n) = 64" using ok(2,4) assms(2) by simp
  obtain s1 where s1: "xread rd 64 [] s = Some (s1, addr, True)" "out s1 = out s"
    using xread_exact [OF assms(3), of s addr "[]" 64] assms(4,5) by auto
  obtain s2 where s2: "xwrite wr (le64 (of_nat n)) s1 = Some (s2, True)" "out s2 = out s1 @ le64 (of_nat n)"
    using xwrite_all [OF assms(3)] by blast
  let ?as = "(ep_addr_list l)[n := addr]"
  obtain s3 where s3: "xwrite wr (concat (take (Suc n) ?as)) s2 = Some (s3, True)" "out s3 = out s2 @ concat (take (Suc n) ?as)"
    using xwrite_all [OF assms(3)] by blast
  have st: "store_addr n addr l = Some (l\<lparr>ep_addr_list := ?as\<rparr>)" using assms(2,5) ok(2) slot by (auto simp: store_addr_def)
  have "server_request rd wr l s = Some (l', s3)"
    unfolding server_request_def Let_def ok(1) l'_def
    using n s1(1) s2(1) s3(1) st assms(2) ok by (simp add: store_node_id_def add.commute)
  then show ?thesis using s1(2) s2(2) s3(2) by (simp add: l'_def)
qed

lemma check_node_list_spec:
  assumes "conn_ok rd wr inp out" and "inp s = le64 (of_nat n) @ concat as" and "length as = Suc n" and "n < 1024"
    and "\<forall>a \<in> set as. length a = 64" and "length eps = 1024" and "length addrs = 1024"
  shows "\<exists>s'. check_node_list_bysocket rd wr addr (Some eps) (Some addrs) g s = Some (s', of_nat n, Some
      \<lparr>ep_count = of_nat (Suc n), ep_addr_list = as @ drop (Suc n) addrs,
       eplist = map (\<lambda>i. set_node_id (of_nat i) (eps ! i)) [0..<Suc n] @ drop (Suc n) eps\<rparr>) \<and> out s' = out s @ addr"
proof -
  obtain s1 where s1: "xwrite wr addr s = Some (s1, True)" "out s1 = out s @ addr" "inp s1 = inp s" using xwrite_all [OF assms(1)] by blast
  obtain s2 where s2: "xread rd 8 [] s1 = Some (s2, le64 (of_nat n), True)" "inp s2 = concat as" "out s2 = out s1"
    using xread_exact [OF assms(1), of s1 "le64 (of_nat n)" "concat as" 8] assms(2) s1(3) length_le64 by auto
  have len: "length (concat as) = Suc n * 64" using length_concat_64 [OF assms(5)] assms(3) by simp
  obtain s3 where s3: "xread rd (Suc n * 64) [] s2 = Some (s3, concat as, True)" "out s3 = out s2"
    using xread_exact [OF assms(1), of s2 "concat as" "[]" "Suc n * 64"] s2(2) len by auto
  have c: "unat (of_nat n + 1 :: u64) = Suc n" "\<not> (of_nat n + 1 :: u64) > 1024"
    using assms(4) by (simp_all add: unat_of_nat unat_word_ariths word_less_nat_alt)
  have as: "map (\<lambda>i. take 64 (drop (64 * i) (concat as))) [0..<Suc n] = as"
    using chunk_concat [OF assms(5)] assms(3) by (intro nth_equalityI) (simp_all del: upt_Suc)
  show ?thesis
    unfolding check_node_list_bysocket_def Let_def
    using s1(1,2) s2(1,3) s3 c assms(4,6,7) as by (simp add: u64_of_le64 add.commute del: upt_Suc mult_Suc)
qed

text \<open>
  (C10) Joining a cluster: a node that sends its address to a monitor with fewer than 1024 nodes, over a connection that may deliver the
  bytes in any pieces, is given the next number and the addresses of all nodes in the order of their
  numbers, its own last; the monitor's list is well formed again, with the new address.
\<close>

theorem node_join:
  assumes "nodes_ok n l" and "n < 1024" and "length addr = 64"
    and "conn_ok rd wr inp out" and "inp s = addr" and "out s = []"
    and "conn_ok rdc wrc inpc outc" and "\<And>l' s'. server_request rd wr l s = Some (l', s') \<Longrightarrow> inpc c = out s'"
    and "length eps = 1024" and "length addrs = 1024" and "\<forall>a \<in> set addrs. length a = 64"
  shows "\<exists>l' s' c' r. server_request rd wr l s = Some (l', s') \<and> nodes_ok (Suc n) l' \<and> ep_addr_list l' = (ep_addr_list l)[n := addr] \<and>
    check_node_list_bysocket rdc wrc addr (Some eps) (Some addrs) g c = Some (c', of_nat n, Some r) \<and> outc c' = outc c @ addr \<and>
    nodes_ok (Suc n) r \<and> take (Suc n) (ep_addr_list r) = take (Suc n) (ep_addr_list l')"
proof -
  let ?l = "l\<lparr>ep_addr_list := (ep_addr_list l)[n := addr], eplist := (eplist l)[n := set_node_id (of_nat n) (eplist l ! n)], ep_count := of_nat (Suc n)\<rparr>"
  have ok: "length (ep_addr_list l) = 1024" "length (eplist l) = 1024" "\<forall>a \<in> set (ep_addr_list l). length a = 64" "\<forall>i < n. node_id (eplist l ! i) = of_nat i"
    using assms(1) by (simp_all add: nodes_ok_def)
  obtain s' where s': "server_request rd wr l s = Some (?l, s')" "out s' = le64 (of_nat n) @ concat (take (Suc n) (ep_addr_list ?l))"
    using server_request_spec [OF assms(1,2,4,5,3)] assms(6) by auto
  let ?as = "take (Suc n) (ep_addr_list ?l)"
  have as: "length ?as = Suc n" "\<forall>a \<in> set ?as. length a = 64"
    using assms(2,3) ok(1,3) by (auto dest!: in_set_takeD set_update_subset_insert [THEN subsetD])
  have "inpc c = le64 (of_nat n) @ concat ?as" using assms(8) [OF s'(1)] s'(2) by simp
  from check_node_list_spec [OF assms(7) this as(1) assms(2) as(2) assms(9,10), of addr g] obtain c' where
    c': "check_node_list_bysocket rdc wrc addr (Some eps) (Some addrs) g c = Some (c', of_nat n, Some
      \<lparr>ep_count = of_nat (Suc n), ep_addr_list = ?as @ drop (Suc n) addrs,
       eplist = map (\<lambda>i. set_node_id (of_nat i) (eps ! i)) [0..<Suc n] @ drop (Suc n) eps\<rparr>)" "outc c' = outc c @ addr" by blast
  have "\<forall>a \<in> set (ep_addr_list ?l). length a = 64"
    using assms(3) ok(3) by (auto dest!: set_update_subset_insert [THEN subsetD])
  then have l': "nodes_ok (Suc n) ?l" using assms(2) ok by (auto simp: nodes_ok_def nth_list_update less_Suc_eq)
  have r: "nodes_ok (Suc n) \<lparr>ep_count = of_nat (Suc n), ep_addr_list = ?as @ drop (Suc n) addrs,
       eplist = map (\<lambda>i. set_node_id (of_nat i) (eps ! i)) [0..<Suc n] @ drop (Suc n) eps\<rparr>"
    using assms(2,9-11) as by (auto simp: nodes_ok_def nth_append simp del: upt_Suc dest: in_set_dropD)
  show ?thesis by (intro exI conjI, rule s'(1), rule l', simp, rule c'(1), rule c'(2), rule r) (use as(1) in simp)
qed

text \<open>A connection that delivers three bytes and takes five at a time.\<close>

definition rd_ex :: "(u8 list \<times> u8 list) read_call" where
  "rd_ex n s = ((drop (min n 3) (fst s), snd s), Some (take (min n 3) (fst s)))"

definition wr_ex :: "(u8 list \<times> u8 list) write_call" where
  "wr_ex bs s = ((fst s, snd s @ take 5 bs), Some (min 5 (length bs)))"

lemma conn_ex: "conn_ok rd_ex wr_ex fst snd"
  by (auto simp: conn_ok_def rd_ex_def wr_ex_def min_def)

definition nodes_ex :: node_ep_list where
  "nodes_ex = \<lparr>ep_count = 0, ep_addr_list = replicate 1024 (replicate 64 0), eplist = replicate 1024 (\<lambda>_. 0)\<rparr>"

lemma nodes_ex_ok: "nodes_ok 0 nodes_ex"
  by (simp add: nodes_ok_def nodes_ex_def)

definition addr_ex :: node_addr where
  "addr_ex = replicate 64 49"

theorem node_join_witness:
  "nodes_ok 0 nodes_ex \<and> conn_ok rd_ex wr_ex fst snd \<and>
   (\<exists>c l' s' c' r. server_request rd_ex wr_ex nodes_ex (addr_ex, []) = Some (l', s') \<and> nodes_ok (Suc 0) l' \<and>
     ep_addr_list l' = (ep_addr_list nodes_ex)[0 := addr_ex] \<and>
     check_node_list_bysocket rd_ex wr_ex addr_ex (Some (replicate 1024 (\<lambda>_. 7))) (Some (replicate 1024 addr_ex)) (- 1) c = Some (c', of_nat 0, Some r) \<and>
     snd c' = snd c @ addr_ex \<and> nodes_ok (Suc 0) r \<and> take (Suc 0) (ep_addr_list r) = take (Suc 0) (ep_addr_list l'))"
proof -
  let ?c = "(snd (snd (the (server_request rd_ex wr_ex nodes_ex (addr_ex, [])))), [])"
  have "\<exists>l' s' c' r. server_request rd_ex wr_ex nodes_ex (addr_ex, []) = Some (l', s') \<and> nodes_ok (Suc 0) l' \<and>
     ep_addr_list l' = (ep_addr_list nodes_ex)[0 := addr_ex] \<and>
     check_node_list_bysocket rd_ex wr_ex addr_ex (Some (replicate 1024 (\<lambda>_. 7))) (Some (replicate 1024 addr_ex)) (- 1) ?c = Some (c', of_nat 0, Some r) \<and>
     snd c' = snd ?c @ addr_ex \<and> nodes_ok (Suc 0) r \<and> take (Suc 0) (ep_addr_list r) = take (Suc 0) (ep_addr_list l')"
    by (rule node_join [OF nodes_ex_ok _ _ conn_ex _ _ conn_ex]) (simp_all add: addr_ex_def)
  then show ?thesis using nodes_ex_ok conn_ex by blast
qed

section \<open>Errors\<close>

text \<open>
  The monitor accepts a node when it has 1024 already, which fill its arrays: the address of the next is written behind the end
  of the list, and \<open>insert_node_ep\<close> does the same.
\<close>

theorem node_table_overflow:
  assumes "nodes_ok 1024 l" and "conn_ok rd wr inp out" and "inp s = addr" and "length addr = 64"
  shows "server_request rd wr l s = None \<and> insert_node_ep (Some l) (Some ep) (Some addr) = None"
proof -
  have ok: "ep_count l = 1024" "length (ep_addr_list l) = 1024" "length (eplist l) = 1024" using assms(1) by (simp_all add: nodes_ok_def)
  obtain s1 where "xread rd 64 [] s = Some (s1, addr, True)"
    using xread_exact [OF assms(2), of s addr "[]" 64] assms(3,4) by auto
  then have "server_request rd wr l s = None" using ok assms(4) by (auto simp: server_request_def store_addr_def)
  moreover have "insert_node_ep (Some l) (Some ep) (Some addr) = None" using ok by (simp add: insert_node_ep_def)
  ultimately show ?thesis ..
qed

definition nodes_full_ex :: node_ep_list where
  "nodes_full_ex = \<lparr>ep_count = 1024, ep_addr_list = replicate 1024 (replicate 64 0),
     eplist = map (\<lambda>i. set_node_id (of_nat i) (\<lambda>_. 0)) [0..<1024]\<rparr>"

theorem node_table_overflow_witness:
  "nodes_ok 1024 nodes_full_ex \<and> server_request rd_ex wr_ex nodes_full_ex (addr_ex, []) = None \<and>
   insert_node_ep (Some nodes_full_ex) (Some (\<lambda>_. 1)) (Some addr_ex) = None"
proof -
  have ok: "nodes_ok 1024 nodes_full_ex" by (simp add: nodes_ok_def nodes_full_ex_def del: upt_rec_numeral)
  show ?thesis using ok node_table_overflow [OF ok conn_ex, of "(addr_ex, [])" addr_ex "\<lambda>_. 1"] by (simp add: addr_ex_def)
qed

text \<open>
  (C40) The transfer of a given number of bytes does not notice the end of the stream: when a peer closes the connection before it has sent them,
  \<open>xread\<close> reads nothing again and again and does not return, and a monitor that serves such a node serves no other.
\<close>

theorem node_peer_close_hangs:
  assumes "conn_ok rd wr inp out" and "length (inp s) < 64" and "nodes_ok n l"
  shows "server_node_register_bysocket rd wr l (Some s # cs) = None"
proof -
  have "xread rd 64 [] s = None" by (rule xread_end_loops [OF assms(1)]) (use assms(2) in simp)
  moreover have "\<not> ep_count l > 1024" using assms(3) by (simp add: nodes_ok_def word_less_nat_alt unat_of_nat)
  ultimately show ?thesis by (simp add: server_request_def)
qed

theorem node_peer_close_hangs_witness:
  "conn_ok rd_ex wr_ex fst snd \<and> nodes_ok 0 nodes_ex \<and>
   server_node_register_bysocket rd_ex wr_ex nodes_ex [Some ([49, 50, 51], []), Some (addr_ex, []), None] = None"
  using node_peer_close_hangs [OF conn_ex _ nodes_ex_ok, of "([49, 50, 51], [])" "[Some (addr_ex, []), None]"] conn_ex nodes_ex_ok by simp

text \<open>
  \<open>insert_node_ep\<close> copies the description of a node with \<open>strncpy\<close>, which stops at a zero byte: for a node without
  connector, like the one of the monitor itself, type and descriptor are lost, and only the number is
  stored.
\<close>

theorem insert_node_ep_loses:
  assumes "nodes_ok n l" and "n < 1024" and "ep_connector ep = 0"
  shows "\<exists>l'. insert_node_ep (Some l) (Some ep) (Some addr) = Some (Some l', Some (set_node_id (of_nat n) ep), 0) \<and>
    ep_count l' = of_nat (Suc n) \<and> node_id (eplist l' ! n) = of_nat n \<and> ep_type (eplist l' ! n) = 0 \<and> epfd (eplist l' ! n) = 0"
proof -
  have ok: "ep_count l = of_nat n" "length (ep_addr_list l) = 1024" "length (eplist l) = 1024" using assms(1) by (simp_all add: nodes_ok_def)
  have n: "unat (of_nat n :: u64) = n" "\<not> (of_nat n :: u64) > 1024" using assms(2) by (simp_all add: unat_of_nat word_less_nat_alt)
  have "bit (rd64 ep 0) k = bit (ep 0) k" if "k < 8" for k
    using that unfolding rd64_def rd32_def by (auto simp: bit_simps)
  moreover have "rd64 ep 0 = 0" using assms(3) unfolding ep_connector_def .
  ultimately have "ep 0 = 0" by (intro bit_word_eqI) auto
  then have z: "strncpy_ep ep = (\<lambda>_. 0)" by (auto simp: strncpy_ep_def fun_eq_iff)
  have "ep_type (set_node_id v (\<lambda>_. 0)) = 0" "epfd (set_node_id v (\<lambda>_. 0)) = 0" for v
    by (simp_all add: ep_type_def epfd_def set_node_id_def bytes_simps rd_zero)
  note f = this node_id_set
  let ?l = "l\<lparr>eplist := (eplist l)[n := set_node_id (of_nat n) (\<lambda>_. 0)], ep_addr_list := (ep_addr_list l)[n := strncpy_addr addr], ep_count := of_nat n + 1\<rparr>"
  have "insert_node_ep (Some l) (Some ep) (Some addr) = Some (Some ?l, Some (set_node_id (of_nat n) ep), 0)"
    unfolding insert_node_ep_def option.case prod.case Let_def ok(1) n(1) z using n(2) ok(2,3) assms(2) by simp
  moreover have "eplist ?l ! n = set_node_id (of_nat n) (\<lambda>_. 0)" using ok(3) assms(2) by simp
  moreover have "ep_count ?l = of_nat (Suc n)" by simp
  ultimately show ?thesis using f by metis
qed

theorem insert_node_ep_loses_witness:
  "nodes_ok 0 nodes_ex \<and> ep_type (wr64 (wr32 (\<lambda>_. 0) 24 5) 8 2) = 2 \<and> epfd (wr64 (wr32 (\<lambda>_. 0) 24 5) 8 2) = 5 \<and>
   (\<exists>l'. insert_node_ep (Some nodes_ex) (Some (wr64 (wr32 (\<lambda>_. 0) 24 5) 8 2)) (Some addr_ex) =
      Some (Some l', Some (set_node_id (of_nat 0) (wr64 (wr32 (\<lambda>_. 0) 24 5) 8 2)), 0) \<and>
    ep_count l' = of_nat (Suc 0) \<and> node_id (eplist l' ! 0) = of_nat 0 \<and> ep_type (eplist l' ! 0) = 0 \<and> epfd (eplist l' ! 0) = 0)"
proof -
  let ?e = "wr64 (wr32 (\<lambda>_. 0) 24 5) 8 2 :: node_ep"
  have f: "ep_type ?e = 2" "epfd ?e = 5" "ep_connector ?e = 0"
    by (simp_all add: ep_type_def epfd_def ep_connector_def bytes_simps rd_zero)
  have "(0 :: nat) < 1024" by simp
  from insert_node_ep_loses [OF nodes_ex_ok this f(3), of addr_ex] nodes_ex_ok f(1,2) show ?thesis by blast
qed

end
