(* ===== verification/Dsdb_Kvmap.thy ===== *)
theory Dsdb_Kvmap
  imports Cinos_Prelude "HOL-Library.RBT" "HOL-Library.List_Lexorder" "HOL-Library.Char_ord"
begin

text \<open>
  \<open>dsdb/dump/cpplib/node_kvmap.cpp\<close>: a wrapper of \<open>std::map\<close>, a red-black tree ordered by the \<open>operator<\<close> of its keys.  The
  order of the keys is an instance of \<open>linorder\<close>, so that the trees of the library apply.  A value of the
  enumeration type outside its names is \<open>DSDB_HASH_UNKNOWN\<close>.
\<close>

section \<open>Keys, values and operations\<close>

datatype dsdb_kobj = Kobj (key: string)

instantiation dsdb_kobj :: linorder
begin

definition less_dsdb_kobj :: "dsdb_kobj \<Rightarrow> dsdb_kobj \<Rightarrow> bool" where
  "less_dsdb_kobj a b \<longleftrightarrow> key a < key b"

definition less_eq_dsdb_kobj :: "dsdb_kobj \<Rightarrow> dsdb_kobj \<Rightarrow> bool" where
  "less_eq_dsdb_kobj a b \<longleftrightarrow> key a \<le> key b"

instance
  by standard (auto simp: less_dsdb_kobj_def less_eq_dsdb_kobj_def intro: dsdb_kobj.expand)

end

record dsdb_vobj =
  data_type :: int
  actions :: int
  vval :: string

datatype dsdb_insert_type = DSDB_HASH_INSERT | DSDB_HASH_UPDATE | DSDB_HASH_ANY | DSDB_HASH_UNKNOWN int

type_synonym dsdb_map = "(dsdb_kobj, dsdb_vobj) rbt"

fun dsdb_map_insert :: "dsdb_kobj \<Rightarrow> dsdb_vobj \<Rightarrow> dsdb_insert_type \<Rightarrow> dsdb_map \<Rightarrow> dsdb_map \<times> bool" where
  "dsdb_map_insert k v DSDB_HASH_INSERT m = (if RBT.lookup m k \<noteq> None then (m, False) else (RBT.insert k v m, True))"
| "dsdb_map_insert k v DSDB_HASH_UPDATE m = (if RBT.lookup m k = None then (m, False) else (RBT.insert k v m, True))"
| "dsdb_map_insert k v DSDB_HASH_ANY m = (RBT.insert k v m, True)"
| "dsdb_map_insert k v (DSDB_HASH_UNKNOWN _) m = (m, True)"

definition dsdb_map_remove :: "dsdb_kobj \<Rightarrow> dsdb_map \<Rightarrow> dsdb_map \<times> bool" where
  "dsdb_map_remove k m = (RBT.delete k m, RBT.lookup m k \<noteq> None)"

definition dsdb_map_search :: "dsdb_kobj \<Rightarrow> dsdb_map \<Rightarrow> dsdb_vobj option" where
  "dsdb_map_search k m = RBT.lookup m k"

section \<open>The map from strings to values\<close>

definition kv_abs :: "dsdb_map \<Rightarrow> string \<rightharpoonup> dsdb_vobj" where
  "kv_abs m s = RBT.lookup m (Kobj s)"

datatype kv_op = KInsert string dsdb_vobj dsdb_insert_type | KRemove string | KSearch string

fun kv_step :: "kv_op \<Rightarrow> dsdb_map \<Rightarrow> dsdb_map \<times> (bool + dsdb_vobj option)" where
  "kv_step (KInsert s v ty) m = (let (m, r) = dsdb_map_insert (Kobj s) v ty m in (m, Inl r))"
| "kv_step (KRemove s) m = (let (m, r) = dsdb_map_remove (Kobj s) m in (m, Inl r))"
| "kv_step (KSearch s) m = (m, Inr (dsdb_map_search (Kobj s) m))"

text \<open>What each operation promises of a map from strings to values.\<close>

fun kv_spec :: "kv_op \<Rightarrow> (string \<rightharpoonup> dsdb_vobj) \<Rightarrow> (string \<rightharpoonup> dsdb_vobj) \<times> (bool + dsdb_vobj option)" where
  "kv_spec (KInsert s v ty) f =
     (let refused = (ty = DSDB_HASH_INSERT \<and> s \<in> dom f \<or> ty = DSDB_HASH_UPDATE \<and> s \<notin> dom f);
          known = (ty \<in> {DSDB_HASH_INSERT, DSDB_HASH_UPDATE, DSDB_HASH_ANY})
      in (if known \<and> \<not> refused then f(s \<mapsto> v) else f, Inl (\<not> refused)))"
| "kv_spec (KRemove s) f = (f(s := None), Inl (s \<in> dom f))"
| "kv_spec (KSearch s) f = (f, Inr (f s))"

fun run_ops :: "('o \<Rightarrow> 's \<Rightarrow> 's \<times> 'r) \<Rightarrow> 'o list \<Rightarrow> 's \<Rightarrow> 's \<times> 'r list" where
  "run_ops f [] s = (s, [])"
| "run_ops f (p # ps) s = (let (s, r) = f p s; (s, rs) = run_ops f ps s in (s, r # rs))"

lemma kv_step_refines: "kv_spec p (kv_abs m) = map_prod kv_abs id (kv_step p m)"
proof (cases p)
  case (KInsert s v ty)
  then show ?thesis
    by (cases ty) (auto simp: Let_def kv_abs_def fun_eq_iff domIff)
qed (auto simp: kv_abs_def dsdb_map_remove_def dsdb_map_search_def fun_eq_iff domIff)

text \<open>Every sequence of operations returns what the map from strings returns.\<close>

lemma kvmap_refines: "run_ops kv_spec ps (kv_abs m) = map_prod kv_abs id (run_ops kv_step ps m)"
  by (induction ps arbitrary: m) (auto simp: kv_step_refines split: prod.splits)

end
