(* ===== verification/Unix_Domain.thy ===== *)
theory Unix_Domain
  imports Interfaces
begin

text \<open>
  \<open>unix_domain/unix_domain.c\<close> with \<open>include/unix_domain.h\<close>: listening on and connecting to a socket of the domain \<open>AF_UNIX\<close> or
  \<open>AF_INET\<close>.  The system calls are parameters: their results are fields of a record, and each call is written to
  a log with its arguments, which shows what happened outside of the program.  The memory that \<open>malloc\<close> returns has arbitrary
  contents.
\<close>

section \<open>Sockets and system calls\<close>

abbreviation (input) AF_UNIX :: int where "AF_UNIX \<equiv> 1"
abbreviation (input) AF_INET :: int where "AF_INET \<equiv> 2"

text \<open>The sizes of \<open>sun_path\<close>, \<open>struct sockaddr_un\<close> and \<open>struct sockaddr_in\<close>.\<close>

abbreviation (input) SUN_PATH_LEN :: nat where "SUN_PATH_LEN \<equiv> 108"
abbreviation (input) SIZEOF_UN :: nat where "SIZEOF_UN \<equiv> 110"
abbreviation (input) SIZEOF_IN :: nat where "SIZEOF_IN \<equiv> 16"

text \<open>
  The union of the two addresses: the family, which both have in the same place, and the 108 bytes behind it.  They are \<open>sun_path\<close> of the
  one; the other has its port in the first two of them and its address in the next four.
\<close>

record us_addr =
  sa_family :: u16
  sun_path :: "u8 list"

definition sin_port :: "us_addr \<Rightarrow> u16" where
  "sin_port a = ucast (sun_path a ! 0) OR push_bit 8 (ucast (sun_path a ! 1))"

definition sin_addr :: "us_addr \<Rightarrow> u8 list" where
  "sin_addr a = take 4 (drop 2 (sun_path a))"

definition put_sin_port :: "u16 \<Rightarrow> us_addr \<Rightarrow> us_addr" where
  "put_sin_port v a = a\<lparr>sun_path := [ucast v, ucast (drop_bit 8 v)] @ drop 2 (sun_path a)\<rparr>"

definition put_sin_addr :: "u8 list \<Rightarrow> us_addr \<Rightarrow> us_addr" where
  "put_sin_addr ip a = a\<lparr>sun_path := take 2 (sun_path a) @ ip @ drop 6 (sun_path a)\<rparr>"

record us_connect =
  socket_fd :: int
  us_domain :: int
  us_type :: int
  us_protocol :: int
  us_addr :: us_addr

datatype sys_call =
    Socket int int int
  | Remove "u8 list"
  | Bind int us_addr nat
  | Listen int int
  | Connect int us_addr nat
  | Free

text \<open>
  The results of the calls: the memory of \<open>malloc\<close>, the four bytes that \<open>inet_pton\<close> finds, the descriptor of \<open>socket\<close>, and for the others \<open>-1\<close> or another
  value; \<open>remove_enoent\<close> tells whether \<open>errno\<close> is \<open>ENOENT\<close> after a failed \<open>remove\<close>.
\<close>

record sys_results =
  malloc_ret :: "us_connect option"
  inet_pton_ret :: "u8 list \<Rightarrow> u8 list option"
  socket_ret :: int
  remove_ret :: int
  remove_enoent :: bool
  bind_ret :: int
  listen_ret :: int
  connect_ret :: int

definition htons :: "u16 \<Rightarrow> u16" where
  "htons p = push_bit 8 p OR drop_bit 8 p"

text \<open>\<open>strncpy\<close> of at most 107 bytes to the 108 of \<open>sun_path\<close>, whose last byte stays.\<close>

definition copy_path :: "u8 list \<Rightarrow> u8 list \<Rightarrow> u8 list" where
  "copy_path path old = (let n = SUN_PATH_LEN - 1 in take n path @ replicate (n - length path) 0 @ drop n old)"

text \<open>The result is the structure, the calls and the result of the function.\<close>

definition unix_socket_init :: "sys_results \<Rightarrow> us_connect \<Rightarrow> int \<Rightarrow> int \<Rightarrow> int \<Rightarrow> u8 list \<Rightarrow> u16 \<Rightarrow> us_connect \<times> sys_call list \<times> int" where
  "unix_socket_init os ud domn ty prot sockpath port =
     (let ud = ud\<lparr>us_domain := domn, us_type := ty, us_protocol := prot\<rparr>;
          fin = (\<lambda>ud. let ud = ud\<lparr>socket_fd := socket_ret os\<rparr> in
            (ud, [Socket domn ty prot], if socket_ret os = - 1 then - 1 else 0))
      in if domn = AF_UNIX then
           (let ud = ud\<lparr>us_addr := (us_addr ud)\<lparr>sa_family := of_int domn\<rparr>\<rparr> in
            if length sockpath > SUN_PATH_LEN then (ud, [], - 1)
            else fin (ud\<lparr>us_addr := (us_addr ud)\<lparr>sun_path := copy_path sockpath (sun_path (us_addr ud))\<rparr>\<rparr>))
         else if domn = AF_INET then
           (let ud = ud\<lparr>us_addr := (us_addr ud)\<lparr>sa_family := of_int domn\<rparr>\<rparr> in
            case inet_pton_ret os sockpath of
              None \<Rightarrow> (ud, [], - 1)
            | Some ip \<Rightarrow> fin (ud\<lparr>us_addr := put_sin_port (htons port) (put_sin_addr ip (us_addr ud))\<rparr>))
         else fin ud)"

definition unix_socket_listen :: "sys_results \<Rightarrow> int \<Rightarrow> int \<Rightarrow> int \<Rightarrow> u8 list \<Rightarrow> u16 \<Rightarrow> int \<Rightarrow> us_connect option \<times> sys_call list" where
  "unix_socket_listen os domn ty prot sockpath port back_log =
     (case malloc_ret os of
        None \<Rightarrow> (None, [])
      | Some ud \<Rightarrow>
          (case unix_socket_init os ud domn ty prot sockpath port of (ud, log, res) \<Rightarrow>
            if res = - 1 then (None, log @ [Free])
            else let fin = (\<lambda>log res.
                if res = - 1 then (None, log @ [Free])
                else let log = log @ [Listen (socket_fd ud) back_log] in
                  if listen_ret os = - 1 then (None, log @ [Free]) else (Some ud, log))
              in if domn = AF_UNIX then
                   (let log = log @ [Remove sockpath] in
                    if remove_ret os = - 1 \<and> \<not> remove_enoent os then (None, log)
                    else fin (log @ [Bind (socket_fd ud) (us_addr ud) SIZEOF_UN]) (bind_ret os))
                 else if domn = AF_INET then fin (log @ [Bind (socket_fd ud) (us_addr ud) SIZEOF_IN]) (bind_ret os)
                 else fin log res))"

definition unix_socket_connect :: "sys_results \<Rightarrow> int \<Rightarrow> int \<Rightarrow> int \<Rightarrow> u8 list \<Rightarrow> u16 \<Rightarrow> int \<Rightarrow> us_connect option \<times> sys_call list" where
  "unix_socket_connect os domn ty prot sockpath port back_log =
     (case malloc_ret os of
        None \<Rightarrow> (None, [])
      | Some ud \<Rightarrow>
          (case unix_socket_init os ud domn ty prot sockpath port of (ud, log, res) \<Rightarrow>
            if res = - 1 then (None, log @ [Free])
            else let fin = (\<lambda>log res. if res < 0 then (None, log @ [Free]) else (Some ud, log)) in
              if domn = AF_UNIX then fin (log @ [Connect (socket_fd ud) (us_addr ud) SIZEOF_UN]) (connect_ret os)
              else if domn = AF_INET then fin (log @ [Connect (socket_fd ud) (us_addr ud) SIZEOF_UN]) (connect_ret os)
              else fin log res))"

section \<open>Outcome\<close>

text \<open>The path that the kernel reads from an address: up to the first zero byte.\<close>

definition path_of :: "us_addr \<Rightarrow> u8 list" where
  "path_of a = takeWhile (\<lambda>c. c \<noteq> 0) (sun_path a)"

lemma sin_fields:
  assumes "length (sun_path a) = 108" and "length ip = 4"
  shows "sin_port (put_sin_port v (put_sin_addr ip a)) = v" and "sin_addr (put_sin_port v (put_sin_addr ip a)) = ip"
proof -
  show "sin_port (put_sin_port v (put_sin_addr ip a)) = v"
    unfolding sin_port_def put_sin_port_def by (rule bit_word_eqI) (auto simp: bit_simps)
  show "sin_addr (put_sin_port v (put_sin_addr ip a)) = ip"
    using assms by (simp add: sin_addr_def put_sin_port_def put_sin_addr_def)
qed

lemma path_copied:
  assumes "length path < 107" and "0 \<notin> set path"
  shows "takeWhile (\<lambda>c. c \<noteq> 0) (copy_path path old) = path"
proof -
  have "107 - length path = Suc (106 - length path)" using assms(1) by simp
  moreover have "\<forall>c \<in> set path. c \<noteq> 0" using assms(2) by auto
  ultimately show ?thesis using assms(1) by (simp add: copy_path_def Let_def takeWhile_append2)
qed

lemma path_cut:
  assumes "107 \<le> length path" and "length old = 108"
  shows "copy_path path old = take 107 path @ [old ! 107]"
  using assms by (simp add: copy_path_def Let_def Cons_nth_drop_Suc [symmetric])

text \<open>
  (C31) Listening on a path of at most 108 bytes, when the memory is available and every call succeeds, removes the file with this path, creates a
  socket, binds it, listens on it and returns its descriptor.  The socket is bound to the path if it has fewer than 107 bytes.  A longer
  path is not refused: the address then has its first 107 bytes and, behind them, a byte of the memory that nobody has written.
\<close>

theorem unix_socket_listen_binds:
  assumes "malloc_ret os = Some ud" and "length (sun_path (us_addr ud)) = 108" and "length path \<le> 108" and "0 \<notin> set path"
    and "socket_ret os = fd" and "fd \<noteq> - 1" and "remove_ret os \<noteq> - 1 \<or> remove_enoent os" and "bind_ret os \<noteq> - 1" and "listen_ret os \<noteq> - 1"
  shows "\<exists>a ud'. unix_socket_listen os AF_UNIX ty prot path port back_log =
      (Some ud', [Socket AF_UNIX ty prot, Remove path, Bind fd a 110, Listen fd back_log]) \<and>
    socket_fd ud' = fd \<and> us_addr ud' = a \<and> sa_family a = 1 \<and>
    (if length path < 107 then path_of a = path else sun_path a = take 107 path @ [sun_path (us_addr ud) ! 107])"
  using assms path_copied [OF _ assms(4), of "sun_path (us_addr ud)"] path_cut [OF _ assms(2), of path]
  by (auto simp: unix_socket_listen_def unix_socket_init_def Let_def path_of_def)

text \<open>
  When a call behind \<open>socket\<close> fails, \<open>unix_socket_listen\<close> and \<open>unix_socket_connect\<close> return a null pointer and the descriptor of the socket stays open: nothing
  closes it, and the structure that has its number is freed.  For an internet address \<open>connect\<close> is given the size of the other
  kind of address.
\<close>

theorem unix_socket_errors:
  assumes "malloc_ret os = Some ud" and "length (sun_path (us_addr ud)) = 108"
    and "inet_pton_ret os path = Some ip" and "length ip = 4" and "socket_ret os = fd" and "fd \<noteq> - 1" and "connect_ret os = - 1" and "bind_ret os = - 1"
  shows "\<exists>a b. unix_socket_connect os AF_INET ty prot path port back_log = (None, [Socket AF_INET ty prot, Connect fd a 110, Free]) \<and>
    unix_socket_listen os AF_INET ty prot path port back_log = (None, [Socket AF_INET ty prot, Bind fd b 16, Free]) \<and>
    sin_addr a = ip \<and> sin_port a = htons port"
  using assms sin_fields [OF assms(2,4), of "htons port"]
  by (simp add: unix_socket_connect_def unix_socket_listen_def unix_socket_init_def Let_def sin_port_def sin_addr_def put_sin_port_def put_sin_addr_def)

definition us_mem_ex :: us_connect where
  "us_mem_ex = \<lparr>socket_fd = 77, us_domain = 0, us_type = 0, us_protocol = 0,
     us_addr = \<lparr>sa_family = 0, sun_path = replicate 108 165\<rparr>\<rparr>"

definition sys_ex :: "int \<Rightarrow> sys_results" where
  "sys_ex r = \<lparr>malloc_ret = Some us_mem_ex, inet_pton_ret = (\<lambda>_. Some [127, 0, 0, 1]), socket_ret = 3, remove_ret = - 1, remove_enoent = True,
     bind_ret = r, listen_ret = r, connect_ret = r\<rparr>"

theorem unix_socket_listen_binds_witness:
  "\<exists>a ud'. unix_socket_listen (sys_ex 0) AF_UNIX 1 0 (replicate 108 47) 0 16 =
      (Some ud', [Socket AF_UNIX 1 0, Remove (replicate 108 47), Bind 3 a 110, Listen 3 16]) \<and>
    socket_fd ud' = 3 \<and> us_addr ud' = a \<and> sun_path a = replicate 107 47 @ [165]"
  using unix_socket_listen_binds [of "sys_ex 0" us_mem_ex "replicate 108 47" 3 1 0 0 16]
  by (auto simp: sys_ex_def us_mem_ex_def)

theorem unix_socket_errors_witness:
  "\<exists>a b. unix_socket_connect (sys_ex (- 1)) AF_INET 1 0 [49] 50000 16 = (None, [Socket AF_INET 1 0, Connect 3 a 110, Free]) \<and>
    unix_socket_listen (sys_ex (- 1)) AF_INET 1 0 [49] 50000 16 = (None, [Socket AF_INET 1 0, Bind 3 b 16, Free]) \<and>
    sin_addr a = [127, 0, 0, 1] \<and> sin_port a = htons 50000"
  by (rule unix_socket_errors [of "sys_ex (- 1)" us_mem_ex]) (simp_all add: sys_ex_def us_mem_ex_def)

end
