(* ===== verification/Bpf_Trace.thy ===== *)
theory Bpf_Trace
  imports Bits "HOL-Library.Finite_Map"
begin

text \<open>
  The tracing programs under \<open>eBPF\<close> that keep state: \<open>sigsnoop\<close> (signals sent with \<open>kill\<close>), \<open>offcpu\<close> (time off
  the processor per stack), \<open>runqlat\<close> (histograms of the time in the run queue), and the events of
  \<open>exitsnoop\<close> and \<open>execsnoop\<close>.  The hash maps are helpers of the kernel and are not in the repository: their operations are
  a parameter, and \<open>bpf_hash\<close> states their documented behaviour.  What the other helpers return (time, task, stack) is an argument
  too.  A program runs as a whole.
\<close>

section \<open>Maps of the kernel\<close>

datatype bpf_flag = BPF_ANY | BPF_NOEXIST

record ('m, 'k, 'v) bpf_map =
  lookup_elem :: "'m \<Rightarrow> 'k \<Rightarrow> 'v option"
  update_elem :: "'m \<Rightarrow> 'k \<Rightarrow> 'v \<Rightarrow> bpf_flag \<Rightarrow> 'm \<times> int"
  delete_elem :: "'m \<Rightarrow> 'k \<Rightarrow> 'm \<times> int"
  store_elem :: "'m \<Rightarrow> 'k \<Rightarrow> 'v \<Rightarrow> 'm"

text \<open>
  The documented behaviour of a hash map with room for \<open>n\<close> entries: an update of a new key fails when the map is full, one with
  \<open>BPF_NOEXIST\<close> fails with \<open>-EEXIST\<close> when the key is there.  The last operation is a store through the pointer that a lookup returned.
\<close>

definition bpf_hash :: "('m, 'k, 'v) bpf_map \<Rightarrow> nat \<Rightarrow> bool" where
  "bpf_hash M n \<longleftrightarrow>
     (\<forall>m. finite (dom (lookup_elem M m))) \<and>
     (\<forall>m k v f. lookup_elem M m k = None \<longrightarrow> card (dom (lookup_elem M m)) < n \<longrightarrow>
        snd (update_elem M m k v f) = 0 \<and> lookup_elem M (fst (update_elem M m k v f)) = (lookup_elem M m)(k \<mapsto> v)) \<and>
     (\<forall>m k v f. lookup_elem M m k = None \<longrightarrow> \<not> card (dom (lookup_elem M m)) < n \<longrightarrow>
        snd (update_elem M m k v f) = - 7 \<and> lookup_elem M (fst (update_elem M m k v f)) = lookup_elem M m) \<and>
     (\<forall>m k v. lookup_elem M m k \<noteq> None \<longrightarrow>
        snd (update_elem M m k v BPF_ANY) = 0 \<and> lookup_elem M (fst (update_elem M m k v BPF_ANY)) = (lookup_elem M m)(k \<mapsto> v)) \<and>
     (\<forall>m k v. lookup_elem M m k \<noteq> None \<longrightarrow>
        snd (update_elem M m k v BPF_NOEXIST) = - 17 \<and> lookup_elem M (fst (update_elem M m k v BPF_NOEXIST)) = lookup_elem M m) \<and>
     (\<forall>m k. lookup_elem M (fst (delete_elem M m k)) = (lookup_elem M m)(k := None)) \<and>
     (\<forall>m k v. lookup_elem M m k \<noteq> None \<longrightarrow> lookup_elem M (store_elem M m k v) = (lookup_elem M m)(k \<mapsto> v))"

definition bpf_map_lookup_or_try_init :: "('m, 'k, 'v) bpf_map \<Rightarrow> 'k \<Rightarrow> 'v \<Rightarrow> 'm \<Rightarrow> 'm \<times> 'v option" where
  "bpf_map_lookup_or_try_init M key init m =
     (case lookup_elem M m key of
        Some val \<Rightarrow> (m, Some val)
      | None \<Rightarrow>
          (let (m, err) = update_elem M m key init BPF_NOEXIST
           in if err \<noteq> 0 \<and> err \<noteq> - 17 then (m, None) else (m, lookup_elem M m key)))"

section \<open>sigsnoop\<close>

record sig_event =
  se_pid :: u32
  se_tpid :: u32
  se_sig :: u32
  se_ret :: u32
  se_comm :: "u8 list"

record cur_task =
  cur_pid_tgid :: u64
  cur_comm :: "u8 list"

datatype printk =
  Sent u32 "u8 list" u32
| To u32 u32

definition MAX_ENTRIES :: nat where
  "MAX_ENTRIES = 10240"

definition probe_entry :: "('m, u32, sig_event) bpf_map \<Rightarrow> cur_task \<Rightarrow> u32 \<Rightarrow> u32 \<Rightarrow> 'm \<Rightarrow> 'm" where
  "probe_entry M c tpid sig m =
     (let tgid = ucast (cur_pid_tgid c);
          event = \<lparr>se_pid = ucast (drop_bit 32 (cur_pid_tgid c)), se_tpid = tpid, se_sig = sig, se_ret = 0, se_comm = cur_comm c\<rparr>
      in fst (update_elem M m tgid event BPF_ANY))"

definition probe_exit :: "('m, u32, sig_event) bpf_map \<Rightarrow> cur_task \<Rightarrow> u32 \<Rightarrow> 'm \<Rightarrow> 'm \<times> printk list" where
  "probe_exit M c ret m =
     (let tgid = ucast (cur_pid_tgid c)
      in case lookup_elem M m tgid of
           None \<Rightarrow> (m, [])
         | Some eventp \<Rightarrow>
             (let eventp = eventp\<lparr>se_ret := ret\<rparr>;
                  m = store_elem M m tgid eventp
              in (fst (delete_elem M m tgid),
                  [Sent (se_pid eventp) (se_comm eventp) (se_sig eventp), To (se_tpid eventp) (se_ret eventp)])))"

definition kill_entry :: "('m, u32, sig_event) bpf_map \<Rightarrow> cur_task \<Rightarrow> u64 \<Rightarrow> u64 \<Rightarrow> 'm \<Rightarrow> 'm" where
  "kill_entry M c arg0 arg1 m = probe_entry M c (ucast arg0) (ucast arg1) m"

definition kill_exit :: "('m, u32, sig_event) bpf_map \<Rightarrow> cur_task \<Rightarrow> u64 \<Rightarrow> 'm \<Rightarrow> 'm \<times> printk list" where
  "kill_exit M c ret m = probe_exit M c (ucast ret) m"

section \<open>offcpu\<close>

record ptrace_key =
  pk_tgid :: u32
  pk_pid :: u32

record psched_trace_val =
  start_time :: u64
  user_stack_id :: u64
  kernel_stack_id :: u64
  tv_comm :: "u8 list"

record psched_stack_key =
  pid_tgid :: ptrace_key
  sk_user_stack_id :: u64
  sk_kernel_stack_id :: u64
  sk_comm :: "u8 list"

text \<open>The time, the two stacks and the name that the helpers return.\<close>

record sched_ctx =
  ktime_ns :: u64
  stackid_user :: u64
  stackid_kernel :: u64
  ctx_comm :: "u8 list"

definition try_record_start ::
    "('m, ptrace_key, psched_trace_val) bpf_map \<Rightarrow> u32 \<Rightarrow> sched_ctx \<Rightarrow> u32 \<Rightarrow> u32 \<Rightarrow> 'm \<Rightarrow> 'm" where
  "try_record_start M target_tgid ctx prev_pid prev_tgid m =
     (if prev_pid = 0 \<or> prev_tgid = 0 \<or> prev_tgid \<noteq> target_tgid then m
      else fst (update_elem M m \<lparr>pk_tgid = prev_tgid, pk_pid = prev_pid\<rparr>
        \<lparr>start_time = ktime_ns ctx, user_stack_id = stackid_user ctx, kernel_stack_id = stackid_kernel ctx,
         tv_comm = ctx_comm ctx\<rparr> BPF_ANY))"

definition stack_key :: "u32 \<Rightarrow> u32 \<Rightarrow> psched_trace_val \<Rightarrow> psched_stack_key" where
  "stack_key pid tgid val =
     \<lparr>pid_tgid = \<lparr>pk_tgid = tgid, pk_pid = pid\<rparr>, sk_user_stack_id = user_stack_id val,
      sk_kernel_stack_id = kernel_stack_id val, sk_comm = tv_comm val\<rparr>"

definition increment_us ::
    "('n, psched_stack_key, u64) bpf_map \<Rightarrow> u32 \<Rightarrow> u32 \<Rightarrow> u64 \<Rightarrow> psched_trace_val \<Rightarrow> 'n \<Rightarrow> 'n" where
  "increment_us N pid tgid off_time_us val n =
     (let key = stack_key pid tgid val;
          result = (case lookup_elem N n key of None \<Rightarrow> off_time_us | Some total_off_time_us \<Rightarrow> off_time_us + total_off_time_us)
      in fst (update_elem N n key result BPF_ANY))"

definition try_record_end ::
    "('m, ptrace_key, psched_trace_val) bpf_map \<Rightarrow> ('n, psched_stack_key, u64) bpf_map \<Rightarrow> u32 \<Rightarrow> u64 \<Rightarrow> u32 \<Rightarrow> u32 \<Rightarrow>
     'm \<Rightarrow> 'n \<Rightarrow> 'n" where
  "try_record_end M N target_tgid end_time next_pid next_tgid m n =
     (if next_pid = 0 \<or> next_tgid \<noteq> target_tgid then n
      else case lookup_elem M m \<lparr>pk_tgid = next_tgid, pk_pid = next_pid\<rparr> of
        None \<Rightarrow> n
      | Some val \<Rightarrow>
          (let off_time = end_time - start_time val;
               off_time_us = off_time div 1000
           in increment_us N next_pid next_tgid off_time_us val n))"

text \<open>The handler of the scheduler's trace point reads the two tasks and does nothing with them.\<close>

definition sched_switch :: "ptrace_key \<Rightarrow> ptrace_key \<Rightarrow> 'm \<times> 'n \<Rightarrow> ('m \<times> 'n) \<times> int" where
  "sched_switch prev next s =
     (let prev_pid = pk_pid prev; prev_tgid = pk_tgid prev;
          next_pid = pk_pid next; next_tgid = pk_tgid next
      in (s, 0))"

section \<open>runqlat\<close>

text \<open>The settings of the program; \<open>char\<close> variables are conditions.\<close>

record runq_cfg =
  filter_cg :: bool
  targ_per_process :: bool
  targ_per_thread :: bool
  targ_per_pidns :: bool
  targ_ms :: bool
  targ_pid :: u32

record pid_struct =
  pid_level :: u32
  pid_numbers :: "nat \<Rightarrow> u32"

record task_struct =
  ts_tgid :: u32
  ts_pid :: u32
  ts_state_x :: u32
  ts_state_o :: u64
  ts_thread_pid :: pid_struct
  ts_comm :: "u8 list"

definition MAX_TIME_POWER :: u8 where
  "MAX_TIME_POWER = 16"

text \<open>
  The structure \<open>hist_t\<close>: 17 counters of 32 bits and the name at offset 68, in 84 bytes.  The map \<open>hists\<close> is declared
  with \<open>__type(value, sizeof(hist_t))\<close>, the type of a \<open>sizeof\<close> expression, which has eight bytes.
\<close>

definition hist_comm_off :: nat where
  "hist_comm_off = 68"

definition sizeof_hist :: nat where
  "sizeof_hist = 84"

definition hists_value_size :: nat where
  "hists_value_size = 8"

definition get_task_state :: "bool \<Rightarrow> task_struct \<Rightarrow> u64" where
  "get_task_state field_exists t = (if field_exists then ucast (ts_state_x t) else ts_state_o t)"

definition pid_namespace :: "task_struct \<Rightarrow> u32" where
  "pid_namespace t = (let pid = ts_thread_pid t in pid_numbers pid (unat (pid_level pid)))"

definition trace_enque :: "('m, u32, u64) bpf_map \<Rightarrow> runq_cfg \<Rightarrow> u64 \<Rightarrow> u32 \<Rightarrow> u32 \<Rightarrow> 'm \<Rightarrow> 'm \<times> int" where
  "trace_enque M cfg ns pid tid m =
     (if tid = 0 \<or> (targ_pid cfg \<noteq> 0 \<and> targ_pid cfg \<noteq> pid) then (m, 0)
      else update_elem M m tid ns BPF_ANY)"

definition hist_key :: "runq_cfg \<Rightarrow> task_struct \<Rightarrow> u32" where
  "hist_key cfg next =
     (if targ_per_process cfg then ts_tgid next
      else if targ_per_thread cfg then ts_pid next
      else if targ_per_pidns cfg then pid_namespace next
      else - 1)"

definition hist_power :: "runq_cfg \<Rightarrow> u64 \<Rightarrow> u8" where
  "hist_power cfg delaytime =
     (let delaytime = delaytime div 1000;
          delaytime = (if targ_ms cfg then delaytime div 1000 else delaytime);
          pw = ucast (bpf_log2l delaytime)
      in if pw \<ge> MAX_TIME_POWER then MAX_TIME_POWER else pw)"

text \<open>What the handler does with a value of the map: an access outside its bytes is undefined.\<close>

definition hist_record :: "u8 list \<Rightarrow> u8 \<Rightarrow> buf \<Rightarrow> buf option" where
  "hist_record comm pw h = do {
     h \<leftarrow> (if hist_comm_off \<ge> blen h then None
       else if bat h hist_comm_off \<noteq> 0 then Some h
       else let str = takeWhile (\<lambda>c. c \<noteq> 0) (take 15 comm) @ [0]
         in if hist_comm_off + length str > blen h then None else Some (h\<lparr>bat := setb (bat h) hist_comm_off str\<rparr>));
     if 4 * unat pw + 4 > blen h then None
     else Some (h\<lparr>bat := wr32 (bat h) (4 * unat pw) (rd32 (bat h) (4 * unat pw) + 1)\<rparr>)
   }"

text \<open>
  \<open>vsize\<close> is the size of a value of the map \<open>hists\<close>; \<open>enq_ns\<close> and \<open>ns\<close> are the two readings of the clock.
\<close>

definition handle_switch ::
    "('m, u32, u64) bpf_map \<Rightarrow> ('h, u32, buf) bpf_map \<Rightarrow> nat \<Rightarrow> runq_cfg \<Rightarrow> bool \<Rightarrow> bool \<Rightarrow> u64 \<Rightarrow> u64 \<Rightarrow> task_struct \<Rightarrow> task_struct \<Rightarrow>
     'm \<times> 'h \<Rightarrow> ('m \<times> 'h) option" where
  "handle_switch M H vsize cfg field_exists under_cgroup enq_ns ns prev next s =
     (if filter_cg cfg \<and> \<not> under_cgroup then Some s
      else
        let (m, hs) = s;
            m = (if get_task_state field_exists prev = 0 then fst (trace_enque M cfg enq_ns (ts_tgid prev) (ts_pid prev) m) else m);
            tid = ts_pid next
        in case lookup_elem M m tid of
             None \<Rightarrow> Some (m, hs)
           | Some timestamp \<Rightarrow>
               (let delaytime = ns - timestamp
                in if sint delaytime < 0 then Some (fst (delete_elem M m tid), hs)
                   else
                     let hkey = hist_key cfg next;
                         (hs, hist_p) = bpf_map_lookup_or_try_init H hkey \<lparr>blen = vsize, bat = \<lambda>_. 0\<rparr> hs
                     in case hist_p of
                          None \<Rightarrow> Some (m, hs)
                        | Some h \<Rightarrow> do {
                            h \<leftarrow> hist_record (ts_comm next) (hist_power cfg delaytime) h;
                            Some (fst (delete_elem M m tid), store_elem H hs hkey h)
                          }))"

section \<open>exitsnoop and execsnoop\<close>

record exit_event =
  xe_pid :: u32
  xe_ppid :: u32
  xe_exit_code :: u32
  xe_duration_ns :: u64
  xe_comm :: "u8 list"

record exec_event =
  ee_pid :: u32
  ee_ppid :: u32
  ee_uid :: u32
  ee_ret :: u32
  ee_is_exit :: u8
  ee_comm :: "u8 list"

record cur_info =
  ci_task :: cur_task
  ci_uid_gid :: u64
  ci_parent_tgid :: u32
  ci_exit_code :: u32
  ci_start_time :: u64

text \<open>\<open>room\<close> says whether the ring buffer has room for an event; the list is the events that were submitted.\<close>

definition handle_exit :: "bool \<Rightarrow> u64 \<Rightarrow> cur_info \<Rightarrow> exit_event list \<Rightarrow> exit_event list" where
  "handle_exit room ns c evs =
     (let tgid_pid = cur_pid_tgid (ci_task c);
          tid = ucast tgid_pid :: u32;
          pid = ucast (drop_bit 32 tgid_pid) :: u32
      in if pid \<noteq> tid then evs
         else if \<not> room then evs
         else evs @ [\<lparr>xe_pid = pid, xe_ppid = ci_parent_tgid c, xe_exit_code = drop_bit 8 (ci_exit_code c) AND 0xff,
                      xe_duration_ns = ns - ci_start_time c, xe_comm = cur_comm (ci_task c)\<rparr>])"

definition tp_syscalls_sys_enter_execve :: "cur_info \<Rightarrow> exec_event list \<Rightarrow> exec_event list" where
  "tp_syscalls_sys_enter_execve c evs =
     (let uid = ucast (ci_uid_gid c);
          tgid = ucast (drop_bit 32 (cur_pid_tgid (ci_task c)))
      in evs @ [\<lparr>ee_pid = tgid, ee_ppid = ci_parent_tgid c, ee_uid = uid, ee_ret = 0, ee_is_exit = 0,
                 ee_comm = cur_comm (ci_task c)\<rparr>])"


section \<open>What the maps guarantee\<close>

lemma bpf_hash_any:
  assumes "bpf_hash M n" and "lookup_elem M m k \<noteq> None \<or> card (dom (lookup_elem M m)) < n"
  shows "lookup_elem M (fst (update_elem M m k v BPF_ANY)) = (lookup_elem M m)(k \<mapsto> v)"
  using assms unfolding bpf_hash_def by (metis (no_types, lifting))

lemma bpf_hash_full:
  assumes "bpf_hash M n" and "lookup_elem M m k = None" and "\<not> card (dom (lookup_elem M m)) < n"
  shows "lookup_elem M (fst (update_elem M m k v f)) = lookup_elem M m"
  using assms unfolding bpf_hash_def by blast

lemma bpf_hash_delete:
  assumes "bpf_hash M n"
  shows "lookup_elem M (fst (delete_elem M m k)) = (lookup_elem M m)(k := None)"
  using assms unfolding bpf_hash_def by blast

lemma bpf_hash_store:
  assumes "bpf_hash M n" and "lookup_elem M m k \<noteq> None"
  shows "lookup_elem M (store_elem M m k v) = (lookup_elem M m)(k \<mapsto> v)"
  using assms unfolding bpf_hash_def by blast

lemma bpf_hash_new:
  assumes "bpf_hash M n" and "lookup_elem M m k = None" and "card (dom (lookup_elem M m)) < n"
  shows "snd (update_elem M m k v f) = 0" and "lookup_elem M (fst (update_elem M m k v f)) = (lookup_elem M m)(k \<mapsto> v)"
  using assms by (simp_all add: bpf_hash_def)

lemma lookup_or_try_init_room:
  assumes "bpf_hash M n" and "lookup_elem M m k \<noteq> None \<or> card (dom (lookup_elem M m)) < n"
  shows "snd (bpf_map_lookup_or_try_init M k v m) = Some (case lookup_elem M m k of None \<Rightarrow> v | Some x \<Rightarrow> x)"
    and "lookup_elem M (fst (bpf_map_lookup_or_try_init M k v m)) =
      (lookup_elem M m)(k \<mapsto> case lookup_elem M m k of None \<Rightarrow> v | Some x \<Rightarrow> x)"
proof -
  note u = bpf_hash_new [OF assms(1), of m k v BPF_NOEXIST]
  show "snd (bpf_map_lookup_or_try_init M k v m) = Some (case lookup_elem M m k of None \<Rightarrow> v | Some x \<Rightarrow> x)"
    using u assms(2) by (cases "lookup_elem M m k") (auto simp: bpf_map_lookup_or_try_init_def split: prod.split)
  show "lookup_elem M (fst (bpf_map_lookup_or_try_init M k v m)) =
      (lookup_elem M m)(k \<mapsto> case lookup_elem M m k of None \<Rightarrow> v | Some x \<Rightarrow> x)"
    using u assms(2) by (cases "lookup_elem M m k") (auto simp: bpf_map_lookup_or_try_init_def fun_upd_idem split: prod.split)
qed

section \<open>Signals\<close>

datatype kill_event = Enter cur_task u64 u64 | Exit cur_task u64

definition cur_tid :: "cur_task \<Rightarrow> u32" where
  "cur_tid c = ucast (cur_pid_tgid c)"

fun kill_run :: "('m, u32, sig_event) bpf_map \<Rightarrow> kill_event list \<Rightarrow> 'm \<Rightarrow> 'm \<times> printk list" where
  "kill_run M [] m = (m, [])"
| "kill_run M (Enter c a0 a1 # es) m = kill_run M es (kill_entry M c a0 a1 m)"
| "kill_run M (Exit c r # es) m =
     (let (m, out) = kill_exit M c r m; (m, outs) = kill_run M es m in (m, out @ outs))"

text \<open>
  From the history, latest event first: the call of a thread that has not returned, whether the map has room for the
  calls that have not returned, and what is to be reported: every return with the call of the same thread.
\<close>

fun pending :: "kill_event list \<Rightarrow> u32 \<Rightarrow> kill_event option" where
  "pending [] t = None"
| "pending (Enter c a0 a1 # before) t = (if t = cur_tid c then Some (Enter c a0 a1) else pending before t)"
| "pending (Exit c r # before) t = (if t = cur_tid c then None else pending before t)"

fun kills_fit :: "kill_event list \<Rightarrow> kill_event list \<Rightarrow> bool" where
  "kills_fit before [] = True"
| "kills_fit before (Enter c a0 a1 # es) =
     ((pending before (cur_tid c) \<noteq> None \<or> card (dom (pending before)) < MAX_ENTRIES) \<and> kills_fit (Enter c a0 a1 # before) es)"
| "kills_fit before (Exit c r # es) = kills_fit (Exit c r # before) es"

fun report :: "kill_event \<Rightarrow> u64 \<Rightarrow> printk list" where
  "report (Enter c a0 a1) r =
     [Sent (ucast (drop_bit 32 (cur_pid_tgid c))) (cur_comm c) (ucast a1), To (ucast a0) (ucast r)]"
| "report (Exit c q) r = []"

fun kill_reports :: "kill_event list \<Rightarrow> kill_event list \<Rightarrow> printk list" where
  "kill_reports before [] = []"
| "kill_reports before (Enter c a0 a1 # es) = kill_reports (Enter c a0 a1 # before) es"
| "kill_reports before (Exit c r # es) =
     (case pending before (cur_tid c) of None \<Rightarrow> [] | Some e \<Rightarrow> report e r) @ kill_reports (Exit c r # before) es"

fun entered :: "kill_event \<Rightarrow> sig_event" where
  "entered (Enter c a0 a1) = \<lparr>se_pid = ucast (drop_bit 32 (cur_pid_tgid c)), se_tpid = ucast a0, se_sig = ucast a1, se_ret = 0, se_comm = cur_comm c\<rparr>"
| "entered (Exit c r) = undefined"

lemma pending_Enter: "pending before t = Some e \<Longrightarrow> \<exists>c a0 a1. e = Enter c a0 a1"
  by (induction before t rule: pending.induct) (auto split: if_splits)

lemma kill_entry_pending:
  assumes "bpf_hash M MAX_ENTRIES" and "lookup_elem M m = map_option entered \<circ> pending before"
    and "pending before (cur_tid c) \<noteq> None \<or> card (dom (pending before)) < MAX_ENTRIES"
  shows "lookup_elem M (kill_entry M c a0 a1 m) = map_option entered \<circ> pending (Enter c a0 a1 # before)"
proof -
  have "dom (lookup_elem M m) = dom (pending before)" using assms(2) by (auto simp: dom_def)
  then have "lookup_elem M m (cur_tid c) \<noteq> None \<or> card (dom (lookup_elem M m)) < MAX_ENTRIES" using assms(2,3) by auto
  from bpf_hash_any [OF assms(1) this] show ?thesis
    by (simp add: kill_entry_def probe_entry_def Let_def cur_tid_def [symmetric] assms(2) fun_eq_iff)
qed

lemma kill_exit_pending:
  assumes "bpf_hash M MAX_ENTRIES" and "lookup_elem M m = map_option entered \<circ> pending before"
  shows "lookup_elem M (fst (kill_exit M c r m)) = map_option entered \<circ> pending (Exit c r # before)"
    and "snd (kill_exit M c r m) = (case pending before (cur_tid c) of None \<Rightarrow> [] | Some e \<Rightarrow> report e r)"
proof -
  have s: "lookup_elem M (fst (delete_elem M (store_elem M m (cur_tid c) v) (cur_tid c))) = (lookup_elem M m)(cur_tid c := None)"
    if "pending before (cur_tid c) \<noteq> None" for v
    using that assms(2) by (simp add: bpf_hash_delete [OF assms(1)] bpf_hash_store [OF assms(1)])
  show "lookup_elem M (fst (kill_exit M c r m)) = map_option entered \<circ> pending (Exit c r # before)"
    using s by (cases "pending before (cur_tid c)")
      (auto simp: kill_exit_def probe_exit_def Let_def cur_tid_def [symmetric] assms(2) fun_eq_iff)
  show "snd (kill_exit M c r m) = (case pending before (cur_tid c) of None \<Rightarrow> [] | Some e \<Rightarrow> report e r)"
    using pending_Enter [of before "cur_tid c"]
    by (cases "pending before (cur_tid c)")
      (auto simp: kill_exit_def probe_exit_def Let_def cur_tid_def [symmetric] assms(2))
qed

lemma kill_run_pending:
  assumes "bpf_hash M MAX_ENTRIES" and "lookup_elem M m = map_option entered \<circ> pending before" and "kills_fit before es"
  shows "snd (kill_run M es m) = kill_reports before es \<and>
    lookup_elem M (fst (kill_run M es m)) = map_option entered \<circ> pending (rev es @ before)"
  using assms(2,3)
proof (induction before es arbitrary: m rule: kills_fit.induct)
  case (2 before c a0 a1 es)
  have "lookup_elem M (kill_entry M c a0 a1 m) = map_option entered \<circ> pending (Enter c a0 a1 # before)"
    by (rule kill_entry_pending [OF assms(1) 2(2)]) (use 2(3) in simp)
  from 2(1) [OF this] 2(3) show ?case by simp
next
  case (3 before c r es)
  note k = kill_exit_pending [OF assms(1) 3(2), of c r]
  from 3(1) [OF k(1)] 3(3) show ?case by (simp add: split_beta Let_def k(2))
qed simp

text \<open>
  (C30) Under every interleaving of calls of \<open>kill\<close> by threads, as long as at most 10240 of them have not returned, \<open>sigsnoop\<close> prints for every
  return the process, the name, the signal and the target of the call of the same thread together with the result, and nothing else;
  the map then holds exactly the calls that have not returned.
\<close>

theorem sigsnoop_reports:
  assumes "bpf_hash M MAX_ENTRIES" and "lookup_elem M m = Map.empty" and "kills_fit [] es"
  shows "snd (kill_run M es m) = kill_reports [] es \<and>
    dom (lookup_elem M (fst (kill_run M es m))) = {t. pending (rev es) t \<noteq> None}"
proof -
  have "lookup_elem M m = map_option entered \<circ> pending []" using assms(2) by (simp add: fun_eq_iff)
  from kill_run_pending [OF assms(1) this assms(3)] show ?thesis by (auto simp: dom_def)
qed

definition bpf_fmap :: "nat \<Rightarrow> (('k, 'v) fmap, 'k, 'v) bpf_map" where
  "bpf_fmap n =
     \<lparr>lookup_elem = fmlookup,
      update_elem = (\<lambda>m k v f. case fmlookup m k of
         Some _ \<Rightarrow> (case f of BPF_ANY \<Rightarrow> (fmupd k v m, 0) | BPF_NOEXIST \<Rightarrow> (m, - 17))
       | None \<Rightarrow> if fcard (fmdom m) < n then (fmupd k v m, 0) else (m, - 7)),
      delete_elem = (\<lambda>m k. (fmdrop k m, if fmlookup m k = None then - 2 else 0)),
      store_elem = (\<lambda>m k v. fmupd k v m)\<rparr>"

lemma bpf_hash_fmap: "bpf_hash (bpf_fmap n :: (('k, 'v) fmap, 'k, 'v) bpf_map) n"
proof -
  have "card (dom (fmlookup m)) = fcard (fmdom m)" for m :: "('k, 'v) fmap"
    by (simp add: fcard.rep_eq fmdom.rep_eq)
  moreover have "finite (dom (fmlookup m))" for m :: "('k, 'v) fmap"
    by (metis finite_fset fmdom.rep_eq)
  ultimately show ?thesis
    by (auto simp: bpf_hash_def bpf_fmap_def fun_eq_iff split: option.split bpf_flag.split)
qed

theorem sigsnoop_reports_witness:
  "snd (kill_run (bpf_fmap MAX_ENTRIES)
     [Enter \<lparr>cur_pid_tgid = 0x100000001, cur_comm = [97]\<rparr> 7 9, Enter \<lparr>cur_pid_tgid = 0x200000003, cur_comm = [98]\<rparr> 8 15,
      Exit \<lparr>cur_pid_tgid = 0x200000003, cur_comm = [98]\<rparr> 0, Exit \<lparr>cur_pid_tgid = 0x100000001, cur_comm = [97]\<rparr> 1] fmempty) =
   [Sent 2 [98] 15, To 8 0, Sent 1 [97] 9, To 7 1]"
proof -
  let ?es = "[Enter \<lparr>cur_pid_tgid = 0x100000001, cur_comm = [97]\<rparr> 7 9, Enter \<lparr>cur_pid_tgid = 0x200000003, cur_comm = [98]\<rparr> 8 15,
      Exit \<lparr>cur_pid_tgid = 0x200000003, cur_comm = [98]\<rparr> 0, Exit \<lparr>cur_pid_tgid = 0x100000001, cur_comm = [97]\<rparr> 1]"
  have t: "cur_tid \<lparr>cur_pid_tgid = 0x100000001, cur_comm = [97]\<rparr> = 1" "cur_tid \<lparr>cur_pid_tgid = 0x200000003, cur_comm = [98]\<rparr> = 3"
    "ucast (drop_bit 32 (0x100000001 :: u64)) = (1 :: u32)" "ucast (drop_bit 32 (0x200000003 :: u64)) = (2 :: u32)"
    by (simp_all add: cur_tid_def)
  have "kills_fit [] ?es" by (simp add: t MAX_ENTRIES_def dom_def)
  moreover have "lookup_elem (bpf_fmap MAX_ENTRIES) fmempty = Map.empty" by (simp add: bpf_fmap_def fun_eq_iff)
  ultimately have "snd (kill_run (bpf_fmap MAX_ENTRIES) ?es fmempty) = kill_reports [] ?es"
    using sigsnoop_reports [OF bpf_hash_fmap] by blast
  then show ?thesis by (simp add: t)
qed

text \<open>When the map is full, the call of another thread is not reported.\<close>

lemma sigsnoop_full_drops:
  assumes "bpf_hash M n" and "lookup_elem M m (cur_tid c) = None" and "\<not> card (dom (lookup_elem M m)) < n"
  shows "snd (kill_run M [Enter c a0 a1, Exit c r] m) = []"
proof -
  have "lookup_elem M (kill_entry M c a0 a1 m) (cur_tid c) = None"
    using bpf_hash_full [OF assms] assms(2) by (simp add: kill_entry_def probe_entry_def Let_def cur_tid_def [symmetric])
  then show ?thesis by (simp add: kill_exit_def probe_exit_def Let_def cur_tid_def [symmetric])
qed

section \<open>Time off the processor\<close>

text \<open>
  Every end of a thread that has a start adds its microseconds to the total of its stack.  The start stays in the map: a second end without a
  start in between is counted from the old start.
\<close>

lemma offcpu_accumulates:
  assumes "bpf_hash N k" and "lookup_elem M m \<lparr>pk_tgid = tgid, pk_pid = pid\<rparr> = Some val" and "pid \<noteq> 0"
    and "lookup_elem N n (stack_key pid tgid val) = Some old"
  shows "lookup_elem N (fold (\<lambda>t. try_record_end M N tgid t pid tgid m) ts n) =
    (lookup_elem N n)(stack_key pid tgid val \<mapsto> old + (\<Sum>t\<leftarrow>ts. (t - start_time val) div 1000))"
  using assms(4)
proof (induction ts arbitrary: n old)
  case (Cons t ts)
  let ?n = "try_record_end M N tgid t pid tgid m n"
  have n: "lookup_elem N ?n = (lookup_elem N n)(stack_key pid tgid val \<mapsto> (t - start_time val) div 1000 + old)"
    using assms(2,3) Cons.prems bpf_hash_any [OF assms(1), of n "stack_key pid tgid val"]
    by (simp add: try_record_end_def increment_us_def Let_def)
  then show ?case using Cons.IH [of ?n] by (simp add: fun_eq_iff ac_simps)
qed (simp add: fun_upd_idem)

section \<open>Time in the run queue\<close>

lemma hist_power_le: "unat (hist_power cfg d) \<le> 16"
proof -
  have "hist_power cfg d \<le> 16" by (auto simp: hist_power_def Let_def MAX_TIME_POWER_def)
  then show ?thesis by (simp add: word_le_nat_alt)
qed

text \<open>The counter of a delay: the integer logarithm of its microseconds or milliseconds, at most 16.\<close>

lemma hist_power_log:
  assumes "w = (if targ_ms cfg then d div 1000 div 1000 else d div 1000)" and "w \<noteq> 0"
  shows "2 ^ unat (hist_power cfg d) \<le> unat w"
    and "unat (hist_power cfg d) < 16 \<Longrightarrow> unat w < 2 ^ Suc (unat (hist_power cfg d))"
proof -
  let ?k = "unat (ulog2l w)"
  note b = ulog2l_bounds [OF assms(2)]
  have "unat w < 2 ^ LENGTH(64)" by (rule unsigned_less)
  with b(1) have "(2 :: nat) ^ ?k < 2 ^ 64" by simp
  then have "?k < 64" by (rule power_less_imp_less_exp [rotated]) simp
  then have "unat (ucast (bpf_log2l w) :: u8) = ?k"
    by (simp add: bpf_log2l_eq [OF assms(2)] take_bit_word_eq_self unsigned_ucast_eq unsigned_take_bit_eq take_bit_nat_eq_self)
  then have p: "unat (hist_power cfg d) = min 16 ?k"
    by (simp add: hist_power_def Let_def MAX_TIME_POWER_def assms(1) word_le_nat_alt min_def)
  have "(2 :: nat) ^ unat (hist_power cfg d) \<le> 2 ^ ?k" unfolding p by (rule power_increasing) auto
  with b(1) show "2 ^ unat (hist_power cfg d) \<le> unat w" by (rule order.trans [rotated])
  show "unat (hist_power cfg d) < 16 \<Longrightarrow> unat w < 2 ^ Suc (unat (hist_power cfg d))"
    using b(2) p by (simp add: min_def split: if_splits)
qed

lemma hist_record_slot:
  assumes "blen h = sizeof_hist" and "unat pw \<le> 16"
  obtains h' where "hist_record comm pw h = Some h'" "blen h' = sizeof_hist"
    "\<And>j. j \<le> 16 \<Longrightarrow> rd32 (bat h') (4 * j) = rd32 (bat h) (4 * j) + (if j = unat pw then 1 else 0)"
proof -
  let ?str = "takeWhile (\<lambda>c. c \<noteq> 0) (take 15 comm) @ [0]"
  let ?g = "if bat h 68 \<noteq> 0 then bat h else setb (bat h) 68 ?str"
  have l: "length ?str \<le> 16" using length_takeWhile_le [of "\<lambda>c. c \<noteq> 0" "take 15 comm"] by simp
  have g: "rd32 ?g (4 * j) = rd32 (bat h) (4 * j)" if "j \<le> 16" for j using that by (simp add: rd32_setb)
  have r: "hist_record comm pw h = Some (h\<lparr>bat := wr32 ?g (4 * unat pw) (rd32 ?g (4 * unat pw) + 1)\<rparr>)"
    using l assms by (simp add: hist_record_def Let_def sizeof_hist_def hist_comm_off_def)
  have o: "rd32 (wr32 ?g (4 * unat pw) v) (4 * j) = rd32 ?g (4 * j)" if "j \<noteq> unat pw" for j v
    using that by (intro rd_wr_other(1)) linarith
  show ?thesis
    by (rule that [OF r]) (auto simp: assms(1) rd32_wr32 g assms(2) o)
qed

lemma trace_enque_other:
  assumes "bpf_hash M n" and "k \<noteq> tid"
  shows "lookup_elem M (fst (trace_enque M cfg ns pid tid m)) k = lookup_elem M m k"
  using bpf_hash_any [OF assms(1), of m tid ns] bpf_hash_full [OF assms(1), of m tid ns BPF_ANY] assms(2)
  by (cases "lookup_elem M m tid = None \<and> \<not> card (dom (lookup_elem M m)) < n") (auto simp: trace_enque_def)

text \<open>The handler up to the histogram, when the clock has not gone back since the next thread was enqueued.\<close>

lemma handle_switch_hist:
  assumes "bpf_hash M n" and "bpf_hash H l" and "\<not> filter_cg cfg \<or> under_cgroup"
    and "lookup_elem M m (ts_pid next) = Some t" and "ts_pid next \<noteq> ts_pid prev" and "0 \<le> sint (ns - t)"
    and "lookup_elem H hs (hist_key cfg next) \<noteq> None \<or> card (dom (lookup_elem H hs)) < l"
  obtains m' hs' where
    "handle_switch M H vsize cfg field_exists under_cgroup enq_ns ns prev next (m, hs) =
       do { h \<leftarrow> hist_record (ts_comm next) (hist_power cfg (ns - t))
              (case lookup_elem H hs (hist_key cfg next) of None \<Rightarrow> \<lparr>blen = vsize, bat = \<lambda>_. 0\<rparr> | Some h \<Rightarrow> h);
            Some (fst (delete_elem M m' (ts_pid next)), store_elem H hs' (hist_key cfg next) h) }"
    "\<And>h. lookup_elem H (store_elem H hs' (hist_key cfg next) h) = (lookup_elem H hs)(hist_key cfg next \<mapsto> h)"
proof -
  define m' where "m' = (if get_task_state field_exists prev = 0 then fst (trace_enque M cfg enq_ns (ts_tgid prev) (ts_pid prev) m) else m)"
  let ?v = "\<lparr>blen = vsize, bat = \<lambda>_. 0\<rparr>"
  let ?i = "bpf_map_lookup_or_try_init H (hist_key cfg next) ?v hs"
  have m: "lookup_elem M m' (ts_pid next) = Some t"
    using trace_enque_other [OF assms(1,5)] assms(4) by (simp add: m'_def)
  note i = lookup_or_try_init_room [OF assms(2,7), of ?v]
  have p: "?i = (fst ?i, Some (case lookup_elem H hs (hist_key cfg next) of None \<Rightarrow> ?v | Some h \<Rightarrow> h))"
    by (simp add: prod_eq_iff i(1))
  have f: "\<not> (filter_cg cfg \<and> \<not> under_cgroup)" "\<not> sint (ns - t) < 0" using assms(3,6) by auto
  show ?thesis
  proof (rule that)
    show "handle_switch M H vsize cfg field_exists under_cgroup enq_ns ns prev next (m, hs) =
       do { h \<leftarrow> hist_record (ts_comm next) (hist_power cfg (ns - t))
              (case lookup_elem H hs (hist_key cfg next) of None \<Rightarrow> ?v | Some h \<Rightarrow> h);
            Some (fst (delete_elem M m' (ts_pid next)), store_elem H (fst ?i) (hist_key cfg next) h) }"
      unfolding handle_switch_def Let_def prod.case m'_def [symmetric] m option.case if_not_P [OF f(1)] if_not_P [OF f(2)]
      by (subst p) simp
    show "lookup_elem H (store_elem H (fst ?i) (hist_key cfg next) h) = (lookup_elem H hs)(hist_key cfg next \<mapsto> h)" for h
      by (subst bpf_hash_store [OF assms(2)]) (simp_all add: i(2))
  qed
qed

text \<open>
  With values of the size of \<open>hist_t\<close> a switch to a thread that has waited counts its delay in one counter of one histogram and
  forgets the time at which the wait began.
\<close>

lemma runqlat_records:
  assumes "bpf_hash M n" and "bpf_hash H l" and "\<not> filter_cg cfg \<or> under_cgroup"
    and "lookup_elem M m (ts_pid next) = Some t" and "ts_pid next \<noteq> ts_pid prev" and "0 \<le> sint (ns - t)"
    and "lookup_elem H hs (hist_key cfg next) = Some h" and "blen h = sizeof_hist"
  obtains m' hs' h' where
    "handle_switch M H vsize cfg field_exists under_cgroup enq_ns ns prev next (m, hs) = Some (m', hs')"
    "lookup_elem M m' (ts_pid next) = None" "lookup_elem H hs' = (lookup_elem H hs)(hist_key cfg next \<mapsto> h')" "blen h' = sizeof_hist"
    "\<And>j. j \<le> 16 \<Longrightarrow> rd32 (bat h') (4 * j) = rd32 (bat h) (4 * j) + (if j = unat (hist_power cfg (ns - t)) then 1 else 0)"
proof -
  have r: "lookup_elem H hs (hist_key cfg next) \<noteq> None \<or> card (dom (lookup_elem H hs)) < l" using assms(7) by simp
  obtain m1 hs1 where s: "handle_switch M H vsize cfg field_exists under_cgroup enq_ns ns prev next (m, hs) =
       do { h \<leftarrow> hist_record (ts_comm next) (hist_power cfg (ns - t))
              (case lookup_elem H hs (hist_key cfg next) of None \<Rightarrow> \<lparr>blen = vsize, bat = \<lambda>_. 0\<rparr> | Some h \<Rightarrow> h);
            Some (fst (delete_elem M m1 (ts_pid next)), store_elem H hs1 (hist_key cfg next) h) }"
      "\<And>h. lookup_elem H (store_elem H hs1 (hist_key cfg next) h) = (lookup_elem H hs)(hist_key cfg next \<mapsto> h)"
    by (rule handle_switch_hist [OF assms(1-6) r]) (rule that)
  obtain h' where h: "hist_record (ts_comm next) (hist_power cfg (ns - t)) h = Some h'" "blen h' = sizeof_hist"
      "\<And>j. j \<le> 16 \<Longrightarrow> rd32 (bat h') (4 * j) = rd32 (bat h) (4 * j) + (if j = unat (hist_power cfg (ns - t)) then 1 else 0)"
    by (rule hist_record_slot [OF assms(8) hist_power_le]) (rule that)
  show ?thesis
    by (rule that [OF _ _ s(2) h(2,3)]) (simp add: s(1) assms(7) h(1), simp add: bpf_hash_delete [OF assms(1)])
qed

text \<open>
  With the values the map is declared with, the first switch to a thread that has waited accesses memory outside the value.
\<close>

lemma runqlat_value_too_small:
  assumes "bpf_hash M n" and "bpf_hash H l" and "\<not> filter_cg cfg \<or> under_cgroup"
    and "lookup_elem M m (ts_pid next) = Some t" and "ts_pid next \<noteq> ts_pid prev" and "0 \<le> sint (ns - t)"
    and "lookup_elem H hs = Map.empty" and "0 < l"
  shows "handle_switch M H hists_value_size cfg field_exists under_cgroup enq_ns ns prev next (m, hs) = None"
proof -
  have "lookup_elem H hs (hist_key cfg next) \<noteq> None \<or> card (dom (lookup_elem H hs)) < l" using assms(7,8) by simp
  from handle_switch_hist [OF assms(1-6) this, of hists_value_size field_exists enq_ns] show ?thesis
    by (simp add: assms(7) hist_record_def hists_value_size_def hist_comm_off_def)
qed

section \<open>Events\<close>

text \<open>An exit is reported once per process, by its main thread, with the status that \<open>exit\<close> was called with.\<close>

lemma handle_exit_leader:
  assumes "cur_pid_tgid (ci_task c) = push_bit 32 (ucast (pid :: u32)) OR ucast (tid :: u32)"
    and "ci_exit_code c = push_bit 8 (ucast (status :: u8)) OR ucast (sig :: u8)"
  shows "map (\<lambda>e. (xe_pid e, xe_exit_code e)) (handle_exit True ns c evs) =
    map (\<lambda>e. (xe_pid e, xe_exit_code e)) evs @ (if pid = tid then [(pid, ucast status)] else [])"
proof -
  have "ucast (cur_pid_tgid (ci_task c)) = tid" unfolding assms(1) by (rule bit_word_eqI) (auto simp: bit_simps)
  moreover have "ucast (drop_bit 32 (cur_pid_tgid (ci_task c))) = pid" unfolding assms(1)
    by (rule bit_word_eqI) (auto simp: bit_simps dest: bit_imp_le_length)
  moreover have "drop_bit 8 (ci_exit_code c) AND 0xff = ucast status"
  proof -
    have m: "(0xff :: u32) = mask 8" by (simp add: mask_eq_exp_minus_1)
    show ?thesis unfolding assms(2) m by (rule bit_word_eqI) (auto simp: bit_simps dest: bit_imp_le_length)
  qed
  ultimately show ?thesis by (simp add: handle_exit_def Let_def)
qed

end
