(* ===== verification/Userfs_State.thy ===== *)
theory Userfs_State
  imports Bitmap
begin

text \<open>
  The state of the user-space file system: the block buffers and their data pages in memory, the
  allocator, the disk image behind \<open>userfs/disk_ops.c\<close>, the global free lists, and the layout of
  the structures of \<open>userfs/include/inode.h\<close> inside a block.

  Addresses are 64-bit words; \<open>malloc\<close> returns a fresh non-zero address below \<open>2 ^ 63\<close> or \<open>NULL\<close>,
  as the \<open>oom\<close> oracle of the state decides.  \<open>junk\<close> gives the bytes a fresh page holds before it is
  written, \<open>usable\<close> the number of bytes that may be used of an allocation of \<open>n\<close> bytes (at least
  \<open>n\<close>; exactly \<open>n\<close> in strict C).  An access through an address that is not live, or outside its
  object, is undefined behaviour (\<open>None\<close>).
\<close>

section \<open>Memory and disk\<close>

record bbuf =
  b_this_page :: ptr
  b_list_len :: u16
  b_type :: u32
  b_blocknr :: u32
  b_block_s_off :: u32
  b_size :: u32
  b_data :: ptr

record disk =
  dsize :: nat
  dcap :: nat
  dbytes :: "nat \<Rightarrow> u8"

record fs =
  bbufs :: "ptr \<Rightarrow> bbuf option"
  datas :: "ptr \<Rightarrow> buf option"
  brk :: nat
  oom :: "nat \<Rightarrow> bool"
  junk :: "nat \<Rightarrow> nat \<Rightarrow> u8"
  usable :: "nat \<Rightarrow> nat"
  fsdisk :: disk
  free_mbbuf_list :: ptr
  free_mbbuf_list_len :: u32
  free_dbbuf_list :: ptr
  free_dbbuf_list_len :: u32
  g_sb :: ptr
  now :: "u64 option"

definition bbuf_zero :: bbuf where
  "bbuf_zero = \<lparr>b_this_page = NULL, b_list_len = 0, b_type = 0, b_blocknr = 0, b_block_s_off = 0,
     b_size = 0, b_data = NULL\<rparr>"

definition malloc_ok :: "fs \<Rightarrow> bool" where
  "malloc_ok s \<longleftrightarrow> \<not> oom s (brk s) \<and> brk s < 2 ^ 62"

definition fresh_addr :: "fs \<Rightarrow> ptr" where
  "fresh_addr s = of_nat (Suc (brk s))"

text \<open>An allocation of a \<open>userfs_bbuf_t\<close>, with the \<open>memset\<close> to zero that follows each of them.\<close>

definition malloc_bbuf :: "fs \<Rightarrow> fs \<times> ptr" where
  "malloc_bbuf s =
     (if malloc_ok s
      then (s\<lparr>bbufs := (bbufs s)(fresh_addr s \<mapsto> bbuf_zero), brk := Suc (brk s)\<rparr>, fresh_addr s)
      else (s\<lparr>brk := Suc (brk s)\<rparr>, NULL))"

definition malloc_data :: "nat \<Rightarrow> fs \<Rightarrow> fs \<times> ptr" where
  "malloc_data n s =
     (if malloc_ok s
      then (s\<lparr>datas := (datas s)(fresh_addr s \<mapsto> \<lparr>blen = n, bat = junk s (brk s)\<rparr>), brk := Suc (brk s)\<rparr>,
            fresh_addr s)
      else (s\<lparr>brk := Suc (brk s)\<rparr>, NULL))"

definition free_bbuf :: "ptr \<Rightarrow> fs \<Rightarrow> fs option" where
  "free_bbuf p s = (if p = NULL then Some s
     else do { b \<leftarrow> bbufs s p; Some (s\<lparr>bbufs := (bbufs s)(p := None)\<rparr>) })"

definition free_data :: "ptr \<Rightarrow> fs \<Rightarrow> fs option" where
  "free_data p s = (if p = NULL then Some s
     else do { d \<leftarrow> datas s p; Some (s\<lparr>datas := (datas s)(p := None)\<rparr>) })"

text \<open>Replacing one block buffer, one page.\<close>

definition put_bbuf :: "ptr \<Rightarrow> bbuf \<Rightarrow> fs \<Rightarrow> fs" where
  "put_bbuf p b s = s\<lparr>bbufs := (bbufs s)(p \<mapsto> b)\<rparr>"

definition put_page :: "ptr \<Rightarrow> buf \<Rightarrow> fs \<Rightarrow> fs" where
  "put_page p d s = s\<lparr>datas := (datas s)(p \<mapsto> d)\<rparr>"

lemma put_bbuf_sel [simp]:
  "bbufs (put_bbuf p b s) = (bbufs s)(p \<mapsto> b)" "datas (put_bbuf p b s) = datas s"
  "fsdisk (put_bbuf p b s) = fsdisk s" "brk (put_bbuf p b s) = brk s" "oom (put_bbuf p b s) = oom s"
  "junk (put_bbuf p b s) = junk s" "usable (put_bbuf p b s) = usable s" "now (put_bbuf p b s) = now s"
  "free_mbbuf_list (put_bbuf p b s) = free_mbbuf_list s"
  "free_mbbuf_list_len (put_bbuf p b s) = free_mbbuf_list_len s"
  "free_dbbuf_list (put_bbuf p b s) = free_dbbuf_list s"
  "free_dbbuf_list_len (put_bbuf p b s) = free_dbbuf_list_len s"
  by (simp_all add: put_bbuf_def)

lemma put_page_sel [simp]:
  "datas (put_page p d s) = (datas s)(p \<mapsto> d)" "bbufs (put_page p d s) = bbufs s"
  "fsdisk (put_page p d s) = fsdisk s" "brk (put_page p d s) = brk s" "oom (put_page p d s) = oom s"
  "junk (put_page p d s) = junk s" "usable (put_page p d s) = usable s" "now (put_page p d s) = now s"
  "free_mbbuf_list (put_page p d s) = free_mbbuf_list s"
  "free_mbbuf_list_len (put_page p d s) = free_mbbuf_list_len s"
  "free_dbbuf_list (put_page p d s) = free_dbbuf_list s"
  "free_dbbuf_list_len (put_page p d s) = free_dbbuf_list_len s"
  by (simp_all add: put_page_def)

lemma put_twice [simp]:
  "put_page p d (put_page p c s) = put_page p d s" "put_bbuf p b (put_bbuf p a s) = put_bbuf p b s"
  by (simp_all add: put_page_def put_bbuf_def)

lemma put_same: "datas s p = Some d \<Longrightarrow> put_page p d s = s" "bbufs s p = Some b \<Longrightarrow> put_bbuf p b s = s"
  by (simp_all add: put_page_def put_bbuf_def fun_upd_idem)

definition upd_bbuf :: "ptr \<Rightarrow> (bbuf \<Rightarrow> bbuf) \<Rightarrow> fs \<Rightarrow> fs option" where
  "upd_bbuf p f s = do { b \<leftarrow> bbufs s p; Some (put_bbuf p (f b) s) }"

text \<open>Typed accesses at a byte offset of a data page.\<close>

definition ld16 :: "fs \<Rightarrow> ptr \<Rightarrow> nat \<Rightarrow> u16 option" where
  "ld16 s p off = do { d \<leftarrow> datas s p; if off + 2 \<le> blen d then Some (rd16 (bat d) off) else None }"

definition ld32 :: "fs \<Rightarrow> ptr \<Rightarrow> nat \<Rightarrow> u32 option" where
  "ld32 s p off = do { d \<leftarrow> datas s p; if off + 4 \<le> blen d then Some (rd32 (bat d) off) else None }"

definition ld64 :: "fs \<Rightarrow> ptr \<Rightarrow> nat \<Rightarrow> u64 option" where
  "ld64 s p off = do { d \<leftarrow> datas s p; if off + 8 \<le> blen d then Some (rd64 (bat d) off) else None }"

definition st_page :: "ptr \<Rightarrow> nat \<Rightarrow> nat \<Rightarrow> ((nat \<Rightarrow> u8) \<Rightarrow> nat \<Rightarrow> u8) \<Rightarrow> fs \<Rightarrow> fs option" where
  "st_page p off n f s = do {
     d \<leftarrow> datas s p;
     if off + n \<le> blen d then Some (put_page p (d\<lparr>bat := f (bat d)\<rparr>) s) else None
   }"

definition st16 :: "ptr \<Rightarrow> nat \<Rightarrow> u16 \<Rightarrow> fs \<Rightarrow> fs option" where
  "st16 p off v = st_page p off 2 (\<lambda>f. wr16 f off v)"

definition st32 :: "ptr \<Rightarrow> nat \<Rightarrow> u32 \<Rightarrow> fs \<Rightarrow> fs option" where
  "st32 p off v = st_page p off 4 (\<lambda>f. wr32 f off v)"

definition st64 :: "ptr \<Rightarrow> nat \<Rightarrow> u64 \<Rightarrow> fs \<Rightarrow> fs option" where
  "st64 p off v = st_page p off 8 (\<lambda>f. wr64 f off v)"

text \<open>\<open>memset\<close> and \<open>memcpy\<close> into a page.\<close>

definition st_bytes :: "ptr \<Rightarrow> nat \<Rightarrow> u8 list \<Rightarrow> fs \<Rightarrow> fs option" where
  "st_bytes p off bs =
     st_page p off (length bs) (\<lambda>f i. if off \<le> i \<and> i < off + length bs then bs ! (i - off) else f i)"

definition ld_bytes :: "fs \<Rightarrow> ptr \<Rightarrow> nat \<Rightarrow> nat \<Rightarrow> u8 list option" where
  "ld_bytes s p off n = do {
     d \<leftarrow> datas s p;
     if off + n \<le> blen d then Some (map (\<lambda>i. bat d (off + i)) [0..<n]) else None
   }"

lemma st_bytes_page:
  "datas s p = Some d \<Longrightarrow> off + length bs \<le> blen d \<Longrightarrow>
    st_bytes p off bs s = Some (put_page p (d\<lparr>bat := setb (bat d) off bs\<rparr>) s)"
  by (simp add: st_bytes_def st_page_def setb_def)

section \<open>The disk\<close>

text \<open>
  \<open>pread\<close> returns the bytes there are, at most \<open>size\<close>; \<open>pwrite\<close> writes what fits the device and
  fails with \<open>-1\<close> when nothing does; both fail on an offset that is negative as an \<open>off_t\<close>.
\<close>

definition user_disk_write :: "(nat \<Rightarrow> u8) \<Rightarrow> u64 \<Rightarrow> u64 \<Rightarrow> disk \<Rightarrow> disk \<times> u64" where
  "user_disk_write src sz off d =
     (let o' = unat off; n = min (unat sz) (dcap d - o') in
      if o' \<ge> 2 ^ 63 \<or> (n = 0 \<and> sz \<noteq> 0) then (d, -1)
      else (d\<lparr>dbytes := (\<lambda>i. if o' \<le> i \<and> i < o' + n then src (i - o')
                             else if i < dsize d then dbytes d i else 0),
              dsize := (if n = 0 then dsize d else max (dsize d) (o' + n))\<rparr>, of_nat n))"

definition user_disk_read :: "u64 \<Rightarrow> u64 \<Rightarrow> disk \<Rightarrow> (nat \<times> (nat \<Rightarrow> u8)) \<times> u64" where
  "user_disk_read sz off d =
     (let o' = unat off; n = min (unat sz) (dsize d - o') in
      if o' \<ge> 2 ^ 63 then ((0, \<lambda>_. 0), -1)
      else ((n, \<lambda>i. dbytes d (o' + i)), of_nat n))"

text \<open>\<open>userfs_disk_open\<close>: the descriptor \<open>open\<close> returns goes to \<open>g_disk_fd\<close>.\<close>

definition userfs_disk_open :: "int \<Rightarrow> int \<times> int" where
  "userfs_disk_open fd = (fd, if fd < 0 then fd else -1)"

definition user_disk_close :: "int \<Rightarrow> int" where
  "user_disk_close close_result = close_result"

section \<open>Layout\<close>

datatype sb_field = S_wtime | S_first_datablock | S_data_block_size | S_data_block_count
  | S_free_data_block_count | S_data_block_per_group | S_data_block_group_count
  | S_free_data_block_group_count | S_first_dentry_mblock | S_free_dentry_count
  | S_first_bgroup_desc_mblock | S_bgroup_desc_size | S_bgroup_desc_per_mb_count
  | S_first_metablock | S_metablock_count | S_free_metablock_count | S_metablock_size

text \<open>Offsets from the start of the metadata block, whose 12-byte header precedes the super block.\<close>

fun sb_off :: "sb_field \<Rightarrow> nat" where
  "sb_off S_wtime = 12"
| "sb_off S_first_datablock = 16"
| "sb_off S_data_block_size = 20"
| "sb_off S_data_block_count = 24"
| "sb_off S_free_data_block_count = 28"
| "sb_off S_data_block_per_group = 32"
| "sb_off S_data_block_group_count = 36"
| "sb_off S_free_data_block_group_count = 40"
| "sb_off S_first_dentry_mblock = 44"
| "sb_off S_free_dentry_count = 48"
| "sb_off S_first_bgroup_desc_mblock = 52"
| "sb_off S_bgroup_desc_size = 56"
| "sb_off S_bgroup_desc_per_mb_count = 60"
| "sb_off S_first_metablock = 64"
| "sb_off S_metablock_count = 68"
| "sb_off S_free_metablock_count = 72"
| "sb_off S_metablock_size = 76"

definition sb_bitmap_off :: nat where
  "sb_bitmap_off = 80"

datatype mblock_field = H_prev | H_next | Block_type

fun mb_off :: "mblock_field \<Rightarrow> nat" where
  "mb_off H_prev = 0"
| "mb_off H_next = 4"
| "mb_off Block_type = 8"

text \<open>\<open>sizeof(userfs_mblock_t)\<close> and \<open>sizeof(userfs_bgroup_desc_t)\<close>.\<close>

definition mblock_hdr :: nat where
  "mblock_hdr = 12"

definition bgroup_desc_hdr :: nat where
  "bgroup_desc_hdr = 16"

datatype bgd_field = Bg_block_count | Bg_free_block_count

fun bgd_off :: "bgd_field \<Rightarrow> nat" where
  "bgd_off Bg_block_count = 0"
| "bgd_off Bg_free_block_count = 2"

definition bgd_bitmap_off :: nat where
  "bgd_bitmap_off = 4"

datatype dth_field = Dfd_dentry_count | Dfd_used_dentry_count | Dfd_first_dentry | Dfd_first_free_dentry

fun dth_off :: "dth_field \<Rightarrow> nat" where
  "dth_off Dfd_dentry_count = 12"
| "dth_off Dfd_used_dentry_count = 16"
| "dth_off Dfd_first_dentry = 20"
| "dth_off Dfd_first_free_dentry = 24"

definition dentry_size :: nat where
  "dentry_size = 32"

text \<open>Dentry \<open>i\<close>: the table header is padded to one dentry, \<open>d_first_dblock\<close> precedes the name.\<close>

definition dentry_off :: "nat \<Rightarrow> nat" where
  "dentry_off i = mblock_hdr + dentry_size + dentry_size * i"

definition dentry_name_off :: "nat \<Rightarrow> nat" where
  "dentry_name_off i = dentry_off i + 4"

datatype inode_field = I_size | I_blocks | I_lastest_bgroup | Ref_count

fun inode_off :: "inode_field \<Rightarrow> nat" where
  "inode_off I_size = 32"
| "inode_off I_blocks = 36"
| "inode_off I_lastest_bgroup = 40"
| "inode_off Ref_count = 44"

datatype inode_time = I_atime | I_ctime | I_mtime | I_dtime

fun itime_off :: "inode_time \<Rightarrow> nat" where
  "itime_off I_atime = 0"
| "itime_off I_ctime = 8"
| "itime_off I_mtime = 16"
| "itime_off I_dtime = 24"

definition v2p_off :: "nat \<Rightarrow> nat" where
  "v2p_off i = 48 + 8 * i"

abbreviation USERFS_INODE_SIZE :: u32 where "USERFS_INODE_SIZE \<equiv> 1024"
abbreviation USERFS_PAGE_SIZE :: u32 where "USERFS_PAGE_SIZE \<equiv> 4096"
abbreviation USERFS_MAX_FILE_NAME_LEN :: u32 where "USERFS_MAX_FILE_NAME_LEN \<equiv> 27"
abbreviation USERFS_BTYPE_SUPER :: u32 where "USERFS_BTYPE_SUPER \<equiv> 83"
abbreviation USERFS_BTYPE_DENTRY :: u32 where "USERFS_BTYPE_DENTRY \<equiv> 69"
abbreviation USERFS_BTYPE_BGROUP_DESC :: u32 where "USERFS_BTYPE_BGROUP_DESC \<equiv> 71"
abbreviation USERFS_BTYPE_DATA :: u32 where "USERFS_BTYPE_DATA \<equiv> 68"

section \<open>A bitmap inside a page\<close>

definition bm_load :: "fs \<Rightarrow> ptr \<Rightarrow> nat \<Rightarrow> bitmap_t option" where
  "bm_load s p off = do {
     d \<leftarrow> datas s p;
     if off + 12 \<le> blen d
     then Some \<lparr>bytes = rd32 (bat d) off, used_bits_count = rd32 (bat d) (off + 4),
                first_free_pos = rd32 (bat d) (off + 8), bitmap = (\<lambda>i. bat d (off + 12 + i)),
                avail = blen d - (off + 12)\<rparr>
     else None
   }"

definition bm_store :: "ptr \<Rightarrow> nat \<Rightarrow> bitmap_t \<Rightarrow> fs \<Rightarrow> fs option" where
  "bm_store p off b = st_page p off 12 (\<lambda>f.
     let g = wr32 (wr32 (wr32 f off (bytes b)) (off + 4) (used_bits_count b)) (off + 8) (first_free_pos b)
     in (\<lambda>i. if off + 12 \<le> i then bitmap b (i - (off + 12)) else g i))"

definition bitmap_init_at :: "ptr \<Rightarrow> nat \<Rightarrow> u32 \<Rightarrow> fs \<Rightarrow> fs option" where
  "bitmap_init_at p off n s = do { b \<leftarrow> bm_load s p off; b \<leftarrow> bitmap_init b n; bm_store p off b s }"

definition bitmap_get_first_free_at :: "ptr \<Rightarrow> nat \<Rightarrow> fs \<Rightarrow> (fs \<times> int) option" where
  "bitmap_get_first_free_at p off s = do {
     b \<leftarrow> bm_load s p off;
     (bp, r) \<leftarrow> bitmap_get_first_free (Some b);
     b \<leftarrow> bp;
     s \<leftarrow> bm_store p off b s;
     Some (s, r)
   }"

lemma bm_load_page:
  assumes "datas s p = Some d" and "off + 12 \<le> blen d"
  shows "bm_load s p off = Some \<lparr>bytes = rd32 (bat d) off, used_bits_count = rd32 (bat d) (off + 4),
    first_free_pos = rd32 (bat d) (off + 8), bitmap = (\<lambda>i. bat d (off + 12 + i)), avail = blen d - (off + 12)\<rparr>"
  using assms by (simp add: bm_load_def)

lemma bm_load_datas: "bm_load s p off = Some b \<Longrightarrow> \<exists>d. datas s p = Some d \<and> off + 12 \<le> blen d \<and> avail b = blen d - (off + 12)"
  by (auto simp: bm_load_def split: if_splits)

text \<open>Storing a bitmap and loading it again, and what the store leaves alone.\<close>

lemma bm_store_load:
  assumes "datas s p = Some d" and "off + 12 \<le> blen d" and "avail b = blen d - (off + 12)"
  obtains s' d' where "bm_store p off b s = Some s'" and "s' = put_page p d' s"
    and "bm_load s' p off = Some b" and "blen d' = blen d" and "\<And>i. i < off \<Longrightarrow> bat d' i = bat d i"
proof -
  let ?g = "wr32 (wr32 (wr32 (bat d) off (bytes b)) (off + 4) (used_bits_count b)) (off + 8) (first_free_pos b)"
  let ?h = "\<lambda>i. if off + 12 \<le> i then bitmap b (i - (off + 12)) else ?g i"
  have eq: "rd32 ?h a = rd32 ?g a" if "a + 4 \<le> off + 12" for a
    using that by (intro rd32_cong) auto
  have "rd32 ?g off = bytes b" "rd32 ?g (off + 4) = used_bits_count b" "rd32 ?g (off + 8) = first_free_pos b"
    by (simp_all add: bytes_simps)
  then have "bm_load (put_page p (d\<lparr>bat := ?h\<rparr>) s) p off = Some b"
    using assms eq by (cases b) (simp add: bm_load_def)
  moreover have "?h i = bat d i" if "i < off" for i
    using that by (simp add: wr32_apply_other)
  ultimately show thesis
    using that [of "put_page p (d\<lparr>bat := ?h\<rparr>) s" "d\<lparr>bat := ?h\<rparr>"] assms
    by (simp add: bm_store_def st_page_def Let_def)
qed

text \<open>The allocator on a bitmap inside a page.\<close>

lemma get_first_free_at_spec:
  assumes load: "bm_load s p off = Some b" and inv: "bm_inv b" and free: "bm_used b \<noteq> {..<bm_bits b}"
  obtains s' b' d d' where
    "bitmap_get_first_free_at p off s = Some (s', int (LEAST n. n \<notin> bm_used b))"
    and "bm_load s' p off = Some b'" and "bm_inv b'"
    and "bm_used b' = insert (LEAST n. n \<notin> bm_used b) (bm_used b)" and "bm_bits b' = bm_bits b"
    and "datas s p = Some d" and "s' = put_page p d' s"
    and "blen d' = blen d" and "\<And>i. i < off \<Longrightarrow> bat d' i = bat d i"
proof -
  obtain d where d: "datas s p = Some d" "off + 12 \<le> blen d" "avail b = blen d - (off + 12)"
    using bm_load_datas [OF load] by blast
  have lt: "unat (first_free_pos b) < bm_bits b"
    using free inv bm_used_full_iff [OF inv] by (auto simp: bm_inv_def)
  have least: "(LEAST n. n \<notin> bm_used b) = unat (first_free_pos b)" by (rule bm_least_free [OF inv lt])
  obtain b' where b': "bitmap_get_first_free (Some b) = Some (Some b', int (unat (first_free_pos b)))"
      "\<And>q. bm_test b' q \<longleftrightarrow> bm_test b q \<or> q = unat (first_free_pos b)" "bm_inv b'" "bytes b' = bytes b"
      "avail b' = avail b"
    by (rule bitmap_get_first_free_step [OF inv lt]) (rule that)
  have used: "bm_used b' = insert (unat (first_free_pos b)) (bm_used b)" "bm_bits b' = bm_bits b"
    using lt by (auto simp: bm_used_def bm_bits_def b')
  have "avail b' = blen d - (off + 12)" using b'(5) d(3) by simp
  then obtain s' d' where s': "bm_store p off b' s = Some s'" "s' = put_page p d' s"
      "bm_load s' p off = Some b'" "blen d' = blen d" "\<And>i. i < off \<Longrightarrow> bat d' i = bat d i"
    by (rule bm_store_load [OF d(1,2)]) (rule that)
  have "bitmap_get_first_free_at p off s = Some (s', int (LEAST n. n \<notin> bm_used b))"
    using load b'(1) s'(1) by (simp add: bitmap_get_first_free_at_def least)
  then show thesis
    using s'(3) b'(3) used(1) [folded least] used(2) d(1) s'(2,4,5) by (rule that)
qed

text \<open>What \<open>bitmap_init\<close> does to the bytes of a page.\<close>

definition bm_init_bytes :: "nat \<Rightarrow> u32 \<Rightarrow> (nat \<Rightarrow> u8) \<Rightarrow> nat \<Rightarrow> u8" where
  "bm_init_bytes off n f =
     (\<lambda>i. if off + 12 \<le> i \<and> i < off + 12 + unat n then 0
          else wr32 (wr32 (wr32 f off n) (off + 4) 0) (off + 8) 0 i)"

lemma bitmap_init_at_page:
  assumes "datas s p = Some d" and "off + 12 + unat n \<le> blen d"
  shows "bitmap_init_at p off n s = Some (put_page p (d\<lparr>bat := bm_init_bytes off n (bat d)\<rparr>) s)"
proof -
  let ?b = "\<lparr>bytes = rd32 (bat d) off, used_bits_count = rd32 (bat d) (off + 4),
    first_free_pos = rd32 (bat d) (off + 8), bitmap = (\<lambda>i. bat d (off + 12 + i)), avail = blen d - (off + 12)\<rparr>"
  let ?b1 = "\<lparr>bytes = n, used_bits_count = 0, first_free_pos = 0,
    bitmap = (\<lambda>i. if i < unat n then 0 else bat d (off + 12 + i)), avail = blen d - (off + 12)\<rparr>"
  have "bm_load s p off = Some ?b" using assms by (intro bm_load_page) auto
  moreover have "bitmap_init ?b n = Some ?b1" using assms(2) by (simp add: bitmap_init_def cong: if_cong)
  moreover have "bm_store p off ?b1 s = Some (put_page p (d\<lparr>bat := bm_init_bytes off n (bat d)\<rparr>) s)"
  proof -
    have "(\<lambda>i. if off + 12 \<le> i then bitmap ?b1 (i - (off + 12))
        else wr32 (wr32 (wr32 (bat d) off n) (off + 4) 0) (off + 8) 0 i) = bm_init_bytes off n (bat d)"
      by (auto simp: bm_init_bytes_def fun_eq_iff wr32_apply_other)
    then show ?thesis using assms by (simp add: bm_store_def st_page_def Let_def)
  qed
  ultimately show ?thesis by (simp add: bitmap_init_at_def)
qed

text \<open>Every live address was handed out by \<open>malloc\<close>.\<close>

definition mem_ok :: "fs \<Rightarrow> bool" where
  "mem_ok s \<longleftrightarrow> (\<forall>p. bbufs s p \<noteq> None \<or> datas s p \<noteq> None \<longrightarrow> 0 < unat p \<and> unat p \<le> brk s)"

lemma fresh_addr_sel [simp]: "fresh_addr (put_page p d s) = fresh_addr s" "fresh_addr (put_bbuf p b s) = fresh_addr s"
  by (simp_all add: fresh_addr_def)

lemma unat_fresh_addr: "brk s < 2 ^ 62 \<Longrightarrow> unat (fresh_addr s) = Suc (brk s)"
  by (simp add: fresh_addr_def unat_of_nat take_bit_nat_eq_self_iff del: of_nat_Suc)

lemma fresh_addr_nonzero: "brk s < 2 ^ 62 \<Longrightarrow> fresh_addr s \<noteq> NULL"
  using unat_fresh_addr [of s] by auto

lemma mem_ok_fresh:
  assumes "mem_ok s" and "brk s < 2 ^ 62"
  shows "bbufs s (fresh_addr s) = None" "datas s (fresh_addr s) = None"
  using assms unat_fresh_addr [of s] by (fastforce simp: mem_ok_def)+


lemma brk_upd_sel [simp]:
  "put_page p d (s\<lparr>brk := n\<rparr>) = (put_page p d s)\<lparr>brk := n\<rparr>" "put_bbuf p b (s\<lparr>brk := n\<rparr>) = (put_bbuf p b s)\<lparr>brk := n\<rparr>"
  by (simp_all add: put_page_def put_bbuf_def)

lemma malloc_bbuf_ok:
  "malloc_ok s \<Longrightarrow> malloc_bbuf s = ((put_bbuf (fresh_addr s) bbuf_zero s)\<lparr>brk := Suc (brk s)\<rparr>, fresh_addr s)"
  by (simp add: malloc_bbuf_def put_bbuf_def)

lemma malloc_data_ok:
  "malloc_ok s \<Longrightarrow> malloc_data n s =
     ((put_page (fresh_addr s) \<lparr>blen = n, bat = junk s (brk s)\<rparr> s)\<lparr>brk := Suc (brk s)\<rparr>, fresh_addr s)"
  by (simp add: malloc_data_def put_page_def)

text \<open>Two allocations succeed in a row: what \<open>userfs_alloc_mbbuf\<close> and \<open>userfs_alloc_dbbuf\<close> need.\<close>

definition can_alloc :: "fs \<Rightarrow> bool" where
  "can_alloc s \<longleftrightarrow> malloc_ok s \<and> malloc_ok (s\<lparr>brk := Suc (brk s)\<rparr>)"

definition buf_addr :: "fs \<Rightarrow> ptr" where
  "buf_addr s = fresh_addr (s\<lparr>brk := Suc (brk s)\<rparr>)"

definition with_buf :: "u32 \<Rightarrow> bbuf \<Rightarrow> fs \<Rightarrow> fs" where
  "with_buf n b s = (put_page (buf_addr s) \<lparr>blen = unat n, bat = junk s (Suc (brk s))\<rparr>
     (put_bbuf (fresh_addr s) (b\<lparr>b_data := buf_addr s, b_size := n\<rparr>) s))\<lparr>brk := Suc (Suc (brk s))\<rparr>"

lemma with_buf_sel:
  assumes "mem_ok s" and "can_alloc s"
  shows "bbufs (with_buf n b s) (fresh_addr s) = Some (b\<lparr>b_data := buf_addr s, b_size := n\<rparr>)"
    and "datas (with_buf n b s) (buf_addr s) = Some \<lparr>blen = unat n, bat = junk s (Suc (brk s))\<rparr>"
    and "datas s p = Some d \<Longrightarrow> datas (with_buf n b s) p = Some d"
    and "datas s p = Some d \<Longrightarrow> p \<noteq> buf_addr s"
    and "bbufs s q = Some c \<Longrightarrow> bbufs (with_buf n b s) q = Some c"
    and "bbufs s q = Some c \<Longrightarrow> q \<noteq> fresh_addr s"
proof -
  have u: "unat (fresh_addr s) = Suc (brk s)" "unat (buf_addr s) = Suc (Suc (brk s))"
    using assms(2) by (simp_all add: can_alloc_def malloc_ok_def buf_addr_def unat_fresh_addr)
  have ne: "p \<noteq> buf_addr s" if "datas s p = Some d" for p d
    using that u assms(1) by (fastforce simp: mem_ok_def)
  have ne': "q \<noteq> fresh_addr s" if "bbufs s q = Some c" for q c
    using that u assms(1) by (fastforce simp: mem_ok_def)
  show "datas s p = Some d \<Longrightarrow> p \<noteq> buf_addr s" "bbufs s q = Some c \<Longrightarrow> q \<noteq> fresh_addr s"
    using ne ne' by auto
  show "datas s p = Some d \<Longrightarrow> datas (with_buf n b s) p = Some d"
    and "bbufs s q = Some c \<Longrightarrow> bbufs (with_buf n b s) q = Some c"
    using ne ne' by (auto simp: with_buf_def)
qed (simp_all add: with_buf_def)


lemma bm_load_with_buf:
  assumes "mem_ok s" and "can_alloc s" and "bm_load s p off = Some b"
  shows "bm_load (with_buf n c s) p off = Some b"
proof -
  obtain d where "datas s p = Some d" using bm_load_datas [OF assms(3)] by blast
  then show ?thesis using assms with_buf_sel(3) [OF assms(1,2)] by (simp add: bm_load_def)
qed

lemma bm_load_below:
  assumes "bm_load s p off = Some b" and "datas s p = Some d" and "datas s' p = Some d'" and "blen d' = blen d"
    and "\<And>i. off \<le> i \<Longrightarrow> bat d' i = bat d i"
  shows "bm_load s' p off = Some b"
proof -
  have "rd32 (bat d') a = rd32 (bat d) a" if "off \<le> a" for a
    using that assms(5) by (intro rd32_cong) auto
  then show ?thesis using assms by (simp add: bm_load_def split: if_splits)
qed

section \<open>A concrete state\<close>

text \<open>An empty disk of 64 MiB and nothing allocated: the state the examples start from.\<close>

definition fs0 :: fs where
  "fs0 = \<lparr>bbufs = Map.empty, datas = Map.empty, brk = 0, oom = (\<lambda>_. False), junk = (\<lambda>_ _. 0),
     usable = (\<lambda>n. n), fsdisk = \<lparr>dsize = 0, dcap = 67108864, dbytes = (\<lambda>_. 0)\<rparr>,
     free_mbbuf_list = NULL, free_mbbuf_list_len = 0, free_dbbuf_list = NULL, free_dbbuf_list_len = 0,
     g_sb = NULL, now = Some 7\<rparr>"

end
