(* ===== verification/Block_RW.thy ===== *)
theory Block_RW
  imports Userfs_State
begin

text \<open>
  \<open>userfs/userfs_block_rw.c\<close>: moving lists of block buffers between memory and disk.  The offset of
  a metadata block is computed in 32 bits, that of a data block in 64.

  The results: what is flushed is what a later read of the same block returns, blocks with
  different numbers do not overlap while their offsets fit 32 bits, and the readers report
  success even when the read failed.
\<close>

section \<open>Operations\<close>

definition mb_disk_off :: "u32 \<Rightarrow> u32 \<Rightarrow> u32 \<Rightarrow> u64" where
  "mb_disk_off first_mblock metablock_size blocknr = ucast (metablock_size * (blocknr + first_mblock))"

definition db_disk_off :: "u32 \<Rightarrow> u32 \<Rightarrow> bbuf \<Rightarrow> u64" where
  "db_disk_off first_dblock dblock_size b =
     ucast (b_block_s_off b) + ucast (b_blocknr b + first_dblock) * ucast dblock_size"

text \<open>
  One round of the loops: write (read) \<open>b_size\<close> bytes at \<open>off\<close>; true if as many bytes were moved as
  expected.  The kernel accesses \<open>b_size\<close> bytes of the page at most.
\<close>

definition write_block :: "bbuf \<Rightarrow> u64 \<Rightarrow> fs \<Rightarrow> (fs \<times> bool) option" where
  "write_block b off s = do {
     d \<leftarrow> datas s (b_data b);
     if unat (b_size b) \<le> blen d
     then let (dk, n) = user_disk_write (bat d) (ucast (b_size b)) off (fsdisk s)
          in Some (s\<lparr>fsdisk := dk\<rparr>, ucast n = b_size b)
     else None
   }"

definition read_block :: "bbuf \<Rightarrow> u64 \<Rightarrow> fs \<Rightarrow> (fs \<times> bool) option" where
  "read_block b off s = do {
     d \<leftarrow> datas s (b_data b);
     let ((n, src), r) = user_disk_read (ucast (b_size b)) off (fsdisk s);
     if n \<le> blen d
     then Some (put_page (b_data b) (d\<lparr>bat := (\<lambda>i. if i < n then src i else bat d i)\<rparr>) s, ucast r = b_size b)
     else None
   }"

fun userfs_mbbuf_list_flush :: "u32 \<Rightarrow> u32 \<Rightarrow> ptr \<Rightarrow> nat \<Rightarrow> fs \<Rightarrow> (fs \<times> int) option" where
  "userfs_mbbuf_list_flush first_mblock metablock_size buf_list 0 s = Some (s, 0)"
| "userfs_mbbuf_list_flush first_mblock metablock_size buf_list (Suc n) s = do {
     b \<leftarrow> bbufs s buf_list;
     (s, ok) \<leftarrow> write_block b (mb_disk_off first_mblock metablock_size (b_blocknr b)) s;
     if \<not> ok then Some (s, -1)
     else userfs_mbbuf_list_flush first_mblock metablock_size (b_this_page b) n s
   }"

fun userfs_mbbuf_list_read :: "u32 \<Rightarrow> u32 \<Rightarrow> ptr \<Rightarrow> nat \<Rightarrow> fs \<Rightarrow> (fs \<times> int) option" where
  "userfs_mbbuf_list_read first_mblock metablock_size buf_list 0 s = Some (s, 0)"
| "userfs_mbbuf_list_read first_mblock metablock_size buf_list (Suc n) s = do {
     b \<leftarrow> bbufs s buf_list;
     (s, ok) \<leftarrow> read_block b (mb_disk_off first_mblock metablock_size (b_blocknr b)) s;
     if \<not> ok then Some (s, -1)
     else userfs_mbbuf_list_read first_mblock metablock_size (b_this_page b) n s
   }"

text \<open>The result of the list read is stored in a \<open>uint32_t\<close>, so \<open>res < 0\<close> is false for every value.\<close>

definition userfs_read_metadata_block :: "ptr \<Rightarrow> u32 \<Rightarrow> u32 \<Rightarrow> u32 \<Rightarrow> fs \<Rightarrow> (fs \<times> int) option" where
  "userfs_read_metadata_block mb_buf first_mblock metablock_size target_mb_id s = do {
     s \<leftarrow> upd_bbuf mb_buf (\<lambda>b. b\<lparr>b_blocknr := target_mb_id, b_size := metablock_size\<rparr>) s;
     (s, r) \<leftarrow> userfs_mbbuf_list_read first_mblock metablock_size mb_buf 1 s;
     let res = (of_int r :: u32);
     if res < 0 then Some (s, -1)
     else do {
       b \<leftarrow> bbufs s mb_buf;
       ty \<leftarrow> ld32 s (b_data b) (mb_off Block_type);
       s \<leftarrow> upd_bbuf mb_buf (\<lambda>b. b\<lparr>b_type := ty\<rparr>) s;
       Some (s, 0)
     }
   }"

fun userfs_dbbuf_list_flush :: "u32 \<Rightarrow> u32 \<Rightarrow> ptr \<Rightarrow> nat \<Rightarrow> fs \<Rightarrow> (fs \<times> int) option" where
  "userfs_dbbuf_list_flush first_dblock dblock_size buf_list 0 s = Some (s, 0)"
| "userfs_dbbuf_list_flush first_dblock dblock_size buf_list (Suc n) s = do {
     b \<leftarrow> bbufs s buf_list;
     (s, ok) \<leftarrow> write_block b (db_disk_off first_dblock dblock_size b) s;
     if \<not> ok then Some (s, -1)
     else userfs_dbbuf_list_flush first_dblock dblock_size (b_this_page b) n s
   }"

fun userfs_dbbuf_list_read :: "u32 \<Rightarrow> u32 \<Rightarrow> ptr \<Rightarrow> nat \<Rightarrow> fs \<Rightarrow> (fs \<times> int) option" where
  "userfs_dbbuf_list_read first_dblock dblock_size buf_list 0 s = Some (s, 0)"
| "userfs_dbbuf_list_read first_dblock dblock_size buf_list (Suc n) s = do {
     b \<leftarrow> bbufs s buf_list;
     (s, ok) \<leftarrow> read_block b (db_disk_off first_dblock dblock_size b) s;
     if \<not> ok then Some (s, -1)
     else userfs_dbbuf_list_read first_dblock dblock_size (b_this_page b) n s
   }"

definition userfs_read_data_block :: "ptr \<Rightarrow> u32 \<Rightarrow> u32 \<Rightarrow> fs \<Rightarrow> (fs \<times> int) option" where
  "userfs_read_data_block db_buf first_dblock dblock_size s = do {
     b \<leftarrow> bbufs s db_buf;
     (s, r) \<leftarrow> userfs_dbbuf_list_read first_dblock dblock_size db_buf (unat (b_list_len b)) s;
     let res = (of_int r :: u32);
     if res < 0 then Some (s, -1)
     else do {
       b \<leftarrow> bbufs s db_buf;
       ty \<leftarrow> ld32 s (b_data b) (mb_off Block_type);
       s \<leftarrow> upd_bbuf db_buf (\<lambda>b. b\<lparr>b_type := ty\<rparr>) s;
       Some (s, 0)
     }
   }"

section \<open>Disk extents\<close>

definition disk_holds :: "disk \<Rightarrow> nat \<Rightarrow> nat \<Rightarrow> (nat \<Rightarrow> u8) \<Rightarrow> bool" where
  "disk_holds d off n f \<longleftrightarrow> off + n \<le> dsize d \<and> (\<forall>i < n. dbytes d (off + i) = f i)"

text \<open>A device that fits an \<open>off_t\<close> and whose contents fit the device.\<close>

definition disk_ok :: "disk \<Rightarrow> bool" where
  "disk_ok d \<longleftrightarrow> dsize d \<le> dcap d \<and> dcap d < 2 ^ 63"

lemma unat_ucast_u32_u64 [simp]: "unat (ucast (w :: u32) :: u64) = unat w"
proof -
  have "unat w < 2 ^ 64" using unat_lt_2p32 [of w] by (rule less_trans) simp
  then show ?thesis by (simp add: unsigned_ucast_eq take_bit_nat_eq_self)
qed

lemma ucast_of_nat_u64_u32: "n < 2 ^ 32 \<Longrightarrow> (ucast (of_nat n :: u64) :: u32) = of_nat n"
  by (rule word_unat_eq_iff [THEN iffD2])
    (simp add: unsigned_ucast_eq unat_of_nat take_bit_eq_mod)

lemma disk_write_full:
  assumes "disk_ok d" and "unat off + unat (sz :: u32) \<le> dcap d" and "sz \<noteq> 0"
  shows "\<exists>d'. user_disk_write f (ucast sz) off d = (d', of_nat (unat sz)) \<and> disk_ok d' \<and>
    disk_holds d' (unat off) (unat sz) f \<and> dcap d' = dcap d \<and> dsize d \<le> dsize d' \<and>
    (\<forall>i < dsize d. i < unat off \<or> unat off + unat sz \<le> i \<longrightarrow> dbytes d' i = dbytes d i)"
proof -
  have "unat sz \<noteq> 0" using assms(3) by (simp add: unat_eq_zero)
  moreover have "min (unat sz) (dcap d - unat off) = unat sz" using assms(2) by simp
  moreover have "unat off < 2 ^ 63" using assms(1,2) by (simp add: disk_ok_def)
  ultimately show ?thesis
    using assms by (simp add: user_disk_write_def Let_def disk_ok_def disk_holds_def)
qed

lemma disk_read_full:
  assumes "disk_ok d" and "disk_holds d (unat off) (unat (sz :: u32)) f"
  shows "\<exists>src. user_disk_read (ucast sz) off d = ((unat sz, src), of_nat (unat sz)) \<and> (\<forall>i < unat sz. src i = f i)"
proof (cases "sz = 0")
  case True
  show ?thesis
  proof (cases "unat off < 2 ^ 63")
    case True
    with \<open>sz = 0\<close> show ?thesis by (simp add: user_disk_read_def Let_def)
  next
    case False
    with assms \<open>sz = 0\<close> show ?thesis by (simp add: disk_holds_def disk_ok_def)
  qed
next
  case False
  have "unat off + unat sz \<le> dsize d" using assms(2) by (simp add: disk_holds_def)
  then have "unat off < 2 ^ 63" "min (unat sz) (dsize d - unat off) = unat sz"
    using assms(1) False by (auto simp: disk_ok_def)
  then show ?thesis
    using assms(2) by (simp add: user_disk_read_def Let_def disk_holds_def)
qed

definition dk_write :: "extent \<Rightarrow> disk \<Rightarrow> disk" where
  "dk_write e d = (case e of (off, n, f) \<Rightarrow> fst (user_disk_write f (of_nat n) (of_nat off) d))"

definition dk_fits :: "extent \<Rightarrow> disk \<Rightarrow> bool" where
  "dk_fits e d = (case e of (off, n, f) \<Rightarrow> 0 < n \<and> n < 2 ^ 32 \<and> off + n \<le> dcap d)"

definition dk_holds :: "disk \<Rightarrow> extent \<Rightarrow> bool" where
  "dk_holds d e = (case e of (off, n, f) \<Rightarrow> disk_holds d off n f)"

lemma dk_write_spec:
  assumes "disk_ok d" and "dk_fits (off, n, f) d"
  shows "user_disk_write f (of_nat n) (of_nat off) d = (dk_write (off, n, f) d, of_nat n)"
    and "disk_ok (dk_write (off, n, f) d)" and "disk_holds (dk_write (off, n, f) d) off n f"
    and "dcap (dk_write (off, n, f) d) = dcap d" and "dsize d \<le> dsize (dk_write (off, n, f) d)"
    and "\<forall>i < dsize d. i < off \<or> off + n \<le> i \<longrightarrow> dbytes (dk_write (off, n, f) d) i = dbytes d i"
proof -
  have n: "unat (of_nat n :: u32) = n" "0 < n" "off + n \<le> dcap d"
    using assms(2) by (auto simp: dk_fits_def unat_of_nat)
  have "off < 2 ^ 64" using assms(1) n by (simp add: disk_ok_def)
  then have o: "unat (of_nat off :: u64) = off" by (simp add: unat_of_nat)
  have c: "ucast (of_nat n :: u32) = (of_nat n :: u64)"
    by (rule word_unat_eq_iff [THEN iffD2]) (use assms(2) in \<open>simp add: n dk_fits_def unat_of_nat\<close>)
  have nz: "(of_nat n :: u32) \<noteq> 0" using n by auto
  from disk_write_full [OF assms(1), of "of_nat off" "of_nat n" f] n o nz c
  obtain d' where "user_disk_write f (of_nat n) (of_nat off) d = (d', of_nat n)" "disk_ok d'"
      "disk_holds d' off n f" "dcap d' = dcap d" "dsize d \<le> dsize d'"
      "\<forall>i < dsize d. i < off \<or> off + n \<le> i \<longrightarrow> dbytes d' i = dbytes d i"
    by auto
  moreover from this(1) have "dk_write (off, n, f) d = d'" by (simp add: dk_write_def)
  ultimately show "user_disk_write f (of_nat n) (of_nat off) d = (dk_write (off, n, f) d, of_nat n)"
    "disk_ok (dk_write (off, n, f) d)" "disk_holds (dk_write (off, n, f) d) off n f"
    "dcap (dk_write (off, n, f) d) = dcap d" "dsize d \<le> dsize (dk_write (off, n, f) d)"
    "\<forall>i < dsize d. i < off \<or> off + n \<le> i \<longrightarrow> dbytes (dk_write (off, n, f) d) i = dbytes d i"
    by simp_all
qed

interpretation dk: extent_device dk_write disk_ok dk_fits dk_holds
proof
  fix d e
  assume d: "disk_ok d" and e: "dk_fits e d"
  obtain off n f where [simp]: "e = (off, n, f)" by (metis prod_cases3)
  note w = dk_write_spec [OF d e [simplified]]
  show "disk_ok (dk_write e d)" "dk_holds (dk_write e d) e"
    using w by (simp_all add: dk_holds_def)
  show "dk_fits e' (dk_write e d) \<longleftrightarrow> dk_fits e' d" for e'
    using w by (simp add: dk_fits_def split: prod.split)
  show "dk_holds (dk_write e d) e'" if "dk_holds d e'" "apart e e'" for e'
  proof -
    obtain o' n' f' where [simp]: "e' = (o', n', f')" by (metis prod_cases3)
    show ?thesis using that w(5,6) by (auto simp: dk_holds_def disk_holds_def)
  qed
qed

section \<open>Flushing and reading lists of metadata blocks\<close>

fun bchain :: "fs \<Rightarrow> ptr \<Rightarrow> bbuf list \<Rightarrow> bool" where
  "bchain s p [] = True"
| "bchain s p (b # bs) \<longleftrightarrow> bbufs s p = Some b \<and> bchain s (b_this_page b) bs"

lemma bchain_disk [simp]: "bchain (s\<lparr>fsdisk := d\<rparr>) p bs = bchain s p bs"
  by (induction bs arbitrary: p) auto

definition page_bytes :: "fs \<Rightarrow> bbuf \<Rightarrow> nat \<Rightarrow> u8" where
  "page_bytes s b = bat (the (datas s (b_data b)))"

definition mb_extent :: "u32 \<Rightarrow> u32 \<Rightarrow> fs \<Rightarrow> bbuf \<Rightarrow> extent" where
  "mb_extent first ms s b =
     (unat ms * (unat (b_blocknr b) + unat first), unat (b_size b), page_bytes s b)"

text \<open>A buffer that can be flushed: its page covers \<open>b_size\<close> bytes, its extent fits 32 bits and the device.\<close>

definition flushable :: "u32 \<Rightarrow> u32 \<Rightarrow> fs \<Rightarrow> bbuf \<Rightarrow> bool" where
  "flushable first ms s b \<longleftrightarrow>
     (\<exists>d. datas s (b_data b) = Some d \<and> unat (b_size b) \<le> blen d) \<and>
     unat ms * (unat (b_blocknr b) + unat first) < 2 ^ 32 \<and> ms \<noteq> 0 \<and>
     dk_fits (mb_extent first ms s b) (fsdisk s)"

lemma of_nat_unat_u32 [simp]: "of_nat (unat (w :: u32)) = w"
  by (rule word_unat_eq_iff [THEN iffD2]) (simp add: unat_of_nat)

lemma ucast_eq_of_nat_unat: "(ucast (w :: u32) :: u64) = of_nat (unat w)"
proof (rule word_unat_eq_iff [THEN iffD2])
  have "unat w < 2 ^ 64" using unat_lt_2p32 [of w] by (rule less_trans) simp
  then show "unat (ucast w :: u64) = unat (of_nat (unat w) :: u64)" by (simp add: unat_of_nat)
qed

lemma unat_mult_add_u32:
  assumes "unat (ms :: u32) * (unat (n :: u32) + unat (f :: u32)) < 2 ^ 32" and "ms \<noteq> 0"
  shows "unat (ms * (n + f)) = unat ms * (unat n + unat f)"
proof -
  have "1 \<le> unat ms" using assms(2) by (simp add: Suc_leI unat_gt_0)
  then have "unat n + unat f \<le> unat ms * (unat n + unat f)" by (simp add: mult_le_cancel_right1)
  then have "unat n + unat f < 2 ^ 32" using assms(1) by linarith
  then have "unat (n + f) = unat n + unat f" by (simp add: unat_word_ariths)
  then show ?thesis using assms(1) by (simp add: unat_word_ariths)
qed

lemma mb_disk_off_nat:
  assumes "unat ms * (unat n + unat f) < 2 ^ 32" and "ms \<noteq> 0"
  shows "mb_disk_off f ms n = of_nat (unat ms * (unat n + unat f))"
  unfolding mb_disk_off_def ucast_eq_of_nat_unat unat_mult_add_u32 [OF assms] by (rule refl)

lemma write_block_flushable:
  assumes "disk_ok (fsdisk s)" and "flushable first ms s b"
  shows "write_block b (mb_disk_off first ms (b_blocknr b)) s =
    Some (s\<lparr>fsdisk := dk_write (mb_extent first ms s b) (fsdisk s)\<rparr>, True)"
proof -
  obtain d where d: "datas s (b_data b) = Some d" "unat (b_size b) \<le> blen d"
    using assms(2) by (auto simp: flushable_def)
  have off: "mb_disk_off first ms (b_blocknr b) = of_nat (unat ms * (unat (b_blocknr b) + unat first))"
    using assms(2) by (intro mb_disk_off_nat) (auto simp: flushable_def)
  have fit: "dk_fits (unat ms * (unat (b_blocknr b) + unat first), unat (b_size b), bat d) (fsdisk s)"
    using assms(2) d by (simp add: flushable_def mb_extent_def page_bytes_def)
  have "ucast (of_nat (unat (b_size b)) :: u64) = b_size b"
    using ucast_of_nat_u64_u32 [of "unat (b_size b)"] by simp
  then show ?thesis
    using dk_write_spec(1) [OF assms(1) fit] d
    by (simp add: write_block_def off mb_extent_def page_bytes_def del: of_nat_mult of_nat_add)
qed

definition db_off_nat :: "u32 \<Rightarrow> u32 \<Rightarrow> u32 \<Rightarrow> u32 \<Rightarrow> nat" where
  "db_off_nat fd bs nr soff = unat soff + (unat nr + unat fd) * unat bs"

lemma unat_db_disk_off:
  assumes "unat (b_blocknr b) + unat fd < 2 ^ 32" and "db_off_nat fd bs (b_blocknr b) (b_block_s_off b) < 2 ^ 63"
  shows "unat (db_disk_off fd bs b) = db_off_nat fd bs (b_blocknr b) (b_block_s_off b)"
proof -
  have 1: "unat (b_blocknr b + fd) = unat (b_blocknr b) + unat fd" using assms(1) by (simp add: unat_word_ariths)
  have "unat (ucast (b_blocknr b + fd) * ucast bs :: u64) = (unat (b_blocknr b) + unat fd) * unat bs"
    using assms(2) by (subst unat_word_ariths) (simp add: 1 db_off_nat_def)
  then show ?thesis
    using assms(2) by (subst db_disk_off_def, subst unat_word_ariths) (simp add: db_off_nat_def)
qed

lemma write_block_ok:
  assumes "disk_ok (fsdisk s)" and "datas s (b_data b) = Some d" and "unat (b_size b) \<le> blen d" and "b_size b \<noteq> 0"
    and "unat off + unat (b_size b) \<le> dcap (fsdisk s)"
  obtains dk where "write_block b off s = Some (s\<lparr>fsdisk := dk\<rparr>, True)" and "disk_ok dk" and "dcap dk = dcap (fsdisk s)"
    and "disk_holds dk (unat off) (unat (b_size b)) (bat d)"
    and "\<And>i. i < dsize (fsdisk s) \<Longrightarrow> i < unat off \<or> unat off + unat (b_size b) \<le> i \<Longrightarrow> dbytes dk i = dbytes (fsdisk s) i"
proof -
  obtain dk where dk: "user_disk_write (bat d) (ucast (b_size b)) off (fsdisk s) = (dk, of_nat (unat (b_size b)))" "disk_ok dk"
      "disk_holds dk (unat off) (unat (b_size b)) (bat d)" "dcap dk = dcap (fsdisk s)"
      "\<forall>i < dsize (fsdisk s). i < unat off \<or> unat off + unat (b_size b) \<le> i \<longrightarrow> dbytes dk i = dbytes (fsdisk s) i"
    using disk_write_full [OF assms(1,5,4), of "bat d"] by blast
  have "ucast (of_nat (unat (b_size b)) :: u64) = b_size b"
    using ucast_of_nat_u64_u32 [of "unat (b_size b)"] by simp
  with dk assms(2,3) show thesis
    by (intro that [of dk]) (auto simp: write_block_def simp del: of_nat_unat)
qed

lemma read_block_ok:
  assumes "disk_ok (fsdisk s)" and "disk_holds (fsdisk s) (unat off) (unat (b_size b)) f"
    and "datas s (b_data b) = Some d" and "unat (b_size b) \<le> blen d"
  obtains g where "read_block b off s = Some (put_page (b_data b) (d\<lparr>bat := g\<rparr>) s, True)"
    and "\<And>i. i < unat (b_size b) \<Longrightarrow> g i = f i"
proof -
  obtain src where src: "user_disk_read (ucast (b_size b)) off (fsdisk s) = ((unat (b_size b), src), of_nat (unat (b_size b)))"
      "\<forall>i < unat (b_size b). src i = f i"
    using disk_read_full [OF assms(1,2)] by blast
  have "ucast (of_nat (unat (b_size b)) :: u64) = b_size b"
    using ucast_of_nat_u64_u32 [of "unat (b_size b)"] by simp
  with src assms(3,4) show thesis
    by (intro that [of "\<lambda>i. if i < unat (b_size b) then src i else bat d i"]) (simp_all add: read_block_def del: of_nat_unat)
qed

lemma flush_chain:
  assumes "disk_ok (fsdisk s)" and "bchain s p bs" and "\<forall>b \<in> set bs. flushable first ms s b"
  shows "userfs_mbbuf_list_flush first ms p (length bs) s =
    Some (s\<lparr>fsdisk := fold dk_write (map (mb_extent first ms s) bs) (fsdisk s)\<rparr>, 0)"
  using assms
proof (induction bs arbitrary: p s)
  case (Cons b bs)
  let ?s = "s\<lparr>fsdisk := dk_write (mb_extent first ms s b) (fsdisk s)\<rparr>"
  have fit: "dk_fits (mb_extent first ms s b) (fsdisk s)" using Cons.prems(3) by (simp add: flushable_def)
  have ext: "mb_extent first ms ?s = mb_extent first ms s"
    by (simp add: mb_extent_def page_bytes_def fun_eq_iff)
  have "\<forall>b \<in> set bs. flushable first ms ?s b"
    using Cons.prems(3) dk.write_fits [OF Cons.prems(1) fit] by (simp add: flushable_def ext)
  moreover have "disk_ok (fsdisk ?s)" using dk.write_inv [OF Cons.prems(1) fit] by simp
  moreover have "bchain ?s (b_this_page b) bs" using Cons.prems(2) by simp
  ultimately have "userfs_mbbuf_list_flush first ms (b_this_page b) (length bs) ?s =
      Some (?s\<lparr>fsdisk := fold dk_write (map (mb_extent first ms ?s) bs) (fsdisk ?s)\<rparr>, 0)"
    by (intro Cons.IH) auto
  then show ?case
    using Cons.prems write_block_flushable [OF Cons.prems(1), of first ms b] by (simp add: ext)
qed simp

lemma mb_extents_apart:
  assumes "unat (b_size b) \<le> unat ms" and "unat (b_size c) \<le> unat ms" and "b_blocknr b \<noteq> b_blocknr c"
  shows "apart (mb_extent first ms s b) (mb_extent first ms s c)"
proof -
  have step: "unat ms * (m + k) + unat ms \<le> unat ms * (n + k)" if "m < n" for m n k
  proof -
    have "unat ms * (m + k) + unat ms = unat ms * (Suc m + k)" by simp
    also have "\<dots> \<le> unat ms * (n + k)" using that by (intro mult_le_mono2) simp
    finally show ?thesis .
  qed
  consider "unat (b_blocknr b) < unat (b_blocknr c)" | "unat (b_blocknr c) < unat (b_blocknr b)"
    using assms(3) by (metis linorder_neqE_nat word_unat_eq_iff)
  then show ?thesis
    using assms(1,2) step [of "unat (b_blocknr b)" "unat (b_blocknr c)" "unat first"]
      step [of "unat (b_blocknr c)" "unat (b_blocknr b)" "unat first"]
    by cases (auto simp: mb_extent_def)
qed

lemma sorted_apart:
  assumes "distinct (map b_blocknr bs)" and "\<forall>b \<in> set bs. unat (b_size b) \<le> unat ms"
  shows "sorted_wrt (\<lambda>x y. apart y x) (map (mb_extent first ms s) bs)"
  using assms
proof (induction bs)
  case (Cons a bs)
  then show ?case by (auto intro!: mb_extents_apart) (metis imageI)
qed simp

lemma read_metadata_holds:
  assumes "disk_ok (fsdisk s)"
    and "disk_holds (fsdisk s) (unat (mb_disk_off first ms nr)) (unat ms) f" and "12 \<le> unat ms"
    and "bbufs s q = Some c" and "datas s (b_data c) = Some d" and "unat ms \<le> blen d"
  shows "\<exists>s' d'. userfs_read_metadata_block q first ms nr s = Some (s', 0) \<and>
    bbufs s' = (bbufs s)(q \<mapsto> c\<lparr>b_blocknr := nr, b_size := ms, b_type := rd32 f 8\<rparr>) \<and>
    datas s' = (datas s)(b_data c \<mapsto> d') \<and> blen d' = blen d \<and> (\<forall>i < unat ms. bat d' i = f i) \<and>
    fsdisk s' = fsdisk s"
proof -
  from disk_read_full [OF assms(1,2)] obtain src where
    src: "user_disk_read (ucast ms) (mb_disk_off first ms nr) (fsdisk s) =
      ((unat ms, src), of_nat (unat ms))" "\<forall>i < unat ms. src i = f i" by blast
  let ?d = "d\<lparr>bat := (\<lambda>i. if i < unat ms then src i else bat d i)\<rparr>"
  have cast: "ucast (of_nat (unat ms) :: u64) = ms"
    using ucast_of_nat_u64_u32 [of "unat ms"] by simp
  have rd: "rd32 (bat ?d) 8 = rd32 f 8"
    using assms(3) src(2) by (intro rd32_cong) auto
  let ?s = "put_bbuf q (c\<lparr>b_blocknr := nr, b_size := ms, b_type := rd32 f 8\<rparr>)
    (put_page (b_data c) ?d (put_bbuf q (c\<lparr>b_blocknr := nr, b_size := ms\<rparr>) s))"
  have "userfs_read_metadata_block q first ms nr s = Some (?s, 0)"
    using assms(3-6) src(1) cast rd
    by (simp add: userfs_read_metadata_block_def upd_bbuf_def read_block_def ld32_def)
  then show ?thesis
    using src(2) by - (rule exI [of _ ?s], rule exI [of _ ?d], simp)
qed

text \<open>
  (C12) Flushing a list of metadata buffers with different block numbers succeeds and puts every
  buffer's bytes at its block's place on the disk; reading one of these blocks back into any
  buffer with a large enough page then returns success, exactly the bytes flushed, and the
  block type stored in them.
\<close>

theorem flush_then_read:
  assumes "disk_ok (fsdisk s)" and "bchain s p bs" and "\<forall>b \<in> set bs. flushable first ms s b \<and> b_size b = ms"
    and "distinct (map b_blocknr bs)" and "b \<in> set bs" and "12 \<le> unat ms"
    and "bbufs s q = Some c" and "datas s (b_data c) = Some d" and "unat ms \<le> blen d"
  shows "\<exists>s1 s2 c' d'. userfs_mbbuf_list_flush first ms p (length bs) s = Some (s1, 0) \<and>
    userfs_read_metadata_block q first ms (b_blocknr b) s1 = Some (s2, 0) \<and>
    bbufs s2 q = Some c' \<and> b_data c' = b_data c \<and> b_blocknr c' = b_blocknr b \<and> b_size c' = ms \<and>
    datas s2 (b_data c) = Some d' \<and> (\<forall>i < unat ms. bat d' i = page_bytes s b i) \<and>
    b_type c' = rd32 (page_bytes s b) 8"
proof -
  let ?es = "map (mb_extent first ms s) bs"
  let ?s1 = "s\<lparr>fsdisk := fold dk_write ?es (fsdisk s)\<rparr>"
  have fl: "\<forall>b \<in> set bs. flushable first ms s b" using assms(3) by simp
  have run: "userfs_mbbuf_list_flush first ms p (length bs) s = Some (?s1, 0)"
    by (rule flush_chain [OF assms(1,2) fl])
  have fits: "\<forall>e \<in> set ?es. dk_fits e (fsdisk s)" using fl by (auto simp: flushable_def)
  have sorted: "sorted_wrt (\<lambda>x y. apart y x) ?es"
    using assms(3,4) by (intro sorted_apart) auto
  have ok: "disk_ok (fsdisk ?s1)" using dk.fold_inv [OF assms(1) fits] by simp
  have fb: "flushable first ms s b" "b_size b = ms" using assms(3,5) by auto
  define off where "off = unat ms * (unat (b_blocknr b) + unat first)"
  have off64: "mb_disk_off first ms (b_blocknr b) = of_nat off"
    unfolding off_def using fb by (intro mb_disk_off_nat) (auto simp: flushable_def)
  have off_lt: "off < 2 ^ 32" using fb by (simp add: flushable_def off_def)
  then have uoff: "unat (mb_disk_off first ms (b_blocknr b)) = off"
    by (simp add: off64 unat_of_nat)
  have "dk_holds (fsdisk ?s1) (mb_extent first ms s b)"
    using dk.fold_holds [OF assms(1) fits sorted, of "mb_extent first ms s b"] assms(5) by simp
  then have "disk_holds (fsdisk ?s1) (unat (mb_disk_off first ms (b_blocknr b))) (unat ms) (page_bytes s b)"
    by (simp add: dk_holds_def mb_extent_def uoff off_def fb)
  note rb = read_metadata_holds [OF ok this assms(6), of q c d]
  let ?c = "c\<lparr>b_blocknr := b_blocknr b, b_size := ms, b_type := rd32 (page_bytes s b) 8\<rparr>"
  obtain s2 d' where s2: "userfs_read_metadata_block q first ms (b_blocknr b) ?s1 = Some (s2, 0)"
      "bbufs s2 = (bbufs s)(q \<mapsto> ?c)" "datas s2 = (datas s)(b_data c \<mapsto> d')"
      "\<forall>i < unat ms. bat d' i = page_bytes s b i"
    using rb assms(7-9) by auto
  show ?thesis
    using run s2
    by - (rule exI [of _ ?s1], rule exI [of _ s2], rule exI [of _ ?c], rule exI [of _ d'], simp)
qed

definition rw_example :: fs where
  "rw_example = fs0\<lparr>bbufs := [1 \<mapsto> bbuf_zero\<lparr>b_blocknr := 3, b_size := 16, b_data := 2\<rparr>,
       3 \<mapsto> bbuf_zero\<lparr>b_data := 4\<rparr>],
     datas := [2 \<mapsto> \<lparr>blen = 16, bat = (\<lambda>i. if i = 8 then 83 else if i = 5 then 5 else 0)\<rparr>,
       4 \<mapsto> \<lparr>blen = 16, bat = (\<lambda>_. 0)\<rparr>]\<rparr>"

theorem flush_then_read_witness:
  "\<exists>s1 s2 c' d'. userfs_mbbuf_list_flush 0 16 1 1 rw_example = Some (s1, 0) \<and>
    userfs_read_metadata_block 3 0 16 3 s1 = Some (s2, 0) \<and>
    bbufs s2 3 = Some c' \<and> datas s2 4 = Some d' \<and> bat d' 5 = 5 \<and> b_type c' = 83"
proof -
  let ?b = "bbuf_zero\<lparr>b_blocknr := 3, b_size := 16, b_data := 2\<rparr>"
  let ?c = "bbuf_zero\<lparr>b_data := 4\<rparr>"
  have pg: "page_bytes rw_example ?b = (\<lambda>i. if i = 8 then 83 else if i = 5 then 5 else 0)"
    by (simp add: page_bytes_def rw_example_def fun_eq_iff)
  have f: "\<forall>b \<in> set [?b]. flushable 0 16 rw_example b \<and> b_size b = 16"
    by (simp add: flushable_def rw_example_def dk_fits_def mb_extent_def fs0_def)
  have "\<exists>s1 s2 c' d'. userfs_mbbuf_list_flush 0 16 1 (length [?b]) rw_example = Some (s1, 0) \<and>
    userfs_read_metadata_block 3 0 16 (b_blocknr ?b) s1 = Some (s2, 0) \<and>
    bbufs s2 3 = Some c' \<and> b_data c' = b_data ?c \<and> b_blocknr c' = b_blocknr ?b \<and> b_size c' = 16 \<and>
    datas s2 (b_data ?c) = Some d' \<and> (\<forall>i < unat (16 :: u32). bat d' i = page_bytes rw_example ?b i) \<and>
    b_type c' = rd32 (page_bytes rw_example ?b) 8"
    by (rule flush_then_read [OF _ _ f, where d = "\<lparr>blen = 16, bat = (\<lambda>_. 0)\<rparr>"])
      (simp_all add: rw_example_def fs0_def disk_ok_def)
  then obtain s1 s2 c' d' where w: "userfs_mbbuf_list_flush 0 16 1 (length [?b]) rw_example = Some (s1, 0)"
      "userfs_read_metadata_block 3 0 16 (b_blocknr ?b) s1 = Some (s2, 0)" "bbufs s2 3 = Some c'"
      "datas s2 (b_data ?c) = Some d'" "\<forall>i < unat (16 :: u32). bat d' i = page_bytes rw_example ?b i"
      "b_type c' = rd32 (page_bytes rw_example ?b) 8"
    by metis
  have "bat d' 5 = 5" "b_type c' = 83"
    using w(5,6) by (simp_all add: pg rd32_def)
  with w(1-4) show ?thesis
    by - (rule exI [of _ s1], rule exI [of _ s2], rule exI [of _ c'], rule exI [of _ d'], simp)
qed

text \<open>
  \<open>userfs_read_metadata_block\<close> cannot report a failed read: into a live buffer with a large
  enough page it returns 0 for every disk, an empty or truncated one included.
\<close>

theorem read_metadata_never_fails:
  assumes "bbufs s q = Some c" and "datas s (b_data c) = Some d" and "12 \<le> blen d" and "unat ms \<le> blen d"
  shows "\<exists>s'. userfs_read_metadata_block q first ms nr s = Some (s', 0)"
proof -
  let ?c = "c\<lparr>b_blocknr := nr, b_size := ms\<rparr>"
  obtain n src r where rd: "user_disk_read (ucast ms) (mb_disk_off first ms nr) (fsdisk s) = ((n, src), r)"
    by (metis prod.exhaust)
  then have "n \<le> unat ms"
    by (auto simp: user_disk_read_def Let_def split: if_splits)
  then show ?thesis
    using assms rd by (simp add: userfs_read_metadata_block_def upd_bbuf_def read_block_def ld32_def)
qed

theorem read_metadata_never_fails_witness:
  "dsize (fsdisk rw_example) = 0 \<and> (\<exists>s'. userfs_read_metadata_block 3 0 16 3 rw_example = Some (s', 0))"
proof -
  have "bbufs rw_example 3 = Some (bbuf_zero\<lparr>b_data := 4\<rparr>)"
    and "datas rw_example (b_data (bbuf_zero\<lparr>b_data := 4\<rparr>)) = Some \<lparr>blen = 16, bat = (\<lambda>_. 0)\<rparr>"
    by (simp_all add: rw_example_def)
  from read_metadata_never_fails [OF this, of 16 0 3] show ?thesis
    by (simp add: rw_example_def fs0_def)
qed

end
