(* ===== verification/Mrheap.thy ===== *)
theory Mrheap
  imports Interfaces
begin

text \<open>
  \<open>userfs/userfs_heap.c\<close>: the binary heap that indexes the block groups by their number of free
  data blocks, so that the emptiest group is found first (the names say \<open>min\<close>, the comparison
  makes it a max-root heap, as the source's comment notes).

  The array of pointers is modelled by the values pointed to: an element in the heap is written
  by nobody, \<open>userfs_mrheap_insert\<close> writes its element before storing it.  The array has
  \<open>capacity\<close> slots, arbitrary at first; an access outside it is undefined behaviour (\<open>None\<close>).
  Indices are the \<open>uint32_t\<close> values, with the wrap-around of the child computation written out:
  beyond \<open>2 ^ 31\<close> elements a child index wraps, which is why \<open>heap_down\<close> is a
  \<open>partial_function\<close> and its termination is a lemma under a bound on the size.

  The results: insert and extract keep the heap order and the multiset of elements, extract
  returns a maximum (interpretation of \<open>priority_index\<close>), draining yields descending order.
\<close>

section \<open>Data and operations\<close>

record mrheap_elem =
  bgi_free_blocks_count :: u32
  bgi_bgroup_nr :: u32

record mrheap =
  heap :: "mrheap_elem list"
  capacity :: u32
  hsize :: u32

text \<open>\<open>m1\<close>: the first \<open>malloc\<close> succeeds; \<open>m2\<close>: the contents of the array the second one returns.\<close>

definition userfs_mrheap_create :: "bool \<Rightarrow> (nat \<Rightarrow> mrheap_elem) option \<Rightarrow> u32 \<Rightarrow> mrheap option" where
  "userfs_mrheap_create m1 m2 cap =
     (if \<not> m1 then None
      else case m2 of
        None \<Rightarrow> None
      | Some junk \<Rightarrow> Some \<lparr>heap = map junk [0..<unat cap], capacity = cap, hsize = 0\<rparr>)"

text \<open>\<open>userfs_mrheap_destroy\<close>: dereferences its argument, then nothing is left of it.\<close>

definition userfs_mrheap_destroy :: "mrheap option \<Rightarrow> mrheap option option" where
  "userfs_mrheap_destroy hp = (case hp of None \<Rightarrow> None | Some h \<Rightarrow> Some None)"

definition swap :: "'a list \<Rightarrow> nat \<Rightarrow> nat \<Rightarrow> 'a list" where
  "swap xs a b = xs[a := xs ! b, b := xs ! a]"

definition element_compare :: "mrheap_elem \<Rightarrow> mrheap_elem \<Rightarrow> bool" where
  "element_compare first second \<longleftrightarrow> bgi_free_blocks_count first < bgi_free_blocks_count second"

fun heap_up :: "mrheap_elem list \<Rightarrow> nat \<Rightarrow> mrheap_elem list option" where
  "heap_up xs index =
     (let parent = (index - 1) div 2 in
      if index > 0
      then if index < length xs
           then if element_compare (xs ! parent) (xs ! index)
                then heap_up (swap xs parent index) parent
                else Some xs
           else None
      else Some xs)"

declare heap_up.simps [simp del]

definition pick :: "nat \<Rightarrow> mrheap_elem list \<Rightarrow> nat \<Rightarrow> nat \<Rightarrow> nat option" where
  "pick n xs smallest child =
     (if child < n
      then if smallest < length xs \<and> child < length xs
           then Some (if element_compare (xs ! smallest) (xs ! child) then child else smallest)
           else None
      else Some smallest)"

partial_function (option) heap_down ::
    "nat \<Rightarrow> mrheap_elem list \<Rightarrow> nat \<Rightarrow> mrheap_elem list option" where
  [code]: "heap_down n xs index =
     (let left_child = (2 * index + 1) mod 2 ^ 32;
          right_child = (2 * index + 2) mod 2 ^ 32
      in do {
        smallest \<leftarrow> pick n xs index left_child;
        smallest \<leftarrow> pick n xs smallest right_child;
        if smallest \<noteq> index then heap_down n (swap xs smallest index) smallest
        else Some xs
      })"

text \<open>\<open>ok\<close>: the \<open>malloc\<close> of a new element succeeds; it is called only without \<open>elem_ptr\<close>.\<close>

definition userfs_mrheap_insert ::
    "bool \<Rightarrow> mrheap \<Rightarrow> u32 \<Rightarrow> u32 \<Rightarrow> mrheap_elem option \<Rightarrow> (mrheap \<times> mrheap_elem option) option" where
  "userfs_mrheap_insert ok h bgroup_nr free_blocks elem_ptr =
     (if hsize h = capacity h then Some (h, None)
      else if elem_ptr = None \<and> \<not> ok then Some (h, None)
      else
        let value = \<lparr>bgi_free_blocks_count = free_blocks, bgi_bgroup_nr = bgroup_nr\<rparr> in
        if unat (hsize h) < length (heap h)
        then do {
          xs \<leftarrow> heap_up ((heap h)[unat (hsize h) := value]) (unat (hsize h));
          Some (h\<lparr>heap := xs, hsize := hsize h + 1\<rparr>, Some value)
        }
        else None)"

definition userfs_mrheap_get_heaptop :: "mrheap \<Rightarrow> mrheap_elem option option" where
  "userfs_mrheap_get_heaptop h =
     (if hsize h = 0 then Some None
      else if 0 < length (heap h) then Some (Some (heap h ! 0)) else None)"

definition userfs_mrheap_extract_heaptop :: "mrheap \<Rightarrow> (mrheap \<times> mrheap_elem option) option" where
  "userfs_mrheap_extract_heaptop h = do {
     min \<leftarrow> userfs_mrheap_get_heaptop h;
     case min of
       None \<Rightarrow> Some (h, None)
     | Some e \<Rightarrow>
         let last = unat (hsize h - 1) in
         if last < length (heap h)
         then do {
           xs \<leftarrow> heap_down last ((heap h)[0 := heap h ! last]) 0;
           Some (h\<lparr>heap := xs, hsize := hsize h - 1\<rparr>, Some e)
         }
         else None
   }"

section \<open>Heap order\<close>

abbreviation cnt :: "mrheap_elem \<Rightarrow> u32" where
  "cnt \<equiv> bgi_free_blocks_count"

definition par :: "nat \<Rightarrow> nat" where
  "par i = (i - 1) div 2"

definition heap_ordered :: "nat \<Rightarrow> mrheap_elem list \<Rightarrow> bool" where
  "heap_ordered n xs \<longleftrightarrow> (\<forall>i. 0 < i \<and> i < n \<longrightarrow> cnt (xs ! i) \<le> cnt (xs ! par i))"

text \<open>Order everywhere but between \<open>k\<close> and its parent, across which the grandparent bounds.\<close>

definition across :: "nat \<Rightarrow> mrheap_elem list \<Rightarrow> nat \<Rightarrow> bool" where
  "across n xs k \<longleftrightarrow> (\<forall>i. 0 < i \<and> i < n \<and> par i = k \<and> 0 < k \<longrightarrow> cnt (xs ! i) \<le> cnt (xs ! par k))"

definition ordered_but_up :: "nat \<Rightarrow> mrheap_elem list \<Rightarrow> nat \<Rightarrow> bool" where
  "ordered_but_up n xs k \<longleftrightarrow> across n xs k \<and>
     (\<forall>i. 0 < i \<and> i < n \<and> i \<noteq> k \<longrightarrow> cnt (xs ! i) \<le> cnt (xs ! par i))"

text \<open>The same between \<open>k\<close> and its children.\<close>

definition ordered_but_down :: "nat \<Rightarrow> mrheap_elem list \<Rightarrow> nat \<Rightarrow> bool" where
  "ordered_but_down n xs k \<longleftrightarrow> across n xs k \<and>
     (\<forall>i. 0 < i \<and> i < n \<and> par i \<noteq> k \<longrightarrow> cnt (xs ! i) \<le> cnt (xs ! par i))"

lemmas order_defs = heap_ordered_def across_def ordered_but_up_def ordered_but_down_def

lemma par_less: "0 < i \<Longrightarrow> par i < i"
  by (simp add: par_def)

lemma par_eq_iff: "0 < i \<Longrightarrow> par i = k \<longleftrightarrow> i = 2 * k + 1 \<or> i = 2 * k + 2"
  by (auto simp: par_def)

lemma swap_simps [simp]: "length (swap xs a b) = length xs"
  "a < length xs \<Longrightarrow> b < length xs \<Longrightarrow> mset (swap xs a b) = mset xs"
  by (simp_all add: swap_def)

lemma swap_nth: "a < length xs \<Longrightarrow> b < length xs \<Longrightarrow>
    swap xs a b ! i = (if i = b then xs ! a else if i = a then xs ! b else xs ! i)"
  by (auto simp: swap_def nth_list_update)

lemma swap_take:
  "a < n \<Longrightarrow> b < n \<Longrightarrow> n \<le> length xs \<Longrightarrow> take n (swap xs a b) = swap (take n xs) a b"
  by (simp add: swap_def take_update_swap)

lemma heap_top_max:
  assumes "heap_ordered n xs" and "i < n"
  shows "cnt (xs ! i) \<le> cnt (xs ! 0)"
  using assms(2)
proof (induction i rule: less_induct)
  case (less i)
  show ?case
  proof (cases "i = 0")
    case False
    then have "cnt (xs ! par i) \<le> cnt (xs ! 0)"
      using less par_less [of i] by simp
    moreover have "cnt (xs ! i) \<le> cnt (xs ! par i)"
      using assms(1) less.prems False by (simp add: heap_ordered_def)
    ultimately show ?thesis by (rule order_trans [rotated])
  qed simp
qed

lemma heap_up_step:
  assumes "ordered_but_up n xs k" and k: "0 < k" and "k < n" and "n \<le> length xs"
    and "element_compare (xs ! par k) (xs ! k)"
  shows "ordered_but_up n (swap xs (par k) k) (par k)"
proof -
  have p: "par k < k" using k by (rule par_less)
  have lt: "cnt (xs ! par k) \<le> cnt (xs ! k)"
    using assms(5) by (simp add: element_compare_def)
  have sw: "swap xs (par k) k ! i =
      (if i = k then xs ! par k else if i = par k then xs ! k else xs ! i)" for i
    using assms p by (intro swap_nth) auto
  have up: "cnt (xs ! i) \<le> cnt (xs ! par i)" if "0 < i" "i < n" "i \<noteq> k" for i
    using assms(1) that by (simp add: ordered_but_up_def)
  have ac: "cnt (xs ! i) \<le> cnt (xs ! par k)" if "0 < i" "i < n" "par i = k" for i
    using assms(1) that k by (simp add: ordered_but_up_def across_def)
  have "cnt (swap xs (par k) k ! i) \<le> cnt (swap xs (par k) k ! par i)"
    if i: "0 < i" "i < n" "i \<noteq> par k" for i
    using i lt p up [OF i(1,2)] ac [OF i(1,2)] by (auto simp: sw dest: order_trans)
  moreover have "cnt (swap xs (par k) k ! i) \<le> cnt (swap xs (par k) k ! par (par k))"
    if i: "0 < i" "i < n" "par i = par k" "0 < par k" for i
    using i p up [OF i(1,2)] up [OF i(4)] par_less [OF i(4)] assms(3)
    by (auto simp: sw dest: order_trans)
  ultimately show ?thesis
    by (simp add: ordered_but_up_def across_def)
qed

lemma heap_up_unfold:
  "heap_up xs k =
     (if 0 < k
      then if k < length xs
           then if element_compare (xs ! par k) (xs ! k)
                then heap_up (swap xs (par k) k) (par k) else Some xs
           else None
      else Some xs)"
  by (subst heap_up.simps) (simp add: par_def Let_def)

lemma heap_up_ordered:
  assumes "ordered_but_up n xs k" and "k < n" and "n \<le> length xs"
  shows "\<exists>ys. heap_up xs k = Some ys \<and> heap_ordered n ys \<and> length ys = length xs \<and>
    mset (take n ys) = mset (take n xs)"
  using assms
proof (induction xs k rule: heap_up.induct)
  case (1 xs k)
  show ?case
  proof (cases "0 < k \<and> element_compare (xs ! par k) (xs ! k)")
    case True
    then have "par k < n" using par_less [of k] 1 by simp
    moreover have "ordered_but_up n (swap xs (par k) k) (par k)"
      using True 1 by (intro heap_up_step) auto
    ultimately obtain ys where "heap_up (swap xs (par k) k) (par k) = Some ys"
        "heap_ordered n ys" "length ys = length xs"
        "mset (take n ys) = mset (take n (swap xs (par k) k))"
      using True 1 by (auto simp: par_def)
    then show ?thesis
      using True "1.prems" \<open>par k < n\<close>
      by (subst heap_up_unfold) (auto simp: swap_take)
  next
    case False
    have "heap_ordered n xs"
      using False "1.prems" by (auto simp: order_defs element_compare_def not_less)
    moreover have "heap_up xs k = Some xs"
      using False "1.prems" by (subst heap_up_unfold) auto
    ultimately show ?thesis by simp
  qed
qed

lemma pick_spec:
  assumes "k < n" and "n \<le> length xs"
  shows "pick n xs k c = Some (if c < n \<and> cnt (xs ! k) < cnt (xs ! c) then c else k)"
  using assms by (auto simp: pick_def element_compare_def)

lemma heap_down_step:
  assumes "ordered_but_down n xs k" and k: "k < n" and len: "n \<le> length xs"
    and s: "s < n" "0 < s" "par s = k"
    and lt: "cnt (xs ! k) < cnt (xs ! s)"
    and sib: "\<And>i. 0 < i \<Longrightarrow> i < n \<Longrightarrow> par i = k \<Longrightarrow> cnt (xs ! i) \<le> cnt (xs ! s)"
  shows "ordered_but_down n (swap xs s k) s"
proof -
  have ks: "k < s" using s par_less by blast
  have sw: "swap xs s k ! i = (if i = k then xs ! s else if i = s then xs ! k else xs ! i)" for i
    using k s(1) len by (intro swap_nth) auto
  have dn: "cnt (xs ! i) \<le> cnt (xs ! par i)" if "0 < i" "i < n" "par i \<noteq> k" for i
    using assms(1) that by (simp add: ordered_but_down_def)
  have ac: "cnt (xs ! i) \<le> cnt (xs ! par k)" if "0 < i" "i < n" "par i = k" "0 < k" for i
    using assms(1) that by (simp add: ordered_but_down_def across_def)
  have "cnt (swap xs s k ! i) \<le> cnt (swap xs s k ! par i)"
    if i: "0 < i" "i < n" "par i \<noteq> s" for i
    using i lt ks s sib [OF i(1,2)] dn [OF i(1,2)] ac [OF s(2,1,3)]
    by (auto simp: sw dest: par_less)
  moreover have "cnt (swap xs s k ! i) \<le> cnt (swap xs s k ! par s)"
    if i: "0 < i" "i < n" "par i = s" for i
    using i ks s dn [OF i(1,2)] par_less [OF i(1)] by (auto simp: sw)
  ultimately show ?thesis
    by (simp add: ordered_but_down_def across_def)
qed

text \<open>Below \<open>2 ^ 31\<close> elements no child index wraps and \<open>heap_down\<close> returns.\<close>

lemma heap_down_ordered:
  assumes "n < 2 ^ 31" and "ordered_but_down n xs k" and "k < n" and "n \<le> length xs"
  shows "\<exists>ys. heap_down n xs k = Some ys \<and> heap_ordered n ys \<and> length ys = length xs \<and>
    mset (take n ys) = mset (take n xs) \<and> drop n ys = drop n xs"
  using assms(2-4)
proof (induction "n - k" arbitrary: xs k rule: less_induct)
  case less
  let ?l = "2 * k + 1" and ?r = "2 * k + 2"
  define s1 where "s1 = (if ?l < n \<and> cnt (xs ! k) < cnt (xs ! ?l) then ?l else k)"
  define s where "s = (if ?r < n \<and> cnt (xs ! s1) < cnt (xs ! ?r) then ?r else s1)"
  have s1n: "s1 < n" and sn: "s < n" using less.prems by (auto simp: s1_def s_def)
  have wrap: "?l mod 2 ^ 32 = ?l" "?r mod 2 ^ 32 = ?r"
    using less.prems assms(1) by auto
  have p1: "pick n xs k ?l = Some s1"
    unfolding s1_def by (rule pick_spec [OF less.prems(2,3)])
  have p2: "pick n xs s1 ?r = Some s"
    unfolding s_def by (rule pick_spec [OF s1n less.prems(3)])
  have unf: "heap_down n xs k = (if s \<noteq> k then heap_down n (swap xs s k) s else Some xs)"
    unfolding heap_down.simps [of n xs k] wrap Let_def p1 Option.bind.simps(2) p2 by (rule refl)
  have top: "cnt (xs ! i) \<le> cnt (xs ! s)" if "0 < i" "i < n" "par i = k" for i
    using that by (auto simp: par_eq_iff s_def s1_def)
  show ?case
  proof (cases "s = k")
    case True
    then have "heap_ordered n xs"
      using top less.prems(1) by (auto simp: order_defs)
    then show ?thesis using unf True by simp
  next
    case False
    then have s: "0 < s" "par s = k" "cnt (xs ! k) < cnt (xs ! s)"
      by (auto simp: s_def s1_def par_def split: if_splits)
    then have "k < s" using par_less by blast
    have ord: "ordered_but_down n (swap xs s k) s"
      using less.prems s sn top by (intro heap_down_step) auto
    have dec: "n - s < n - k" using \<open>k < s\<close> sn by linarith
    obtain ys where
      "heap_down n (swap xs s k) s = Some ys" "heap_ordered n ys" "length ys = length xs"
      "mset (take n ys) = mset (take n (swap xs s k))" "drop n ys = drop n (swap xs s k)"
      using less.hyps [OF dec ord sn] less.prems(3) by auto
    then show ?thesis
      using unf False sn less.prems by (simp add: swap_take) (simp add: swap_def)
  qed
qed

section \<open>The heap as a priority index\<close>

definition mrheap_inv :: "mrheap \<Rightarrow> bool" where
  "mrheap_inv h \<longleftrightarrow> length (heap h) = unat (capacity h) \<and> hsize h \<le> capacity h \<and>
     unat (capacity h) < 2 ^ 31 \<and> heap_ordered (unat (hsize h)) (heap h)"

definition mrheap_elems :: "mrheap \<Rightarrow> mrheap_elem multiset" where
  "mrheap_elems h = mset (take (unat (hsize h)) (heap h))"

lemma mrheap_create_inv:
  assumes "unat cap < 2 ^ 31"
  shows "\<exists>h. userfs_mrheap_create True (Some junk) cap = Some h \<and> mrheap_inv h \<and>
    mrheap_elems h = {#} \<and> capacity h = cap"
  using assms by (simp add: userfs_mrheap_create_def mrheap_inv_def mrheap_elems_def heap_ordered_def)

lemma mrheap_insert_spec:
  fixes fr nr :: u32
  assumes "mrheap_inv h" and "hsize h < capacity h" and "ok \<or> ep \<noteq> None"
  defines "v \<equiv> \<lparr>bgi_free_blocks_count = fr, bgi_bgroup_nr = nr\<rparr>"
  shows "\<exists>h'. userfs_mrheap_insert ok h nr fr ep = Some (h', Some v) \<and> mrheap_inv h' \<and>
    mrheap_elems h' = add_mset v (mrheap_elems h) \<and> hsize h' = hsize h + 1 \<and>
    capacity h' = capacity h"
proof -
  let ?n = "unat (hsize h)" and ?xs = "(heap h)[unat (hsize h) := v]"
  have n: "?n < unat (capacity h)" "length (heap h) = unat (capacity h)"
    using assms(1,2) by (simp_all add: mrheap_inv_def word_less_nat_alt)
  have "Suc ?n < 4294967296"
    using n(1) unat_lt_2p32 [of "capacity h"] by linarith
  then have sz: "unat (hsize h + 1) = Suc ?n"
    by (intro unat_Suc_word) simp
  have par: "par i \<noteq> ?n" if "0 < i" "i < Suc ?n" for i
    using that par_less [of i] by simp
  then have "across (Suc ?n) ?xs ?n" by (auto simp: across_def)
  moreover have "cnt (?xs ! i) \<le> cnt (?xs ! par i)" if "0 < i" "i < Suc ?n" "i \<noteq> ?n" for i
    using that assms(1) par [OF that(1,2)] by (simp add: mrheap_inv_def heap_ordered_def)
  ultimately have "ordered_but_up (Suc ?n) ?xs ?n"
    by (simp add: ordered_but_up_def)
  then obtain ys where ys: "heap_up ?xs ?n = Some ys" "heap_ordered (Suc ?n) ys"
      "length ys = length ?xs" "mset (take (Suc ?n) ys) = mset (take (Suc ?n) ?xs)"
    using heap_up_ordered [of "Suc ?n" ?xs ?n] n by auto
  have "take (Suc ?n) ?xs = take ?n (heap h) @ [v]"
    using n by (simp add: take_Suc_conv_app_nth)
  then have "mset (take (Suc ?n) ys) = add_mset v (mrheap_elems h)"
    using ys(4) by (simp add: mrheap_elems_def)
  moreover have "hsize h \<noteq> capacity h" using assms(2) by auto
  moreover have "hsize h + 1 \<le> capacity h" using n sz by (simp add: word_le_nat_alt)
  ultimately show ?thesis
    using ys n sz assms(1,3)
    by (auto simp: userfs_mrheap_insert_def mrheap_inv_def mrheap_elems_def v_def)
qed

lemma mrheap_extract_spec:
  assumes inv: "mrheap_inv h" and ne: "hsize h \<noteq> 0"
  shows "\<exists>h'. userfs_mrheap_extract_heaptop h = Some (h', Some (heap h ! 0)) \<and> mrheap_inv h' \<and>
    heap h ! 0 \<in># mrheap_elems h \<and> (\<forall>x \<in># mrheap_elems h. cnt x \<le> cnt (heap h ! 0)) \<and>
    mrheap_elems h' = mrheap_elems h - {#heap h ! 0#} \<and>
    hsize h' = hsize h - 1 \<and> capacity h' = capacity h"
proof -
  define n where "n = unat (hsize h - 1)"
  let ?xs = "(heap h)[0 := heap h ! n]"
  have sz: "unat (hsize h) = Suc n"
    using ne unfolding n_def by (metis Suc_pred' unat_gt_0 unat_minus_one)
  have len: "Suc n \<le> length (heap h)" and n31: "n < 2 ^ 31"
    and ord: "heap_ordered (Suc n) (heap h)"
    using inv sz by (auto simp: mrheap_inv_def word_le_nat_alt)
  have "\<exists>ys. heap_down n ?xs 0 = Some ys \<and> heap_ordered n ys \<and> length ys = length (heap h) \<and>
      mset (take n ys) = mset (take n ?xs)"
  proof (cases "n = 0")
    case True
    then show ?thesis
      by (subst heap_down.simps) (simp add: pick_def heap_ordered_def)
  next
    case False
    have "ordered_but_down n ?xs 0"
      using ord by (auto simp: order_defs nth_list_update)
    then show ?thesis
      using heap_down_ordered [OF n31, of ?xs 0] False len by auto
  qed
  then obtain ys where ys: "heap_down n ?xs 0 = Some ys" "heap_ordered n ys"
      "length ys = length (heap h)" "mset (take n ys) = mset (take n ?xs)" by blast
  have el: "mrheap_elems h = mset (take n (heap h) @ [heap h ! n])"
    using len sz by (simp add: mrheap_elems_def take_Suc_conv_app_nth)
  have "mset (take n ?xs) = mrheap_elems h - {#heap h ! 0#}"
  proof (cases "n = 0")
    case False
    then have "heap h ! 0 \<in># mset (take n (heap h))"
      using len by (auto simp: in_set_conv_nth)
    then show ?thesis
      using len False by (simp add: el take_update_swap mset_update diff_union_swap2)
  qed (simp add: el)
  moreover have "heap h ! 0 \<in># mrheap_elems h" "\<forall>x \<in># mrheap_elems h. cnt x \<le> cnt (heap h ! 0)"
    using heap_top_max [OF ord] len sz
    by (auto simp: mrheap_elems_def in_set_conv_nth)
  ultimately show ?thesis
    using ys ne len sz inv
    by (auto simp: userfs_mrheap_extract_heaptop_def userfs_mrheap_get_heaptop_def
        n_def [symmetric] mrheap_inv_def mrheap_elems_def word_le_nat_alt Let_def)
qed

lemma mrheap_elems_empty_iff: "mrheap_inv h \<Longrightarrow> mrheap_elems h = {#} \<longleftrightarrow> hsize h = 0"
  by (auto simp: mrheap_inv_def mrheap_elems_def word_le_nat_alt unat_eq_zero)

interpretation hp: priority_index userfs_mrheap_extract_heaptop mrheap_inv mrheap_elems cnt
proof
  fix h
  assume inv: "mrheap_inv h"
  show "userfs_mrheap_extract_heaptop h = Some (h, None)" if "mrheap_elems h = {#}"
    using that mrheap_elems_empty_iff [OF inv]
    by (simp add: userfs_mrheap_extract_heaptop_def userfs_mrheap_get_heaptop_def)
  assume "mrheap_elems h \<noteq> {#}"
  then show "\<exists>s' e. userfs_mrheap_extract_heaptop h = Some (s', Some e) \<and> mrheap_inv s' \<and>
      e \<in># mrheap_elems h \<and> (\<forall>x \<in># mrheap_elems h. cnt x \<le> cnt e) \<and>
      mrheap_elems s' = mrheap_elems h - {#e#}"
    using mrheap_extract_spec [OF inv] mrheap_elems_empty_iff [OF inv] by blast
qed

text \<open>
  (C16) The heap is a priority index: below \<open>2 ^ 31\<close> slots, extracting from a non-empty heap always
  returns, the element returned has the most free blocks, exactly that element is removed and
  the heap order is kept.
\<close>

theorem mrheap_extract_max:
  assumes "mrheap_inv h" and "hsize h \<noteq> 0"
  shows "\<exists>h' e. userfs_mrheap_extract_heaptop h = Some (h', Some e) \<and> mrheap_inv h' \<and>
    e \<in># mrheap_elems h \<and>
    (\<forall>x \<in># mrheap_elems h. bgi_free_blocks_count x \<le> bgi_free_blocks_count e) \<and>
    mrheap_elems h' = mrheap_elems h - {#e#}"
  using hp.extract_max [OF assms(1)] assms mrheap_elems_empty_iff by blast

definition heap_example :: mrheap where
  "heap_example = \<lparr>heap = [\<lparr>bgi_free_blocks_count = 9, bgi_bgroup_nr = 1\<rparr>,
     \<lparr>bgi_free_blocks_count = 4, bgi_bgroup_nr = 0\<rparr>, \<lparr>bgi_free_blocks_count = 7, bgi_bgroup_nr = 2\<rparr>,
     \<lparr>bgi_free_blocks_count = 0, bgi_bgroup_nr = 0\<rparr>], capacity = 4, hsize = 3\<rparr>"

lemma heap_example_inv: "mrheap_inv heap_example"
proof -
  have "cnt (heap heap_example ! i) \<le> cnt (heap heap_example ! par i)" if "0 < i" "i < 3" for i
  proof -
    from that consider "i = 1" | "i = 2" by fastforce
    then show ?thesis by cases (simp_all add: par_def heap_example_def)
  qed
  then have "heap_ordered 3 (heap heap_example)" by (simp add: heap_ordered_def)
  then show ?thesis by (simp add: mrheap_inv_def heap_example_def)
qed

theorem mrheap_extract_max_witness:
  "\<exists>h' e. userfs_mrheap_extract_heaptop heap_example = Some (h', Some e) \<and> mrheap_inv h' \<and>
    mrheap_elems h' = mrheap_elems heap_example - {#e#}"
proof -
  have "hsize heap_example \<noteq> 0" by (simp add: heap_example_def)
  from mrheap_extract_max [OF heap_example_inv this] show ?thesis by blast
qed

text \<open>
  Inserting into a heap with room adds exactly the element described by the arguments and
  keeps the heap order; a full heap, and a failed allocation of the element, leave it unchanged
  and return \<open>NULL\<close>.
\<close>

theorem mrheap_insert_correct:
  assumes "mrheap_inv h"
  shows "if hsize h = capacity h \<or> (ep = None \<and> \<not> ok)
    then userfs_mrheap_insert ok h nr fr ep = Some (h, None)
    else \<exists>h'. userfs_mrheap_insert ok h nr fr ep =
        Some (h', Some \<lparr>bgi_free_blocks_count = fr, bgi_bgroup_nr = nr\<rparr>) \<and> mrheap_inv h' \<and>
      mrheap_elems h' = add_mset \<lparr>bgi_free_blocks_count = fr, bgi_bgroup_nr = nr\<rparr> (mrheap_elems h)"
proof (cases "hsize h = capacity h \<or> (ep = None \<and> \<not> ok)")
  case False
  then have "hsize h < capacity h" "ok \<or> ep \<noteq> None"
    using assms by (auto simp: mrheap_inv_def)
  from mrheap_insert_spec [OF assms this, of nr fr] False show ?thesis by auto
qed (auto simp: userfs_mrheap_insert_def)

theorem mrheap_insert_correct_witness:
  "\<exists>h'. userfs_mrheap_insert True heap_example 5 8 None =
      Some (h', Some \<lparr>bgi_free_blocks_count = 8, bgi_bgroup_nr = 5\<rparr>) \<and> mrheap_inv h' \<and>
    mrheap_elems h' = add_mset \<lparr>bgi_free_blocks_count = 8, bgi_bgroup_nr = 5\<rparr> (mrheap_elems heap_example)"
proof -
  have "hsize heap_example \<noteq> capacity heap_example" by (simp add: heap_example_def)
  then show ?thesis
    using mrheap_insert_correct [OF heap_example_inv, where ep = None and ok = True and nr = 5 and fr = 8]
    by simp
qed

text \<open>
  (C28) Draining the heap, as the debug function of the source does, returns every element exactly
  once, in descending order of free blocks.
\<close>

theorem mrheap_drain_sorted:
  assumes "mrheap_inv h" and "k = unat (hsize h)"
  shows "\<exists>h' es. extract_many userfs_mrheap_extract_heaptop k h = Some (h', map Some es) \<and>
    mrheap_inv h' \<and> hsize h' = 0 \<and> mset es = mrheap_elems h \<and>
    sorted_wrt (\<lambda>x y. bgi_free_blocks_count y \<le> bgi_free_blocks_count x) es"
proof -
  have "size (mrheap_elems h) = k"
    using assms by (auto simp: mrheap_elems_def mrheap_inv_def word_le_nat_alt)
  from hp.drain_sorted [OF assms(1) this] show ?thesis
    using mrheap_elems_empty_iff by blast
qed

theorem mrheap_drain_sorted_witness:
  "\<exists>h' es. extract_many userfs_mrheap_extract_heaptop 3 heap_example = Some (h', map Some es) \<and>
    mrheap_inv h' \<and> hsize h' = 0 \<and> mset es = mrheap_elems heap_example \<and>
    sorted_wrt (\<lambda>x y. bgi_free_blocks_count y \<le> bgi_free_blocks_count x) es"
  using mrheap_drain_sorted [OF heap_example_inv, of 3] by (simp add: heap_example_def)

end
