(* ===== verification/Dentry_Hash.thy ===== *)
theory Dentry_Hash
  imports Interfaces Atomic "HOL-Library.Sublist"
begin

text \<open>
  \<open>userfs/userfs_dentry_hash.c\<close>: the in-memory table from file names to inode addresses.

  Every object lives at an address and is reachable in two ways: through the conflict chain of
  its bucket (\<open>hlist\<close> pointers, modelled by the list of addresses of the chain) and through the
  list of all objects (\<open>hlist_head\<close>, \<open>list.h\<close>, whose pointer operations are verified in
  \<open>Kernel_List\<close>; here its sequence of nodes).  \<open>lobjs\<close> is the store of live objects.
  A name argument is the bytes readable at the pointer; reading past them, or writing outside
  the 27 bytes of the name array, is undefined behaviour (\<open>None\<close>).  An insertion writes a zero two bytes
  behind the last byte of the name, so it is defined for names of at most 25 bytes.

  The code compares with \<open>strncmp\<close> over the length of the name searched, so a name matches every
  stored name it is a prefix of.  On a prefix-free set of names the table refines a finite map
  (interpretation of \<open>name_table\<close>); outside it, two files of a prefix relation in one bucket are
  confused.
\<close>

section \<open>Data and operations\<close>

record hash_obj =
  oname :: "u8 list"
  odentry_pos :: u32
  oval :: u64

record hbucket =
  refcount :: u32
  bucket_start :: "nat list"

record linkhash =
  bucket_count :: u64
  obj_count :: u32
  hlist_head :: "nat list"
  lbucket :: "hbucket list"
  lobjs :: "nat \<Rightarrow> hash_obj option"
  lfresh :: nat

abbreviation LINKHASH_MAX_BUCKET_COUNT :: u64 where
  "LINKHASH_MAX_BUCKET_COUNT \<equiv> 128"

definition USERFS_INODEADDRINFO_CAL :: "u8 \<Rightarrow> u64 \<Rightarrow> u64" where
  "USERFS_INODEADDRINFO_CAL ty addr = push_bit 63 (ucast ty) OR addr"

definition USERFS_INODETYPE_GET :: "u64 \<Rightarrow> u64" where
  "USERFS_INODETYPE_GET v = drop_bit 63 v"

definition USERFS_INODEADDR_GET :: "u64 \<Rightarrow> u64" where
  "USERFS_INODEADDR_GET v = v AND drop_bit 1 (- 1)"

definition hash_32bkey :: "u32 \<Rightarrow> u32" where
  "hash_32bkey key =
     (let h = NOT key + push_bit 18 key;
          h = h XOR drop_bit 31 h;
          h = h * 21;
          h = h XOR drop_bit 11 h;
          h = h + push_bit 6 h
      in h XOR drop_bit 22 h)"

fun str2hash_loop :: "u8 list \<Rightarrow> nat \<Rightarrow> u32 \<Rightarrow> u32 \<Rightarrow> u32 option" where
  "str2hash_loop ucp 0 hash0 hash1 = Some (push_bit 1 hash0)"
| "str2hash_loop [] (Suc len) hash0 hash1 = None"
| "str2hash_loop (c # ucp) (Suc len) hash0 hash1 =
     (let hash = hash1 + (hash0 XOR (ucast c * 7152373));
          hash = (if hash AND 0x80000000 \<noteq> 0 then hash - 0x7fffffff else hash)
      in str2hash_loop ucp len hash hash0)"

definition str2hash_u32 :: "u8 list \<Rightarrow> u32 \<Rightarrow> u32 option" where
  "str2hash_u32 name len = str2hash_loop name (unat len) 0x12a3fe2d 0x37abe8f9"

text \<open>\<open>!strncmp(a, b, n)\<close>.\<close>

fun strncmp_eq :: "u8 list \<Rightarrow> u8 list \<Rightarrow> nat \<Rightarrow> bool option" where
  "strncmp_eq a b 0 = Some True"
| "strncmp_eq (x # a) (y # b) (Suc n) =
     (if x \<noteq> y then Some False else if x = 0 then Some True else strncmp_eq a b n)"
| "strncmp_eq _ _ (Suc n) = None"

definition linkhash_bucket_init :: "hbucket \<Rightarrow> hbucket" where
  "linkhash_bucket_init b = \<lparr>refcount = fst (atomic_set (refcount b) 0), bucket_start = []\<rparr>"

text \<open>The new buckets are zeroed by \<open>memset\<close> before the loop initialises each.\<close>

definition linkhash_init :: "u64 \<Rightarrow> linkhash \<Rightarrow> linkhash" where
  "linkhash_init n t = t\<lparr>bucket_count := n, obj_count := fst (atomic_store (obj_count t) 0),
     hlist_head := [],
     lbucket := map (\<lambda>_. linkhash_bucket_init \<lparr>refcount = 0, bucket_start = []\<rparr>) [0..<unat n]\<rparr>"

text \<open>\<open>mem\<close>: the table object \<open>malloc\<close> returns, with arbitrary contents, or nothing.\<close>

definition userfs_dentry_hash_create :: "linkhash option \<Rightarrow> u64 \<Rightarrow> linkhash option" where
  "userfs_dentry_hash_create mem n =
     (if n = 0 \<or> n > LINKHASH_MAX_BUCKET_COUNT then None
      else case mem of None \<Rightarrow> None | Some t \<Rightarrow> Some (linkhash_init n t))"

text \<open>Each round unlinks the first object of the list and frees it; freeing a dead object is undefined.\<close>

fun destroy_loop :: "nat list \<Rightarrow> (nat \<Rightarrow> hash_obj option) \<Rightarrow> (nat \<Rightarrow> hash_obj option) option" where
  "destroy_loop [] os = Some os"
| "destroy_loop (a # as) os =
     (case os a of None \<Rightarrow> None | Some _ \<Rightarrow> destroy_loop as (os(a := None)))"

definition userfs_dentry_hash_destroy :: "linkhash option \<Rightarrow> (nat \<Rightarrow> hash_obj option) option" where
  "userfs_dentry_hash_destroy tp =
     (case tp of None \<Rightarrow> Some Map.empty | Some t \<Rightarrow> destroy_loop (hlist_head t) (lobjs t))"

fun check_if_exists ::
    "(nat \<Rightarrow> hash_obj option) \<Rightarrow> nat list \<Rightarrow> u8 list \<Rightarrow> u32 \<Rightarrow> nat option option" where
  "check_if_exists os [] name len = Some None"
| "check_if_exists os (a # conflict_list) name len = do {
     x \<leftarrow> os a;
     eq \<leftarrow> strncmp_eq (oname x) name (unat len);
     if eq then Some (Some a) else check_if_exists os conflict_list name len
   }"

definition bucket_index :: "linkhash \<Rightarrow> u32 \<Rightarrow> u32" where
  "bucket_index t hash = ucast (ucast hash AND (bucket_count t - 1))"

definition bucket_of :: "linkhash \<Rightarrow> u8 list \<Rightarrow> u32 \<Rightarrow> nat option" where
  "bucket_of t name len = do {
     hash \<leftarrow> str2hash_u32 name len;
     if unat (bucket_index t hash) < length (lbucket t) then Some (unat (bucket_index t hash)) else None
   }"

text \<open>\<open>ok\<close>: the allocation of the new object succeeds.\<close>

definition userfs_dentry_hash_insert ::
    "bool \<Rightarrow> u8 list \<Rightarrow> u32 \<Rightarrow> u8 \<Rightarrow> u64 \<Rightarrow> u32 \<Rightarrow> linkhash \<Rightarrow> (linkhash \<times> nat option) option" where
  "userfs_dentry_hash_insert ok name len inodeaddr_type inodeaddr dentry_pos t = do {
     b \<leftarrow> bucket_of t name len;
     if \<not> ok then Some (t, None)
     else if unat len + 1 \<ge> 27 \<or> length name < unat len then None
     else do {
       let new = \<lparr>oname = take (unat len) name @ replicate (28 - unat len) 0,
                  odentry_pos = dentry_pos,
                  oval = USERFS_INODEADDRINFO_CAL inodeaddr_type inodeaddr\<rparr>;
       found \<leftarrow> check_if_exists (lobjs t) (bucket_start (lbucket t ! b)) name len;
       if found \<noteq> None then Some (t, None)
       else
         let a = lfresh t;
             bk = lbucket t ! b
         in Some (t\<lparr>lobjs := (lobjs t)(a \<mapsto> new), lfresh := Suc a,
                    lbucket := (lbucket t)[b := bk\<lparr>bucket_start := a # bucket_start bk,
                                                   refcount := fst (atomic_add (refcount bk) 1)\<rparr>],
                    hlist_head := a # hlist_head t,
                    obj_count := fst (atomic_add (obj_count t) 1)\<rparr>, Some a)
     }
   }"

definition userfs_dentry_hash_update ::
    "u8 list \<Rightarrow> u32 \<Rightarrow> u8 \<Rightarrow> u64 \<Rightarrow> linkhash \<Rightarrow> (linkhash \<times> nat option) option" where
  "userfs_dentry_hash_update name len inodeaddr_type inodeaddr t = do {
     b \<leftarrow> bucket_of t name len;
     if bucket_start (lbucket t ! b) \<noteq> [] then do {
       found \<leftarrow> check_if_exists (lobjs t) (bucket_start (lbucket t ! b)) name len;
       case found of
         None \<Rightarrow> Some (t, None)
       | Some a \<Rightarrow> do {
           x \<leftarrow> lobjs t a;
           Some (t\<lparr>lobjs := (lobjs t)(a \<mapsto> x\<lparr>oval := USERFS_INODEADDRINFO_CAL inodeaddr_type inodeaddr\<rparr>)\<rparr>,
                 Some a)
         }
     }
     else Some (t, None)
   }"

definition userfs_dentry_hash_update_dentrypos ::
    "u8 list \<Rightarrow> u32 \<Rightarrow> u32 \<Rightarrow> linkhash \<Rightarrow> (linkhash \<times> nat option) option" where
  "userfs_dentry_hash_update_dentrypos name len dentry_pos t = do {
     b \<leftarrow> bucket_of t name len;
     if bucket_start (lbucket t ! b) \<noteq> [] then do {
       found \<leftarrow> check_if_exists (lobjs t) (bucket_start (lbucket t ! b)) name len;
       case found of
         None \<Rightarrow> Some (t, None)
       | Some a \<Rightarrow> do {
           x \<leftarrow> lobjs t a;
           Some (t\<lparr>lobjs := (lobjs t)(a \<mapsto> x\<lparr>odentry_pos := dentry_pos\<rparr>)\<rparr>, Some a)
         }
     }
     else Some (t, None)
   }"

text \<open>The result and the new value of \<open>*dentry_pos\<close>, whose old value is \<open>dpos\<close>.\<close>

definition userfs_dentry_hash_get ::
    "u8 list \<Rightarrow> u32 \<Rightarrow> u32 \<Rightarrow> linkhash option \<Rightarrow> (u32 \<times> u64) option" where
  "userfs_dentry_hash_get name len dpos tp =
     (case tp of
        None \<Rightarrow> Some (dpos, ucast UINT32_MAX)
      | Some t \<Rightarrow> do {
          b \<leftarrow> bucket_of t name len;
          found \<leftarrow> check_if_exists (lobjs t) (bucket_start (lbucket t ! b)) name len;
          case found of
            None \<Rightarrow> Some (dpos, ucast UINT32_MAX)
          | Some a \<Rightarrow> do { x \<leftarrow> lobjs t a; Some (odentry_pos x, oval x) }
        })"

definition userfs_dentry_hash_remove ::
    "u8 list \<Rightarrow> u32 \<Rightarrow> u32 \<Rightarrow> linkhash option \<Rightarrow> (linkhash option \<times> u32 \<times> u64) option" where
  "userfs_dentry_hash_remove name len dpos tp =
     (case tp of
        None \<Rightarrow> Some (None, dpos, ucast UINT32_MAX)
      | Some t \<Rightarrow> do {
          b \<leftarrow> bucket_of t name len;
          let bk = lbucket t ! b;
          found \<leftarrow> check_if_exists (lobjs t) (bucket_start bk) name len;
          case found of
            None \<Rightarrow> Some (Some t, dpos, ucast UINT32_MAX)
          | Some a \<Rightarrow> do {
              x \<leftarrow> lobjs t a;
              Some (Some (t\<lparr>lobjs := (lobjs t)(a := None),
                     lbucket := (lbucket t)[b := bk\<lparr>refcount := fst (atomic_sub (refcount bk) 1),
                                                    bucket_start := remove1 a (bucket_start bk)\<rparr>],
                     hlist_head := remove1 a (hlist_head t),
                     obj_count := fst (atomic_sub (obj_count t) 1)\<rparr>), odentry_pos x, oval x)
            }
        })"

section \<open>Names, comparison and buckets\<close>

definition name_ok :: "u8 list \<Rightarrow> bool" where
  "name_ok nm \<longleftrightarrow> 0 \<notin> set nm \<and> length nm \<le> 27"

definition pad :: "u8 list \<Rightarrow> u8 list" where
  "pad nm = nm @ replicate (28 - length nm) 0"

abbreviation nlen :: "u8 list \<Rightarrow> u32" where
  "nlen nm \<equiv> of_nat (length nm)"

lemma unat_nlen [simp]: "name_ok nm \<Longrightarrow> unat (nlen nm) = length nm"
  by (simp add: name_ok_def unat_of_nat)

lemma strncmp_zeros:
  assumes "0 \<notin> set nm" and "0 \<notin> set k"
  shows "strncmp_eq (nm @ replicate (Suc j) 0) k (length k) = Some (prefix k nm)"
  using assms
proof (induction k arbitrary: nm)
  case (Cons c k)
  then show ?case by (cases nm) auto
qed simp

lemma strncmp_pad:
  assumes "name_ok nm" and "name_ok k"
  shows "strncmp_eq (pad nm) k (length k) = Some (prefix k nm)"
proof -
  have "pad nm = nm @ replicate (Suc (27 - length nm)) 0"
    using assms(1) by (auto simp: pad_def name_ok_def Suc_diff_le simp del: replicate_Suc)
  then show ?thesis
    using assms strncmp_zeros by (simp add: name_ok_def)
qed

lemma pad_inj: "name_ok a \<Longrightarrow> name_ok b \<Longrightarrow> pad a = pad b \<Longrightarrow> a = b"
proof -
  have "takeWhile (\<lambda>c. c \<noteq> 0) (pad nm) = nm" if "name_ok nm" for nm
    using that by (auto simp: pad_def name_ok_def takeWhile_append takeWhile_replicate)
  then show "name_ok a \<Longrightarrow> name_ok b \<Longrightarrow> pad a = pad b \<Longrightarrow> a = b" by metis
qed

lemma str2hash_loop_total: "\<exists>h. str2hash_loop nm (length nm) h0 h1 = Some h"
  by (induction nm arbitrary: h0 h1) (auto simp: Let_def)

definition hash_of :: "u8 list \<Rightarrow> u32" where
  "hash_of nm = the (str2hash_u32 nm (nlen nm))"

lemma str2hash_name: "name_ok nm \<Longrightarrow> str2hash_u32 nm (nlen nm) = Some (hash_of nm)"
  using str2hash_loop_total [of nm] by (auto simp: hash_of_def str2hash_u32_def)

lemma unat_ucast_le: "unat (ucast (x :: u64) :: u32) \<le> unat x"
  by (simp add: unsigned_ucast_eq take_bit_eq_mod)

lemma bucket_index_less: "bucket_count t \<noteq> 0 \<Longrightarrow> unat (bucket_index t h) < unat (bucket_count t)"
proof -
  assume nz: "bucket_count t \<noteq> 0"
  have "unat (bucket_index t h) \<le> unat (ucast h AND (bucket_count t - 1))"
    unfolding bucket_index_def by (rule unat_ucast_le)
  also have "\<dots> \<le> unat (bucket_count t - 1)"
    by (rule word_le_nat_alt [THEN iffD1]) (rule word_and_le1)
  also have "\<dots> < unat (bucket_count t)"
    using nz by (simp add: unat_minus_one unat_gt_0)
  finally show ?thesis .
qed

definition bid :: "linkhash \<Rightarrow> u8 list \<Rightarrow> nat" where
  "bid t nm = unat (bucket_index t (hash_of nm))"

section \<open>The invariant\<close>

text \<open>
  \<open>N\<close> is the set of names in use.  Every chain holds distinct live objects whose padded names hash
  to the chain's bucket, every live object is in the chain of its bucket and in the list of all
  objects, no two live objects have the same name, and the reference count of a bucket is the
  length of its chain.
\<close>

abbreviation chain_of :: "linkhash \<Rightarrow> nat \<Rightarrow> nat list" where
  "chain_of t b \<equiv> bucket_start (lbucket t ! b)"

definition prefix_free :: "u8 list set \<Rightarrow> bool" where
  "prefix_free N \<longleftrightarrow> (\<forall>a \<in> N. name_ok a \<and> (\<forall>b \<in> N. prefix a b \<longrightarrow> a = b))"

definition dht_inv :: "u8 list set \<Rightarrow> linkhash \<Rightarrow> bool" where
  "dht_inv N t \<longleftrightarrow>
     bucket_count t \<noteq> 0 \<and> length (lbucket t) = unat (bucket_count t) \<and>
     (\<forall>b < length (lbucket t). distinct (chain_of t b) \<and>
        refcount (lbucket t ! b) = of_nat (length (chain_of t b)) \<and>
        (\<forall>a \<in> set (chain_of t b). \<exists>x nm. lobjs t a = Some x \<and> nm \<in> N \<and> oname x = pad nm \<and> bid t nm = b)) \<and>
     (\<forall>a \<in> dom (lobjs t). a < lfresh t \<and> (\<exists>b < length (lbucket t). a \<in> set (chain_of t b))) \<and>
     (\<forall>a a' x x'. lobjs t a = Some x \<and> lobjs t a' = Some x' \<and> oname x = oname x' \<longrightarrow> a = a') \<and>
     distinct (hlist_head t) \<and> set (hlist_head t) = dom (lobjs t)"

definition dht_find :: "linkhash \<Rightarrow> u8 list \<Rightarrow> nat option" where
  "dht_find t nm =
     List.find (\<lambda>a. map_option oname (lobjs t a) = Some (pad nm)) (chain_of t (bid t nm))"

lemma bid_less: "dht_inv N t \<Longrightarrow> bid t nm < length (lbucket t)"
  using bucket_index_less [of t "hash_of nm"] by (simp add: dht_inv_def bid_def)

lemma bucket_of_name:
  assumes "dht_inv N t" and "name_ok nm"
  shows "bucket_of t nm (nlen nm) = Some (bid t nm)"
  using bid_less [OF assms(1), of nm] assms(2) by (simp add: bucket_of_def str2hash_name bid_def)

lemma check_if_exists_find:
  assumes "prefix_free N" and "k \<in> N"
    and "\<forall>a \<in> set as. \<exists>x nm. os a = Some x \<and> nm \<in> N \<and> oname x = pad nm"
  shows "check_if_exists os as k (nlen k) =
    Some (List.find (\<lambda>a. map_option oname (os a) = Some (pad k)) as)"
  using assms(3)
proof (induction as)
  case (Cons a as)
  then obtain x nm where a: "os a = Some x" "nm \<in> N" "oname x = pad nm" by auto
  have k: "name_ok k" "name_ok nm" using assms(1,2) a(2) by (auto simp: prefix_free_def)
  have "prefix k nm \<longleftrightarrow> nm = k"
    using assms(1,2) a(2) by (auto simp: prefix_free_def)
  moreover have "pad nm = pad k \<longleftrightarrow> nm = k"
    using pad_inj k by blast
  ultimately show ?case
    using a Cons k by (simp add: strncmp_pad)
qed simp

lemma chain_obj:
  assumes "dht_inv N t" and "b < length (lbucket t)" and "a \<in> set (chain_of t b)"
  obtains x nm where "lobjs t a = Some x" and "nm \<in> N" and "oname x = pad nm" and "bid t nm = b"
  using assms unfolding dht_inv_def by metis

lemma obj_chain:
  assumes "dht_inv N t" and "lobjs t a = Some x"
  obtains nm where "nm \<in> N" and "oname x = pad nm" and "a \<in> set (chain_of t (bid t nm))"
    and "a < lfresh t"
proof -
  obtain b where b: "b < length (lbucket t)" "a \<in> set (chain_of t b)" "a < lfresh t"
    using assms unfolding dht_inv_def by blast
  from chain_obj [OF assms(1) b(1,2)] obtain y nm where
    "lobjs t a = Some y" "nm \<in> N" "oname y = pad nm" "bid t nm = b" by metis
  with assms(2) b that [of nm] show thesis by auto
qed

lemma obj_fresh: "dht_inv N t \<Longrightarrow> lobjs t a = Some x \<Longrightarrow> a < lfresh t"
  by (erule obj_chain)

lemma fresh_dead: "dht_inv N t \<Longrightarrow> lobjs t (lfresh t) = None"
  using obj_fresh by (metis less_irrefl not_None_eq)

lemma names_unique:
  "dht_inv N t \<Longrightarrow> lobjs t a = Some x \<Longrightarrow> lobjs t a' = Some x' \<Longrightarrow> oname x = oname x' \<Longrightarrow> a = a'"
  unfolding dht_inv_def by metis

lemma dht_check:
  assumes "prefix_free N" and "dht_inv N t" and "k \<in> N"
  shows "check_if_exists (lobjs t) (chain_of t (bid t k)) k (nlen k) = Some (dht_find t k)"
  unfolding dht_find_def
proof (rule check_if_exists_find [OF assms(1,3)], rule ballI)
  fix a
  assume "a \<in> set (chain_of t (bid t k))"
  from chain_obj [OF assms(2) bid_less [OF assms(2)] this]
  show "\<exists>x nm. lobjs t a = Some x \<and> nm \<in> N \<and> oname x = pad nm" by metis
qed

lemma dht_find_Some_iff:
  assumes "prefix_free N" and "dht_inv N t" and "k \<in> N"
  shows "dht_find t k = Some a \<longleftrightarrow> (\<exists>x. lobjs t a = Some x \<and> oname x = pad k)"
proof
  assume "dht_find t k = Some a"
  then have "map_option oname (lobjs t a) = Some (pad k)"
    unfolding dht_find_def by (metis (mono_tags, lifting) find_Some_iff)
  then show "\<exists>x. lobjs t a = Some x \<and> oname x = pad k" by auto
next
  assume "\<exists>x. lobjs t a = Some x \<and> oname x = pad k"
  then obtain x where x: "lobjs t a = Some x" "oname x = pad k" by blast
  obtain nm where "nm \<in> N" "pad k = pad nm" "a \<in> set (chain_of t (bid t nm))"
    using obj_chain [OF assms(2) x(1)] x(2) by metis
  then have in_chain: "a \<in> set (chain_of t (bid t k))"
    using pad_inj assms(1,3) unfolding prefix_free_def by metis
  show "dht_find t k = Some a"
  proof (cases "dht_find t k")
    case None
    then show ?thesis
      using in_chain x by (auto simp: dht_find_def find_None_iff)
  next
    case (Some a')
    then have "map_option oname (lobjs t a') = Some (pad k)"
      unfolding dht_find_def by (metis (mono_tags, lifting) find_Some_iff)
    then have "a' = a"
      using names_unique [OF assms(2)] x by auto
    with Some show ?thesis by simp
  qed
qed

lemma dht_find_None_iff:
  assumes "prefix_free N" and "dht_inv N t" and "k \<in> N"
  shows "dht_find t k = None \<longleftrightarrow> (\<forall>a x. lobjs t a = Some x \<longrightarrow> oname x \<noteq> pad k)"
  using dht_find_Some_iff [OF assms] by (metis not_Some_eq)

section \<open>Insertion and removal keep the invariant\<close>

definition entry :: "hash_obj \<Rightarrow> u32 \<times> u64" where
  "entry x = (odentry_pos x, oval x)"

definition dht_map :: "linkhash \<Rightarrow> u8 list \<Rightarrow> (u32 \<times> u64) option" where
  "dht_map t k = do { a \<leftarrow> dht_find t k; x \<leftarrow> lobjs t a; Some (entry x) }"

lemma bid_cong [simp]:
  "bid (t\<lparr>lobjs := os\<rparr>) nm = bid t nm" "bid (t\<lparr>lbucket := bs\<rparr>) nm = bid t nm"
  "bid (t\<lparr>hlist_head := hs\<rparr>) nm = bid t nm" "bid (t\<lparr>obj_count := n\<rparr>) nm = bid t nm"
  "bid (t\<lparr>lfresh := m\<rparr>) nm = bid t nm"
  by (simp_all add: bid_def bucket_index_def)

definition link_obj :: "linkhash \<Rightarrow> nat \<Rightarrow> hash_obj \<Rightarrow> linkhash" where
  "link_obj t b x =
     (let a = lfresh t; bk = lbucket t ! b
      in t\<lparr>lobjs := (lobjs t)(a \<mapsto> x), lfresh := Suc a,
           lbucket := (lbucket t)[b := bk\<lparr>bucket_start := a # bucket_start bk,
                                          refcount := fst (atomic_add (refcount bk) 1)\<rparr>],
           hlist_head := a # hlist_head t, obj_count := fst (atomic_add (obj_count t) 1)\<rparr>)"

definition unlink_obj :: "linkhash \<Rightarrow> nat \<Rightarrow> nat \<Rightarrow> linkhash" where
  "unlink_obj t b a =
     (let bk = lbucket t ! b
      in t\<lparr>lobjs := (lobjs t)(a := None),
           lbucket := (lbucket t)[b := bk\<lparr>refcount := fst (atomic_sub (refcount bk) 1),
                                          bucket_start := remove1 a (bucket_start bk)\<rparr>],
           hlist_head := remove1 a (hlist_head t), obj_count := fst (atomic_sub (obj_count t) 1)\<rparr>)"

lemma link_obj_inv:
  assumes pf: "prefix_free N" and inv: "dht_inv N t" and k: "k \<in> N"
    and new: "dht_find t k = None" and x: "oname x = pad k"
  shows "dht_inv N (link_obj t (bid t k) x)"
proof -
  let ?a = "lfresh t" and ?b = "bid t k" and ?t = "link_obj t (bid t k) x"
  have fresh: "lobjs t ?a = None"
    using inv unfolding dht_inv_def by (metis domIff less_irrefl)
  have b: "?b < length (lbucket t)" using inv by (rule bid_less)
  have os: "lobjs ?t = (lobjs t)(?a \<mapsto> x)" and hl: "hlist_head ?t = ?a # hlist_head t"
    and fr: "lfresh ?t = Suc ?a" and len: "length (lbucket ?t) = length (lbucket t)"
    and bc: "bucket_count ?t = bucket_count t" and bi: "bid ?t nm = bid t nm" for nm
    by (simp_all add: link_obj_def Let_def)
  have ch: "chain_of ?t c = (if c = ?b then ?a # chain_of t c else chain_of t c)"
    and rc: "refcount (lbucket ?t ! c) = (if c = ?b then refcount (lbucket t ! c) + 1 else refcount (lbucket t ! c))"
    if "c < length (lbucket t)" for c
    using that b by (auto simp: link_obj_def Let_def nth_list_update atomic_add_def)
  have old: "a \<noteq> ?a" if "a \<in> set (chain_of t c)" "c < length (lbucket t)" for a c
    using chain_obj [OF inv that(2,1)] fresh by (metis option.distinct(1))
  have nm: "oname y \<noteq> pad k" if "lobjs t a = Some y" for a y
    using new that dht_find_None_iff [OF pf inv k] by blast
  show ?thesis
    unfolding dht_inv_def os hl fr len bc bi
  proof (intro conjI allI impI ballI)
    fix c assume c: "c < length (lbucket t)"
    have d: "distinct (chain_of t c)" and r: "refcount (lbucket t ! c) = of_nat (length (chain_of t c))"
      using inv c by (auto simp: dht_inv_def)
    show "distinct (chain_of ?t c)" using d old c by (auto simp: ch)
    show "refcount (lbucket ?t ! c) = of_nat (length (chain_of ?t c))"
      using r c by (auto simp: ch rc)
    fix a assume a: "a \<in> set (chain_of ?t c)"
    show "\<exists>y nm. ((lobjs t)(?a \<mapsto> x)) a = Some y \<and> nm \<in> N \<and> oname y = pad nm \<and> bid t nm = c"
    proof (cases "a = ?a")
      case True
      then have "c = ?b" using a c old by (auto simp: ch split: if_splits)
      then show ?thesis using True k x by auto
    next
      case False
      then have "a \<in> set (chain_of t c)" using a c by (auto simp: ch split: if_splits)
      then show ?thesis using False chain_obj [OF inv c] by (metis fun_upd_other)
    qed
  next
    fix a assume a: "a \<in> dom ((lobjs t)(?a \<mapsto> x))"
    show "a < Suc ?a"
      using a obj_fresh [OF inv] by (auto simp: less_Suc_eq split: if_splits)
    show "\<exists>c < length (lbucket t). a \<in> set (chain_of ?t c)"
    proof (cases "a = ?a")
      case True
      then show ?thesis using b by (auto simp: ch)
    next
      case False
      then have "a \<in> dom (lobjs t)" using a by (auto split: if_splits)
      then obtain c where "c < length (lbucket t)" "a \<in> set (chain_of t c)"
        using inv unfolding dht_inv_def by blast
      then show ?thesis by (auto simp: ch)
    qed
  next
    fix a a' y y'
    assume "((lobjs t)(?a \<mapsto> x)) a = Some y \<and> ((lobjs t)(?a \<mapsto> x)) a' = Some y' \<and> oname y = oname y'"
    then show "a = a'"
      using names_unique [OF inv] nm x by (auto split: if_splits)
  next
    show "distinct (?a # hlist_head t)" "set (?a # hlist_head t) = dom ((lobjs t)(?a \<mapsto> x))"
      using inv fresh by (auto simp: dht_inv_def)
  qed (use inv in \<open>auto simp: dht_inv_def\<close>)
qed

lemma unlink_obj_inv:
  assumes pf: "prefix_free N" and inv: "dht_inv N t" and k: "k \<in> N" and a: "dht_find t k = Some a"
  shows "dht_inv N (unlink_obj t (bid t k) a)"
proof -
  let ?b = "bid t k" and ?t = "unlink_obj t (bid t k) a"
  have b: "?b < length (lbucket t)" using inv by (rule bid_less)
  have ain: "a \<in> set (chain_of t ?b)"
    using a unfolding dht_find_def by (metis (mono_tags, lifting) find_Some_iff nth_mem)
  have os: "lobjs ?t = (lobjs t)(a := None)" and hl: "hlist_head ?t = remove1 a (hlist_head t)"
    and fr: "lfresh ?t = lfresh t" and len: "length (lbucket ?t) = length (lbucket t)"
    and bc: "bucket_count ?t = bucket_count t" and bi: "bid ?t nm = bid t nm" for nm
    by (simp_all add: unlink_obj_def Let_def)
  have only: "a \<notin> set (chain_of t c)" if "c < length (lbucket t)" "c \<noteq> ?b" for c
  proof
    assume "a \<in> set (chain_of t c)"
    from chain_obj [OF inv that(1) this] obtain x nm where
      x: "lobjs t a = Some x" "nm \<in> N" "oname x = pad nm" "bid t nm = c" by metis
    moreover have "oname x = pad k"
      using a dht_find_Some_iff [OF pf inv k] x(1) by auto
    ultimately have "nm = k" using pad_inj pf k unfolding prefix_free_def by metis
    with x(4) that(2) show False by simp
  qed
  have ch: "chain_of ?t c = remove1 a (chain_of t c)"
    and rc: "refcount (lbucket ?t ! c) = refcount (lbucket t ! c) - (if c = ?b then 1 else 0)"
    if "c < length (lbucket t)" for c
    using that b only by (auto simp: unlink_obj_def Let_def nth_list_update atomic_sub_def remove1_idem)
  have d: "distinct (chain_of t c)" and r: "refcount (lbucket t ! c) = of_nat (length (chain_of t c))"
    if "c < length (lbucket t)" for c
    using inv that by (auto simp: dht_inv_def)
  show ?thesis
    unfolding dht_inv_def os hl fr len bc bi
  proof (intro conjI allI impI ballI)
    fix c assume c: "c < length (lbucket t)"
    show "distinct (chain_of ?t c)" using d c by (simp add: ch)
    have "refcount (lbucket ?t ! c) = of_nat (length (chain_of t c)) - (if c = ?b then 1 else 0)"
      using r c by (simp add: rc)
    also have "\<dots> = of_nat (length (remove1 a (chain_of t c)))"
      using ain only c length_pos_if_in_set [OF ain]
      by (auto simp: length_remove1 of_nat_diff Suc_leI)
    finally show "refcount (lbucket ?t ! c) = of_nat (length (chain_of ?t c))" using c by (simp add: ch)
    fix a' assume "a' \<in> set (chain_of ?t c)"
    then have a': "a' \<in> set (chain_of t c)" "a' \<noteq> a" using c d by (auto simp: ch)
    then show "\<exists>y nm. ((lobjs t)(a := None)) a' = Some y \<and> nm \<in> N \<and> oname y = pad nm \<and> bid t nm = c"
      using chain_obj [OF inv c] by (metis fun_upd_other)
  next
    fix a' assume "a' \<in> dom ((lobjs t)(a := None))"
    then have a': "a' \<in> dom (lobjs t)" "a' \<noteq> a" by (auto split: if_splits)
    then show "a' < lfresh t" using obj_fresh [OF inv] by auto
    obtain c where "c < length (lbucket t)" "a' \<in> set (chain_of t c)"
      using a'(1) inv unfolding dht_inv_def by blast
    then show "\<exists>c < length (lbucket t). a' \<in> set (chain_of ?t c)"
      using a'(2) by (auto simp: ch in_set_remove1)
  next
    fix a1 a2 y y'
    assume "((lobjs t)(a := None)) a1 = Some y \<and> ((lobjs t)(a := None)) a2 = Some y' \<and> oname y = oname y'"
    then show "a1 = a2"
      using names_unique [OF inv] by (auto split: if_splits)
  qed (use inv in \<open>auto simp: dht_inv_def\<close>)
qed

lemma dht_map_eq:
  assumes "prefix_free N" and "dht_inv N t" and "k \<in> N"
  shows "dht_map t k = Some e \<longleftrightarrow> (\<exists>a x. lobjs t a = Some x \<and> oname x = pad k \<and> entry x = e)"
  by (simp add: dht_map_def dht_find_Some_iff [OF assms]) (metis option.inject)

lemma dht_map_None_find: 
  assumes "prefix_free N" and "dht_inv N t" and "k \<in> N"
  shows "dht_map t k = None \<longleftrightarrow> dht_find t k = None"
proof (cases "dht_find t k")
  case (Some a)
  then show ?thesis using dht_find_Some_iff [OF assms, of a] by (auto simp: dht_map_def)
qed (simp add: dht_map_def)

lemma option_eqI: "(\<And>e. x = Some e \<longleftrightarrow> y = Some e) \<Longrightarrow> x = y"
  by (cases x; cases y) auto

lemma pad_eq_iff: "prefix_free N \<Longrightarrow> k \<in> N \<Longrightarrow> k' \<in> N \<Longrightarrow> pad k = pad k' \<longleftrightarrow> k = k'"
  using pad_inj by (auto simp: prefix_free_def)

lemma dht_map_link:
  assumes "prefix_free N" and "dht_inv N t" and "k \<in> N" and "dht_find t k = None"
    and "oname x = pad k" and "k' \<in> N"
  shows "dht_map (link_obj t (bid t k) x) k' = ((dht_map t)(k \<mapsto> entry x)) k'"
proof -
  let ?t = "link_obj t (bid t k) x"
  note inv' = link_obj_inv [OF assms(1-5)]
  note fresh = fresh_dead [OF assms(2)]
  have os: "lobjs ?t = (lobjs t)(lfresh t \<mapsto> x)"
    by (simp add: link_obj_def Let_def)
  show ?thesis
  proof (cases "k' = k")
    case True
    have "dht_map ?t k = Some (entry x)"
      unfolding dht_map_eq [OF assms(1) inv' assms(3)] os
      by (intro exI [of _ "lfresh t"] exI [of _ x]) (simp add: assms(5))
    then show ?thesis using True by simp
  next
    case False
    then have "oname x \<noteq> pad k'" using pad_eq_iff [OF assms(1,3,6)] assms(5) by simp
    then have "dht_map ?t k' = Some e \<longleftrightarrow> dht_map t k' = Some e" for e
      unfolding dht_map_eq [OF assms(1) inv' assms(6)] dht_map_eq [OF assms(1,2,6)] os
      using fresh by (metis fun_upd_apply option.distinct(1) option.inject)
    then show ?thesis using False by (intro option_eqI) simp
  qed
qed

lemma dht_map_unlink:
  assumes "prefix_free N" and "dht_inv N t" and "k \<in> N" and "dht_find t k = Some a" and "k' \<in> N"
  shows "dht_map (unlink_obj t (bid t k) a) k' = ((dht_map t)(k := None)) k'"
proof -
  let ?t = "unlink_obj t (bid t k) a"
  note inv' = unlink_obj_inv [OF assms(1-4)]
  obtain x where x: "lobjs t a = Some x" "oname x = pad k"
    using assms dht_find_Some_iff [OF assms(1-3)] by blast
  have os: "lobjs ?t = (lobjs t)(a := None)"
    by (simp add: unlink_obj_def Let_def)
  show ?thesis
  proof (cases "k' = k")
    case True
    have "dht_find ?t k = None"
      unfolding dht_find_None_iff [OF assms(1) inv' assms(3)] os
      using names_unique [OF assms(2) x(1)] x(2) by (auto split: if_splits)
    then show ?thesis using True by (simp add: dht_map_def)
  next
    case False
    then have "oname x \<noteq> pad k'" using pad_eq_iff [OF assms(1,3,5)] x(2) by simp
    then have "dht_map ?t k' = Some e \<longleftrightarrow> dht_map t k' = Some e" for e
      unfolding dht_map_eq [OF assms(1) inv' assms(5)] dht_map_eq [OF assms(1,2,5)] os
      using x(1) by (metis fun_upd_apply option.distinct(1) option.inject)
    then show ?thesis using False by (intro option_eqI) simp
  qed
qed

section \<open>The table refines a finite map\<close>

lemma inodeaddr_roundtrip:
  "USERFS_INODEADDRINFO_CAL (ucast (USERFS_INODETYPE_GET v)) (USERFS_INODEADDR_GET v) = v"
proof (rule bit_word_eqI)
  fix n assume n: "n < LENGTH(64)"
  show "bit (USERFS_INODEADDRINFO_CAL (ucast (USERFS_INODETYPE_GET v)) (USERFS_INODEADDR_GET v)) n = bit v n"
  proof (cases "n = 63")
    case True
    then show ?thesis
      by (simp add: USERFS_INODEADDRINFO_CAL_def USERFS_INODETYPE_GET_def USERFS_INODEADDR_GET_def bit_simps)
  next
    case False
    then have "n < 63" using n by simp
    then show ?thesis
      by (simp add: USERFS_INODEADDRINFO_CAL_def USERFS_INODETYPE_GET_def USERFS_INODEADDR_GET_def bit_simps)
  qed
qed

text \<open>The operations with the tag and the address of a value taken apart, and \<open>UINT32_MAX\<close> read as absent.\<close>

definition absent :: u64 where
  "absent = ucast UINT32_MAX"

definition dht_put :: "u8 list \<Rightarrow> u32 \<times> u64 \<Rightarrow> linkhash \<Rightarrow> (linkhash \<times> bool) option" where
  "dht_put k e t = map_option (\<lambda>(t, r). (t, r \<noteq> None))
     (userfs_dentry_hash_insert True k (nlen k) (ucast (USERFS_INODETYPE_GET (snd e)))
        (USERFS_INODEADDR_GET (snd e)) (fst e) t)"

definition dht_get :: "u8 list \<Rightarrow> linkhash \<Rightarrow> (u32 \<times> u64) option option" where
  "dht_get k t = map_option (\<lambda>(d, v). if v = absent then None else Some (d, v))
     (userfs_dentry_hash_get k (nlen k) 0 (Some t))"

definition dht_del :: "u8 list \<Rightarrow> linkhash \<Rightarrow> (linkhash \<times> (u32 \<times> u64) option) option" where
  "dht_del k t = do {
     (tp, d, v) \<leftarrow> userfs_dentry_hash_remove k (nlen k) 0 (Some t);
     t \<leftarrow> tp;
     Some (t, if v = absent then None else Some (d, v))
   }"

definition dht_ok :: "u8 list set \<Rightarrow> linkhash \<Rightarrow> bool" where
  "dht_ok N t \<longleftrightarrow> dht_inv N t \<and> (\<forall>a x. lobjs t a = Some x \<longrightarrow> oval x \<noteq> absent)"

definition names_of_length :: "nat \<Rightarrow> u8 list set" where
  "names_of_length L = {nm. length nm = L \<and> L \<le> 27 \<and> 0 \<notin> set nm}"

lemma prefix_free_length: "prefix_free (names_of_length L)"
  by (auto simp: prefix_free_def names_of_length_def name_ok_def prefix_def)

lemma dht_insert_link:
  assumes "prefix_free N" and "dht_inv N t" and "k \<in> N" and "length k \<le> 25"
  shows "userfs_dentry_hash_insert True k (nlen k) ty addr pos t =
    (if dht_find t k = None
     then Some (link_obj t (bid t k) \<lparr>oname = pad k, odentry_pos = pos,
                  oval = USERFS_INODEADDRINFO_CAL ty addr\<rparr>, Some (lfresh t))
     else Some (t, None))"
proof -
  have "name_ok k" using assms(1,3) by (simp add: prefix_free_def)
  then show ?thesis
    using dht_check [OF assms(1-3)] bucket_of_name [OF assms(2)] assms(4)
    by (simp add: userfs_dentry_hash_insert_def link_obj_def Let_def pad_def)
qed

lemma dht_remove_unlink:
  assumes "prefix_free N" and "dht_inv N t" and "k \<in> N"
  shows "userfs_dentry_hash_remove k (nlen k) dpos (Some t) =
    (case dht_find t k of
       None \<Rightarrow> Some (Some t, dpos, absent)
     | Some a \<Rightarrow> do { x \<leftarrow> lobjs t a; Some (Some (unlink_obj t (bid t k) a), odentry_pos x, oval x) })"
proof -
  have "name_ok k" using assms by (simp add: prefix_free_def)
  then show ?thesis
    using dht_check [OF assms] bucket_of_name [OF assms(2)]
    by (cases "dht_find t k")
      (simp_all add: userfs_dentry_hash_remove_def unlink_obj_def Let_def absent_def)
qed

lemma dht_get_find:
  assumes "prefix_free N" and "dht_inv N t" and "k \<in> N"
  shows "userfs_dentry_hash_get k (nlen k) dpos (Some t) =
    (case dht_find t k of None \<Rightarrow> Some (dpos, absent) | Some a \<Rightarrow> map_option entry (lobjs t a))"
proof -
  have "name_ok k" using assms by (simp add: prefix_free_def)
  then show ?thesis
    using dht_check [OF assms] bucket_of_name [OF assms(2)]
    by (auto simp: userfs_dentry_hash_get_def absent_def entry_def map_option_bind
        split: option.splits bind_splits)
qed

lemma dht_find_obj:
  assumes "prefix_free N" and "dht_ok N t" and "k \<in> N" and "dht_find t k = Some a"
  obtains x where "lobjs t a = Some x" and "oval x \<noteq> absent" and "dht_map t k = Some (entry x)"
  using assms dht_find_Some_iff [of N t k a] that by (auto simp: dht_ok_def dht_map_def)

text \<open>
  The contract of the table holds for every set \<open>N\<close> of names none of which is a prefix of another and all of which can be inserted.
\<close>

definition dht_table :: "u8 list set \<Rightarrow> linkhash \<Rightarrow> bool" where
  "dht_table N t \<longleftrightarrow> prefix_free N \<and> (\<forall>k \<in> N. length k \<le> 25) \<and> dht_ok N t"

interpretation dht: name_table dht_put dht_get dht_del "dht_table N" N "{e. snd e \<noteq> absent}" dht_map for N
proof
  fix s k
  assume tab: "dht_table N s" and k: "k \<in> N"
  then have pf: "prefix_free N" and len: "length k \<le> 25" "\<forall>k \<in> N. length k \<le> 25" and ok: "dht_ok N s" and inv: "dht_inv N s"
    by (simp_all add: dht_table_def dht_ok_def)
  show "dht_get k s = Some (dht_map s k)"
  proof (cases "dht_find s k")
    case None
    then show ?thesis by (simp add: dht_get_def dht_get_find [OF pf inv k] dht_map_def)
  next
    case (Some a)
    from dht_find_obj [OF pf ok k Some] obtain x where
      "lobjs s a = Some x" "oval x \<noteq> absent" "dht_map s k = Some (entry x)" by metis
    with Some show ?thesis by (simp add: dht_get_def dht_get_find [OF pf inv k] entry_def)
  qed
  show "dht_put k v s = Some (s, False)" if "dht_map s k \<noteq> None" for v
    using that by (auto simp: dht_put_def dht_insert_link [OF pf inv k len(1)] dht_map_def)
  show "\<exists>s'. dht_put k v s = Some (s', True) \<and> dht_table N s' \<and>
      (\<forall>k' \<in> N. dht_map s' k' = ((dht_map s)(k \<mapsto> v)) k')"
    if v: "v \<in> {e. snd e \<noteq> absent}" and new: "dht_map s k = None" for v
  proof -
    let ?x = "\<lparr>oname = pad k, odentry_pos = fst v, oval = snd v\<rparr>"
    have f: "dht_find s k = None" using new dht_map_None_find [OF pf inv k] by simp
    have "dht_put k v s = Some (link_obj s (bid s k) ?x, True)"
      using f by (simp add: dht_put_def dht_insert_link [OF pf inv k len(1)] inodeaddr_roundtrip)
    moreover have "dht_table N (link_obj s (bid s k) ?x)"
      using link_obj_inv [OF pf inv k f, of ?x] ok v pf len(2)
      by (auto simp: dht_table_def dht_ok_def link_obj_def Let_def)
    moreover have "dht_map (link_obj s (bid s k) ?x) k' = ((dht_map s)(k \<mapsto> v)) k'"
      if "k' \<in> N" for k'
      using dht_map_link [OF pf inv k f _ that, of ?x] by (simp add: entry_def)
    ultimately show ?thesis by blast
  qed
  show "\<exists>s'. dht_del k s = Some (s', dht_map s k) \<and> dht_table N s' \<and>
      (\<forall>k' \<in> N. dht_map s' k' = ((dht_map s)(k := None)) k')"
  proof (cases "dht_find s k")
    case None
    then have "dht_map s k = None" by (simp add: dht_map_def)
    with None show ?thesis
      using tab by (auto simp: dht_del_def dht_remove_unlink [OF pf inv k])
  next
    case (Some a)
    from dht_find_obj [OF pf ok k Some] obtain x where
      x: "lobjs s a = Some x" "oval x \<noteq> absent" "dht_map s k = Some (entry x)" by metis
    have "dht_del k s = Some (unlink_obj s (bid s k) a, dht_map s k)"
      using Some x by (simp add: dht_del_def dht_remove_unlink [OF pf inv k] entry_def)
    moreover have "dht_table N (unlink_obj s (bid s k) a)"
      using unlink_obj_inv [OF pf inv k Some] ok pf len(2)
      by (auto simp: dht_table_def dht_ok_def unlink_obj_def Let_def)
    ultimately show ?thesis
      using dht_map_unlink [OF pf inv k Some] by blast
  qed
qed

lemma create_ok:
  assumes "n \<noteq> 0" and "n \<le> LINKHASH_MAX_BUCKET_COUNT" and "lobjs mem = Map.empty"
  shows "\<exists>t. userfs_dentry_hash_create (Some mem) n = Some t \<and> dht_ok N t \<and> dht_map t = Map.empty \<and>
    obj_count t = obj_count mem"
proof -
  have b: "bid (linkhash_init n mem) k < unat n" for k
    using bucket_index_less [of "linkhash_init n mem" "hash_of k"] assms(1)
    by (simp add: bid_def linkhash_init_def)
  have "dht_ok N (linkhash_init n mem)"
    using assms(1,3) by (simp add: dht_ok_def dht_inv_def linkhash_init_def linkhash_bucket_init_def
        atomic_set_def)
  moreover have "dht_map (linkhash_init n mem) k = None" for k
    using b [of k] by (simp add: dht_map_def dht_find_def) (simp add: linkhash_init_def linkhash_bucket_init_def)
  ultimately show ?thesis
    using assms by (auto simp: userfs_dentry_hash_create_def linkhash_init_def atomic_store_def not_less)
qed

text \<open>
  (C8) Refinement.  Let \<open>N\<close> be a set of names of at most 25 bytes none of which is a prefix of another.  On a freshly created table, every
  sequence of insertions, lookups and removals of names of \<open>N\<close>, in which the allocations succeed and no value is the one that
  stands for an absent entry, returns exactly what a finite map from names to entries returns, and never runs into undefined behaviour.
\<close>

theorem dentry_table_refines_map:
  assumes "userfs_dentry_hash_create (Some mem) n = Some t" and "lobjs mem = Map.empty"
    and "prefix_free N" and "\<forall>k \<in> N. length k \<le> 25" and "\<forall>p \<in> set ps. op_in N {e. snd e \<noteq> absent} p"
  shows "\<exists>t'. table_run dht_put dht_get dht_del ps t = Some (t', snd (spec_run ps Map.empty)) \<and>
    dht_ok N t' \<and> (\<forall>k \<in> N. dht_map t' k = fst (spec_run ps Map.empty) k)"
proof -
  have "n \<noteq> 0" "n \<le> LINKHASH_MAX_BUCKET_COUNT"
    using assms(1) by (auto simp: userfs_dentry_hash_create_def split: if_splits)
  from create_ok [OF this assms(2), of N] assms(1,3,4)
  have "dht_table N t" "dht_map t = Map.empty" by (auto simp: dht_table_def)
  from dht.run_refines [OF this(1) assms(5), of Map.empty] this(2) show ?thesis by (auto simp: dht_table_def)
qed

definition hash_mem :: linkhash where
  "hash_mem = \<lparr>bucket_count = 0, obj_count = 0, hlist_head = [], lbucket = [], lobjs = Map.empty, lfresh = 0\<rparr>"

theorem dentry_table_refines_map_witness:
  "\<exists>t t'. userfs_dentry_hash_create (Some hash_mem) 128 = Some t \<and>
     table_run dht_put dht_get dht_del [Put [97, 98] (3, 7), Get [99], Put [99] (4, 8), Get [97, 98], Del [97, 98], Get [97, 98]] t
       = Some (t', [Stored True, Found None, Stored True, Found (Some (3, 7)), Found (Some (3, 7)), Found None])"
proof -
  obtain t where t: "userfs_dentry_hash_create (Some hash_mem) 128 = Some t"
    by (simp add: userfs_dentry_hash_create_def)
  let ?ps = "[Put [97, 98] (3, 7), Get [99], Put [99] (4, 8), Get [97, 98], Del [97, 98], Get [97, 98]]
    :: (u8 list, u32 \<times> u64) table_op list"
  have pf: "prefix_free {[97, 98], [99]}" by (simp add: prefix_free_def name_ok_def)
  have len: "\<forall>k \<in> {[97, 98], [99]} :: u8 list set. length k \<le> 25" by simp
  have ops: "\<forall>p \<in> set ?ps. op_in {[97, 98], [99]} {e. snd e \<noteq> absent} p" by (simp add: absent_def)
  have mem: "lobjs hash_mem = Map.empty" by (simp add: hash_mem_def)
  obtain t' where "table_run dht_put dht_get dht_del ?ps t = Some (t', snd (spec_run ?ps Map.empty))"
    using dentry_table_refines_map [OF t mem pf len ops] by blast
  moreover have "snd (spec_run ?ps Map.empty) =
      [Stored True, Found None, Stored True, Found (Some (3, 7)), Found (Some (3, 7)), Found None]"
    by simp
  ultimately show ?thesis using t by metis
qed

section \<open>Updates and destruction\<close>

lemma dht_inv_update_obj:
  assumes "dht_inv N t" and "lobjs t a = Some x" and "oname y = oname x"
  shows "dht_inv N (t\<lparr>lobjs := (lobjs t)(a \<mapsto> y)\<rparr>)"
proof -
  have dom: "dom ((lobjs t)(a \<mapsto> y)) = dom (lobjs t)" using assms(2) by auto
  have nm: "map_option oname (((lobjs t)(a \<mapsto> y)) a') = map_option oname (lobjs t a')" for a'
    using assms(2,3) by simp
  have ex: "(\<exists>z nm. os a' = Some z \<and> nm \<in> N \<and> oname z = pad nm \<and> bid t nm = b) \<longleftrightarrow>
      (\<exists>n nm. map_option oname (os a') = Some n \<and> nm \<in> N \<and> n = pad nm \<and> bid t nm = b)" for os a' b
    by auto
  have un: "(\<forall>a a' x x'. os a = Some x \<and> os a' = Some x' \<and> oname x = oname x' \<longrightarrow> a = a') \<longleftrightarrow>
      (\<forall>a a' n. map_option oname (os a) = Some n \<and> map_option oname (os a') = Some n \<longrightarrow> a = a')" for os
    by auto
  let ?t = "t\<lparr>lobjs := (lobjs t)(a \<mapsto> y)\<rparr>"
  have sel: "bucket_count ?t = bucket_count t" "lbucket ?t = lbucket t" "lfresh ?t = lfresh t"
      "hlist_head ?t = hlist_head t" "lobjs ?t = (lobjs t)(a \<mapsto> y)"
    by simp_all
  show ?thesis
    using assms(1) unfolding dht_inv_def ex un sel bid_cong nm dom .
qed

lemma dht_map_update_obj:
  assumes "prefix_free N" and "dht_inv N t" and "lobjs t a = Some x" and "oname y = oname x"
    and "oname x = pad k" and "k \<in> N" and "k' \<in> N"
  shows "dht_map (t\<lparr>lobjs := (lobjs t)(a \<mapsto> y)\<rparr>) k' = ((dht_map t)(k \<mapsto> entry y)) k'"
proof -
  let ?t = "t\<lparr>lobjs := (lobjs t)(a \<mapsto> y)\<rparr>"
  note inv' = dht_inv_update_obj [OF assms(2-4)]
  have os: "lobjs ?t = (lobjs t)(a \<mapsto> y)" by simp
  show ?thesis
  proof (cases "k' = k")
    case True
    have "dht_map ?t k = Some (entry y)"
      unfolding dht_map_eq [OF assms(1) inv' assms(6)] os
      by (intro exI [of _ a] exI [of _ y]) (simp add: assms(4,5))
    then show ?thesis using True by simp
  next
    case False
    then have "pad k \<noteq> pad k'" using pad_eq_iff [OF assms(1,6,7)] by simp
    then have "dht_map ?t k' = Some e \<longleftrightarrow> dht_map t k' = Some e" for e
      unfolding dht_map_eq [OF assms(1) inv' assms(7)] dht_map_eq [OF assms(1,2,7)] os
      using assms(3-5) by (metis fun_upd_apply option.inject)
    then show ?thesis using False by (intro option_eqI) simp
  qed
qed

lemma dht_map_find:
  assumes "prefix_free N" and "dht_inv N t" and "k \<in> N" and "dht_map t k = Some (d, v)"
  obtains a x where "dht_find t k = Some a" and "lobjs t a = Some x" and "oname x = pad k"
    and "odentry_pos x = d" and "oval x = v" and "chain_of t (bid t k) \<noteq> []"
proof -
  obtain a where a: "dht_find t k = Some a" using assms(4) by (auto simp: dht_map_def split: bind_splits)
  then obtain x where x: "lobjs t a = Some x" "oname x = pad k"
    using dht_find_Some_iff [OF assms(1-3)] by blast
  moreover have "chain_of t (bid t k) \<noteq> []" using a by (auto simp: dht_find_def)
  ultimately show thesis using a assms(4) that by (auto simp: dht_map_def entry_def)
qed

lemma dht_get_map:
  assumes "prefix_free N" and "dht_inv N t" and "k \<in> N" and "dht_map t k = Some (d, v)"
  shows "userfs_dentry_hash_get k (nlen k) dpos (Some t) = Some (d, v)"
proof -
  from dht_map_find [OF assms] obtain a x where "dht_find t k = Some a" "lobjs t a = Some x" "odentry_pos x = d" "oval x = v"
    by metis
  then show ?thesis using dht_get_find [OF assms(1-3)] by (simp add: entry_def)
qed

lemma dht_update_addr:
  assumes "prefix_free N" and "dht_inv N t" and "k \<in> N" and "dht_map t k = Some (d, v)"
  obtains t' a where "userfs_dentry_hash_update k (nlen k) ty addr t = Some (t', Some a)" and "dht_inv N t'"
    and "\<And>k'. k' \<in> N \<Longrightarrow> dht_map t' k' = ((dht_map t)(k \<mapsto> (d, USERFS_INODEADDRINFO_CAL ty addr))) k'"
proof -
  have "name_ok k" using assms by (simp add: prefix_free_def)
  note run = dht_check [OF assms(1-3)] bucket_of_name [OF assms(2) this]
  from dht_map_find [OF assms] obtain a x where x: "dht_find t k = Some a" "lobjs t a = Some x" "oname x = pad k"
      "odentry_pos x = d" "oval x = v" "chain_of t (bid t k) \<noteq> []" by metis
  let ?y = "x\<lparr>oval := USERFS_INODEADDRINFO_CAL ty addr\<rparr>"
  have "userfs_dentry_hash_update k (nlen k) ty addr t = Some (t\<lparr>lobjs := (lobjs t)(a \<mapsto> ?y)\<rparr>, Some a)"
    using run x by (simp add: userfs_dentry_hash_update_def)
  then show thesis
    using dht_inv_update_obj [OF assms(2) x(2), of ?y] dht_map_update_obj [OF assms(1,2) x(2) _ x(3) assms(3), of ?y] x(4)
    by (intro that) (auto simp: entry_def)
qed

lemma dht_update_pos:
  assumes "prefix_free N" and "dht_inv N t" and "k \<in> N" and "dht_map t k = Some (d, v)"
  obtains t' a where "userfs_dentry_hash_update_dentrypos k (nlen k) pos t = Some (t', Some a)" and "dht_inv N t'"
    and "\<And>k'. k' \<in> N \<Longrightarrow> dht_map t' k' = ((dht_map t)(k \<mapsto> (pos, v))) k'"
proof -
  have "name_ok k" using assms by (simp add: prefix_free_def)
  note run = dht_check [OF assms(1-3)] bucket_of_name [OF assms(2) this]
  from dht_map_find [OF assms] obtain a x where x: "dht_find t k = Some a" "lobjs t a = Some x" "oname x = pad k"
      "odentry_pos x = d" "oval x = v" "chain_of t (bid t k) \<noteq> []" by metis
  let ?y = "x\<lparr>odentry_pos := pos\<rparr>"
  have "userfs_dentry_hash_update_dentrypos k (nlen k) pos t = Some (t\<lparr>lobjs := (lobjs t)(a \<mapsto> ?y)\<rparr>, Some a)"
    using run x by (simp add: userfs_dentry_hash_update_dentrypos_def)
  then show thesis
    using dht_inv_update_obj [OF assms(2) x(2), of ?y] dht_map_update_obj [OF assms(1,2) x(2) _ x(3) assms(3), of ?y] x(5)
    by (intro that) (auto simp: entry_def)
qed

lemma dht_insert_map:
  assumes "prefix_free N" and "dht_inv N t" and "k \<in> N" and "dht_map t k = None" and "length k \<le> 25"
  obtains t' where "userfs_dentry_hash_insert True k (nlen k) ty addr pos t = Some (t', Some (lfresh t))" and "dht_inv N t'"
    and "\<And>k'. k' \<in> N \<Longrightarrow> dht_map t' k' = ((dht_map t)(k \<mapsto> (pos, USERFS_INODEADDRINFO_CAL ty addr))) k'"
proof -
  let ?x = "\<lparr>oname = pad k, odentry_pos = pos, oval = USERFS_INODEADDRINFO_CAL ty addr\<rparr>"
  have f: "dht_find t k = None" using assms(4) dht_map_None_find [OF assms(1-3)] by simp
  then have "userfs_dentry_hash_insert True k (nlen k) ty addr pos t = Some (link_obj t (bid t k) ?x, Some (lfresh t))"
    by (simp add: dht_insert_link [OF assms(1-3,5)])
  then show thesis
    using link_obj_inv [OF assms(1-3) f, of ?x] dht_map_link [OF assms(1-3) f, of ?x]
    by (intro that) (auto simp: entry_def)
qed

lemma dht_remove_map:
  assumes "prefix_free N" and "dht_inv N t" and "k \<in> N" and "dht_map t k = Some (d, v)"
  obtains t' where "userfs_dentry_hash_remove k (nlen k) dpos (Some t) = Some (Some t', d, v)" and "dht_inv N t'"
    and "\<And>k'. k' \<in> N \<Longrightarrow> dht_map t' k' = ((dht_map t)(k := None)) k'"
proof -
  from dht_map_find [OF assms] obtain a x where x: "dht_find t k = Some a" "lobjs t a = Some x" "odentry_pos x = d" "oval x = v"
    by metis
  then have "userfs_dentry_hash_remove k (nlen k) dpos (Some t) = Some (Some (unlink_obj t (bid t k) a), d, v)"
    by (simp add: dht_remove_unlink [OF assms(1-3)])
  then show thesis
    using unlink_obj_inv [OF assms(1-3) x(1)] dht_map_unlink [OF assms(1-3) x(1)] by (rule that)
qed

text \<open>
  \<open>userfs_dentry_hash_update\<close> replaces the inode address of exactly the named entry, and
  \<open>userfs_dentry_hash_update_dentrypos\<close> its position; both return \<open>NULL\<close> and change nothing when
  the name is not stored.
\<close>

theorem dentry_updates:
  assumes "prefix_free N" and "dht_inv N t" and "k \<in> N"
  shows "case dht_map t k of
      None \<Rightarrow> userfs_dentry_hash_update k (nlen k) ty addr t = Some (t, None) \<and>
        userfs_dentry_hash_update_dentrypos k (nlen k) pos t = Some (t, None)
    | Some (d, v) \<Rightarrow>
        (\<exists>t' a. userfs_dentry_hash_update k (nlen k) ty addr t = Some (t', Some a) \<and> dht_inv N t' \<and>
          (\<forall>k' \<in> N. dht_map t' k' = ((dht_map t)(k \<mapsto> (d, USERFS_INODEADDRINFO_CAL ty addr))) k')) \<and>
        (\<exists>t' a. userfs_dentry_hash_update_dentrypos k (nlen k) pos t = Some (t', Some a) \<and> dht_inv N t' \<and>
          (\<forall>k' \<in> N. dht_map t' k' = ((dht_map t)(k \<mapsto> (pos, v))) k'))"
proof (cases "dht_map t k")
  case None
  have k: "name_ok k" using assms by (simp add: prefix_free_def)
  have "dht_find t k = None" using None dht_map_None_find [OF assms] by simp
  then show ?thesis
    using None dht_check [OF assms] bucket_of_name [OF assms(2) k]
    by (simp add: userfs_dentry_hash_update_def userfs_dentry_hash_update_dentrypos_def)
next
  case (Some e)
  obtain d v where e: "e = (d, v)" by force
  note m = Some [unfolded e]
  obtain t' a where "userfs_dentry_hash_update k (nlen k) ty addr t = Some (t', Some a)" "dht_inv N t'"
      "\<And>k'. k' \<in> N \<Longrightarrow> dht_map t' k' = ((dht_map t)(k \<mapsto> (d, USERFS_INODEADDRINFO_CAL ty addr))) k'"
    by (rule dht_update_addr [OF assms m]) (rule that)
  moreover obtain t2 a2 where "userfs_dentry_hash_update_dentrypos k (nlen k) pos t = Some (t2, Some a2)" "dht_inv N t2"
      "\<And>k'. k' \<in> N \<Longrightarrow> dht_map t2 k' = ((dht_map t)(k \<mapsto> (pos, v))) k'"
    by (rule dht_update_pos [OF assms m]) (rule that)
  ultimately show ?thesis using m by (auto split: prod.split)
qed

definition hash_one :: linkhash where
  "hash_one = the (map_option fst (do {
     t \<leftarrow> userfs_dentry_hash_create (Some hash_mem) 128;
     userfs_dentry_hash_insert True [97, 98] 2 1 7 3 t }))"

lemma hash_one_ok: "dht_inv (names_of_length 2) hash_one \<and> dht_map hash_one [97, 98] = Some (3, USERFS_INODEADDRINFO_CAL 1 7)"
proof -
  have k: "[97, 98] \<in> names_of_length 2" by (simp add: names_of_length_def)
  obtain t where t: "userfs_dentry_hash_create (Some hash_mem) 128 = Some t"
      "dht_ok (names_of_length 2) t" "dht_map t = Map.empty"
    using create_ok [of 128 hash_mem "names_of_length 2"] by (auto simp: hash_mem_def)
  then have inv: "dht_inv (names_of_length 2) t" by (simp add: dht_ok_def)
  note pf = prefix_free_length [of 2]
  have f: "dht_find t [97, 98] = None" using t(3) dht_map_None_find [OF pf inv k] by simp
  let ?x = "\<lparr>oname = pad [97, 98], odentry_pos = 3, oval = USERFS_INODEADDRINFO_CAL 1 7\<rparr>"
  have "hash_one = link_obj t (bid t [97, 98]) ?x"
    using dht_insert_link [OF pf inv k _, of 1 7 3] f t(1) by (simp add: hash_one_def)
  then show ?thesis
    using link_obj_inv [OF pf inv k f, of ?x] dht_map_link [OF pf inv k f _ k, of ?x]
    by (simp add: entry_def)
qed

theorem dentry_updates_witness:
  "\<exists>t' a. userfs_dentry_hash_update [97, 98] 2 0 9 hash_one = Some (t', Some a) \<and>
     dht_map t' [97, 98] = Some (3, USERFS_INODEADDRINFO_CAL 0 9)"
  using dentry_updates [OF prefix_free_length hash_one_ok [THEN conjunct1], of "[97, 98]" 0 9 0]
    hash_one_ok by (auto simp: names_of_length_def)

lemma destroy_loop_frees:
  "distinct as \<Longrightarrow> set as \<subseteq> dom os \<Longrightarrow> destroy_loop as os = Some (os |` (- set as))"
proof (induction as arbitrary: os)
  case (Cons a as)
  then obtain x where x: "os a = Some x" by auto
  have "(os(a := None)) |` (- set as) = os |` (- set (a # as))"
    by (auto simp: restrict_map_def)
  moreover have "set as \<subseteq> dom (os(a := None))" using Cons.prems by auto
  ultimately show ?case using Cons x by simp
qed (simp add: restrict_map_def)

text \<open>
  (C29) \<open>userfs_dentry_hash_destroy\<close> ends after freeing every object of the table exactly once: no
  object is left, none is freed twice.
\<close>

theorem dentry_destroy_frees_all:
  assumes "dht_inv N t"
  shows "userfs_dentry_hash_destroy (Some t) = Some Map.empty"
proof -
  have "distinct (hlist_head t)" "set (hlist_head t) = dom (lobjs t)"
    using assms by (simp_all add: dht_inv_def)
  then have "destroy_loop (hlist_head t) (lobjs t) = Some (lobjs t |` (- dom (lobjs t)))"
    using destroy_loop_frees by auto
  also have "lobjs t |` (- dom (lobjs t)) = Map.empty"
    by (auto simp: restrict_map_def)
  finally show ?thesis by (simp add: userfs_dentry_hash_destroy_def)
qed

theorem dentry_destroy_frees_all_witness: "userfs_dentry_hash_destroy (Some hash_one) = Some Map.empty"
  using dentry_destroy_frees_all [OF hash_one_ok [THEN conjunct1]] .

section \<open>Where the code departs from its intent\<close>

lemma check_if_exists_prefix:
  assumes "name_ok k" and "\<forall>a \<in> set as. \<exists>x nm. os a = Some x \<and> name_ok nm \<and> oname x = pad nm"
    and "a \<in> set as" and "os a = Some x" and "oname x = pad nm" and "name_ok nm" and "prefix k nm"
  shows "\<exists>a' x' nm'. check_if_exists os as k (nlen k) = Some (Some a') \<and> a' \<in> set as \<and>
    os a' = Some x' \<and> oname x' = pad nm' \<and> name_ok nm' \<and> prefix k nm'"
  using assms(2,3)
proof (induction as)
  case (Cons c as)
  then obtain y n where y: "os c = Some y" "name_ok n" "oname y = pad n" by auto
  then have cmp: "strncmp_eq (oname y) k (unat (nlen k)) = Some (prefix k n)"
    using assms(1) by (simp add: strncmp_pad)
  show ?case
  proof (cases "prefix k n")
    case True
    then show ?thesis using y cmp by auto
  next
    case False
    then have "c \<noteq> a" using assms(4-7) y pad_inj [of nm n] by auto
    with Cons False cmp y(1) show ?thesis by fastforce
  qed
qed simp

text \<open>
  Names are compared over the length of the name searched only.  If a stored name \<open>nm\<close> has
  \<open>k\<close> as a prefix and both fall into one bucket, creating \<open>k\<close> is refused as \<open>already exists\<close>
  and looking \<open>k\<close> up returns the entry of another name.
\<close>

theorem dentry_prefix_confusion:
  assumes "dht_inv N t" and "\<forall>n \<in> N. name_ok n" and "name_ok k" and "length k \<le> 25"
    and "lobjs t a = Some x" and "oname x = pad nm" and "nm \<in> N" and "prefix k nm"
    and "bid t k = bid t nm"
  shows "userfs_dentry_hash_insert True k (nlen k) ty addr pos t = Some (t, None) \<and>
    (\<exists>a' x' nm'. userfs_dentry_hash_get k (nlen k) dpos (Some t) = Some (odentry_pos x', oval x') \<and>
      lobjs t a' = Some x' \<and> oname x' = pad nm' \<and> prefix k nm')"
proof -
  have ain: "a \<in> set (chain_of t (bid t k))"
    using obj_chain [OF assms(1,5)] assms(2,6,7,9) pad_inj by metis
  have chain: "\<forall>c \<in> set (chain_of t (bid t k)). \<exists>y n. lobjs t c = Some y \<and> name_ok n \<and> oname y = pad n"
    using chain_obj [OF assms(1) bid_less [OF assms(1)]] assms(2) by metis
  have "name_ok nm" using assms(2,7) by blast
  then obtain a' x' nm' where
    c: "check_if_exists (lobjs t) (chain_of t (bid t k)) k (nlen k) = Some (Some a')"
      "lobjs t a' = Some x'" "oname x' = pad nm'" "prefix k nm'"
    using check_if_exists_prefix [where os = "lobjs t", OF assms(3) chain ain assms(5,6) _ assms(8)]
    by blast
  from c bucket_of_name [OF assms(1,3)] show ?thesis
    using assms(3,4) by (auto simp: userfs_dentry_hash_insert_def userfs_dentry_hash_get_def Let_def)
qed

text \<open>With the 128 buckets of a mounted file system, \<open>file13\<close> hides \<open>file\<close>.\<close>

definition name_file :: "u8 list" where
  "name_file = [0x66, 0x69, 0x6c, 0x65]"

definition name_file13 :: "u8 list" where
  "name_file13 = [0x66, 0x69, 0x6c, 0x65, 0x31, 0x33]"

theorem dentry_prefix_confusion_witness:
  "\<exists>t t1 a. userfs_dentry_hash_create (Some hash_mem) 128 = Some t \<and>
     userfs_dentry_hash_insert True name_file13 (nlen name_file13) 1 7 3 t = Some (t1, Some a) \<and>
     userfs_dentry_hash_insert True name_file (nlen name_file) 1 9 4 t1 = Some (t1, None)"
proof -
  let ?N = "{name_file13}"
  have pf: "prefix_free ?N" by (simp add: prefix_free_def name_ok_def name_file13_def)
  obtain t where t: "userfs_dentry_hash_create (Some hash_mem) 128 = Some t"
      "dht_ok ?N t" "dht_map t = Map.empty"
    using create_ok [of 128 hash_mem ?N] by (auto simp: hash_mem_def)
  then have inv: "dht_inv ?N t" by (simp add: dht_ok_def)
  have f: "dht_find t name_file13 = None" using t(3) dht_map_None_find [OF pf inv] by simp
  let ?x = "\<lparr>oname = pad name_file13, odentry_pos = 3, oval = USERFS_INODEADDRINFO_CAL 1 7\<rparr>"
  let ?t1 = "link_obj t (bid t name_file13) ?x"
  have ins: "userfs_dentry_hash_insert True name_file13 (nlen name_file13) 1 7 3 t = Some (?t1, Some (lfresh t))"
    using dht_insert_link [OF pf inv, of name_file13 1 7 3] f by (simp add: name_file13_def)
  have inv1: "dht_inv ?N ?t1" using link_obj_inv [OF pf inv _ f] by simp
  have x: "lobjs ?t1 (lfresh t) = Some ?x" by (simp add: link_obj_def Let_def)
  have "bucket_count ?t1 = 128"
    using t(1) by (auto simp: userfs_dentry_hash_create_def linkhash_init_def link_obj_def Let_def)
  moreover have "unat (ucast (ucast (hash_of name_file) AND (127 :: u64)) :: u32) =
      unat (ucast (ucast (hash_of name_file13) AND (127 :: u64)) :: u32)"
    by code_simp
  ultimately have b: "bid ?t1 name_file = bid ?t1 name_file13"
    by (simp add: bid_def bucket_index_def)
  have "userfs_dentry_hash_insert True name_file (nlen name_file) 1 9 4 ?t1 = Some (?t1, None)"
    using dentry_prefix_confusion [OF inv1 _ _ _ x _ _ _ b, of 1 9 4 0]
    by (simp add: name_ok_def name_file_def name_file13_def)
  with t(1) ins show ?thesis by blast
qed

text \<open>
  The final shift of \<open>str2hash_u32\<close> clears the lowest bit of every hash, so every name falls
  into an even bucket, whatever the bucket count: half of the buckets are never used.
\<close>

theorem odd_buckets_unused:
  assumes "str2hash_u32 name len = Some hash"
  shows "even (unat (bucket_index t hash))"
proof -
  have "\<exists>h0'. str2hash_loop name n h0 h1 = Some h \<longrightarrow> h = push_bit 1 h0'" for n h0 h1 h
    by (induction name n h0 h1 rule: str2hash_loop.induct) (auto simp: Let_def)
  then obtain h' where h: "hash = push_bit 1 h'"
    using assms unfolding str2hash_u32_def by metis
  have "\<not> bit hash 0" unfolding h bit_push_bit_iff by simp
  then have "\<not> bit (bucket_index t hash) 0"
    by (simp add: bucket_index_def bit_simps)
  then have "\<not> bit (unat (bucket_index t hash)) 0" unfolding bit_unsigned_iff by simp
  then show ?thesis unfolding bit_0 by simp
qed

theorem odd_buckets_unused_witness: "even (unat (bucket_index hash_mem (hash_of [97])))"
  by (rule odd_buckets_unused [of "[97]" 1]) (rule str2hash_name [of "[97]", simplified], simp add: name_ok_def)

end
