(* ===== verification/Userfs_Init.thy ===== *)
theory Userfs_Init
  imports Bits Block_RW Mrheap Dentry_Hash
begin

text \<open>
  \<open>userfs/userfs_init.c\<close>: formatting (super block, block group descriptor table, root dentry table)
  and mounting (reading them back, building the block group index and the dentry hash table).

  A super block is named by the page it lies in; a pointer to the super block of the C code is
  that page's address plus the 12-byte block header, which the offsets \<open>sb_off\<close> include.
  Stack objects the code links into lists (\<open>dummy\<close>) are a pointer that is not yet set.
  The spin locks order concurrent callers and do nothing else here.
\<close>

section \<open>Block buffers\<close>

abbreviation USERFS_MAX_BLOCK_SIZE :: u32 where "USERFS_MAX_BLOCK_SIZE \<equiv> 67108864"
abbreviation USERFS_MIN_BLOCK_SIZE :: u32 where "USERFS_MIN_BLOCK_SIZE \<equiv> 1048576"

definition get_real_block_size :: "u32 \<Rightarrow> u32" where
  "get_real_block_size expect_block_size =
     (if expect_block_size > USERFS_MAX_BLOCK_SIZE then USERFS_MAX_BLOCK_SIZE
      else if expect_block_size < USERFS_MIN_BLOCK_SIZE then USERFS_MIN_BLOCK_SIZE
      else push_bit (unat (ulog2 expect_block_size)) 1)"

definition userfs_alloc_mbbuf :: "u32 \<Rightarrow> fs \<Rightarrow> (fs \<times> ptr) option" where
  "userfs_alloc_mbbuf metablock_size s =
     (if free_mbbuf_list s \<noteq> NULL
      then do {
        let mb_buf = free_mbbuf_list s;
        b \<leftarrow> bbufs s mb_buf;
        let s = s\<lparr>free_mbbuf_list := b_this_page b,
                  free_mbbuf_list_len := fst (atomic_sub (free_mbbuf_list_len s) 1)\<rparr>;
        s \<leftarrow> upd_bbuf mb_buf (\<lambda>_. bbuf_zero\<lparr>b_size := metablock_size, b_list_len := 1\<rparr>) s;
        Some (s, mb_buf)
      }
      else
        let (s, mb_buf) = malloc_bbuf s in
        if mb_buf = NULL then Some (s, NULL)
        else
          let (s, data) = malloc_data (unat metablock_size) s in
          do {
            s \<leftarrow> upd_bbuf mb_buf (\<lambda>b. b\<lparr>b_data := data\<rparr>) s;
            if data = NULL then do { s \<leftarrow> free_bbuf mb_buf s; Some (s, NULL) }
            else do {
              s \<leftarrow> upd_bbuf mb_buf (\<lambda>b. b\<lparr>b_size := metablock_size, b_list_len := 1\<rparr>) s;
              Some (s, mb_buf)
            }
          })"

definition userfs_free_mbbuf :: "ptr \<Rightarrow> fs \<Rightarrow> fs option" where
  "userfs_free_mbbuf mb_buf s =
     (if sint (atomic_get (free_mbbuf_list_len s)) > 256
      then do {
        b \<leftarrow> bbufs s mb_buf;
        s \<leftarrow> free_data (b_data b) s;
        free_bbuf mb_buf s
      }
      else do {
        let s = s\<lparr>free_mbbuf_list_len := fst (atomic_add (free_mbbuf_list_len s) 1)\<rparr>;
        s \<leftarrow> upd_bbuf mb_buf (\<lambda>b. b\<lparr>b_this_page := free_mbbuf_list s\<rparr>) s;
        b \<leftarrow> bbufs s mb_buf;
        Some (s\<lparr>free_mbbuf_list := b_this_page b\<rparr>)
      })"

definition sb_ld :: "fs \<Rightarrow> ptr \<Rightarrow> sb_field \<Rightarrow> u32 option" where
  "sb_ld s sb f = ld32 s sb (sb_off f)"

definition sb_st :: "ptr \<Rightarrow> sb_field \<Rightarrow> u32 \<Rightarrow> fs \<Rightarrow> fs option" where
  "sb_st sb f v = st32 sb (sb_off f) v"

definition mb_st :: "ptr \<Rightarrow> mblock_field \<Rightarrow> u32 \<Rightarrow> fs \<Rightarrow> fs option" where
  "mb_st p f v = st32 p (mb_off f) v"

definition userfs_get_new_metadata_block :: "ptr \<Rightarrow> u8 \<Rightarrow> fs \<Rightarrow> (fs \<times> ptr) option" where
  "userfs_get_new_metadata_block sb mb_type s = do {
     ms \<leftarrow> sb_ld s sb S_metablock_size;
     (s, mb_buf) \<leftarrow> userfs_alloc_mbbuf ms s;
     if mb_buf = NULL then Some (s, NULL)
     else do {
       (s, r) \<leftarrow> bitmap_get_first_free_at sb sb_bitmap_off s;
       let target_mb_id = (of_int r :: u32);
       if target_mb_id = - 1 then do { s \<leftarrow> userfs_free_mbbuf mb_buf s; Some (s, NULL) }
       else do {
         n \<leftarrow> sb_ld s sb S_free_metablock_count;
         s \<leftarrow> sb_st sb S_free_metablock_count (n - 1) s;
         s \<leftarrow> upd_bbuf mb_buf (\<lambda>b. b\<lparr>b_block_s_off := 0, b_blocknr := target_mb_id, b_type := ucast mb_type\<rparr>) s;
         Some (s, mb_buf)
       }
     }
   }"

definition userfs_get_used_metadata_block :: "u32 \<Rightarrow> u32 \<Rightarrow> u32 \<Rightarrow> fs \<Rightarrow> (fs \<times> ptr) option" where
  "userfs_get_used_metadata_block metablock_size first_mb_id mb_id s = do {
     (s, mb_buf) \<leftarrow> userfs_alloc_mbbuf metablock_size s;
     if mb_buf = NULL then Some (s, NULL)
     else do {
       (s, r) \<leftarrow> userfs_read_metadata_block mb_buf first_mb_id metablock_size mb_id s;
       if r < 0 then do { s \<leftarrow> userfs_free_mbbuf mb_buf s; Some (s, NULL) }
       else Some (s, mb_buf)
     }
   }"

text \<open>
  The list of used blocks: \<open>lastp\<close> is the buffer \<open>*mb_buf_list\<close> points to, none while it is the stack
  dummy; \<open>firstp\<close> is the dummy's \<open>b_this_page\<close>, unset until the first buffer is linked.
\<close>

fun blocklist_loop ::
    "ptr \<Rightarrow> u32 list \<Rightarrow> ptr option \<Rightarrow> ptr option \<Rightarrow> u32 \<Rightarrow> fs \<Rightarrow> (fs \<times> ptr option \<times> u32) option" where
  "blocklist_loop sb [] lastp firstp n s = Some (s, firstp, n)"
| "blocklist_loop sb (target_mb_id # ids) lastp firstp n s = do {
     ms \<leftarrow> sb_ld s sb S_metablock_size;
     (s, mb_buf) \<leftarrow> userfs_alloc_mbbuf ms s;
     if mb_buf = NULL then Some (s, firstp, n)
     else do {
       s \<leftarrow> upd_bbuf mb_buf (\<lambda>b. b\<lparr>b_block_s_off := 0\<rparr>) s;
       fm \<leftarrow> sb_ld s sb S_first_metablock;
       ms \<leftarrow> sb_ld s sb S_metablock_size;
       (s, r) \<leftarrow> userfs_read_metadata_block mb_buf fm ms target_mb_id s;
       if r < 0 then do {
         s \<leftarrow> userfs_free_mbbuf mb_buf s;
         blocklist_loop sb ids lastp firstp n s
       }
       else do {
         s \<leftarrow> upd_bbuf mb_buf (\<lambda>b. b\<lparr>b_list_len := ucast n\<rparr>) s;
         s \<leftarrow> (case lastp of None \<Rightarrow> Some s | Some l \<Rightarrow> upd_bbuf l (\<lambda>b. b\<lparr>b_this_page := mb_buf\<rparr>) s);
         blocklist_loop sb ids (Some mb_buf) (if lastp = None then Some mb_buf else firstp) (n + 1) s
       }
     }
   }"

definition userfs_get_used_metadata_blocklist :: "ptr \<Rightarrow> u32 list \<Rightarrow> fs \<Rightarrow> (fs \<times> ptr \<times> u32) option" where
  "userfs_get_used_metadata_blocklist sb mb_id s = do {
     (s, firstp, n) \<leftarrow> blocklist_loop sb mb_id None None 0 s;
     head \<leftarrow> firstp;
     s \<leftarrow> upd_bbuf head (\<lambda>b. b\<lparr>b_list_len := ucast n\<rparr>) s;
     Some (s, head, n)
   }"

section \<open>Formatting\<close>

text \<open>The results: the super block's page (\<open>NULL\<close> on failure), its buffer, the real block size.\<close>

definition userfs_suber_block_alloc :: "u32 \<Rightarrow> u32 \<Rightarrow> u64 \<Rightarrow> fs \<Rightarrow> (fs \<times> ptr \<times> ptr \<times> u32) option" where
  "userfs_suber_block_alloc block_size metadata_block_size disk_size s = do {
     let real_block_size = get_real_block_size block_size;
     let total_block_count = disk_size div ucast real_block_size;
     if metadata_block_size = 0 then None
     else do {
       let metadata_block_count = real_block_size div metadata_block_size;
       (s, buf) \<leftarrow> userfs_alloc_mbbuf metadata_block_size s;
       if buf = NULL then Some (s, NULL, NULL, 0)
       else do {
         b \<leftarrow> bbufs s buf;
         let sb = b_data b;
         s \<leftarrow> sb_st sb S_first_datablock 1 s;
         s \<leftarrow> sb_st sb S_data_block_count (ucast (total_block_count - 1)) s;
         n \<leftarrow> sb_ld s sb S_data_block_count;
         s \<leftarrow> sb_st sb S_free_data_block_count (n - 1) s;
         s \<leftarrow> sb_st sb S_data_block_size real_block_size s;
         s \<leftarrow> bitmap_init_at sb sb_bitmap_off (drop_bit 3 metadata_block_count) s;
         s \<leftarrow> sb_st sb S_metablock_count metadata_block_count s;
         s \<leftarrow> sb_st sb S_metablock_size metadata_block_size s;
         n \<leftarrow> sb_ld s sb S_metablock_count;
         s \<leftarrow> sb_st sb S_free_metablock_count n s;
         s \<leftarrow> sb_st sb S_first_metablock 0 s;
         s \<leftarrow> sb_st sb S_first_dentry_mblock 0 s;
         let s = s\<lparr>g_sb := sb\<rparr>;
         s \<leftarrow> mb_st sb Block_type USERFS_BTYPE_SUPER s;
         fm \<leftarrow> sb_ld s sb S_first_metablock;
         s \<leftarrow> mb_st sb H_next fm s;
         s \<leftarrow> mb_st sb H_prev fm s;
         s \<leftarrow> upd_bbuf buf (\<lambda>b. b\<lparr>b_type := USERFS_BTYPE_SUPER\<rparr>) s;
         (s, r) \<leftarrow> bitmap_get_first_free_at sb sb_bitmap_off s;
         s \<leftarrow> upd_bbuf buf (\<lambda>b. b\<lparr>b_blocknr := of_int r\<rparr>) s;
         Some (s, g_sb s, buf, real_block_size)
       }
     }
   }"

fun bgroup_desc_loop :: "ptr \<Rightarrow> u32 \<Rightarrow> u32 \<Rightarrow> nat \<Rightarrow> nat \<Rightarrow> fs \<Rightarrow> fs option" where
  "bgroup_desc_loop p blocks_per_group bgroup_desc_size off 0 s = Some s"
| "bgroup_desc_loop p blocks_per_group bgroup_desc_size off (Suc k) s = do {
     s \<leftarrow> st16 p (off + bgd_off Bg_block_count) (ucast blocks_per_group) s;
     c \<leftarrow> ld16 s p (off + bgd_off Bg_block_count);
     s \<leftarrow> st16 p (off + bgd_off Bg_free_block_count) c s;
     s \<leftarrow> bitmap_init_at p (off + bgd_bitmap_off) (drop_bit 3 blocks_per_group) s;
     bgroup_desc_loop p blocks_per_group bgroup_desc_size (off + unat bgroup_desc_size) k s
   }"

definition userfs_bgroup_desc_block_init :: "ptr \<Rightarrow> u32 \<Rightarrow> u32 \<Rightarrow> u32 \<Rightarrow> u32 \<Rightarrow> u32 \<Rightarrow> fs \<Rightarrow> fs option" where
  "userfs_bgroup_desc_block_init bbuf blocks_per_group bgroup_desc_per_mb_count bgroup_desc_size
       prev_block next_block s = do {
     b \<leftarrow> bbufs s bbuf;
     let block = b_data b;
     s \<leftarrow> mb_st block H_next next_block s;
     s \<leftarrow> mb_st block H_prev prev_block s;
     s \<leftarrow> mb_st block Block_type USERFS_BTYPE_BGROUP_DESC s;
     bgroup_desc_loop block blocks_per_group bgroup_desc_size mblock_hdr (unat bgroup_desc_per_mb_count) s
   }"

definition bitmap_len_of :: "u32 \<Rightarrow> u32" where
  "bitmap_len_of blocks_per_group = drop_bit 3 (blocks_per_group + 8)"

definition bgroup_desc_size_of :: "u32 \<Rightarrow> u32" where
  "bgroup_desc_size_of blocks_per_group =
     ucast ((of_nat bgroup_desc_hdr :: u64) + ucast (bitmap_len_of blocks_per_group))"

definition bgroup_desc_per_mb_of :: "u32 \<Rightarrow> u32 \<Rightarrow> u32" where
  "bgroup_desc_per_mb_of metablock_size bgroup_desc_size =
     ucast ((ucast metablock_size - of_nat mblock_hdr :: u64) div ucast bgroup_desc_size)"

text \<open>The loop over the further descriptor blocks; \<open>lh\<close> is the head whose length it counts.\<close>

fun bgroup_table_loop :: "ptr \<Rightarrow> u32 \<Rightarrow> u32 \<Rightarrow> u32 \<Rightarrow> u32 \<Rightarrow> ptr \<Rightarrow> ptr \<Rightarrow> u32 \<Rightarrow> nat \<Rightarrow> fs \<Rightarrow> fs option" where
  "bgroup_table_loop sb bpg per_mb dsz next_block lh cur prev_block 0 s = Some s"
| "bgroup_table_loop sb bpg per_mb dsz next_block lh cur prev_block (Suc k) s = do {
     (s, new_bbuf) \<leftarrow> userfs_get_new_metadata_block sb (ucast USERFS_BTYPE_BGROUP_DESC) s;
     if new_bbuf = NULL then Some s
     else do {
       s \<leftarrow> userfs_bgroup_desc_block_init new_bbuf bpg per_mb dsz prev_block next_block s;
       nb \<leftarrow> bbufs s new_bbuf;
       cb \<leftarrow> bbufs s cur;
       s \<leftarrow> mb_st (b_data cb) H_next (b_blocknr nb) s;
       s \<leftarrow> upd_bbuf cur (\<lambda>b. b\<lparr>b_this_page := new_bbuf\<rparr>) s;
       s \<leftarrow> upd_bbuf lh (\<lambda>b. b\<lparr>b_list_len := b_list_len b + 1\<rparr>) s;
       bgroup_table_loop sb bpg per_mb dsz next_block lh new_bbuf (b_blocknr nb) k s
     }
   }"

definition userfs_bgroup_desc_table_init :: "ptr \<Rightarrow> u32 \<Rightarrow> fs \<Rightarrow> (fs \<times> ptr) option" where
  "userfs_bgroup_desc_table_init sb blocks_per_group s = do {
     let dsz = bgroup_desc_size_of blocks_per_group;
     ms \<leftarrow> sb_ld s sb S_metablock_size;
     let per_mb = bgroup_desc_per_mb_of ms dsz;
     dcount \<leftarrow> sb_ld s sb S_data_block_count;
     if dsz = 0 \<or> blocks_per_group = 0 \<or> per_mb = 0 then None
     else do {
       let bgroup_desc_count = (dcount + blocks_per_group - 1) div blocks_per_group;
       let mb_count = (bgroup_desc_count + per_mb - 1) div per_mb;
       fm \<leftarrow> sb_ld s sb S_first_metablock;
       (s, lh) \<leftarrow> userfs_get_new_metadata_block sb (ucast USERFS_BTYPE_BGROUP_DESC) s;
       if lh = NULL then Some (s, NULL)
       else do {
         s \<leftarrow> upd_bbuf lh (\<lambda>b. b\<lparr>b_list_len := 1\<rparr>) s;
         s \<leftarrow> userfs_bgroup_desc_block_init lh blocks_per_group per_mb dsz fm fm s;
         b \<leftarrow> bbufs s lh;
         s \<leftarrow> sb_st sb S_first_bgroup_desc_mblock (b_blocknr b) s;
         s \<leftarrow> bgroup_table_loop sb blocks_per_group per_mb dsz fm lh lh (b_blocknr b) (unat mb_count - 1) s;
         s \<leftarrow> sb_st sb S_data_block_group_count bgroup_desc_count s;
         s \<leftarrow> sb_st sb S_data_block_per_group blocks_per_group s;
         n \<leftarrow> sb_ld s sb S_data_block_group_count;
         s \<leftarrow> sb_st sb S_free_data_block_group_count n s;
         s \<leftarrow> sb_st sb S_bgroup_desc_per_mb_count per_mb s;
         s \<leftarrow> sb_st sb S_bgroup_desc_size dsz s;
         Some (s, lh)
       }
     }
   }"

definition dth_st :: "ptr \<Rightarrow> dth_field \<Rightarrow> u32 \<Rightarrow> fs \<Rightarrow> fs option" where
  "dth_st p f v = st32 p (dth_off f) v"

definition dth_ld :: "fs \<Rightarrow> ptr \<Rightarrow> dth_field \<Rightarrow> u32 option" where
  "dth_ld s p f = ld32 s p (dth_off f)"

definition userfs_dentry_table_block_init :: "ptr \<Rightarrow> u32 \<Rightarrow> u32 \<Rightarrow> u32 \<Rightarrow> fs \<Rightarrow> fs option" where
  "userfs_dentry_table_block_init bbuf dentry_per_mb_count prev_block next_block s = do {
     b \<leftarrow> bbufs s bbuf;
     let block = b_data b;
     s \<leftarrow> mb_st block H_next next_block s;
     s \<leftarrow> mb_st block H_prev prev_block s;
     s \<leftarrow> mb_st block Block_type USERFS_BTYPE_DENTRY s;
     s \<leftarrow> dth_st block Dfd_dentry_count dentry_per_mb_count s;
     s \<leftarrow> dth_st block Dfd_first_dentry 0 s;
     s \<leftarrow> dth_st block Dfd_first_free_dentry 0 s;
     dth_st block Dfd_used_dentry_count 0 s
   }"

definition dentry_per_mb_of :: "u32 \<Rightarrow> u32" where
  "dentry_per_mb_of metablock_size = ucast ((ucast metablock_size :: u64) div of_nat dentry_size - 2)"

definition userfs_root_dentry_table_init :: "ptr \<Rightarrow> fs \<Rightarrow> (fs \<times> ptr) option" where
  "userfs_root_dentry_table_init sb s = do {
     ms \<leftarrow> sb_ld s sb S_metablock_size;
     let dentry_per_mb_count = dentry_per_mb_of ms;
     fm \<leftarrow> sb_ld s sb S_first_metablock;
     (s, bbuf) \<leftarrow> userfs_get_new_metadata_block sb (ucast USERFS_BTYPE_DENTRY) s;
     if bbuf = NULL then Some (s, NULL)
     else do {
       s \<leftarrow> upd_bbuf bbuf (\<lambda>b. b\<lparr>b_list_len := 1\<rparr>) s;
       s \<leftarrow> userfs_dentry_table_block_init bbuf dentry_per_mb_count fm fm s;
       b \<leftarrow> bbufs s bbuf;
       s \<leftarrow> sb_st sb S_first_dentry_mblock (b_blocknr b) s;
       n \<leftarrow> sb_ld s sb S_free_dentry_count;
       s \<leftarrow> sb_st sb S_free_dentry_count (n + dentry_per_mb_count) s;
       Some (s, bbuf)
     }
   }"

section \<open>Mounting\<close>

text \<open>
  The chains of descriptor and dentry blocks on disk.  The loop ends when \<open>h.next\<close> is the first
  metadata block; a chain that never gets there makes it run forever, which \<open>None\<close> covers too.
  \<open>tail\<close> is the last buffer linked, none while that is the stack dummy, and \<open>firstp\<close> the
  dummy's \<open>b_this_page\<close>.
\<close>

partial_function (option) mount_chain ::
    "u32 \<Rightarrow> u32 \<Rightarrow> u32 \<Rightarrow> u32 \<Rightarrow> ptr option \<Rightarrow> ptr option \<Rightarrow> u32 \<Rightarrow> fs \<Rightarrow> (fs \<times> ptr option) option" where
  "mount_chain metablock_size first_metablock_id stop next_mblock tail firstp bbuf_list_len s =
     (if next_mblock = stop then Some (s, firstp)
      else do {
        (s, cur) \<leftarrow> userfs_get_used_metadata_block metablock_size first_metablock_id next_mblock s;
        if cur = NULL then Some (s, firstp)
        else do {
          s \<leftarrow> upd_bbuf cur (\<lambda>b. b\<lparr>b_list_len := ucast bbuf_list_len\<rparr>) s;
          s \<leftarrow> (case tail of None \<Rightarrow> Some s | Some l \<Rightarrow> upd_bbuf l (\<lambda>b. b\<lparr>b_this_page := cur\<rparr>) s);
          b \<leftarrow> bbufs s cur;
          nxt \<leftarrow> ld32 s (b_data b) (mb_off H_next);
          mount_chain metablock_size first_metablock_id stop nxt (Some cur)
            (if tail = None then Some cur else firstp) (bbuf_list_len + 1) s
        }
      })"

text \<open>The results: the super block's buffer (\<open>NULL\<close> on failure) and the two list heads.\<close>

definition userfs_mount_init :: "u32 \<Rightarrow> u32 \<Rightarrow> fs \<Rightarrow> (fs \<times> ptr \<times> ptr \<times> ptr) option" where
  "userfs_mount_init metablock_size first_metablock_id s = do {
     (s, sb_buf) \<leftarrow> userfs_get_used_metadata_block metablock_size first_metablock_id 0 s;
     if sb_buf = NULL then do { s \<leftarrow> userfs_free_mbbuf sb_buf s; Some (s, NULL, NULL, NULL) }
     else do {
       b \<leftarrow> bbufs s sb_buf;
       if b_type b \<noteq> USERFS_BTYPE_SUPER
       then do { s \<leftarrow> userfs_free_mbbuf sb_buf s; Some (s, NULL, NULL, NULL) }
       else do {
         let sb = b_data b;
         stop \<leftarrow> sb_ld s sb S_first_metablock;
         nxt \<leftarrow> sb_ld s sb S_first_bgroup_desc_mblock;
         (s, firstp) \<leftarrow> mount_chain metablock_size first_metablock_id stop nxt None None 1 s;
         bg_desc_table \<leftarrow> firstp;
         stop \<leftarrow> sb_ld s sb S_first_metablock;
         nxt \<leftarrow> sb_ld s sb S_first_dentry_mblock;
         (s, firstp) \<leftarrow> mount_chain metablock_size first_metablock_id stop nxt None firstp 1 s;
         dentry_table \<leftarrow> firstp;
         Some (s, sb_buf, bg_desc_table, dentry_table)
       }
     }
   }"

text \<open>The heap pointer of the index is \<open>NULL\<close> when its creation failed, which the code does not check.\<close>

record bgd_index_list =
  bgi_bgd_mb_count :: u32
  bgi_blocknr2bbuf :: "ptr list"
  bgi_maxroot_heap :: "mrheap option"

text \<open>The inner loop: one heap entry per descriptor of the block; false in the result: an insert failed.\<close>

fun bgd_insert_loop ::
    "ptr \<Rightarrow> u32 \<Rightarrow> nat \<Rightarrow> nat \<Rightarrow> u32 \<Rightarrow> mrheap option \<Rightarrow> fs \<Rightarrow> (fs \<times> bool \<times> mrheap option \<times> u32) option" where
  "bgd_insert_loop p dsz off 0 bgroup_id hp s = Some (s, True, hp, bgroup_id)"
| "bgd_insert_loop p dsz off (Suc k) bgroup_id hp s = do {
     fr \<leftarrow> ld16 s p (off + bgd_off Bg_free_block_count);
     h \<leftarrow> hp;
     (h, e) \<leftarrow> userfs_mrheap_insert (malloc_ok s) h bgroup_id (ucast fr) None;
     let s = s\<lparr>brk := Suc (brk s)\<rparr>;
     if e = None then Some (s, False, Some h, bgroup_id)
     else bgd_insert_loop p dsz (off + unat dsz) k (bgroup_id + 1) (Some h) s
   }"

text \<open>
  The outer loop over the descriptor buffers; \<open>cap\<close> is the number of bytes usable in the array
  \<open>bgi_blocknr2bbuf\<close>, which stores 8-byte pointers.
\<close>

partial_function (option) bgd_index_loop ::
    "ptr \<Rightarrow> u32 \<Rightarrow> nat \<Rightarrow> ptr \<Rightarrow> u32 \<Rightarrow> u32 \<Rightarrow> ptr list \<Rightarrow> mrheap option \<Rightarrow> fs \<Rightarrow>
     (fs \<times> bgd_index_list option) option" where
  "bgd_index_loop sb dsz cap cur bgroup_idx_count bgroup_id arr hp s =
     (if cur = NULL
      then Some (s, Some \<lparr>bgi_bgd_mb_count = of_nat (length arr), bgi_blocknr2bbuf = arr, bgi_maxroot_heap = hp\<rparr>)
      else if 8 * Suc (length arr) > cap then None
      else do {
        per_mb \<leftarrow> sb_ld s sb S_bgroup_desc_per_mb_count;
        let n = (if bgroup_idx_count > per_mb then per_mb else bgroup_idx_count);
        b \<leftarrow> bbufs s cur;
        (s, ok, hp, bgroup_id) \<leftarrow> bgd_insert_loop (b_data b) dsz mblock_hdr (unat n) bgroup_id hp s;
        if \<not> ok then Some (s, None)
        else bgd_index_loop sb dsz cap (b_this_page b) (bgroup_idx_count - n) bgroup_id (arr @ [cur]) hp s
      })"

definition userfs_mount_bgdindex_list_init :: "ptr \<Rightarrow> ptr \<Rightarrow> fs \<Rightarrow> (fs \<times> bgd_index_list option) option" where
  "userfs_mount_bgdindex_list_init bgroup_desc_bbuf_list sb s = do {
     b \<leftarrow> bbufs s bgroup_desc_bbuf_list;
     if b_type b \<noteq> USERFS_BTYPE_BGROUP_DESC then Some (s, None)
     else if \<not> malloc_ok s then Some (s\<lparr>brk := Suc (brk s)\<rparr>, None)
     else do {
       let s = s\<lparr>brk := Suc (brk s)\<rparr>;
       bgroup_idx_count \<leftarrow> sb_ld s sb S_data_block_group_count;
       bgroup_per_mb_count \<leftarrow> sb_ld s sb S_bgroup_desc_per_mb_count;
       if bgroup_per_mb_count = 0 then None
       else do {
         let n = unat (bgroup_idx_count div bgroup_per_mb_count);
         let cap = (if malloc_ok s then usable s n else 0);
         let s = s\<lparr>brk := Suc (brk s)\<rparr>;
         let m1 = malloc_ok s;
         let s = s\<lparr>brk := Suc (brk s)\<rparr>;
         let m2 = malloc_ok s;
         let s = (if m1 then s\<lparr>brk := Suc (brk s)\<rparr> else s);
         let hp = userfs_mrheap_create m1
           (if m2 then Some (\<lambda>_. \<lparr>bgi_free_blocks_count = 0, bgi_bgroup_nr = 0\<rparr>) else None)
           (ucast ((8 :: u64) * ucast bgroup_idx_count));
         dsz \<leftarrow> sb_ld s sb S_bgroup_desc_size;
         bgd_index_loop sb dsz cap bgroup_desc_bbuf_list bgroup_idx_count 0 [] hp s
       }
     }
   }"

text \<open>The bytes from \<open>off\<close> to the end of the page, and \<open>strlen\<close> on them.\<close>

definition page_tail :: "fs \<Rightarrow> ptr \<Rightarrow> nat \<Rightarrow> u8 list option" where
  "page_tail s p off = do {
     d \<leftarrow> datas s p;
     if off \<le> blen d then Some (map (bat d) [off..<blen d]) else None
   }"

definition strlen_of :: "u8 list \<Rightarrow> u32 option" where
  "strlen_of bs = (if 0 \<in> set bs then Some (of_nat (length (takeWhile (\<lambda>c. c \<noteq> 0) bs))) else None)"

fun dentry_hashtable_loop :: "ptr \<Rightarrow> nat \<Rightarrow> nat \<Rightarrow> linkhash \<Rightarrow> fs \<Rightarrow> (fs \<times> linkhash option) option" where
  "dentry_hashtable_loop p i 0 t s = Some (s, Some t)"
| "dentry_hashtable_loop p i (Suc k) t s = do {
     fd \<leftarrow> dth_ld s p Dfd_first_dentry;
     cnt \<leftarrow> dth_ld s p Dfd_dentry_count;
     if cnt = 0 then None
     else do {
       let pos = (of_nat i + fd) mod cnt;
       name \<leftarrow> page_tail s p (dentry_name_off (unat pos));
       len \<leftarrow> strlen_of name;
       db \<leftarrow> ld32 s p (dentry_off (unat pos));
       (t, r) \<leftarrow> userfs_dentry_hash_insert (malloc_ok s) name len 0 (ucast db) pos t;
       let s = s\<lparr>brk := Suc (brk s)\<rparr>;
       if r = None then do { _ \<leftarrow> userfs_dentry_hash_destroy (Some t); Some (s, None) }
       else dentry_hashtable_loop p (Suc i) k t s
     }
   }"

text \<open>\<open>mem\<close>: the contents of the table object \<open>malloc\<close> returns.\<close>

definition userfs_mount_dentry_hashtable_init ::
    "linkhash \<Rightarrow> u32 \<Rightarrow> ptr \<Rightarrow> fs \<Rightarrow> (fs \<times> linkhash option) option" where
  "userfs_mount_dentry_hashtable_init mem hash_bucket_count dentry_table_bbuf s = do {
     let tp = userfs_dentry_hash_create (if malloc_ok s then Some mem else None) (ucast hash_bucket_count);
     let s = s\<lparr>brk := Suc (brk s)\<rparr>;
     case tp of
       None \<Rightarrow> Some (s, None)
     | Some t \<Rightarrow> do {
         b \<leftarrow> bbufs s dentry_table_bbuf;
         used \<leftarrow> dth_ld s (b_data b) Dfd_used_dentry_count;
         dentry_hashtable_loop (b_data b) 0 (unat used) t s
       }
   }"

section \<open>Geometry\<close>

text \<open>
  The real block size is a power of two between 1 MiB and 64 MiB; for a request in that range it
  is the largest power of two not above the request.
\<close>

theorem real_block_size_power:
  "\<exists>k. 20 \<le> k \<and> k \<le> 26 \<and> unat (get_real_block_size e) = 2 ^ k \<and>
    (USERFS_MIN_BLOCK_SIZE \<le> e \<and> e \<le> USERFS_MAX_BLOCK_SIZE \<longrightarrow> 2 ^ k \<le> unat e \<and> unat e < 2 * 2 ^ k)"
proof -
  consider (big) "e > USERFS_MAX_BLOCK_SIZE" | (small) "e < USERFS_MIN_BLOCK_SIZE"
    | (mid) "USERFS_MIN_BLOCK_SIZE \<le> e" "e \<le> USERFS_MAX_BLOCK_SIZE"
    by (metis not_less)
  then show ?thesis
  proof cases
    case big
    then show ?thesis by (intro exI [of _ 26]) (auto simp: get_real_block_size_def)
  next
    case small
    then have "\<not> e > USERFS_MAX_BLOCK_SIZE" by (auto simp: word_less_nat_alt)
    then show ?thesis using small by (intro exI [of _ 20]) (auto simp: get_real_block_size_def)
  next
    case mid
    then have e: "2 ^ 20 \<le> unat e" "unat e \<le> 2 ^ 26" by (simp_all add: word_le_nat_alt)
    then have "e \<noteq> 0" by auto
    note b = ulog2_bounds [OF this]
    let ?k = "unat (ulog2 e)"
    have "?k < 27"
    proof (rule ccontr)
      assume "\<not> ?k < 27"
      then have "(2 :: nat) ^ 27 \<le> 2 ^ ?k" by (intro power_increasing) auto
      with b(1) e(2) show False by simp
    qed
    moreover have "20 \<le> ?k"
    proof (rule ccontr)
      assume "\<not> 20 \<le> ?k"
      then have "(2 :: nat) ^ Suc ?k \<le> 2 ^ 20" by (intro power_increasing) auto
      with b(2) e(1) show False by simp
    qed
    moreover have "unat (get_real_block_size e) = 2 ^ ?k"
      using mid \<open>?k < 27\<close> unat_2_power [of ?k] by (auto simp: get_real_block_size_def dest: leD)
    ultimately show ?thesis
      using b by (intro exI [of _ ?k]) auto
  qed
qed

theorem real_block_size_power_witness:
  "\<exists>k. 20 \<le> k \<and> k \<le> 26 \<and> unat (get_real_block_size 3000000) = 2 ^ k \<and> 2 ^ k \<le> (3000000 :: nat) \<and> 3000000 < 2 * (2 ^ k :: nat)"
  using real_block_size_power [of 3000000] by (auto simp: word_le_nat_alt)

lemma unat_dentry_per_mb:
  assumes "64 \<le> unat ms"
  shows "unat (dentry_per_mb_of ms) = unat ms div 32 - 2"
proof -
  have "unat ms div 32 - 2 < 4294967296"
    using unat_lt_2p32 [of ms] by (meson diff_le_self div_le_dividend le_less_trans)
  then have lt: "take_bit 32 (unat ms div 32 - 2) = unat ms div 32 - 2"
    by (intro take_bit_nat_eq_self) simp
  have q: "unat ((ucast ms :: u64) div of_nat dentry_size) = unat ms div 32"
    by (simp add: dentry_size_def unat_div_distrib)
  have "2 \<le> unat ms div 32" using assms by simp
  then have "unat ((ucast ms :: u64) div of_nat dentry_size - 2) = unat ms div 32 - 2"
    using q by (subst unat_sub) (simp_all add: word_le_nat_alt)
  then show ?thesis
    using lt by (simp add: dentry_per_mb_of_def unsigned_ucast_eq)
qed

text \<open>
  Every dentry of a formatted dentry block lies inside the block.  The two entries the code leaves
  out (\<open>UNKNOWN REASON\<close> in its comment) are exactly those that would not: the 12-byte block header
  and the 32-byte table header push them past the end.
\<close>

theorem dentries_fit:
  assumes "64 \<le> unat ms" and "32 dvd unat ms"
  shows "(\<forall>i < unat (dentry_per_mb_of ms). dentry_off i + dentry_size \<le> unat ms) \<and>
    (\<forall>i. unat (dentry_per_mb_of ms) \<le> i \<longrightarrow> unat ms < dentry_off i + dentry_size)"
proof -
  obtain m where m: "unat ms = 32 * m" using assms(2) by blast
  then have "unat (dentry_per_mb_of ms) = m - 2" using unat_dentry_per_mb [OF assms(1)] by simp
  moreover have "2 \<le> m" using assms(1) m by simp
  ultimately show ?thesis
    by (auto simp: dentry_off_def dentry_size_def mblock_hdr_def m)
qed

theorem dentries_fit_witness:
  "dentry_off 125 + dentry_size \<le> 4096 \<and> 4096 < dentry_off 126 + dentry_size \<and> unat (dentry_per_mb_of 4096) = 126"
  using dentries_fit [of 4096] unat_dentry_per_mb [of 4096] by auto

lemma unat_bgroup_desc_size:
  assumes "unat bpg < 2 ^ 31"
  shows "unat (bgroup_desc_size_of bpg) = 16 + (unat bpg + 8) div 8"
proof -
  have l: "unat (bitmap_len_of bpg) = (unat bpg + 8) div 8"
    using assms by (simp add: bitmap_len_of_def unat_drop_bit_div unat_word_ariths)
  have "(unat bpg + 8) div 8 < 2 ^ 31" using assms by (intro div_less_iff_less_mult [THEN iffD2]) auto
  then show ?thesis
    using l by (simp add: bgroup_desc_size_of_def bgroup_desc_hdr_def unsigned_ucast_eq take_bit_eq_mod
        unat_word_ariths)
qed

lemma unat_bgroup_desc_per_mb:
  assumes "12 \<le> unat ms"
  shows "unat (bgroup_desc_per_mb_of ms dsz) = (unat ms - 12) div unat dsz"
proof -
  have "unat ((ucast ms :: u64) - of_nat mblock_hdr) = unat ms - 12"
    using assms by (subst unat_sub) (simp_all add: word_le_nat_alt mblock_hdr_def)
  then have "unat (((ucast ms :: u64) - of_nat mblock_hdr) div ucast dsz) = (unat ms - 12) div unat dsz"
    by (simp add: unat_div_distrib)
  moreover have "(unat ms - 12) div unat dsz \<le> unat ms"
    by (meson diff_le_self div_le_dividend le_trans)
  then have "(unat ms - 12) div unat dsz < 4294967296"
    using unat_lt_2p32 [of ms] by linarith
  then have "take_bit 32 ((unat ms - 12) div unat dsz) = (unat ms - 12) div unat dsz"
    by (intro take_bit_nat_eq_self) simp
  ultimately show ?thesis
    by (simp add: bgroup_desc_per_mb_of_def unsigned_ucast_eq)
qed

text \<open>
  Every block group descriptor of a descriptor block lies inside the block, and inside it there is
  at least one byte behind the bits of its bitmap: the guard the allocator's scan needs.
\<close>

theorem bgroup_descs_fit:
  assumes "12 \<le> unat ms" and "unat bpg < 2 ^ 31" and "i < unat (bgroup_desc_per_mb_of ms (bgroup_desc_size_of bpg))"
  shows "mblock_hdr + i * unat (bgroup_desc_size_of bpg) + unat (bgroup_desc_size_of bpg) \<le> unat ms \<and>
    bgd_bitmap_off + 12 + unat (drop_bit 3 bpg) < unat (bgroup_desc_size_of bpg)"
proof -
  let ?d = "unat (bgroup_desc_size_of bpg)"
  have "Suc i \<le> (unat ms - 12) div ?d"
    using assms(3) unat_bgroup_desc_per_mb [OF assms(1)] by simp
  then have "Suc i * ?d \<le> unat ms - 12"
    by (metis div_times_less_eq_dividend le_trans mult_le_mono1)
  then have "12 + i * ?d + ?d \<le> unat ms" using assms(1) by simp
  moreover have "16 + unat (drop_bit 3 bpg) < ?d"
    by (simp add: unat_drop_bit_div unat_bgroup_desc_size [OF assms(2)])
  ultimately show ?thesis
    by (simp add: mblock_hdr_def bgd_bitmap_off_def)
qed

theorem bgroup_descs_fit_witness:
  "mblock_hdr + 3 * unat (bgroup_desc_size_of 64) + unat (bgroup_desc_size_of 64) \<le> 4096"
  using bgroup_descs_fit [of 4096 64 3] unat_bgroup_desc_per_mb [of 4096 "bgroup_desc_size_of 64"]
    unat_bgroup_desc_size [of 64] by simp

section \<open>Descriptor blocks\<close>

definition desc_bytes :: "u32 \<Rightarrow> nat \<Rightarrow> (nat \<Rightarrow> u8) \<Rightarrow> nat \<Rightarrow> u8" where
  "desc_bytes bpg off f =
     bm_init_bytes (off + 4) (drop_bit 3 bpg) (wr16 (wr16 f off (ucast bpg)) (off + 2) (ucast bpg))"

fun desc_iter :: "u32 \<Rightarrow> nat \<Rightarrow> nat \<Rightarrow> nat \<Rightarrow> (nat \<Rightarrow> u8) \<Rightarrow> nat \<Rightarrow> u8" where
  "desc_iter bpg z off 0 f = f"
| "desc_iter bpg z off (Suc k) f = desc_iter bpg z (off + z) k (desc_bytes bpg off f)"

lemma bgroup_desc_loop_page:
  assumes "datas s p = Some d" and "off + k * unat dsz \<le> blen d" and "16 + unat (drop_bit 3 bpg) \<le> unat dsz"
  shows "bgroup_desc_loop p bpg dsz off k s =
    Some (put_page p (d\<lparr>bat := desc_iter bpg (unat dsz) off k (bat d)\<rparr>) s)"
  using assms(1,2)
proof (induction k arbitrary: off s d)
  case 0
  then show ?case by (simp add: put_same)
next
  case (Suc k)
  let ?f1 = "wr16 (bat d) off (ucast bpg)" and ?f2 = "wr16 (wr16 (bat d) off (ucast bpg)) (off + 2) (ucast bpg)"
  let ?s2 = "put_page p (d\<lparr>bat := ?f2\<rparr>) s"
  let ?s3 = "put_page p (d\<lparr>bat := desc_bytes bpg off (bat d)\<rparr>) s"
  have room: "off + 16 + unat (drop_bit 3 bpg) \<le> blen d" using Suc.prems(2) assms(3) by simp
  have "bitmap_init_at p (off + 4) (drop_bit 3 bpg) ?s2 =
      Some (put_page p (d\<lparr>bat := bm_init_bytes (off + 4) (drop_bit 3 bpg) ?f2\<rparr>) s)"
    using bitmap_init_at_page [of ?s2 p "d\<lparr>bat := ?f2\<rparr>" "off + 4" "drop_bit 3 bpg"] room by simp
  then have init: "bitmap_init_at p (off + 4) (drop_bit 3 bpg) ?s2 = Some ?s3"
    by (simp add: desc_bytes_def)
  have IH: "bgroup_desc_loop p bpg dsz (off + unat dsz) k ?s3 =
      Some (put_page p (d\<lparr>bat := desc_iter bpg (unat dsz) (off + unat dsz) k (desc_bytes bpg off (bat d))\<rparr>) s)"
    using Suc.IH [of ?s3 "d\<lparr>bat := desc_bytes bpg off (bat d)\<rparr>" "off + unat dsz"] Suc.prems(2) by simp
  have "rd16 ?f1 off = ucast bpg" by (simp add: bytes_simps)
  then show ?case
    using Suc.prems(1) room init IH
    by (simp add: st16_def ld16_def st_page_def bgd_bitmap_off_def)
qed

lemma desc_iter_outside:
  assumes "16 + unat (drop_bit 3 bpg) \<le> z" and "i < off \<or> off + k * z \<le> i"
  shows "desc_iter bpg z off k f i = f i"
  using assms(2)
proof (induction k arbitrary: off f)
  case (Suc k)
  then have "desc_iter bpg z off (Suc k) f i = desc_bytes bpg off f i" by auto
  also have "\<dots> = f i"
    using Suc.prems assms(1)
    by (auto simp: desc_bytes_def bm_init_bytes_def wr32_apply_other wr16_apply_other)
  finally show ?case .
qed simp

text \<open>A descriptor of \<open>bpg\<close> free blocks at offset \<open>o'\<close>.\<close>

definition desc_fresh :: "u32 \<Rightarrow> nat \<Rightarrow> (nat \<Rightarrow> u8) \<Rightarrow> bool" where
  "desc_fresh bpg off g \<longleftrightarrow> rd16 g off = ucast bpg \<and> rd16 g (off + 2) = ucast bpg \<and>
     rd32 g (off + 4) = drop_bit 3 bpg \<and> rd32 g (off + 8) = 0 \<and> rd32 g (off + 12) = 0 \<and>
     (\<forall>i < unat (drop_bit 3 bpg). g (off + 16 + i) = 0)"

lemma desc_fresh_cong:
  assumes "desc_fresh bpg off g" and "\<And>i. off \<le> i \<Longrightarrow> i < off + 16 + unat (drop_bit 3 bpg) \<Longrightarrow> g' i = g i"
  shows "desc_fresh bpg off g'"
proof -
  have "rd16 g' off = rd16 g off" "rd16 g' (off + 2) = rd16 g (off + 2)"
    by (intro rd16_cong; simp add: assms(2))+
  moreover have "rd32 g' (off + 4) = rd32 g (off + 4)" "rd32 g' (off + 8) = rd32 g (off + 8)"
      "rd32 g' (off + 12) = rd32 g (off + 12)"
    by (intro rd32_cong; simp add: assms(2))+
  ultimately show ?thesis using assms by (simp add: desc_fresh_def)
qed

lemma desc_bytes_fresh: "desc_fresh bpg off (desc_bytes bpg off f)"
proof -
  let ?f2 = "wr16 (wr16 f off (ucast bpg)) (off + 2) (ucast bpg)"
  let ?g = "wr32 (wr32 (wr32 ?f2 (off + 4) (drop_bit 3 bpg)) (off + 8) 0) (off + 12) 0"
  have eq: "desc_bytes bpg off f i = ?g i" if "i < off + 16" for i
    using that by (simp add: desc_bytes_def bm_init_bytes_def add.assoc)
  have "rd16 (desc_bytes bpg off f) off = rd16 ?g off" "rd16 (desc_bytes bpg off f) (off + 2) = rd16 ?g (off + 2)"
    by (intro rd16_cong; simp add: eq)+
  moreover have "rd32 (desc_bytes bpg off f) (off + 4) = rd32 ?g (off + 4)"
      "rd32 (desc_bytes bpg off f) (off + 8) = rd32 ?g (off + 8)"
      "rd32 (desc_bytes bpg off f) (off + 12) = rd32 ?g (off + 12)"
    by (intro rd32_cong; simp add: eq)+
  moreover have "rd16 ?g off = ucast bpg" "rd16 ?g (off + 2) = ucast bpg"
      "rd32 ?g (off + 4) = drop_bit 3 bpg" "rd32 ?g (off + 8) = 0" "rd32 ?g (off + 12) = 0"
    by (simp_all add: bytes_simps)
  moreover have "desc_bytes bpg off f (off + 16 + i) = 0" if "i < unat (drop_bit 3 bpg)" for i
    using that by (simp add: desc_bytes_def bm_init_bytes_def)
  ultimately show ?thesis by (simp add: desc_fresh_def)
qed

lemma desc_iter_fresh:
  assumes "16 + unat (drop_bit 3 bpg) \<le> z" and "j < k"
  shows "desc_fresh bpg (off + j * z) (desc_iter bpg z off k f)"
  using assms(2)
proof (induction k arbitrary: j off f)
  case (Suc k)
  show ?case
  proof (cases j)
    case 0
    then show ?thesis
      using desc_bytes_fresh [of bpg off f] assms(1)
      by (auto intro: desc_fresh_cong simp: desc_iter_outside)
  next
    case (Suc j')
    then show ?thesis
      using Suc.IH [of j' "off + z" "desc_bytes bpg off f"] Suc.prems by (simp add: algebra_simps)
  qed
qed simp

lemma desc_iter_guard:
  assumes "16 + unat (drop_bit 3 bpg) \<le> z" and "j < k"
    and "off + j * z + 16 + unat (drop_bit 3 bpg) \<le> i" and "i < off + j * z + z"
  shows "desc_iter bpg z off k f i = f i"
  using assms(2-)
proof (induction k arbitrary: j off f)
  case (Suc k)
  show ?case
  proof (cases j)
    case 0
    then have "desc_iter bpg z off (Suc k) f i = desc_bytes bpg off f i"
      using Suc.prems assms(1) by (simp add: desc_iter_outside)
    also have "\<dots> = f i"
      using Suc.prems 0 by (auto simp: desc_bytes_def bm_init_bytes_def wr32_apply_other wr16_apply_other)
    finally show ?thesis .
  next
    case (Suc j')
    then have "desc_iter bpg z off (Suc k) f i = desc_bytes bpg off f i"
      using Suc.IH [of j' "off + z" "desc_bytes bpg off f"] Suc.prems by (simp add: algebra_simps)
    also have "\<dots> = f i"
      using Suc.prems Suc assms(1)
      by (auto simp: desc_bytes_def bm_init_bytes_def wr32_apply_other wr16_apply_other)
    finally show ?thesis .
  qed
qed simp

lemma fresh_bitmap:
  assumes "desc_fresh bpg off (bat d)" and "datas s p = Some d" and "off + 17 + unat (drop_bit 3 bpg) \<le> blen d"
    and "unat bpg < 2 ^ 31"
  shows "\<exists>bm. bm_load s p (off + 4) = Some bm \<and> bytes bm = drop_bit 3 bpg \<and> bm_used bm = {} \<and>
    (\<not> bit (bat d (off + 16 + unat (drop_bit 3 bpg))) 0 \<longrightarrow> bm_inv bm)"
proof -
  let ?n = "unat (drop_bit 3 bpg)"
  obtain bm where bm: "bm_load s p (off + 4) = Some bm" "bytes bm = drop_bit 3 bpg" "used_bits_count bm = 0"
      "first_free_pos bm = 0" "bitmap bm = (\<lambda>i. bat d (off + 16 + i))" "avail bm = blen d - (off + 16)"
    using assms(1-3) bm_load_page [of s p d "off + 4"] by (auto simp: desc_fresh_def algebra_simps)
  have "?n * 8 \<le> unat bpg" by (simp add: unat_drop_bit_div)
  then have bits: "bm_bits bm < 2 ^ 31" using assms(4) by (simp add: bm_bits_def bm)
  have z: "bitmap bm i = 0" if "i < ?n" for i
    using that assms(1) by (simp add: desc_fresh_def bm)
  have used: "bm_used bm = {}"
    using z by (auto simp: bm_used_def bm_bits_def bm_test_def bm(2) less_mult_imp_div_less mult.commute)
  have "bm_inv bm" if "\<not> bit (bat d (off + 16 + ?n)) 0"
  proof -
    have "\<not> bm_test bm (bm_bits bm)" using that by (simp add: bm_test_def bm_bits_def bm)
    moreover have "\<not> bm_test bm 0"
      using that z [of 0] by (cases "?n = 0") (simp_all add: bm_test_def bm(5))
    ultimately show ?thesis
      using bits used assms(3) by (simp add: bm_inv_def bm)
  qed
  with bm used show ?thesis by blast
qed

text \<open>
  (C13) Formatting a descriptor block never writes outside its page.  Afterwards the block has the given
  neighbours and type, and each of its descriptors counts all blocks of its group as free and has
  an empty bitmap of one bit per block, which satisfies the allocator's invariant whenever the
  page had a zero byte at the guard's place.
\<close>

theorem bgroup_block_formatted:
  assumes "bbufs s q = Some b" and "datas s (b_data b) = Some d" and "blen d = unat ms"
    and "12 \<le> unat ms" and "unat bpg < 2 ^ 31"
    and "dsz = bgroup_desc_size_of bpg" and "per_mb = bgroup_desc_per_mb_of ms dsz"
  shows "\<exists>s' d'. userfs_bgroup_desc_block_init q bpg per_mb dsz prev nxt s = Some s' \<and>
    datas s' (b_data b) = Some d' \<and>
    rd32 (bat d') (mb_off H_prev) = prev \<and> rd32 (bat d') (mb_off H_next) = nxt \<and>
    rd32 (bat d') (mb_off Block_type) = USERFS_BTYPE_BGROUP_DESC \<and>
    (\<forall>j < unat per_mb.
      ld16 s' (b_data b) (mblock_hdr + j * unat dsz + bgd_off Bg_block_count) = Some (ucast bpg) \<and>
      ld16 s' (b_data b) (mblock_hdr + j * unat dsz + bgd_off Bg_free_block_count) = Some (ucast bpg) \<and>
      (\<exists>bm. bm_load s' (b_data b) (mblock_hdr + j * unat dsz + bgd_bitmap_off) = Some bm \<and>
        bytes bm = drop_bit 3 bpg \<and> bm_used bm = {} \<and>
        (bat d (mblock_hdr + j * unat dsz + bgd_bitmap_off + 12 + unat (drop_bit 3 bpg)) = 0 \<longrightarrow> bm_inv bm)))"
proof -
  let ?p = "b_data b" and ?z = "unat dsz" and ?n = "unat (drop_bit 3 bpg)"
  let ?f = "wr32 (wr32 (wr32 (bat d) 4 nxt) 0 prev) 8 USERFS_BTYPE_BGROUP_DESC"
  let ?g = "desc_iter bpg ?z 12 (unat per_mb) ?f"
  let ?s = "put_page ?p (d\<lparr>bat := ?g\<rparr>) s"
  have z: "16 + ?n < ?z"
    unfolding assms(6) by (simp add: unat_drop_bit_div unat_bgroup_desc_size [OF assms(5)])
  have "unat per_mb * ?z \<le> unat ms - 12"
    unfolding assms(7) unat_bgroup_desc_per_mb [OF assms(4)] by simp
  then have room: "12 + unat per_mb * ?z \<le> blen d" using assms(3,4) by simp
  have run: "userfs_bgroup_desc_block_init q bpg per_mb dsz prev nxt s = Some ?s"
    using assms(1-4) bgroup_desc_loop_page [of "put_page ?p (d\<lparr>bat := ?f\<rparr>) s" ?p "d\<lparr>bat := ?f\<rparr>" 12 "unat per_mb" dsz bpg] room z
    by (simp add: userfs_bgroup_desc_block_init_def mb_st_def st32_def st_page_def mblock_hdr_def)
  have low: "?g i = ?f i" if "i < 12" for i
    using that z by (intro desc_iter_outside) auto
  have "rd32 ?g a = rd32 ?f a" if "a + 4 \<le> 12" for a
    using that low by (intro rd32_cong) auto
  then have hdr: "rd32 ?g 0 = prev" "rd32 ?g 4 = nxt" "rd32 ?g 8 = USERFS_BTYPE_BGROUP_DESC"
    by (simp_all add: bytes_simps)
  have desc: "ld16 ?s ?p (12 + j * ?z) = Some (ucast bpg) \<and> ld16 ?s ?p (12 + j * ?z + 2) = Some (ucast bpg) \<and>
      (\<exists>bm. bm_load ?s ?p (12 + j * ?z + 4) = Some bm \<and> bytes bm = drop_bit 3 bpg \<and> bm_used bm = {} \<and>
        (bat d (12 + j * ?z + 16 + ?n) = 0 \<longrightarrow> bm_inv bm))" if j: "j < unat per_mb" for j
  proof -
    have fr: "desc_fresh bpg (12 + j * ?z) ?g" using z j by (intro desc_iter_fresh) auto
    have "Suc j * ?z \<le> unat per_mb * ?z" using j by (intro mult_le_mono1) simp
    then have fits: "12 + j * ?z + ?z \<le> blen d" using room by simp
    have "?g (12 + j * ?z + 16 + ?n) = ?f (12 + j * ?z + 16 + ?n)"
      using z j by (intro desc_iter_guard) auto
    also have "\<dots> = bat d (12 + j * ?z + 16 + ?n)"
      by (simp add: wr32_apply_other)
    finally have guard: "?g (12 + j * ?z + 16 + ?n) = bat d (12 + j * ?z + 16 + ?n)" .
    have "\<exists>bm. bm_load ?s ?p (12 + j * ?z + 4) = Some bm \<and> bytes bm = drop_bit 3 bpg \<and> bm_used bm = {} \<and>
        (\<not> bit (?g (12 + j * ?z + 16 + ?n)) 0 \<longrightarrow> bm_inv bm)"
      using fresh_bitmap [of bpg "12 + j * ?z" "d\<lparr>bat := ?g\<rparr>" ?s ?p] fr fits z assms(5) by simp
    then show ?thesis
      using fr fits z guard by (auto simp: ld16_def desc_fresh_def)
  qed
  show ?thesis
    using run hdr desc
    by - (rule exI [of _ ?s], rule exI [of _ "d\<lparr>bat := ?g\<rparr>"],
      simp add: mblock_hdr_def bgd_bitmap_off_def add.assoc)
qed


definition desc_example :: fs where
  "desc_example = put_bbuf 1 (bbuf_zero\<lparr>b_data := 2\<rparr>) (put_page 2 \<lparr>blen = 64, bat = (\<lambda>_. 0)\<rparr> fs0)"

theorem bgroup_block_formatted_witness:
  "\<exists>s'. userfs_bgroup_desc_block_init 1 8 2 18 0 5 desc_example = Some s' \<and>
    (\<exists>bm. bm_load s' 2 34 = Some bm \<and> bytes bm = 1 \<and> bm_used bm = {} \<and> bm_inv bm)"
proof -
  have sz: "(18 :: u32) = bgroup_desc_size_of 8" "(2 :: u32) = bgroup_desc_per_mb_of 64 18"
    by code_simp+
  note t = bgroup_block_formatted [of desc_example 1 "bbuf_zero\<lparr>b_data := 2\<rparr>" "\<lparr>blen = 64, bat = (\<lambda>_. 0)\<rparr>" 64 8 18 2 0 5,
      OF _ _ _ _ _ sz]
  obtain s' where s': "userfs_bgroup_desc_block_init 1 8 2 18 0 5 desc_example = Some s'"
    and j: "\<forall>j < unat (2 :: u32). (\<exists>bm. bm_load s' 2 (mblock_hdr + j * unat (18 :: u32) + bgd_bitmap_off) = Some bm \<and>
        bytes bm = drop_bit 3 8 \<and> bm_used bm = {} \<and> bm_inv bm)"
    using t by (simp add: desc_example_def) blast
  show ?thesis
    using s' j [rule_format, of 1] by (simp add: mblock_hdr_def bgd_bitmap_off_def)
qed

section \<open>Allocating metadata blocks\<close>

lemma alloc_mbbuf_fresh:
  assumes "free_mbbuf_list s = NULL" and "can_alloc s"
  shows "userfs_alloc_mbbuf n s = Some (with_buf n (bbuf_zero\<lparr>b_list_len := 1\<rparr>) s, fresh_addr s)"
proof -
  have 1: "fresh_addr s \<noteq> NULL" "buf_addr s \<noteq> NULL"
    using assms(2) fresh_addr_nonzero [of s] fresh_addr_nonzero [of "s\<lparr>brk := Suc (brk s)\<rparr>"]
    by (simp_all add: can_alloc_def malloc_ok_def buf_addr_def)
  have ok: "malloc_ok ((put_bbuf (fresh_addr s) bbuf_zero s)\<lparr>brk := Suc (brk s)\<rparr>)"
    using assms(2) by (simp add: can_alloc_def malloc_ok_def)
  have adr: "fresh_addr ((put_bbuf (fresh_addr s) bbuf_zero s)\<lparr>brk := Suc (brk s)\<rparr>) = buf_addr s"
    by (simp add: fresh_addr_def buf_addr_def)
  show ?thesis
    using assms 1
    by (simp add: userfs_alloc_mbbuf_def can_alloc_def malloc_bbuf_ok malloc_data_ok [OF ok] adr Let_def
        upd_bbuf_def with_buf_def)
      (cases s, simp add: put_page_def put_bbuf_def bbuf_zero_def)
qed

text \<open>
  (C14) A new metadata block is the lowest-numbered free one: its number is marked used in the super
  block's bitmap and nothing else is, the free count falls by one, and the caller gets a fresh
  buffer of one metadata block that carries the number and the type.
\<close>

theorem new_metadata_block_first_free:
  assumes "mem_ok s" and "can_alloc s" and "free_mbbuf_list s = NULL"
    and "sb_ld s sb S_metablock_size = Some ms" and "sb_ld s sb S_free_metablock_count = Some fc"
    and "bm_load s sb sb_bitmap_off = Some b" and "bm_inv b" and "bm_used b \<noteq> {..<bm_bits b}"
  shows "\<exists>s' q bb b'. userfs_get_new_metadata_block sb t s = Some (s', q) \<and> q \<noteq> NULL \<and> bbufs s q = None \<and>
    bbufs s' q = Some bb \<and> b_type bb = ucast t \<and> b_size bb = ms \<and>
    b_blocknr bb = of_nat (LEAST n. n \<notin> bm_used b) \<and>
    map_option blen (datas s' (b_data bb)) = Some (unat ms) \<and>
    bm_load s' sb sb_bitmap_off = Some b' \<and> bm_inv b' \<and> bm_bits b' = bm_bits b \<and>
    bm_used b' = insert (LEAST n. n \<notin> bm_used b) (bm_used b) \<and>
    sb_ld s' sb S_free_metablock_count = Some (fc - 1)"
proof -
  let ?n = "LEAST n. n \<notin> bm_used b"
  let ?s1 = "with_buf ms (bbuf_zero\<lparr>b_list_len := 1\<rparr>) s"
  note al = assms(1,2)
  have nz: "fresh_addr s \<noteq> NULL" using al fresh_addr_nonzero [of s] by (simp add: can_alloc_def malloc_ok_def)
  have load: "bm_load ?s1 sb sb_bitmap_off = Some b" by (rule bm_load_with_buf [OF al assms(6)])
  obtain s2 b' d d' where s2: "bitmap_get_first_free_at sb sb_bitmap_off ?s1 = Some (s2, int ?n)"
      "bm_load s2 sb sb_bitmap_off = Some b'" "bm_inv b'" "bm_used b' = insert ?n (bm_used b)"
      "bm_bits b' = bm_bits b" "datas ?s1 sb = Some d" "s2 = put_page sb d' ?s1" "blen d' = blen d"
      "\<And>i. i < sb_bitmap_off \<Longrightarrow> bat d' i = bat d i"
    by (rule get_first_free_at_spec [OF load assms(7,8)]) (rule that)
  have d: "datas s sb = Some d"
    using s2(6) assms(5) with_buf_sel(3) [OF al] by (auto simp: sb_ld_def ld32_def)
  have lt: "?n < bm_bits b" using bm_used_full_iff [OF assms(7)] assms(7,8) bm_least_free [OF assms(7)]
    by (auto simp: bm_inv_def)
  have "bm_bits b < 2 ^ 31" using assms(7) by (simp add: bm_inv_def)
  then have ne: "(of_int (int ?n) :: u32) \<noteq> - 1"
    using lt by (simp add: word_unat_eq_iff unat_of_nat unsigned_minus_1_eq_mask mask_eq_exp_minus_1)
  have "rd32 (bat d') (sb_off S_free_metablock_count) = rd32 (bat d) (sb_off S_free_metablock_count)"
    using s2(9) by (intro rd32_cong) (simp add: sb_bitmap_off_def)
  then have fc: "sb_ld s2 sb S_free_metablock_count = Some fc"
    using assms(5) d s2(7,8) by (simp add: sb_ld_def ld32_def split: if_splits)
  let ?d3 = "d'\<lparr>bat := wr32 (bat d') (sb_off S_free_metablock_count) (fc - 1)\<rparr>"
  let ?s3 = "put_page sb ?d3 ?s1"
  let ?bb = "bbuf_zero\<lparr>b_list_len := 1, b_data := buf_addr s, b_size := ms, b_block_s_off := 0,
     b_blocknr := of_nat ?n, b_type := ucast t\<rparr>"
  have st: "sb_st sb S_free_metablock_count (fc - 1) s2 = Some ?s3"
    using fc s2(7) by (simp add: sb_st_def st32_def st_page_def sb_ld_def ld32_def split: if_splits)
  have load3: "bm_load ?s3 sb sb_bitmap_off = Some b'"
    using s2(2) s2(7) by (intro bm_load_below [OF s2(2), of d' _ ?d3]) (auto simp: sb_bitmap_off_def wr32_apply_other)
  have run: "userfs_get_new_metadata_block sb t s = Some (put_bbuf (fresh_addr s) ?bb ?s3, fresh_addr s)"
    using assms(4) ne nz s2(1) fc st with_buf_sel(1) [OF al]
    by (simp add: userfs_get_new_metadata_block_def alloc_mbbuf_fresh [OF assms(3,2)] upd_bbuf_def Let_def)
  show ?thesis
  proof (intro exI conjI)
    show "userfs_get_new_metadata_block sb t s = Some (put_bbuf (fresh_addr s) ?bb ?s3, fresh_addr s)" by (rule run)
    show "bbufs s (fresh_addr s) = None" using al by (simp add: mem_ok_fresh can_alloc_def malloc_ok_def)
    show "bm_load (put_bbuf (fresh_addr s) ?bb ?s3) sb sb_bitmap_off = Some b'"
      using load3 by (simp add: bm_load_def)
    show "sb_ld (put_bbuf (fresh_addr s) ?bb ?s3) sb S_free_metablock_count = Some (fc - 1)"
      using fc s2(7) by (simp add: sb_ld_def ld32_def bytes_simps split: if_splits)
    show "map_option blen (datas (put_bbuf (fresh_addr s) ?bb ?s3) (b_data ?bb)) = Some (unat ms)"
      using with_buf_sel(2) [OF al] with_buf_sel(4) [OF al d] by auto
  qed (use nz s2 in simp_all)
qed


definition sb_example :: fs where
  "sb_example = (put_page 1 \<lparr>blen = 128, bat = wr32 (wr32 (wr32 (\<lambda>_. 0) 76 128) 72 8) 80 1\<rparr> fs0)\<lparr>brk := 1\<rparr>"

theorem new_metadata_block_first_free_witness:
  "\<exists>s' q bb b'. userfs_get_new_metadata_block 1 69 sb_example = Some (s', q) \<and> bbufs s' q = Some bb \<and>
    b_blocknr bb = 0 \<and> bm_load s' 1 sb_bitmap_off = Some b' \<and> bm_used b' = {0} \<and>
    sb_ld s' 1 S_free_metablock_count = Some 7"
proof -
  let ?b = "\<lparr>bytes = 1, used_bits_count = 0, first_free_pos = 0,
    bitmap = (\<lambda>i. wr32 (wr32 (wr32 (\<lambda>_. 0) 76 128) 72 8) 80 1 (92 + i)), avail = 36\<rparr> :: bitmap_t"
  have mem: "mem_ok sb_example" by (simp add: mem_ok_def sb_example_def fs0_def)
  have alloc: "can_alloc sb_example" by (simp add: can_alloc_def malloc_ok_def sb_example_def fs0_def)
  have ld: "sb_ld sb_example 1 S_metablock_size = Some 128" "sb_ld sb_example 1 S_free_metablock_count = Some 8"
    "free_mbbuf_list sb_example = NULL"
    by (simp_all add: sb_ld_def ld32_def sb_example_def fs0_def bytes_simps)
  have bm: "bm_load sb_example 1 sb_bitmap_off = Some ?b"
    by (simp add: bm_load_def sb_example_def sb_bitmap_off_def bytes_simps) (simp add: rd32_def)
  have used: "bm_used ?b = {}" "bm_bits ?b = 8" by (auto simp: bm_used_def bm_test_def bm_bits_def wr32_apply_other)
  have inv: "bm_inv ?b" by code_simp
  have least: "(LEAST n :: nat. n \<notin> {}) = 0" by (rule Least_equality) auto
  have free: "bm_used ?b \<noteq> {..<bm_bits ?b}" unfolding used using lessThan_iff [of 0 "8 :: nat"] by force
  show ?thesis
    using new_metadata_block_first_free [OF mem alloc ld(3,1,2) bm inv free, of 69] used least by simp blast
qed

text \<open>
  Freeing a metadata buffer while the free list is empty gives nothing back: the buffer and its
  page stay allocated, the list stays empty, and only its length grows.
\<close>

theorem free_mbbuf_leaks:
  assumes "bbufs s q = Some b" and "free_mbbuf_list s = NULL" and "sint (free_mbbuf_list_len s) \<le> 256"
  shows "\<exists>s'. userfs_free_mbbuf q s = Some s' \<and> free_mbbuf_list s' = NULL \<and>
    dom (bbufs s') = dom (bbufs s) \<and> datas s' = datas s \<and>
    free_mbbuf_list_len s' = free_mbbuf_list_len s + 1"
proof -
  let ?s = "put_bbuf q (b\<lparr>b_this_page := NULL\<rparr>) (s\<lparr>free_mbbuf_list_len := free_mbbuf_list_len s + 1\<rparr>)"
  have "userfs_free_mbbuf q s = Some (?s\<lparr>free_mbbuf_list := NULL\<rparr>)"
    using assms by (simp add: userfs_free_mbbuf_def atomic_get_def atomic_add_def upd_bbuf_def Let_def)
  then show ?thesis using assms by auto
qed

theorem free_mbbuf_leaks_witness:
  "\<exists>s'. userfs_free_mbbuf 1 desc_example = Some s' \<and> free_mbbuf_list s' = NULL \<and> dom (bbufs s') = {1}"
  using free_mbbuf_leaks [of desc_example 1 "bbuf_zero\<lparr>b_data := 2\<rparr>"]
  by (auto simp: desc_example_def fs0_def)

text \<open>
  Mounting allocates one byte per descriptor block for an array that holds one pointer per
  descriptor block: with fewer than eight full descriptor blocks the first pointer is stored
  outside the allocation, which is undefined behaviour in C.
\<close>

theorem bgdindex_array_overflow:
  assumes "bbufs s l = Some b" and "l \<noteq> NULL" and "b_type b = USERFS_BTYPE_BGROUP_DESC"
    and "malloc_ok s" and "\<forall>n. usable s n = n"
    and "sb_ld s sb S_data_block_group_count = Some gc"
    and "sb_ld s sb S_bgroup_desc_per_mb_count = Some per_mb" and "per_mb \<noteq> 0"
    and "unat gc div unat per_mb < 8"
  shows "userfs_mount_bgdindex_list_init l sb s = None"
proof -
  have ld: "sb_ld (s\<lparr>brk := n\<rparr>) sb f = sb_ld s sb f" for n f by (simp add: sb_ld_def ld32_def)
  have n: "unat (gc div per_mb) < 8" using assms(9) by (simp add: unat_div)
  show ?thesis
    using assms n
    by (simp add: userfs_mount_bgdindex_list_init_def ld bgd_index_loop.simps Let_def malloc_ok_def
        split: bind_splits)
qed


definition mount_example :: fs where
  "mount_example = put_bbuf 1 (bbuf_zero\<lparr>b_data := 2, b_type := USERFS_BTYPE_BGROUP_DESC\<rparr>)
     (put_page 3 \<lparr>blen = 128, bat = wr32 (wr32 (\<lambda>_. 0) 36 60) 60 20\<rparr> fs0)"

theorem bgdindex_array_overflow_witness:
  "userfs_mount_bgdindex_list_init 1 3 mount_example = None"
proof (rule bgdindex_array_overflow [where b = "bbuf_zero\<lparr>b_data := 2, b_type := USERFS_BTYPE_BGROUP_DESC\<rparr>"
      and gc = 60 and per_mb = 20])
  show "sb_ld mount_example 3 S_data_block_group_count = Some 60"
    "sb_ld mount_example 3 S_bgroup_desc_per_mb_count = Some 20"
    by (simp_all add: sb_ld_def ld32_def mount_example_def bytes_simps)
qed (simp_all add: mount_example_def fs0_def malloc_ok_def)

end
