(* ===== verification/File_Ctrl.thy ===== *)
theory File_Ctrl
  imports Userfs_Init
begin

text \<open>
  \<open>userfs/userfs_file_ctrl.c\<close>: data block buffers, allocation of data blocks from the emptiest block
  group, inodes, and the ring of dentries of the root directory.

  A block group descriptor is named by its page and its offset there, a dentry table by its page.
  The log calls are compiled in at every level the code uses, so what they dereference is part of
  the model.

  The results: a new data block is the lowest free one of a group with the most free blocks, and
  the group index follows; the dentry ring refines a list of live dentries.
\<close>

section \<open>Data block buffers\<close>

definition userfs_alloc_dbbuf :: "u32 \<Rightarrow> fs \<Rightarrow> (fs \<times> ptr) option" where
  "userfs_alloc_dbbuf dblock_shardsize s =
     (if free_dbbuf_list s \<noteq> NULL
      then do {
        let db_buf = free_dbbuf_list s;
        b \<leftarrow> bbufs s db_buf;
        let s = s\<lparr>free_dbbuf_list := b_this_page b,
                  free_dbbuf_list_len := fst (atomic_sub (free_dbbuf_list_len s) 1)\<rparr>;
        s \<leftarrow> upd_bbuf db_buf (\<lambda>_. bbuf_zero\<lparr>b_size := dblock_shardsize\<rparr>) s;
        Some (s, db_buf)
      }
      else
        let (s, db_buf) = malloc_bbuf s in
        if db_buf = NULL then Some (s, NULL)
        else
          let (s, data) = malloc_data (unat dblock_shardsize) s in
          do {
            s \<leftarrow> upd_bbuf db_buf (\<lambda>b. b\<lparr>b_data := data\<rparr>) s;
            if data = NULL then do { s \<leftarrow> free_bbuf db_buf s; Some (s, NULL) }
            else do {
              s \<leftarrow> upd_bbuf db_buf (\<lambda>b. b\<lparr>b_size := dblock_shardsize\<rparr>) s;
              Some (s, db_buf)
            }
          })"

definition userfs_free_dbbuf :: "ptr \<Rightarrow> fs \<Rightarrow> fs option" where
  "userfs_free_dbbuf db_buf s =
     (if sint (atomic_get (free_dbbuf_list_len s)) > 256
      then do {
        b \<leftarrow> bbufs s db_buf;
        s \<leftarrow> free_data (b_data b) s;
        free_bbuf db_buf s
      }
      else do {
        let s = s\<lparr>free_dbbuf_list_len := fst (atomic_add (free_dbbuf_list_len s) 1)\<rparr>;
        s \<leftarrow> upd_bbuf db_buf (\<lambda>b. b\<lparr>b_this_page := free_dbbuf_list s\<rparr>) s;
        b \<leftarrow> bbufs s db_buf;
        Some (s\<lparr>free_dbbuf_list := b_this_page b\<rparr>)
      })"

section \<open>Data blocks\<close>

text \<open>The page and the offset of descriptor \<open>bgd_nr\<close>.\<close>

definition userfs_bgdidx2bgd :: "bgd_index_list \<Rightarrow> u32 \<Rightarrow> u32 \<Rightarrow> u32 \<Rightarrow> fs \<Rightarrow> (ptr \<times> nat) option" where
  "userfs_bgdidx2bgd bgd_idx_list bgd_per_mb_count bgd_nr bgd_size s =
     (if bgd_per_mb_count = 0 then None
      else
        let bgd_mb_nr = bgd_nr div bgd_per_mb_count;
            bgd_off' = bgd_nr mod bgd_per_mb_count
        in if unat bgd_mb_nr < length (bgi_blocknr2bbuf bgd_idx_list)
           then do {
             bgd_mb \<leftarrow> bbufs s (bgi_blocknr2bbuf bgd_idx_list ! unat bgd_mb_nr);
             let off = mblock_hdr + unat (bgd_size * bgd_off');
             _ \<leftarrow> ld16 s (b_data bgd_mb) (off + bgd_off Bg_block_count);
             _ \<leftarrow> ld16 s (b_data bgd_mb) (off + bgd_off Bg_free_block_count);
             Some (b_data bgd_mb, off)
           }
           else None)"

text \<open>With an empty heap the error message reads through the \<open>NULL\<close> heap top.\<close>

definition userfs_get_new_dblock ::
    "ptr \<Rightarrow> bgd_index_list \<Rightarrow> u32 \<Rightarrow> fs \<Rightarrow> (fs \<times> bgd_index_list \<times> ptr) option" where
  "userfs_get_new_dblock sb bgd_idx_list dblock_shard_size s = do {
     (s, db_buf) \<leftarrow> userfs_alloc_dbbuf dblock_shard_size s;
     if db_buf = NULL then Some (s, bgd_idx_list, NULL)
     else do {
       h \<leftarrow> bgi_maxroot_heap bgd_idx_list;
       top \<leftarrow> userfs_mrheap_get_heaptop h;
       idx \<leftarrow> top;
       if bgi_free_blocks_count idx = 0
       then do { s \<leftarrow> userfs_free_dbbuf db_buf s; Some (s, bgd_idx_list, NULL) }
       else do {
         per_mb \<leftarrow> sb_ld s sb S_bgroup_desc_per_mb_count;
         dsz \<leftarrow> sb_ld s sb S_bgroup_desc_size;
         (p, off) \<leftarrow> userfs_bgdidx2bgd bgd_idx_list per_mb (bgi_bgroup_nr idx) dsz s;
         (s, r) \<leftarrow> bitmap_get_first_free_at p (off + bgd_bitmap_off) s;
         let bg_dblock_nr = (of_int r :: u32);
         if bg_dblock_nr = - 1
         then do { s \<leftarrow> userfs_free_dbbuf db_buf s; Some (s, bgd_idx_list, NULL) }
         else do {
           (h, top) \<leftarrow> userfs_mrheap_extract_heaptop h;
           n \<leftarrow> sb_ld s sb S_free_data_block_count;
           s \<leftarrow> sb_st sb S_free_data_block_count (n - 1) s;
           fb \<leftarrow> ld16 s p (off + bgd_off Bg_free_block_count);
           s \<leftarrow> st16 p (off + bgd_off Bg_free_block_count) (fb - 1) s;
           idx \<leftarrow> top;
           (h, _) \<leftarrow> userfs_mrheap_insert True h (bgi_bgroup_nr idx) (bgi_free_blocks_count idx - 1) (Some idx);
           per_group \<leftarrow> sb_ld s sb S_data_block_per_group;
           let dblock_nr = bgi_bgroup_nr idx * per_group;
           s \<leftarrow> upd_bbuf db_buf (\<lambda>b. b\<lparr>b_block_s_off := 0, b_list_len := 1,
                  b_blocknr := dblock_nr + bg_dblock_nr, b_type := USERFS_BTYPE_DATA\<rparr>) s;
           Some (s, bgd_idx_list\<lparr>bgi_maxroot_heap := Some h\<rparr>, db_buf)
         }
       }
     }
   }"

text \<open>A failed read leaves the buffer allocated.\<close>

definition userfs_get_used_dblock :: "ptr \<Rightarrow> u32 \<Rightarrow> u32 \<Rightarrow> u32 \<Rightarrow> fs \<Rightarrow> (fs \<times> ptr) option" where
  "userfs_get_used_dblock sb target_dblock_id dblock_off dblock_shard_size s = do {
     (s, db_buf) \<leftarrow> userfs_alloc_dbbuf dblock_shard_size s;
     if db_buf = NULL then Some (s, NULL)
     else do {
       s \<leftarrow> upd_bbuf db_buf (\<lambda>b. b\<lparr>b_list_len := 1, b_blocknr := target_dblock_id,
              b_block_s_off := dblock_off, b_size := dblock_shard_size\<rparr>) s;
       fd \<leftarrow> sb_ld s sb S_first_datablock;
       bs \<leftarrow> sb_ld s sb S_data_block_size;
       (s, r) \<leftarrow> userfs_read_data_block db_buf fd bs s;
       if r \<noteq> 0 then Some (s, NULL) else Some (s, db_buf)
     }
   }"

text \<open>Two functions with empty bodies; the result of the first is used nowhere.\<close>

definition userfs_free_used_dblock :: "fs \<Rightarrow> fs" where
  "userfs_free_used_dblock s = s"

definition userfs_free_used_inode :: "fs \<Rightarrow> fs" where
  "userfs_free_used_inode s = s"

section \<open>Inodes\<close>

definition ino_st :: "ptr \<Rightarrow> inode_field \<Rightarrow> u32 \<Rightarrow> fs \<Rightarrow> fs option" where
  "ino_st p f v = st32 p (inode_off f) v"

definition ino_ld :: "fs \<Rightarrow> ptr \<Rightarrow> inode_field \<Rightarrow> u32 option" where
  "ino_ld s p f = ld32 s p (inode_off f)"

definition ino_time :: "ptr \<Rightarrow> inode_time \<Rightarrow> u64 \<Rightarrow> fs \<Rightarrow> fs option" where
  "ino_time p f v = st64 p (itime_off f) v"

definition v2p_ld :: "fs \<Rightarrow> ptr \<Rightarrow> nat \<Rightarrow> u64 option" where
  "v2p_ld s p i = ld64 s p (v2p_off i)"

definition v2p_st :: "ptr \<Rightarrow> nat \<Rightarrow> u64 \<Rightarrow> fs \<Rightarrow> fs option" where
  "v2p_st p i v = st64 p (v2p_off i) v"

definition userfs_get_new_inode ::
    "ptr \<Rightarrow> bgd_index_list \<Rightarrow> u32 \<Rightarrow> u64 \<Rightarrow> fs \<Rightarrow> (fs \<times> bgd_index_list \<times> ptr) option" where
  "userfs_get_new_inode sb bgd_idx_list dblock_shard_size tv_sec s = do {
     (s, bgd_idx_list, inode_bbuf) \<leftarrow> userfs_get_new_dblock sb bgd_idx_list dblock_shard_size s;
     if inode_bbuf = NULL then Some (s, bgd_idx_list, NULL)
     else do {
       b \<leftarrow> bbufs s inode_bbuf;
       let p = b_data b;
       s \<leftarrow> st_bytes p 0 (replicate (unat USERFS_INODE_SIZE) 0) s;
       s \<leftarrow> ino_time p I_ctime tv_sec s;
       s \<leftarrow> ino_time p I_atime tv_sec s;
       s \<leftarrow> ino_time p I_mtime tv_sec s;
       s \<leftarrow> ino_time p I_dtime 0 s;
       s \<leftarrow> ino_st p I_size 0 s;
       s \<leftarrow> v2p_st p 0 (ucast (b_blocknr b)) s;
       Some (s, bgd_idx_list, inode_bbuf)
     }
   }"

definition userfs_get_used_inode :: "ptr \<Rightarrow> u32 \<Rightarrow> u32 \<Rightarrow> fs \<Rightarrow> (fs \<times> ptr) option" where
  "userfs_get_used_inode sb inode_dblock_nr dblock_shard_size s =
     userfs_get_used_dblock sb inode_dblock_nr 0 dblock_shard_size s"

section \<open>Dentries\<close>

definition userfs_dentry_exchange :: "ptr \<Rightarrow> u32 \<Rightarrow> u32 \<Rightarrow> fs \<Rightarrow> fs option" where
  "userfs_dentry_exchange p first second s = do {
     tmp \<leftarrow> ld_bytes s p (dentry_off (unat first)) dentry_size;
     other \<leftarrow> ld_bytes s p (dentry_off (unat second)) dentry_size;
     s \<leftarrow> st_bytes p (dentry_off (unat first)) other s;
     st_bytes p (dentry_off (unat second)) tmp s
   }"

definition userfs_alloc_dentry :: "ptr \<Rightarrow> fs \<Rightarrow> (fs \<times> u32) option" where
  "userfs_alloc_dentry p s = do {
     used \<leftarrow> dth_ld s p Dfd_used_dentry_count;
     cnt \<leftarrow> dth_ld s p Dfd_dentry_count;
     if used = cnt then Some (s, UINT32_MAX)
     else do {
       s \<leftarrow> dth_st p Dfd_used_dentry_count (used + 1) s;
       new_dentry_pos \<leftarrow> dth_ld s p Dfd_first_free_dentry;
       if cnt = 0 then None
       else do {
         s \<leftarrow> dth_st p Dfd_first_free_dentry ((new_dentry_pos + 1) mod cnt) s;
         Some (s, new_dentry_pos)
       }
     }
   }"

definition userfs_free_dentry :: "ptr \<Rightarrow> u32 \<Rightarrow> fs \<Rightarrow> (fs \<times> int) option" where
  "userfs_free_dentry p dentry_pos s = do {
     fd \<leftarrow> dth_ld s p Dfd_first_dentry;
     ff \<leftarrow> dth_ld s p Dfd_first_free_dentry;
     if dentry_pos < fd \<and> dentry_pos \<ge> ff then Some (s, - 1)
     else do {
       (s, res) \<leftarrow> (if dentry_pos \<noteq> fd
         then do { s \<leftarrow> userfs_dentry_exchange p dentry_pos fd s; Some (s, 0) }
         else Some (s, - 1));
       fd \<leftarrow> dth_ld s p Dfd_first_dentry;
       cnt \<leftarrow> dth_ld s p Dfd_dentry_count;
       if cnt = 0 then None
       else do {
         s \<leftarrow> dth_st p Dfd_first_dentry ((fd + 1) mod cnt) s;
         used \<leftarrow> dth_ld s p Dfd_used_dentry_count;
         s \<leftarrow> dth_st p Dfd_used_dentry_count (used - 1) s;
         Some (s, res)
       }
     }
   }"

definition userfs_name2inode :: "linkhash option \<Rightarrow> u8 list \<Rightarrow> u32 \<Rightarrow> u32 \<Rightarrow> (u32 \<times> u64) option" where
  "userfs_name2inode dentry_hashtable name dentry_pos name_len =
     userfs_dentry_hash_get name name_len dentry_pos dentry_hashtable"

section \<open>The ring of dentries\<close>

definition dent :: "(nat \<Rightarrow> u8) \<Rightarrow> nat \<Rightarrow> u8 list" where
  "dent f i = map (\<lambda>j. f (dentry_off i + j)) [0..<dentry_size]"

lemma length_dent [simp]: "length (dent f i) = dentry_size"
  by (simp add: dent_def)

lemma dent_setb_same: "length bs = dentry_size \<Longrightarrow> dent (setb f (dentry_off i) bs) i = bs"
  by (rule nth_equalityI) (auto simp: dent_def setb_def)

lemma dent_setb_other:
  assumes "i \<noteq> j" and "length bs = dentry_size"
  shows "dent (setb f (dentry_off i) bs) j = dent f j"
proof -
  have "dentry_off i + dentry_size \<le> dentry_off j \<or> dentry_off j + dentry_size \<le> dentry_off i"
    using assms(1) by (auto simp: dentry_off_def dentry_size_def)
  then show ?thesis using assms(2) by (auto simp: dent_def setb_def)
qed

lemma rd32_setb_low: "a + 4 \<le> off \<Longrightarrow> rd32 (setb f off bs) a = rd32 f a"
  by (rule rd32_cong) (simp add: setb_def)

lemma dent_wr32_low: "a + 4 \<le> mblock_hdr + dentry_size \<Longrightarrow> dent (wr32 f a v) i = dent f i"
  by (auto simp: dent_def dentry_off_def intro!: wr32_apply_other)

text \<open>
  The table of page \<open>p\<close> has \<open>cap\<close> slots, of which the \<open>used\<close> ones from \<open>first\<close> on, cyclically, are
  live; \<open>ring_slot\<close> is the slot of live dentry \<open>k\<close>, \<open>live_dents\<close> the live dentries in ring order.
\<close>

definition ring_slot :: "nat \<Rightarrow> nat \<Rightarrow> nat \<Rightarrow> nat" where
  "ring_slot cap first k = (first + k) mod cap"

definition ring_at :: "fs \<Rightarrow> ptr \<Rightarrow> nat \<Rightarrow> nat \<Rightarrow> nat \<Rightarrow> bool" where
  "ring_at s p cap first used \<longleftrightarrow> (case datas s p of None \<Rightarrow> False | Some d \<Rightarrow>
     0 < cap \<and> cap < 2 ^ 31 \<and> first < cap \<and> used \<le> cap \<and> dentry_off cap \<le> blen d \<and>
     rd32 (bat d) (dth_off Dfd_dentry_count) = of_nat cap \<and>
     rd32 (bat d) (dth_off Dfd_used_dentry_count) = of_nat used \<and>
     rd32 (bat d) (dth_off Dfd_first_dentry) = of_nat first \<and>
     rd32 (bat d) (dth_off Dfd_first_free_dentry) = of_nat (ring_slot cap first used))"

definition dentry_bytes :: "fs \<Rightarrow> ptr \<Rightarrow> nat \<Rightarrow> u8 list" where
  "dentry_bytes s p i = (case datas s p of None \<Rightarrow> [] | Some d \<Rightarrow> dent (bat d) i)"

definition live_dents :: "fs \<Rightarrow> ptr \<Rightarrow> nat \<Rightarrow> nat \<Rightarrow> nat \<Rightarrow> u8 list list" where
  "live_dents s p cap first used = map (\<lambda>k. dentry_bytes s p (ring_slot cap first k)) [0..<used]"

lemma ring_slot_less: "0 < cap \<Longrightarrow> ring_slot cap first k < cap"
  by (simp add: ring_slot_def)

lemma ring_slot_cases:
  "first < cap \<Longrightarrow> k \<le> cap \<Longrightarrow> ring_slot cap first k = (if first + k < cap then first + k else first + k - cap)"
  by (auto simp: ring_slot_def le_mod_geq)

lemma ring_slot_inj:
  "first < cap \<Longrightarrow> j < cap \<Longrightarrow> k < cap \<Longrightarrow> ring_slot cap first j = ring_slot cap first k \<longleftrightarrow> j = k"
  by (auto simp: ring_slot_cases split: if_splits)

lemma ring_slot_Suc: "ring_slot cap (ring_slot cap first 1) k = ring_slot cap first (Suc k)"
  by (simp add: ring_slot_def mod_simps)

lemma dth_ld_page: "datas s p = Some d \<Longrightarrow> 28 \<le> blen d \<Longrightarrow> dth_ld s p f = Some (rd32 (bat d) (dth_off f))"
  by (cases f) (simp_all add: dth_ld_def ld32_def)

lemma dth_st_page:
  "datas s p = Some d \<Longrightarrow> 28 \<le> blen d \<Longrightarrow>
    dth_st p f v s = Some (put_page p (d\<lparr>bat := wr32 (bat d) (dth_off f) v\<rparr>) s)"
  by (cases f) (simp_all add: dth_st_def st32_def st_page_def)


lemma ring_at_page:
  assumes "ring_at s p cap first used"
  obtains d where "datas s p = Some d" and "0 < cap" and "cap < 2 ^ 31" and "first < cap" and "used \<le> cap"
    and "dentry_off cap \<le> blen d" and "28 \<le> blen d"
    and "rd32 (bat d) 12 = of_nat cap" and "rd32 (bat d) 16 = of_nat used"
    and "rd32 (bat d) 20 = of_nat first" and "rd32 (bat d) 24 = of_nat (ring_slot cap first used)"
  using assms that by (auto simp: ring_at_def dentry_off_def mblock_hdr_def dentry_size_def split: option.splits)

lemma alloc_dentry_ring:
  assumes "ring_at s p cap first used" and "used < cap"
  obtains s' where "userfs_alloc_dentry p s = Some (s', of_nat (ring_slot cap first used))"
    and "ring_at s' p cap first (Suc used)" and "\<And>i. dentry_bytes s' p i = dentry_bytes s p i"
proof -
  obtain d where d: "datas s p = Some d" "0 < cap" "cap < 2 ^ 31" "first < cap" "used \<le> cap"
      "dentry_off cap \<le> blen d" "28 \<le> blen d" "rd32 (bat d) 12 = of_nat cap" "rd32 (bat d) 16 = of_nat used"
      "rd32 (bat d) 20 = of_nat first" "rd32 (bat d) 24 = of_nat (ring_slot cap first used)"
    using assms(1) by (rule ring_at_page)
  let ?f = "wr32 (wr32 (bat d) 16 (of_nat used + 1)) 24 (of_nat (ring_slot cap first (Suc used)))"
  let ?s = "put_page p (d\<lparr>bat := ?f\<rparr>) s"
  have lt: "ring_slot cap first used < cap" using d(2) by (rule ring_slot_less)
  have nx: "((of_nat (ring_slot cap first used) :: u32) + 1) mod of_nat cap = of_nat (ring_slot cap first (Suc used))"
    using of_nat_mod_u32 [of "Suc (ring_slot cap first used)" cap] lt d(3)
    by (simp add: ring_slot_def mod_simps add.commute)
  have run: "userfs_alloc_dentry p s = Some (?s, of_nat (ring_slot cap first used))"
    using d assms(2) of_nat_eq_u32 [of used cap] of_nat_eq_u32 [of cap 0]
    by (simp add: userfs_alloc_dentry_def dth_ld_page [of _ _ d] dth_ld_page [of _ _ "d\<lparr>bat := _\<rparr>"]
        dth_st_page [of _ _ d] dth_st_page [of _ _ "d\<lparr>bat := _\<rparr>"] bytes_simps nx)
  have "ring_at ?s p cap first (Suc used)"
    using d assms(2) by (simp add: ring_at_def bytes_simps)
  moreover have "dentry_bytes ?s p i = dentry_bytes s p i" for i
    using d(1) by (simp add: dentry_bytes_def dent_wr32_low mblock_hdr_def dentry_size_def)
  ultimately show thesis using run that by blast
qed

lemma exchange_page:
  assumes "datas s p = Some d" and "dentry_off cap \<le> blen d" and "unat i < cap" and "unat j < cap"
  shows "userfs_dentry_exchange p i j s = Some (put_page p (d\<lparr>bat :=
    setb (setb (bat d) (dentry_off (unat i)) (dent (bat d) (unat j))) (dentry_off (unat j)) (dent (bat d) (unat i))\<rparr>) s)"
proof -
  have "dentry_off k + dentry_size \<le> blen d" if "k < cap" for k
    using that assms(2) by (simp add: dentry_off_def dentry_size_def)
  then have room: "dentry_off (unat i) + dentry_size \<le> blen d" "dentry_off (unat j) + dentry_size \<le> blen d"
    using assms(3,4) by auto
  have "ld_bytes s p (dentry_off k) dentry_size = Some (dent (bat d) k)" if "dentry_off k + dentry_size \<le> blen d" for k
    using that assms(1) by (simp add: ld_bytes_def dent_def)
  then show ?thesis
    using assms(1) room by (simp add: userfs_dentry_exchange_def st_bytes_page [of _ _ "d"] st_bytes_page [of _ _ "d\<lparr>bat := _\<rparr>"])
qed

lemma free_dentry_ring:
  assumes "ring_at s p cap first used" and "k < used"
  obtains s' where "userfs_free_dentry p (of_nat (ring_slot cap first k)) s = Some (s', if k = 0 then - 1 else 0)"
    and "ring_at s' p cap (ring_slot cap first 1) (used - 1)"
    and "live_dents s' p cap (ring_slot cap first 1) (used - 1) =
      tl ((live_dents s p cap first used)[k := live_dents s p cap first used ! 0])"
proof -
  obtain d where d: "datas s p = Some d" "0 < cap" "cap < 2 ^ 31" "first < cap" "used \<le> cap"
      "dentry_off cap \<le> blen d" "28 \<le> blen d" "rd32 (bat d) 12 = of_nat cap" "rd32 (bat d) 16 = of_nat used"
      "rd32 (bat d) 20 = of_nat first" "rd32 (bat d) 24 = of_nat (ring_slot cap first used)"
    using assms(1) by (rule ring_at_page)
  let ?i = "ring_slot cap first k"
  let ?g = "if k = 0 then bat d else setb (setb (bat d) (dentry_off ?i) (dent (bat d) first)) (dentry_off first) (dent (bat d) ?i)"
  let ?f = "wr32 (wr32 ?g 20 (of_nat (ring_slot cap first 1))) 16 (of_nat (used - 1))"
  let ?s = "put_page p (d\<lparr>bat := ?f\<rparr>) s"
  have lt: "?i < cap" "k < cap" using d assms(2) by (auto intro: ring_slot_less)
  have first: "?i = first \<longleftrightarrow> k = 0" using d lt ring_slot_inj [of first cap k 0] by (simp add: ring_slot_def)
  have guard: "\<not> ((of_nat ?i :: u32) < of_nat first \<and> (of_nat ?i :: u32) \<ge> of_nat (ring_slot cap first used))"
    using lt d assms(2) ring_slot_less [OF d(2), of first used]
    by (simp add: of_nat_less_u32 linorder_not_less [symmetric]) (auto simp: ring_slot_cases)
  have ne: "(of_nat ?i :: u32) \<noteq> of_nat first \<longleftrightarrow> k \<noteq> 0"
    using lt d first by (simp add: of_nat_eq_u32)
  have hdr: "rd32 ?g a = rd32 (bat d) a" if "a + 4 \<le> 44" for a
    using that by (simp add: rd32_setb_low dentry_off_def mblock_hdr_def dentry_size_def)
  have swap: "(if (of_nat ?i :: u32) \<noteq> of_nat first
      then do { s \<leftarrow> userfs_dentry_exchange p (of_nat ?i) (of_nat first) s; Some (s, 0) }
      else Some (s, - 1)) = Some (put_page p (d\<lparr>bat := ?g\<rparr>) s, if k = 0 then - 1 else 0 :: int)"
    using exchange_page [OF d(1,6), of "of_nat ?i" "of_nat first"] lt d first
    by (simp add: ne unat_of_nat_u32 put_same)
  have nx: "((of_nat first :: u32) + 1) mod of_nat cap = of_nat (ring_slot cap first 1)"
    using of_nat_mod_u32 [of "Suc first" cap] d(3,4) by (simp add: ring_slot_def add.commute)
  have nz: "(of_nat cap :: u32) \<noteq> 0" using d of_nat_eq_u32 [of cap 0] by simp
  have u: "(of_nat used :: u32) - 1 = of_nat (used - 1)" using assms(2) by (simp add: of_nat_diff)
  have run: "userfs_free_dentry p (of_nat ?i) s = Some (?s, if k = 0 then - 1 else 0)"
    unfolding userfs_free_dentry_def
    by (simp only: dth_ld_page [OF d(1) d(7)] dth_off.simps d(8-11) Option.bind.simps(2) guard if_False swap)
      (use d nz nx in \<open>simp add: dth_ld_page [of _ _ "d\<lparr>bat := _\<rparr>"] dth_st_page [of _ _ "d\<lparr>bat := _\<rparr>"]
        bytes_simps hdr u\<close>)
  have at: "ring_at ?s p cap (ring_slot cap first 1) (used - 1)"
    using d assms(2) hdr ring_slot_less [OF d(2)] ring_slot_Suc [of cap first "used - 1"]
    by (simp add: ring_at_def bytes_simps)
  have dents: "dentry_bytes ?s p (ring_slot cap first (Suc m)) =
      (if Suc m = k then dentry_bytes s p first else dentry_bytes s p (ring_slot cap first (Suc m)))"
    if m: "Suc m < used" for m
  proof -
    have "ring_slot cap first (Suc m) = ?i \<longleftrightarrow> Suc m = k"
      using m d lt by (intro ring_slot_inj) auto
    moreover have "ring_slot cap first (Suc m) \<noteq> first"
      using m d ring_slot_inj [of first cap "Suc m" 0] by (simp add: ring_slot_def)
    ultimately show ?thesis
      using d(1) by (auto simp: dentry_bytes_def dent_wr32_low mblock_hdr_def dentry_size_def
          dent_setb_other dent_setb_same [unfolded dentry_size_def])
  qed
  have "live_dents ?s p cap (ring_slot cap first 1) (used - 1) =
      tl ((live_dents s p cap first used)[k := live_dents s p cap first used ! 0])" (is "?l = ?r")
  proof (rule nth_equalityI)
    show "length ?l = length ?r" by (simp add: live_dents_def)
    show "?l ! m = ?r ! m" if "m < length ?l" for m
    proof -
      have r0: "ring_slot cap first 0 = first" using d(4) by (simp add: ring_slot_def)
      have m: "Suc m < used" using that by (simp add: live_dents_def)
      have "?r ! m = (if Suc m = k then dentry_bytes s p first else dentry_bytes s p (ring_slot cap first (Suc m)))"
        using m assms(2) r0 by (simp add: live_dents_def nth_tl nth_list_update)
      moreover have "?l ! m = dentry_bytes ?s p (ring_slot cap first (Suc m))"
        using m by (simp only: live_dents_def) (simp add: ring_slot_Suc [simplified])
      ultimately show ?thesis using dents [OF m] by simp
    qed
  qed
  with run at show thesis by (rule that)
qed


text \<open>
  (C9) The dentry table is a list of live dentries kept in a ring.  Allocating a slot of a table that
  is not full returns the slot behind the live ones and appends it to the list; a full table is
  left alone and \<open>UINT32_MAX\<close> returned.  Freeing a live slot removes its dentry and puts the first
  one in its place, so that the other live dentries are kept; the result tells whether one moved.
\<close>

theorem dentry_ring_refines:
  assumes "ring_at s p cap first used"
  shows "(used = cap \<longrightarrow> userfs_alloc_dentry p s = Some (s, UINT32_MAX)) \<and>
    (used < cap \<longrightarrow> (\<exists>s'. userfs_alloc_dentry p s = Some (s', of_nat (ring_slot cap first used)) \<and>
      ring_at s' p cap first (Suc used) \<and>
      live_dents s' p cap first (Suc used) =
        live_dents s p cap first used @ [dentry_bytes s p (ring_slot cap first used)])) \<and>
    (\<forall>k < used. \<exists>s'. userfs_free_dentry p (of_nat (ring_slot cap first k)) s = Some (s', if k = 0 then - 1 else 0) \<and>
      ring_at s' p cap (ring_slot cap first 1) (used - 1) \<and>
      live_dents s' p cap (ring_slot cap first 1) (used - 1) =
        tl ((live_dents s p cap first used)[k := live_dents s p cap first used ! 0]) \<and>
      mset (live_dents s p cap first used) =
        add_mset (live_dents s p cap first used ! k) (mset (live_dents s' p cap (ring_slot cap first 1) (used - 1))))"
proof (intro conjI impI allI)
  show "userfs_alloc_dentry p s = Some (s, UINT32_MAX)" if "used = cap"
    using assms that by (auto elim!: ring_at_page simp: userfs_alloc_dentry_def dth_ld_page)
  show "\<exists>s'. userfs_alloc_dentry p s = Some (s', of_nat (ring_slot cap first used)) \<and>
      ring_at s' p cap first (Suc used) \<and>
      live_dents s' p cap first (Suc used) = live_dents s p cap first used @ [dentry_bytes s p (ring_slot cap first used)]"
    if lt: "used < cap"
  proof -
    obtain s' where "userfs_alloc_dentry p s = Some (s', of_nat (ring_slot cap first used))"
        "ring_at s' p cap first (Suc used)" "\<And>i. dentry_bytes s' p i = dentry_bytes s p i"
      by (rule alloc_dentry_ring [OF assms lt]) (rule that)
    then show ?thesis by (auto simp: live_dents_def)
  qed
  show "\<exists>s'. userfs_free_dentry p (of_nat (ring_slot cap first k)) s = Some (s', if k = 0 then - 1 else 0) \<and>
      ring_at s' p cap (ring_slot cap first 1) (used - 1) \<and>
      live_dents s' p cap (ring_slot cap first 1) (used - 1) =
        tl ((live_dents s p cap first used)[k := live_dents s p cap first used ! 0]) \<and>
      mset (live_dents s p cap first used) =
        add_mset (live_dents s p cap first used ! k) (mset (live_dents s' p cap (ring_slot cap first 1) (used - 1)))"
    if k: "k < used" for k
  proof -
    obtain s' where s': "userfs_free_dentry p (of_nat (ring_slot cap first k)) s = Some (s', if k = 0 then - 1 else 0)"
        "ring_at s' p cap (ring_slot cap first 1) (used - 1)"
        "live_dents s' p cap (ring_slot cap first 1) (used - 1) =
          tl ((live_dents s p cap first used)[k := live_dents s p cap first used ! 0])"
      by (rule free_dentry_ring [OF assms k]) (rule that)
    have "k < length (live_dents s p cap first used)" using k by (simp add: live_dents_def)
    then have "mset (live_dents s p cap first used) = add_mset (live_dents s p cap first used ! k)
        (mset (tl ((live_dents s p cap first used)[k := live_dents s p cap first used ! 0])))"
      by (rule mset_move_first)
    with s' show ?thesis by simp
  qed
qed

definition ring_page :: buf where
  "ring_page = \<lparr>blen = 140, bat = wr32 (wr32 (wr32 (wr32 (\<lambda>i. of_nat i) 12 3) 16 2) 20 2) 24 1\<rparr>"

definition dring_example :: fs where
  "dring_example = put_page 2 ring_page fs0"

theorem dentry_ring_refines_witness:
  "\<exists>s1 s2. userfs_alloc_dentry 2 dring_example = Some (s1, 1) \<and> ring_at s1 2 3 2 3 \<and>
    userfs_free_dentry 2 0 dring_example = Some (s2, 0) \<and> ring_at s2 2 3 0 1 \<and>
    live_dents s2 2 3 0 1 = [dentry_bytes dring_example 2 2]"
proof -
  have at: "ring_at dring_example 2 3 2 2"
    by (simp add: ring_at_def dring_example_def ring_page_def ring_slot_def bytes_simps dentry_off_def
        mblock_hdr_def dentry_size_def)
  have "live_dents dring_example 2 3 2 2 = [dentry_bytes dring_example 2 2, dentry_bytes dring_example 2 0]"
    by (simp add: live_dents_def ring_slot_def upt_conv_Cons numeral_2_eq_2)
  then have tl: "tl ((live_dents dring_example 2 3 2 2)[1 := live_dents dring_example 2 3 2 2 ! 0]) = [dentry_bytes dring_example 2 2]"
    by simp
  note t = dentry_ring_refines [OF at]
  obtain s1 where s1: "userfs_alloc_dentry 2 dring_example = Some (s1, 1)" "ring_at s1 2 3 2 3"
    using t [THEN conjunct2, THEN conjunct1] by (auto simp: ring_slot_def)
  obtain s2 where s2: "userfs_free_dentry 2 0 dring_example = Some (s2, 0)" "ring_at s2 2 3 0 1"
      "live_dents s2 2 3 0 1 = [dentry_bytes dring_example 2 2]"
    using t [THEN conjunct2, THEN conjunct2, rule_format, of 1] tl by (auto simp: ring_slot_def)
  from s1 s2 show ?thesis by blast
qed



section \<open>Allocating data blocks\<close>

lemma alloc_dbbuf_fresh:
  assumes "free_dbbuf_list s = NULL" and "can_alloc s"
  shows "userfs_alloc_dbbuf n s = Some (with_buf n bbuf_zero s, fresh_addr s)"
proof -
  have 1: "fresh_addr s \<noteq> NULL" "buf_addr s \<noteq> NULL"
    using assms(2) fresh_addr_nonzero [of s] fresh_addr_nonzero [of "s\<lparr>brk := Suc (brk s)\<rparr>"]
    by (simp_all add: can_alloc_def malloc_ok_def buf_addr_def)
  have ok: "malloc_ok ((put_bbuf (fresh_addr s) bbuf_zero s)\<lparr>brk := Suc (brk s)\<rparr>)"
    using assms(2) by (simp add: can_alloc_def malloc_ok_def)
  have adr: "fresh_addr ((put_bbuf (fresh_addr s) bbuf_zero s)\<lparr>brk := Suc (brk s)\<rparr>) = buf_addr s"
    by (simp add: fresh_addr_def buf_addr_def)
  show ?thesis
    using assms 1
    by (simp add: userfs_alloc_dbbuf_def can_alloc_def malloc_bbuf_ok malloc_data_ok [OF ok] adr Let_def
        upd_bbuf_def with_buf_def)
      (cases s, simp add: put_page_def put_bbuf_def bbuf_zero_def)
qed

lemma sb_ld_page: "datas s p = Some d \<Longrightarrow> 80 \<le> blen d \<Longrightarrow> sb_ld s p f = Some (rd32 (bat d) (sb_off f))"
  by (cases f) (simp_all add: sb_ld_def ld32_def)

lemma sb_st_page:
  "datas s p = Some d \<Longrightarrow> 80 \<le> blen d \<Longrightarrow>
    sb_st p f v s = Some (put_page p (d\<lparr>bat := wr32 (bat d) (sb_off f) v\<rparr>) s)"
  by (cases f) (simp_all add: sb_st_def st32_def st_page_def)

lemma bgdidx2bgd_cong:
  assumes "userfs_bgdidx2bgd L per nr dsz s = Some (p, off)"
    and "\<And>q b. bbufs s q = Some b \<Longrightarrow> bbufs s' q = Some b"
    and "\<And>q d. datas s q = Some d \<Longrightarrow> datas s' q = Some d"
  shows "userfs_bgdidx2bgd L per nr dsz s' = Some (p, off)"
  using assms by (auto simp: userfs_bgdidx2bgd_def ld16_def Let_def split: if_splits)

text \<open>
  The state in which a data block can be taken: the heap \<open>h\<close> of the index has at its top a group
  with free blocks, whose descriptor is at \<open>off\<close> of page \<open>p\<close> with bitmap \<open>b\<close>; \<open>sd\<close> is the page of
  the super block.
\<close>

definition dblock_ready :: "fs \<Rightarrow> ptr \<Rightarrow> buf \<Rightarrow> bgd_index_list \<Rightarrow> mrheap \<Rightarrow> ptr \<Rightarrow> nat \<Rightarrow> bitmap_t \<Rightarrow> bool" where
  "dblock_ready s sb sd L h p off b \<longleftrightarrow>
     mem_ok s \<and> can_alloc s \<and> free_dbbuf_list s = NULL \<and>
     datas s sb = Some sd \<and> 80 \<le> blen sd \<and> p \<noteq> sb \<and>
     bgi_maxroot_heap L = Some h \<and> mrheap_inv h \<and> hsize h \<noteq> 0 \<and> bgi_free_blocks_count (heap h ! 0) \<noteq> 0 \<and>
     userfs_bgdidx2bgd L (rd32 (bat sd) (sb_off S_bgroup_desc_per_mb_count)) (bgi_bgroup_nr (heap h ! 0))
       (rd32 (bat sd) (sb_off S_bgroup_desc_size)) s = Some (p, off) \<and>
     bm_load s p (off + bgd_bitmap_off) = Some b \<and> bm_inv b \<and> bm_used b \<noteq> {..<bm_bits b}"

lemma heap_move:
  assumes "mrheap_inv h" and "hsize h \<noteq> 0"
  obtains h1 h2 e where "e = heap h ! 0" and "userfs_mrheap_get_heaptop h = Some (Some e)"
    and "userfs_mrheap_extract_heaptop h = Some (h1, Some e)"
    and "\<exists>x. userfs_mrheap_insert True h1 (bgi_bgroup_nr e) (bgi_free_blocks_count e - 1) (Some e) = Some (h2, x)"
    and "mrheap_inv h2" and "e \<in># mrheap_elems h"
    and "\<forall>x \<in># mrheap_elems h. bgi_free_blocks_count x \<le> bgi_free_blocks_count e"
    and "mrheap_elems h2 = add_mset (e\<lparr>bgi_free_blocks_count := bgi_free_blocks_count e - 1\<rparr>) (mrheap_elems h - {#e#})"
proof -
  let ?e = "heap h ! 0"
  have top: "userfs_mrheap_get_heaptop h = Some (Some ?e)"
    using assms by (auto simp: userfs_mrheap_get_heaptop_def mrheap_inv_def word_le_nat_alt unat_eq_zero)
  obtain h1 where h1: "userfs_mrheap_extract_heaptop h = Some (h1, Some ?e)" "mrheap_inv h1"
      "?e \<in># mrheap_elems h" "\<forall>x \<in># mrheap_elems h. cnt x \<le> cnt ?e"
      "mrheap_elems h1 = mrheap_elems h - {#?e#}" "hsize h1 = hsize h - 1" "capacity h1 = capacity h"
    using mrheap_extract_spec [OF assms] by (elim exE conjE) (rule that)
  have "hsize h \<le> capacity h" using assms(1) by (simp add: mrheap_inv_def)
  then have "hsize h1 < capacity h1"
    using assms(2) unat_gt_0 [of "hsize h"] by (simp add: h1 word_less_nat_alt word_le_nat_alt unat_minus_one)
  from mrheap_insert_spec [OF h1(2) this, of True "Some ?e" "bgi_bgroup_nr ?e" "cnt ?e - 1"]
  obtain h2 where "userfs_mrheap_insert True h1 (bgi_bgroup_nr ?e) (cnt ?e - 1) (Some ?e) =
        Some (h2, Some \<lparr>bgi_free_blocks_count = cnt ?e - 1, bgi_bgroup_nr = bgi_bgroup_nr ?e\<rparr>)"
      "mrheap_inv h2" "mrheap_elems h2 = add_mset \<lparr>bgi_free_blocks_count = cnt ?e - 1, bgi_bgroup_nr = bgi_bgroup_nr ?e\<rparr> (mrheap_elems h1)"
    by auto
  with top h1 show thesis by (intro that [of ?e h1 h2]) (auto simp: mrheap_elem.defs)
qed


definition new_dbbuf :: "u32 \<Rightarrow> u32 \<Rightarrow> fs \<Rightarrow> bbuf" where
  "new_dbbuf shard nr s = \<lparr>b_this_page = NULL, b_list_len = 1, b_type = USERFS_BTYPE_DATA, b_blocknr = nr,
     b_block_s_off = 0, b_size = shard, b_data = buf_addr s\<rparr>"

lemma ready_unfold:
  assumes "dblock_ready s sb sd L h p off b"
  shows "mem_ok s" "can_alloc s" "free_dbbuf_list s = NULL" "datas s sb = Some sd" "80 \<le> blen sd" "p \<noteq> sb"
    "bgi_maxroot_heap L = Some h" "mrheap_inv h" "hsize h \<noteq> 0" "bgi_free_blocks_count (heap h ! 0) \<noteq> 0"
    "userfs_bgdidx2bgd L (rd32 (bat sd) (sb_off S_bgroup_desc_per_mb_count)) (bgi_bgroup_nr (heap h ! 0))
       (rd32 (bat sd) (sb_off S_bgroup_desc_size)) s = Some (p, off)"
    "bm_load s p (off + bgd_bitmap_off) = Some b" "bm_inv b" "bm_used b \<noteq> {..<bm_bits b}"
  using assms by (simp_all add: dblock_ready_def)

lemma bm_least_small:
  assumes "bm_inv b" and "bm_used b \<noteq> {..<bm_bits b}"
  shows "(LEAST n. n \<notin> bm_used b) < bm_bits b" and "(of_int (int (LEAST n. n \<notin> bm_used b)) :: u32) \<noteq> - 1"
proof -
  show lt: "(LEAST n. n \<notin> bm_used b) < bm_bits b"
    using bm_used_full_iff [OF assms(1)] assms bm_least_free [OF assms(1)] by (auto simp: bm_inv_def)
  have "bm_bits b < 2 ^ 31" using assms(1) by (simp add: bm_inv_def)
  then show "(of_int (int (LEAST n. n \<notin> bm_used b)) :: u32) \<noteq> - 1"
    using lt by (simp add: word_unat_eq_iff unat_of_nat unsigned_minus_1_eq_mask mask_eq_exp_minus_1)
qed

lemma new_dblock_spec:
  assumes ready: "dblock_ready s sb sd L h p off b" and pd: "datas s p = Some pd"
  defines "e \<equiv> heap h ! 0" and "n \<equiv> LEAST n. n \<notin> bm_used b"
  defines "nr \<equiv> bgi_bgroup_nr e * rd32 (bat sd) (sb_off S_data_block_per_group) + of_nat n"
  obtains s' pd' h2 b' where
    "userfs_get_new_dblock sb L shard s = Some (s', L\<lparr>bgi_maxroot_heap := Some h2\<rparr>, fresh_addr s)"
    and "s' = put_bbuf (fresh_addr s) (new_dbbuf shard nr s) (put_page p pd' (put_page sb
      (sd\<lparr>bat := wr32 (bat sd) (sb_off S_free_data_block_count) (rd32 (bat sd) (sb_off S_free_data_block_count) - 1)\<rparr>)
      (with_buf shard bbuf_zero s)))"
    and "blen pd' = blen pd" and "bm_load s' p (off + bgd_bitmap_off) = Some b'" and "bm_inv b'"
    and "bm_used b' = insert n (bm_used b)" and "bm_bits b' = bm_bits b"
    and "rd16 (bat pd') (off + bgd_off Bg_free_block_count) = rd16 (bat pd) (off + bgd_off Bg_free_block_count) - 1"
    and "mrheap_inv h2" and "e \<in># mrheap_elems h"
    and "\<forall>x \<in># mrheap_elems h. bgi_free_blocks_count x \<le> bgi_free_blocks_count e"
    and "mrheap_elems h2 = add_mset (e\<lparr>bgi_free_blocks_count := bgi_free_blocks_count e - 1\<rparr>) (mrheap_elems h - {#e#})"
proof -
  note r = ready_unfold [OF ready]
  let ?s1 = "with_buf shard bbuf_zero s" and ?q = "fresh_addr s" and ?o = "off + bgd_off Bg_free_block_count"
  note keep = with_buf_sel(3,5) [OF r(1,2)]
  obtain h1 h2 where hp: "userfs_mrheap_get_heaptop h = Some (Some e)"
      "userfs_mrheap_extract_heaptop h = Some (h1, Some e)"
      "\<exists>x. userfs_mrheap_insert True h1 (bgi_bgroup_nr e) (bgi_free_blocks_count e - 1) (Some e) = Some (h2, x)"
      "mrheap_inv h2" "e \<in># mrheap_elems h" "\<forall>x \<in># mrheap_elems h. bgi_free_blocks_count x \<le> bgi_free_blocks_count e"
      "mrheap_elems h2 = add_mset (e\<lparr>bgi_free_blocks_count := bgi_free_blocks_count e - 1\<rparr>) (mrheap_elems h - {#e#})"
    using heap_move [OF r(8,9)] unfolding e_def by metis
  have nz: "?q \<noteq> NULL" using r(2) fresh_addr_nonzero [of s] by (simp add: can_alloc_def malloc_ok_def)
  have load: "bm_load ?s1 p (off + bgd_bitmap_off) = Some b" by (rule bm_load_with_buf [OF r(1,2,12)])
  obtain s2 b' d pd1 where s2: "bitmap_get_first_free_at p (off + bgd_bitmap_off) ?s1 = Some (s2, int n)"
      "bm_load s2 p (off + bgd_bitmap_off) = Some b'" "bm_inv b'" "bm_used b' = insert n (bm_used b)"
      "bm_bits b' = bm_bits b" "datas ?s1 p = Some d" "s2 = put_page p pd1 ?s1" "blen pd1 = blen d"
      "\<And>i. i < off + bgd_bitmap_off \<Longrightarrow> bat pd1 i = bat d i"
    by (rule get_first_free_at_spec [OF load r(13,14), folded n_def]) (rule that)
  have d: "d = pd" using s2(6) keep(1) [OF pd] by simp
  have "rd16 (bat pd1) ?o = rd16 (bat pd) ?o"
    using s2(9) d by (intro rd16_cong) (simp_all add: bgd_bitmap_off_def)
  moreover have room: "off + 4 \<le> blen pd" using load bm_load_datas [OF load] s2(6) d by (auto simp: bgd_bitmap_off_def)
  ultimately have fb: "ld16 s2 p ?o = Some (rd16 (bat pd) ?o)"
    using s2(7,8) d by (simp add: ld16_def)
  let ?sd = "sd\<lparr>bat := wr32 (bat sd) (sb_off S_free_data_block_count) (rd32 (bat sd) (sb_off S_free_data_block_count) - 1)\<rparr>"
  let ?pd = "pd1\<lparr>bat := wr16 (bat pd1) ?o (rd16 (bat pd) ?o - 1)\<rparr>"
  let ?s4 = "put_page p ?pd (put_page sb ?sd ?s1)"
  have comm: "put_page p a (put_page sb c (put_page p a' t)) = put_page p a (put_page sb c t)" for a a' c t
    using r(6) by (simp add: put_page_def fun_upd_twist)
  have sb2: "datas s2 sb = Some sd" using keep(1) [OF r(4)] r(6) s2(7) by simp
  have st1: "sb_st sb S_free_data_block_count (rd32 (bat sd) (sb_off S_free_data_block_count) - 1) s2 = Some (put_page sb ?sd s2)"
    by (rule sb_st_page [OF sb2 r(5)])
  have st2: "st16 p ?o (rd16 (bat pd) ?o - 1) (put_page sb ?sd s2) = Some ?s4"
    using s2(7,8) room d r(6) by (simp add: st16_def st_page_def comm)
  have bb: "upd_bbuf ?q (\<lambda>b. b\<lparr>b_block_s_off := 0, b_list_len := 1, b_blocknr := nr, b_type := USERFS_BTYPE_DATA\<rparr>) ?s4 =
      Some (put_bbuf ?q (new_dbbuf shard nr s) ?s4)"
    using with_buf_sel(1) [OF r(1,2)] by (simp add: upd_bbuf_def new_dbbuf_def bbuf_zero_def)
  have bgd: "userfs_bgdidx2bgd L (rd32 (bat sd) (sb_off S_bgroup_desc_per_mb_count)) (bgi_bgroup_nr e)
      (rd32 (bat sd) (sb_off S_bgroup_desc_size)) ?s1 = Some (p, off)"
    unfolding e_def by (rule bgdidx2bgd_cong [OF r(11) keep(2,1)])
  have fb': "ld16 (put_page sb ?sd s2) p ?o = Some (rd16 (bat pd) ?o)" using fb r(6) by (simp add: ld16_def)
  have pg: "sb_ld ?s4 sb S_data_block_per_group = Some (rd32 (bat sd) (sb_off S_data_block_per_group))"
    using r(5,6) by (simp add: sb_ld_page [of _ _ ?sd] bytes_simps)
  have cz: "bgi_free_blocks_count e \<noteq> 0" using r(10) by (simp add: e_def)
  have run: "userfs_get_new_dblock sb L shard s = Some (put_bbuf ?q (new_dbbuf shard nr s) ?s4, L\<lparr>bgi_maxroot_heap := Some h2\<rparr>, ?q)"
    using hp(3) bb bm_least_small(2) [OF r(13,14), folded n_def]
    by (auto simp: userfs_get_new_dblock_def alloc_dbbuf_fresh [OF r(3,2)] nz r(7) hp(1,2) cz
        sb_ld_page [OF keep(1) [OF r(4)] r(5)] bgd s2(1) sb_ld_page [OF sb2 r(5)] st1 fb' st2 pg nr_def Let_def
        simp del: bind_Some_iff sb_off.simps bgd_off.simps)
  have load4: "bm_load ?s4 p (off + bgd_bitmap_off) = Some b'"
    using s2(7) by (intro bm_load_below [OF s2(2), of pd1 _ ?pd]) (auto simp: bgd_bitmap_off_def wr16_apply_other)
  show thesis
  proof (rule that [OF run refl])
    show "bm_load (put_bbuf ?q (new_dbbuf shard nr s) ?s4) p (off + bgd_bitmap_off) = Some b'"
      using load4 by (simp add: bm_load_def)
    show "rd16 (bat ?pd) ?o = rd16 (bat pd) ?o - 1" by (simp add: bytes_simps)
  qed (use s2 d hp in simp_all)
qed


text \<open>
  (C5) A new data block is the lowest free block of a group with the most free blocks.  It is marked
  in the group's bitmap, the free counts of the super block, of the descriptor and of the group
  in the index fall by one, and the caller gets a fresh buffer of one shard with the block's number.
\<close>

theorem new_dblock_lightest:
  assumes "dblock_ready s sb sd L h p off b" and "datas s p = Some pd"
  shows "\<exists>s' h' e bb pd' b'. userfs_get_new_dblock sb L shard s = Some (s', L\<lparr>bgi_maxroot_heap := Some h'\<rparr>, fresh_addr s) \<and>
    e \<in># mrheap_elems h \<and> (\<forall>x \<in># mrheap_elems h. bgi_free_blocks_count x \<le> bgi_free_blocks_count e) \<and>
    mrheap_inv h' \<and> mrheap_elems h' = add_mset (e\<lparr>bgi_free_blocks_count := bgi_free_blocks_count e - 1\<rparr>) (mrheap_elems h - {#e#}) \<and>
    bbufs s (fresh_addr s) = None \<and> bbufs s' (fresh_addr s) = Some bb \<and> b_type bb = USERFS_BTYPE_DATA \<and>
    b_blocknr bb = bgi_bgroup_nr e * rd32 (bat sd) (sb_off S_data_block_per_group) + of_nat (LEAST n. n \<notin> bm_used b) \<and>
    map_option blen (datas s' (b_data bb)) = Some (unat shard) \<and>
    bm_load s' p (off + bgd_bitmap_off) = Some b' \<and> bm_inv b' \<and>
    bm_used b' = insert (LEAST n. n \<notin> bm_used b) (bm_used b) \<and>
    sb_ld s' sb S_free_data_block_count = Some (rd32 (bat sd) (sb_off S_free_data_block_count) - 1) \<and>
    datas s' p = Some pd' \<and>
    rd16 (bat pd') (off + bgd_off Bg_free_block_count) = rd16 (bat pd) (off + bgd_off Bg_free_block_count) - 1"
proof -
  note r = ready_unfold [OF assms(1)]
  let ?e = "heap h ! 0" and ?n = "LEAST n. n \<notin> bm_used b"
  let ?nr = "bgi_bgroup_nr ?e * rd32 (bat sd) (sb_off S_data_block_per_group) + of_nat ?n"
  obtain s' pd' h2 b' where n: "userfs_get_new_dblock sb L shard s = Some (s', L\<lparr>bgi_maxroot_heap := Some h2\<rparr>, fresh_addr s)"
      "s' = put_bbuf (fresh_addr s) (new_dbbuf shard ?nr s) (put_page p pd' (put_page sb
        (sd\<lparr>bat := wr32 (bat sd) (sb_off S_free_data_block_count) (rd32 (bat sd) (sb_off S_free_data_block_count) - 1)\<rparr>)
        (with_buf shard bbuf_zero s)))"
      "blen pd' = blen pd" "bm_load s' p (off + bgd_bitmap_off) = Some b'" "bm_inv b'"
      "bm_used b' = insert ?n (bm_used b)" "bm_bits b' = bm_bits b"
      "rd16 (bat pd') (off + bgd_off Bg_free_block_count) = rd16 (bat pd) (off + bgd_off Bg_free_block_count) - 1"
      "mrheap_inv h2" "?e \<in># mrheap_elems h"
      "\<forall>x \<in># mrheap_elems h. bgi_free_blocks_count x \<le> bgi_free_blocks_count ?e"
      "mrheap_elems h2 = add_mset (?e\<lparr>bgi_free_blocks_count := bgi_free_blocks_count ?e - 1\<rparr>) (mrheap_elems h - {#?e#})"
    by (rule new_dblock_spec [OF assms, of shard]) (rule that)
  have "map_option blen (datas s' (buf_addr s)) = Some (unat shard)"
    using with_buf_sel(2) [OF r(1,2)] with_buf_sel(4) [OF r(1,2) assms(2)] with_buf_sel(4) [OF r(1,2) r(4)]
    by (auto simp: n(2))
  moreover have "bbufs s (fresh_addr s) = None"
    using r(1,2) by (simp add: mem_ok_fresh can_alloc_def malloc_ok_def)
  moreover have "sb_ld s' sb S_free_data_block_count = Some (rd32 (bat sd) (sb_off S_free_data_block_count) - 1)"
    using r(5,6) by (simp add: n(2) sb_ld_def ld32_def bytes_simps)
  ultimately show ?thesis
    using n(1,4-6,8-12)
    by - (rule exI [of _ s'], rule exI [of _ h2], rule exI [of _ ?e], rule exI [of _ "new_dbbuf shard ?nr s"],
      rule exI [of _ pd'], rule exI [of _ b'], simp add: n(2) new_dbbuf_def)
qed

definition group_heap :: mrheap where
  "group_heap = \<lparr>heap = [\<lparr>bgi_free_blocks_count = 8, bgi_bgroup_nr = 1\<rparr>,
     \<lparr>bgi_free_blocks_count = 3, bgi_bgroup_nr = 0\<rparr>], capacity = 2, hsize = 2\<rparr>"

definition group_index :: bgd_index_list where
  "group_index = \<lparr>bgi_bgd_mb_count = 1, bgi_blocknr2bbuf = [1], bgi_maxroot_heap = Some group_heap\<rparr>"

definition group_sb :: buf where
  "group_sb = \<lparr>blen = 128, bat = wr32 (wr32 (wr32 (wr32 (\<lambda>_. 0) 60 2) 56 18) 32 8) 28 16\<rparr>"

definition group_page :: buf where
  "group_page = \<lparr>blen = 64, bat = wr32 (wr16 (wr16 (\<lambda>_. 0) 30 8) 32 8) 34 1\<rparr>"

definition group_example :: fs where
  "group_example = (put_bbuf 1 (bbuf_zero\<lparr>b_data := 2\<rparr>) (put_page 2 group_page (put_page 3 group_sb fs0)))\<lparr>brk := 3\<rparr>"

definition group_bitmap :: bitmap_t where
  "group_bitmap = \<lparr>bytes = 1, used_bits_count = 0, first_free_pos = 0, bitmap = (\<lambda>i. bat group_page (46 + i)), avail = 18\<rparr>"

lemma group_heap_inv: "mrheap_inv group_heap"
proof -
  have "i = 1" if "0 < i" "i < unat (2 :: u32)" for i using that by simp
  then show ?thesis by (auto simp: mrheap_inv_def heap_ordered_def group_heap_def par_def)
qed

lemma group_ready: "dblock_ready group_example 3 group_sb group_index group_heap 2 30 group_bitmap"
proof -
  have used: "bm_used group_bitmap = {}" "bm_bits group_bitmap = 8"
    by (auto simp: bm_used_def bm_test_def bm_bits_def group_bitmap_def group_page_def wr32_apply_other wr16_apply_other)
  have free: "bm_used group_bitmap \<noteq> {..<bm_bits group_bitmap}"
    unfolding used using lessThan_iff [of 0 "8 :: nat"] by force
  have mem: "mem_ok group_example" by (auto simp: mem_ok_def group_example_def fs0_def)
  have alloc: "can_alloc group_example" by (simp add: can_alloc_def malloc_ok_def group_example_def fs0_def)
  have sb: "rd32 (bat group_sb) 60 = 2" "rd32 (bat group_sb) 56 = 18" "blen group_sb = 128"
    by (simp_all add: group_sb_def bytes_simps)
  have bm: "bm_load group_example 2 34 = Some group_bitmap"
    by (simp add: bm_load_def group_example_def group_page_def group_bitmap_def bytes_simps) (simp add: rd32_def wr16_apply_other)
  have bgd: "userfs_bgdidx2bgd group_index 2 1 18 group_example = Some (2, 30)"
    by (simp add: userfs_bgdidx2bgd_def group_index_def group_example_def group_page_def ld16_def mblock_hdr_def Let_def)
  have inv: "bm_inv group_bitmap" by code_simp
  show ?thesis
    using mem alloc sb bm bgd inv free group_heap_inv
    by (simp add: dblock_ready_def bgd_bitmap_off_def) (simp add: group_example_def group_index_def group_heap_def fs0_def)
qed

theorem new_dblock_lightest_witness:
  "\<exists>s' L' q bb. userfs_get_new_dblock 3 group_index 64 group_example = Some (s', L', q) \<and>
    bbufs s' q = Some bb \<and> b_blocknr bb = 8 \<and> sb_ld s' 3 S_free_data_block_count = Some 15"
proof -
  have least: "(LEAST n. n \<notin> bm_used group_bitmap) = 0"
    by (rule Least_equality)
      (auto simp: bm_used_def bm_test_def bm_bits_def group_bitmap_def group_page_def wr32_apply_other wr16_apply_other)
  have sb: "rd32 (bat group_sb) 32 = 8" "rd32 (bat group_sb) 28 = 16" by (simp_all add: group_sb_def bytes_simps)
  have pd: "datas group_example 2 = Some group_page" by (simp add: group_example_def)
  obtain s' h' e bb where w: "userfs_get_new_dblock 3 group_index 64 group_example =
        Some (s', group_index\<lparr>bgi_maxroot_heap := Some h'\<rparr>, fresh_addr group_example)"
      "e \<in># mrheap_elems group_heap" "\<forall>x \<in># mrheap_elems group_heap. bgi_free_blocks_count x \<le> bgi_free_blocks_count e"
      "bbufs s' (fresh_addr group_example) = Some bb" "b_blocknr bb = bgi_bgroup_nr e * 8"
      "sb_ld s' 3 S_free_data_block_count = Some 15"
    using new_dblock_lightest [OF group_ready pd, of 64] unfolding least by (simp add: sb) blast
  have "bgi_bgroup_nr e = 1" using w(2,3) by (auto simp: mrheap_elems_def group_heap_def)
  with w show ?thesis by auto
qed

end
