(* ===== verification/File_Ops.thy ===== *)
theory File_Ops
  imports File_Ctrl
begin

text \<open>
  \<open>userfs/userfs_file_ops.c\<close>: creating, opening, closing, deleting, writing and reading files.

  The dentry hash table is a pointer that may be \<open>NULL\<close>; a name is the bytes readable at the
  pointer, a buffer to write from its bytes, a buffer to read into its size.  The inode of an open
  file is the head of the page of its first block buffer, followed by the table \<open>i_v2pnode_table\<close>
  that maps logical blocks to block numbers or, tagged in the top bit, to buffers.

  The results: what is written into the first shard of a file is read back, also after the file
  was closed and opened again; and the ways the code departs from that for other shards.
\<close>

section \<open>Creating and opening\<close>

abbreviation USERFS_NAME2INODE :: u8 where "USERFS_NAME2INODE \<equiv> 0"
abbreviation USERFS_NAME2INODEBUF :: u8 where "USERFS_NAME2INODEBUF \<equiv> 1"

text \<open>The \<open>n\<close> bytes \<open>strncpy\<close> stores: up to the terminator, padded with zeros.\<close>

fun strncpy_bytes :: "u8 list \<Rightarrow> nat \<Rightarrow> u8 list option" where
  "strncpy_bytes cs 0 = Some []"
| "strncpy_bytes [] (Suc n) = None"
| "strncpy_bytes (c # cs) (Suc n) =
     (if c = 0 then Some (replicate (Suc n) 0)
      else do { bs \<leftarrow> strncpy_bytes cs n; Some (c # bs) })"

definition ref_add :: "ptr \<Rightarrow> fs \<Rightarrow> fs option" where
  "ref_add p s = do {
     n \<leftarrow> ino_ld s p Ref_count;
     ino_st p Ref_count (fst (atomic_add n 1)) s
   }"

definition userfs_file_create ::
    "u8 list \<Rightarrow> u32 \<Rightarrow> u32 \<Rightarrow> ptr \<Rightarrow> linkhash option \<Rightarrow> ptr \<Rightarrow> bgd_index_list \<Rightarrow> fs \<Rightarrow>
     (fs \<times> linkhash option \<times> bgd_index_list \<times> ptr) option" where
  "userfs_file_create name name_len dblock_shard_size sb dentry_hashtable dentry_table_bbuf bgd_idx_list s =
     (if name_len > USERFS_MAX_FILE_NAME_LEN then Some (s, dentry_hashtable, bgd_idx_list, NULL)
      else case now s of
        None \<Rightarrow> Some (s, dentry_hashtable, bgd_idx_list, NULL)
      | Some tv_sec \<Rightarrow> do {
          dtb \<leftarrow> bbufs s dentry_table_bbuf;
          let dentry_table = b_data dtb;
          (s, dentry_pos) \<leftarrow> userfs_alloc_dentry dentry_table s;
          if dentry_pos = UINT32_MAX then Some (s, dentry_hashtable, bgd_idx_list, NULL)
          else do {
            (s, bgd_idx_list, new_inode_bbuf) \<leftarrow> userfs_get_new_inode sb bgd_idx_list dblock_shard_size tv_sec s;
            if new_inode_bbuf = NULL
            then do {
              (s, _) \<leftarrow> userfs_free_dentry dentry_table dentry_pos s;
              Some (s, dentry_hashtable, bgd_idx_list, NULL)
            }
            else do {
              bs \<leftarrow> strncpy_bytes name (unat name_len + 1);
              s \<leftarrow> st_bytes dentry_table (dentry_name_off (unat dentry_pos)) bs s;
              b \<leftarrow> bbufs s new_inode_bbuf;
              s \<leftarrow> st32 dentry_table (dentry_off (unat dentry_pos)) (b_blocknr b) s;
              t \<leftarrow> dentry_hashtable;
              (t, new_hash_dentry) \<leftarrow> userfs_dentry_hash_insert (malloc_ok s) name name_len USERFS_NAME2INODEBUF
                 new_inode_bbuf dentry_pos t;
              let s = s\<lparr>brk := Suc (brk s)\<rparr>;
              if new_hash_dentry = None
              then do {
                (s, _) \<leftarrow> userfs_free_dentry dentry_table dentry_pos s;
                let s = userfs_free_used_inode s;
                Some (s, Some t, bgd_idx_list, NULL)
              }
              else do {
                let new_inode = b_data b;
                s \<leftarrow> ino_time new_inode I_ctime tv_sec s;
                s \<leftarrow> v2p_st new_inode 0 (USERFS_INODEADDRINFO_CAL USERFS_NAME2INODEBUF new_inode_bbuf) s;
                s \<leftarrow> ref_add new_inode s;
                Some (s, Some t, bgd_idx_list, new_inode_bbuf)
              }
            }
          }
        })"

definition userfs_file_open ::
    "u8 list \<Rightarrow> u32 \<Rightarrow> u32 \<Rightarrow> ptr \<Rightarrow> linkhash option \<Rightarrow> fs \<Rightarrow> (fs \<times> linkhash option \<times> ptr) option" where
  "userfs_file_open name name_len dblock_shard_size sb dentry_hashtable s =
     (if name_len > USERFS_MAX_FILE_NAME_LEN then Some (s, dentry_hashtable, NULL)
      else case now s of
        None \<Rightarrow> Some (s, dentry_hashtable, NULL)
      | Some tv_sec \<Rightarrow> do {
          (_, inodeaddr) \<leftarrow> userfs_dentry_hash_get name name_len 0 dentry_hashtable;
          if inodeaddr = ucast UINT32_MAX then Some (s, dentry_hashtable, NULL)
          else if USERFS_INODETYPE_GET inodeaddr = ucast USERFS_NAME2INODE
          then do {
            let ff_block = (ucast (USERFS_INODEADDR_GET inodeaddr) :: u32);
            (s, ff_bbuf) \<leftarrow> userfs_get_used_inode sb ff_block dblock_shard_size s;
            if ff_bbuf = NULL then Some (s, dentry_hashtable, NULL)
            else do {
              t \<leftarrow> dentry_hashtable;
              (t, new_hash_dentry) \<leftarrow> userfs_dentry_hash_update name name_len USERFS_NAME2INODEBUF ff_bbuf t;
              if new_hash_dentry = None
              then do { s \<leftarrow> userfs_free_dbbuf ff_bbuf s; Some (s, Some t, NULL) }
              else do {
                b \<leftarrow> bbufs s ff_bbuf;
                let open_inode = b_data b;
                s \<leftarrow> ref_add open_inode s;
                s \<leftarrow> v2p_st open_inode 0 (USERFS_INODEADDRINFO_CAL USERFS_NAME2INODEBUF ff_bbuf) s;
                s \<leftarrow> ino_time open_inode I_atime tv_sec s;
                Some (s, Some t, ff_bbuf)
              }
            }
          }
          else do {
            let ff_bbuf = USERFS_INODEADDR_GET inodeaddr;
            b \<leftarrow> bbufs s ff_bbuf;
            let open_inode = b_data b;
            s \<leftarrow> ref_add open_inode s;
            s \<leftarrow> ino_time open_inode I_atime tv_sec s;
            Some (s, dentry_hashtable, ff_bbuf)
          }
        })"

section \<open>Closing and deleting\<close>

text \<open>The loop over the logical blocks \<open>i, i + 1, ...\<close> of a file that is closed; \<open>k\<close> of them are left.\<close>

fun close_loop :: "ptr \<Rightarrow> ptr \<Rightarrow> nat \<Rightarrow> nat \<Rightarrow> fs \<Rightarrow> fs option" where
  "close_loop sb close_inode i 0 s = Some s"
| "close_loop sb close_inode i (Suc k) s = do {
     cur_db_addr \<leftarrow> v2p_ld s close_inode i;
     if USERFS_INODETYPE_GET cur_db_addr = ucast USERFS_NAME2INODE
     then close_loop sb close_inode (Suc i) k s
     else do {
       let cur_dbbuf_head = USERFS_INODEADDR_GET cur_db_addr;
       b \<leftarrow> bbufs s cur_dbbuf_head;
       s \<leftarrow> v2p_st close_inode i (USERFS_INODEADDRINFO_CAL USERFS_NAME2INODE (ucast (b_blocknr b))) s;
       fd \<leftarrow> sb_ld s sb S_first_datablock;
       bs \<leftarrow> sb_ld s sb S_data_block_size;
       (s, _) \<leftarrow> userfs_dbbuf_list_flush fd bs cur_dbbuf_head (unat (b_list_len b)) s;
       close_loop sb close_inode (Suc i) k s
     }
   }"

definition userfs_file_close ::
    "u8 list \<Rightarrow> u32 \<Rightarrow> u32 \<Rightarrow> ptr \<Rightarrow> linkhash option \<Rightarrow> fs \<Rightarrow> (fs \<times> linkhash option \<times> int) option" where
  "userfs_file_close name name_len dblock_shard_size sb dentry_hashtable s =
     (if name_len > USERFS_MAX_FILE_NAME_LEN then Some (s, dentry_hashtable, - 1)
      else do {
        (_, inodeaddr) \<leftarrow> userfs_dentry_hash_get name name_len 0 dentry_hashtable;
        if inodeaddr = ucast UINT32_MAX then Some (s, dentry_hashtable, - 1)
        else if USERFS_INODETYPE_GET inodeaddr = ucast USERFS_NAME2INODE then Some (s, dentry_hashtable, - 1)
        else if now s = None then Some (s, dentry_hashtable, - 1)
        else do {
          let ff_bbuf = USERFS_INODEADDR_GET inodeaddr;
          b \<leftarrow> bbufs s ff_bbuf;
          let ff_block = b_blocknr b;
          let close_inode = b_data b;
          n \<leftarrow> ino_ld s close_inode Ref_count;
          let (n, r) = atomic_sub n 1;
          s \<leftarrow> ino_st close_inode Ref_count n s;
          if sint r > 0 then Some (s, dentry_hashtable, 0)
          else do {
            t \<leftarrow> dentry_hashtable;
            (t, u) \<leftarrow> userfs_dentry_hash_update name name_len USERFS_NAME2INODE (ucast ff_block) t;
            let res = (if u = None then - 1 else sint r);
            isz \<leftarrow> ino_ld s close_inode I_size;
            bs \<leftarrow> sb_ld s sb S_data_block_size;
            if bs = 0 then None
            else do {
              let i_blocks = (isz + bs - 1) div bs;
              s \<leftarrow> ino_st close_inode I_blocks i_blocks s;
              s \<leftarrow> close_loop sb close_inode 1 (unat i_blocks - 1) s;
              b \<leftarrow> bbufs s ff_bbuf;
              s \<leftarrow> v2p_st close_inode 0 (USERFS_INODEADDRINFO_CAL USERFS_NAME2INODE (ucast (b_blocknr b))) s;
              fd \<leftarrow> sb_ld s sb S_first_datablock;
              bs \<leftarrow> sb_ld s sb S_data_block_size;
              (s, _) \<leftarrow> userfs_dbbuf_list_flush fd bs ff_bbuf (unat (b_list_len b)) s;
              Some (s, Some t, res)
            }
          }
        }
      })"

text \<open>Giving the buffers of the list from \<open>nx\<close> on to \<open>userfs_free_dbbuf\<close>.\<close>

partial_function (option) free_list_loop :: "ptr \<Rightarrow> fs \<Rightarrow> fs option" where
  "free_list_loop nx s =
     (if nx = NULL then Some s
      else do {
        b \<leftarrow> bbufs s nx;
        s \<leftarrow> userfs_free_dbbuf nx s;
        free_list_loop (b_this_page b) s
      })"

fun free_blocks_loop :: "nat \<Rightarrow> fs \<Rightarrow> fs" where
  "free_blocks_loop 0 s = s"
| "free_blocks_loop (Suc k) s = free_blocks_loop k (userfs_free_used_dblock s)"

text \<open>\<open>dentry_table\<close> is the page of the dentry table.\<close>

definition userfs_file_delete ::
    "u8 list \<Rightarrow> u32 \<Rightarrow> ptr \<Rightarrow> ptr \<Rightarrow> linkhash option \<Rightarrow> fs \<Rightarrow> (fs \<times> linkhash option \<times> int) option" where
  "userfs_file_delete name name_len sb dentry_table dentry_hashtable s =
     (if name_len > USERFS_MAX_FILE_NAME_LEN then Some (s, dentry_hashtable, - 1)
      else do {
        (dentry_hashtable, dentry_pos, inodeaddr) \<leftarrow> userfs_dentry_hash_remove name name_len 0 dentry_hashtable;
        if inodeaddr = ucast UINT32_MAX then Some (s, dentry_hashtable, - 1)
        else do {
          (s, res) \<leftarrow> userfs_free_dentry dentry_table dentry_pos s;
          (dentry_hashtable, ok) \<leftarrow>
            (if res = 0
             then do {
               moved \<leftarrow> page_tail s dentry_table (dentry_name_off (unat dentry_pos));
               len \<leftarrow> strlen_of moved;
               t \<leftarrow> dentry_hashtable;
               (t, u) \<leftarrow> userfs_dentry_hash_update_dentrypos moved len dentry_pos t;
               Some (Some t, u \<noteq> None)
             }
             else Some (dentry_hashtable, True));
          if \<not> ok then Some (s, dentry_hashtable, - 1)
          else do {
            (s, inodebbuf) \<leftarrow>
              (if USERFS_INODETYPE_GET inodeaddr = ucast USERFS_NAME2INODEBUF
               then Some (s, USERFS_INODEADDR_GET inodeaddr)
               else userfs_get_used_inode sb (ucast (USERFS_INODEADDR_GET inodeaddr)) USERFS_PAGE_SIZE s);
            if USERFS_INODETYPE_GET inodeaddr \<noteq> ucast USERFS_NAME2INODEBUF \<and> inodebbuf = NULL
            then Some (s, dentry_hashtable, - 1)
            else if now s = None then Some (s, dentry_hashtable, - 1)
            else do {
              b \<leftarrow> bbufs s inodebbuf;
              n \<leftarrow> ino_ld s (b_data b) I_blocks;
              let s = free_blocks_loop (unat n) s;
              s \<leftarrow> free_list_loop inodebbuf s;
              Some (s, dentry_hashtable, 0)
            }
          }
        }
      })"

section \<open>Writing and reading\<close>

definition is_fileops_in_range :: "u32 \<Rightarrow> u32 \<Rightarrow> u32 \<Rightarrow> bool" where
  "is_fileops_in_range in_db_off dbbuf_size dbbuf_s_off \<longleftrightarrow>
     in_db_off \<ge> dbbuf_s_off \<and> in_db_off < dbbuf_s_off + dbbuf_size"

text \<open>
  The search for the buffer of a shard: it stops at the first buffer that is not in range, and
  passes the buffer's offset for its size and its size for its offset, as the calls do.
\<close>

fun shard_loop :: "nat \<Rightarrow> ptr \<Rightarrow> u32 \<Rightarrow> fs \<Rightarrow> ptr option" where
  "shard_loop 0 target_dbbuf in_db_shard_off s = Some target_dbbuf"
| "shard_loop (Suc k) target_dbbuf in_db_shard_off s = do {
     b \<leftarrow> bbufs s target_dbbuf;
     if \<not> is_fileops_in_range in_db_shard_off (b_block_s_off b) (b_size b) then Some target_dbbuf
     else shard_loop k (b_this_page b) in_db_shard_off s
   }"

text \<open>
  The part the write and the read path share: the block is open as the list of buffers at \<open>head\<close>.
  A shard that is not there is read from block \<open>p_db_nr\<close> and linked behind the head.
\<close>

definition open_block_get :: "ptr \<Rightarrow> u32 \<Rightarrow> u32 \<Rightarrow> u32 \<Rightarrow> ptr \<Rightarrow> fs \<Rightarrow> (fs \<times> ptr) option" where
  "open_block_get head p_db_nr in_db_shard_off dblock_shard_size sb s = do {
     hb \<leftarrow> bbufs s head;
     target_dbbuf \<leftarrow> shard_loop (unat (b_list_len hb)) head in_db_shard_off s;
     if target_dbbuf = NULL
     then do {
       (s, target_dbbuf) \<leftarrow> userfs_get_used_dblock sb p_db_nr in_db_shard_off dblock_shard_size s;
       if target_dbbuf = NULL then Some (s, NULL)
       else do {
         s \<leftarrow> upd_bbuf head (\<lambda>b. b\<lparr>b_list_len := b_list_len b + 1\<rparr>) s;
         hb \<leftarrow> bbufs s head;
         s \<leftarrow> upd_bbuf target_dbbuf (\<lambda>b. b\<lparr>b_this_page := b_this_page hb\<rparr>) s;
         s \<leftarrow> upd_bbuf head (\<lambda>b. b\<lparr>b_this_page := target_dbbuf\<rparr>) s;
         Some (s, target_dbbuf)
       }
     }
     else do { _ \<leftarrow> bbufs s target_dbbuf; Some (s, target_dbbuf) }
   }"

definition userfs_file_write_off_get ::
    "u32 \<Rightarrow> u64 \<Rightarrow> u32 \<Rightarrow> u32 \<Rightarrow> ptr \<Rightarrow> bgd_index_list \<Rightarrow> ptr \<Rightarrow> fs \<Rightarrow> (fs \<times> bgd_index_list \<times> ptr) option" where
  "userfs_file_write_off_get v_db_nr p_db_addr in_db_shard_off dblock_shard_size inode bgd_idx_list sb s =
     (if USERFS_INODEADDR_GET p_db_addr = 0
      then do {
        (s, bgd_idx_list, target_dbbuf) \<leftarrow> userfs_get_new_dblock sb bgd_idx_list dblock_shard_size s;
        if target_dbbuf = NULL then Some (s, bgd_idx_list, NULL)
        else do {
          s \<leftarrow> upd_bbuf target_dbbuf (\<lambda>b. b\<lparr>b_block_s_off := in_db_shard_off\<rparr>) s;
          Some (s, bgd_idx_list, target_dbbuf)
        }
      }
      else if USERFS_INODETYPE_GET p_db_addr = ucast USERFS_NAME2INODE
      then do {
        let p_db_nr = (ucast (USERFS_INODEADDR_GET p_db_addr) :: u32);
        (s, target_dbbuf) \<leftarrow> userfs_get_used_dblock sb p_db_nr in_db_shard_off dblock_shard_size s;
        if target_dbbuf = NULL then Some (s, bgd_idx_list, NULL)
        else do {
          s \<leftarrow> v2p_st inode (unat v_db_nr) (USERFS_INODEADDRINFO_CAL USERFS_NAME2INODEBUF target_dbbuf) s;
          Some (s, bgd_idx_list, target_dbbuf)
        }
      }
      else do {
        (s, target_dbbuf) \<leftarrow> open_block_get (USERFS_INODEADDR_GET p_db_addr) 0 in_db_shard_off dblock_shard_size sb s;
        Some (s, bgd_idx_list, target_dbbuf)
      })"

definition userfs_file_read_off_get ::
    "u32 \<Rightarrow> u64 \<Rightarrow> u32 \<Rightarrow> u32 \<Rightarrow> ptr \<Rightarrow> ptr \<Rightarrow> fs \<Rightarrow> (fs \<times> ptr) option" where
  "userfs_file_read_off_get v_db_nr p_db_addr in_db_shard_off dblock_shard_size inode sb s =
     (if USERFS_INODETYPE_GET p_db_addr = ucast USERFS_NAME2INODE
      then do {
        let p_db_nr = (ucast (USERFS_INODEADDR_GET p_db_addr) :: u32);
        (s, target_dbbuf) \<leftarrow> userfs_get_used_dblock sb p_db_nr in_db_shard_off dblock_shard_size s;
        if target_dbbuf = NULL then Some (s, NULL)
        else do {
          s \<leftarrow> v2p_st inode (unat v_db_nr) (USERFS_INODEADDRINFO_CAL USERFS_NAME2INODEBUF target_dbbuf) s;
          Some (s, target_dbbuf)
        }
      }
      else open_block_get (USERFS_INODEADDR_GET p_db_addr) 0 in_db_shard_off dblock_shard_size sb s)"

text \<open>
  Where a byte offset of a file lies: its logical block, and there the start of its shard and the
  offset in the shard; the size of the access, cut at the end of the shard.
\<close>

definition file_place :: "u32 \<Rightarrow> u32 \<Rightarrow> u32 \<Rightarrow> u32 \<Rightarrow> (u32 \<times> u32 \<times> u32 \<times> u32) option" where
  "file_place real_off sz block_size dblock_shard_size =
     (if block_size = 0 \<or> dblock_shard_size = 0 then None
      else
        let v_db_nr = real_off div block_size;
            in_db_off = real_off mod block_size;
            in_shard_off = real_off mod dblock_shard_size;
            in_db_shard_off = in_db_off - in_shard_off;
            real_size = (if in_shard_off + sz > dblock_shard_size then dblock_shard_size - in_db_off else sz)
        in Some (v_db_nr, in_db_shard_off, in_shard_off, real_size))"

definition userfs_file_write ::
    "u8 list \<Rightarrow> u32 \<Rightarrow> u32 \<Rightarrow> u32 \<Rightarrow> ptr \<Rightarrow> ptr \<Rightarrow> bgd_index_list \<Rightarrow> fs \<Rightarrow> (fs \<times> bgd_index_list \<times> u32) option" where
  "userfs_file_write buf woff sz dblock_shard_size inodebbuf sb bgd_idx_list s =
     (if woff \<ge> UINT32_MAX - USERFS_INODE_SIZE then Some (s, bgd_idx_list, 0)
      else do {
        let real_woff = woff + USERFS_INODE_SIZE;
        bs \<leftarrow> sb_ld s sb S_data_block_size;
        (v_db_nr, in_db_shard_off, in_shard_off, real_size) \<leftarrow> file_place real_woff sz bs dblock_shard_size;
        case now s of
          None \<Rightarrow> Some (s, bgd_idx_list, 0)
        | Some tv_sec \<Rightarrow> do {
            ib \<leftarrow> bbufs s inodebbuf;
            let write_inode = b_data ib;
            p_db_addr \<leftarrow> v2p_ld s write_inode (unat v_db_nr);
            (s, bgd_idx_list, target_dbbuf) \<leftarrow> userfs_file_write_off_get v_db_nr p_db_addr in_db_shard_off
               dblock_shard_size write_inode bgd_idx_list sb s;
            if target_dbbuf = NULL then Some (s, bgd_idx_list, 0)
            else do {
              tb \<leftarrow> bbufs s target_dbbuf;
              if length buf < unat real_size then None
              else do {
                s \<leftarrow> st_bytes (b_data tb) (unat in_shard_off) (take (unat real_size) buf) s;
                s \<leftarrow> (if USERFS_INODETYPE_GET p_db_addr = ucast USERFS_NAME2INODE
                  then v2p_st write_inode (unat v_db_nr) (USERFS_INODEADDRINFO_CAL USERFS_NAME2INODEBUF target_dbbuf) s
                  else Some s);
                isz \<leftarrow> ino_ld s write_inode I_size;
                let end = real_woff + real_size - USERFS_INODE_SIZE;
                s \<leftarrow> ino_st write_inode I_size (if isz < end then end else isz) s;
                s \<leftarrow> ino_time write_inode I_mtime tv_sec s;
                Some (s, bgd_idx_list, real_size)
              }
            }
          }
      })"

text \<open>The result is the returned size and the bytes stored in \<open>buf\<close>, which has \<open>buf_cap\<close> bytes.\<close>

definition userfs_file_read ::
    "nat \<Rightarrow> u32 \<Rightarrow> u32 \<Rightarrow> u32 \<Rightarrow> ptr \<Rightarrow> ptr \<Rightarrow> fs \<Rightarrow> (fs \<times> u8 list \<times> u32) option" where
  "userfs_file_read buf_cap roff sz dblock_shard_size inodebbuf sb s =
     (if roff \<ge> UINT32_MAX - USERFS_INODE_SIZE then Some (s, [], 0)
      else do {
        let real_roff = roff + USERFS_INODE_SIZE;
        bs \<leftarrow> sb_ld s sb S_data_block_size;
        (v_db_nr, in_db_shard_off, in_shard_off, real_size) \<leftarrow> file_place real_roff sz bs dblock_shard_size;
        ib \<leftarrow> bbufs s inodebbuf;
        let read_inode = b_data ib;
        p_db_addr \<leftarrow> v2p_ld s read_inode (unat v_db_nr);
        isz \<leftarrow> ino_ld s read_inode I_size;
        if isz < real_roff + real_size - USERFS_INODE_SIZE then Some (s, [], 0)
        else if USERFS_INODEADDR_GET p_db_addr = 0
        then if buf_cap < unat real_size then None else Some (s, replicate (unat real_size) 0, real_size)
        else case now s of
          None \<Rightarrow> Some (s, [], 0)
        | Some tv_sec \<Rightarrow> do {
            (s, target_dbbuf) \<leftarrow> userfs_file_read_off_get v_db_nr p_db_addr in_db_shard_off dblock_shard_size
               read_inode sb s;
            if target_dbbuf = NULL then Some (s, [], 0)
            else do {
              tb \<leftarrow> bbufs s target_dbbuf;
              bytes \<leftarrow> ld_bytes s (b_data tb) (unat in_shard_off) (unat real_size);
              if buf_cap < unat real_size then None
              else do {
                s \<leftarrow> (if USERFS_INODETYPE_GET p_db_addr = ucast USERFS_NAME2INODE
                  then v2p_st read_inode (unat v_db_nr) (USERFS_INODEADDRINFO_CAL USERFS_NAME2INODEBUF target_dbbuf) s
                  else Some s);
                s \<leftarrow> ino_time read_inode I_atime tv_sec s;
                Some (s, bytes, real_size)
              }
            }
          }
      })"

section \<open>Inodes in pages\<close>

lemma ino_ld_page: "datas s p = Some d \<Longrightarrow> 48 \<le> blen d \<Longrightarrow> ino_ld s p f = Some (rd32 (bat d) (inode_off f))"
  by (cases f) (simp_all add: ino_ld_def ld32_def)

lemma ino_st_page:
  "datas s p = Some d \<Longrightarrow> 48 \<le> blen d \<Longrightarrow>
    ino_st p f v s = Some (put_page p (d\<lparr>bat := wr32 (bat d) (inode_off f) v\<rparr>) s)"
  by (cases f) (simp_all add: ino_st_def st32_def st_page_def)

lemma ino_time_page:
  "datas s p = Some d \<Longrightarrow> 48 \<le> blen d \<Longrightarrow>
    ino_time p f v s = Some (put_page p (d\<lparr>bat := wr64 (bat d) (itime_off f) v\<rparr>) s)"
  by (cases f) (simp_all add: ino_time_def st64_def st_page_def)

lemma v2p_ld_page: "datas s p = Some d \<Longrightarrow> v2p_off i + 8 \<le> blen d \<Longrightarrow> v2p_ld s p i = Some (rd64 (bat d) (v2p_off i))"
  by (simp add: v2p_ld_def ld64_def)

lemma v2p_st_page:
  "datas s p = Some d \<Longrightarrow> v2p_off i + 8 \<le> blen d \<Longrightarrow>
    v2p_st p i v s = Some (put_page p (d\<lparr>bat := wr64 (bat d) (v2p_off i) v\<rparr>) s)"
  by (simp add: v2p_st_def st64_def st_page_def)

lemmas inode_page = ino_ld_page ino_st_page ino_time_page v2p_ld_page v2p_st_page

lemma ld_bytes_page:
  "datas s p = Some d \<Longrightarrow> off + n \<le> blen d \<Longrightarrow> ld_bytes s p off n = Some (map (\<lambda>i. bat d (off + i)) [0..<n])"
  by (simp add: ld_bytes_def)

section \<open>The address tag\<close>

lemma addr_tag:
  assumes "unat q < 2 ^ 63"
  shows "USERFS_INODETYPE_GET (USERFS_INODEADDRINFO_CAL USERFS_NAME2INODEBUF q) = 1"
    and "USERFS_INODEADDR_GET (USERFS_INODEADDRINFO_CAL USERFS_NAME2INODEBUF q) = q"
    and "USERFS_INODETYPE_GET (USERFS_INODEADDRINFO_CAL USERFS_NAME2INODE q) = 0"
    and "USERFS_INODEADDR_GET (USERFS_INODEADDRINFO_CAL USERFS_NAME2INODE q) = q"
proof -
  have hi: "\<not> bit q n" if "63 \<le> n" for n
  proof
    assume b: "bit q n"
    have "(2 :: nat) ^ 63 \<le> 2 ^ n" using that by (intro power_increasing) auto
    then have "unat q div 2 ^ n = 0" using assms by simp
    moreover have "bit (unat q) n" using b by (simp add: bit_simps)
    ultimately show False by (simp add: bit_iff_odd)
  qed
  show "USERFS_INODETYPE_GET (USERFS_INODEADDRINFO_CAL USERFS_NAME2INODEBUF q) = 1"
    "USERFS_INODETYPE_GET (USERFS_INODEADDRINFO_CAL USERFS_NAME2INODE q) = 0"
    using hi by (auto intro!: bit_word_eqI simp: USERFS_INODETYPE_GET_def USERFS_INODEADDRINFO_CAL_def bit_simps)
  have lo: "n < 63" if "bit q n" for n using hi that by (meson not_le)
  have top: "\<not> bit (9223372036854775808 :: int) n" if "n < 63" for n
    using that bit_exp_iff [where 'a = int, of 63 n] by simp
  show "USERFS_INODEADDR_GET (USERFS_INODEADDRINFO_CAL USERFS_NAME2INODEBUF q) = q"
    "USERFS_INODEADDR_GET (USERFS_INODEADDRINFO_CAL USERFS_NAME2INODE q) = q"
    using lo top by (auto intro!: bit_word_eqI simp: USERFS_INODEADDR_GET_def USERFS_INODEADDRINFO_CAL_def bit_simps)
qed


section \<open>The first shard of an open file\<close>

text \<open>
  The file whose inode buffer is \<open>q\<close> is open: its page \<open>d\<close> is the first shard of its first block,
  listed in the block table, and the block size \<open>bs\<close> of the super block page \<open>sd\<close> covers a shard.
\<close>

definition file_page :: "fs \<Rightarrow> ptr \<Rightarrow> ptr \<Rightarrow> u32 \<Rightarrow> bbuf \<Rightarrow> buf \<Rightarrow> buf \<Rightarrow> bool" where
  "file_page s q sb shard ib d sd \<longleftrightarrow>
     bbufs s q = Some ib \<and> q \<noteq> NULL \<and> unat q < 2 ^ 63 \<and> b_block_s_off ib = 0 \<and> b_list_len ib \<noteq> 0 \<and>
     datas s (b_data ib) = Some d \<and> blen d = unat shard \<and> USERFS_INODE_SIZE \<le> shard \<and>
     rd64 (bat d) (v2p_off 0) = USERFS_INODEADDRINFO_CAL USERFS_NAME2INODEBUF q \<and>
     datas s sb = Some sd \<and> 80 \<le> blen sd \<and> sb \<noteq> b_data ib \<and>
     shard \<le> rd32 (bat sd) (sb_off S_data_block_size) \<and> now s \<noteq> None"

definition file_open :: "ptr \<Rightarrow> ptr \<Rightarrow> u32 \<Rightarrow> fs \<Rightarrow> bool" where
  "file_open q sb shard s \<longleftrightarrow> (\<exists>ib d sd. file_page s q sb shard ib d sd)"

definition file_view :: "ptr \<Rightarrow> fs \<Rightarrow> afile" where
  "file_view q s =
     (case bbufs s q of None \<Rightarrow> (0, \<lambda>_. 0)
      | Some ib \<Rightarrow> (case datas s (b_data ib) of None \<Rightarrow> (0, \<lambda>_. 0)
        | Some d \<Rightarrow> (unat (rd32 (bat d) (inode_off I_size)), \<lambda>i. bat d (unat USERFS_INODE_SIZE + i))))"

definition in_shard :: "u32 \<Rightarrow> nat \<Rightarrow> nat \<Rightarrow> bool" where
  "in_shard shard off k \<longleftrightarrow> 1024 + off < unat shard \<and> 1024 + off + k \<le> unat shard"

lemma file_pageD:
  assumes "file_page s q sb shard ib d sd"
  shows "bbufs s q = Some ib" "q \<noteq> NULL" "unat q < 2 ^ 63" "b_block_s_off ib = 0" "b_list_len ib \<noteq> 0"
    "datas s (b_data ib) = Some d" "blen d = unat shard" "1024 \<le> unat shard"
    "rd64 (bat d) (v2p_off 0) = USERFS_INODEADDRINFO_CAL USERFS_NAME2INODEBUF q"
    "datas s sb = Some sd" "80 \<le> blen sd" "sb \<noteq> b_data ib"
    "unat shard \<le> unat (rd32 (bat sd) (sb_off S_data_block_size))" "\<exists>tv. now s = Some tv"
  using assms by (auto simp: file_page_def word_le_nat_alt)

lemma shard_loop_head:
  assumes "bbufs s q = Some b" and "b_block_s_off b = 0" and "n \<noteq> 0"
  shows "shard_loop n q off s = Some q"
  using assms by (cases n) (auto simp: is_fileops_in_range_def)

text \<open>Whatever the shard asked for, an open block whose head is its first shard yields the head.\<close>

lemma open_block_get_head:
  assumes "bbufs s q = Some b" and "b_block_s_off b = 0" and "b_list_len b \<noteq> 0" and "q \<noteq> NULL"
  shows "open_block_get q nr off shard sb s = Some (s, q)"
  using assms shard_loop_head [OF assms(1,2), of "unat (b_list_len b)" off]
  by (simp add: open_block_get_def unat_eq_zero del: bind_Some_iff)

lemma unat_of_nat_add:
  assumes "1024 + off + k \<le> unat (shard :: u32)"
  shows "unat (of_nat off + 1024 :: u32) = 1024 + off" "unat (of_nat off :: u32) = off" "unat (of_nat k :: u32) = k"
    "unat (of_nat off + 1024 + of_nat k - 1024 :: u32) = off + k"
proof -
  have "1024 + off + k < 4294967296" using assms unat_lt_2p32 [of shard] by linarith
  then show "unat (of_nat off + 1024 :: u32) = 1024 + off" "unat (of_nat off :: u32) = off"
    "unat (of_nat k :: u32) = k" "unat (of_nat off + 1024 + of_nat k - 1024 :: u32) = off + k"
    using unat_of_nat_u32 [of "off + k"] by (simp_all add: unat_of_nat_u32 unat_word_ariths)
qed

lemma file_place_first:
  assumes "in_shard shard off k" and "unat shard \<le> unat bs"
  shows "file_place (of_nat off + 1024) (of_nat k) bs shard = Some (0, 0, of_nat off + 1024, of_nat k)"
proof -
  have le: "1024 + off + k \<le> unat shard" "1024 + off < unat shard" using assms(1) by (auto simp: in_shard_def)
  note u = unat_of_nat_add [OF le(1)]
  have lt: "(of_nat off + 1024 :: u32) < bs" "(of_nat off + 1024 :: u32) < shard"
    using u le assms(2) by (simp_all add: word_less_nat_alt)
  have nz: "bs \<noteq> 0" "shard \<noteq> 0" using lt by auto
  have "1024 + off + k < 4294967296" using le(1) unat_lt_2p32 [of shard] by linarith
  then have "unat (of_nat off + 1024 + of_nat k :: u32) = 1024 + off + k"
    using u(1,3) by (subst unat_word_ariths) simp
  then have "\<not> (of_nat off + 1024 + of_nat k :: u32) > shard" using le(1) by (simp add: word_less_nat_alt)
  moreover have "(of_nat off + 1024 :: u32) div bs = 0" "(of_nat off + 1024 :: u32) mod bs = of_nat off + 1024"
    "(of_nat off + 1024 :: u32) mod shard = of_nat off + 1024"
    using lt [unfolded word_less_nat_alt] by (simp_all only: word_unat_eq_iff unat_div unat_mod) simp_all
  ultimately show ?thesis using nz by (simp add: file_place_def Let_def)
qed


definition file_wr :: "ptr \<Rightarrow> ptr \<Rightarrow> bgd_index_list \<Rightarrow> u32 \<Rightarrow> nat \<Rightarrow> u8 list \<Rightarrow> fs \<Rightarrow> fs option" where
  "file_wr q sb L shard off bs s = do {
     (s', L', n) \<leftarrow> userfs_file_write bs (of_nat off) (of_nat (length bs)) shard q sb L s;
     if n = of_nat (length bs) \<and> L' = L then Some s' else None
   }"

definition file_rd :: "ptr \<Rightarrow> ptr \<Rightarrow> u32 \<Rightarrow> nat \<Rightarrow> nat \<Rightarrow> fs \<Rightarrow> (fs \<times> u8 list) option" where
  "file_rd q sb shard off k s = do {
     (s', bs, n) \<leftarrow> userfs_file_read k (of_nat off) (of_nat k) shard q sb s;
     if n = of_nat (length bs) then Some (s', bs) else None
   }"

lemma file_write_page:
  assumes fp: "file_page s q sb shard ib d sd" and fit: "in_shard shard off (length bs)" and tv: "now s = Some tv"
  defines "isz \<equiv> rd32 (bat d) (inode_off I_size)" and "e \<equiv> (of_nat (off + length bs) :: u32)"
  shows "userfs_file_write bs (of_nat off) (of_nat (length bs)) shard q sb L s =
    Some (put_page (b_data ib) (d\<lparr>bat := wr64 (wr32 (setb (bat d) (1024 + off) bs) (inode_off I_size)
      (if isz < e then e else isz)) (itime_off I_mtime) tv\<rparr>) s, L, of_nat (length bs))"
proof -
  note f = file_pageD [OF fp]
  have le: "1024 + off + length bs \<le> unat shard" "1024 + off < unat shard" using fit by (auto simp: in_shard_def)
  note u = unat_of_nat_add [OF le(1)]
  have "1024 + off < 4294967295" using le unat_lt_2p32 [of shard] by linarith
  then have small: "\<not> UINT32_MAX - USERFS_INODE_SIZE \<le> (of_nat off :: u32)"
    using u(2) by (simp add: word_le_nat_alt)
  have fin: "of_nat off + 1024 + of_nat (length bs) - 1024 = e" by (simp add: e_def)
  note pl = file_place_first [OF fit f(13)]
  note addr = f(9) addr_tag [OF f(3)]
  have get: "userfs_file_write_off_get 0 (USERFS_INODEADDRINFO_CAL USERFS_NAME2INODEBUF q) 0 shard (b_data ib) L sb s = Some (s, L, q)"
    using f(2) by (simp add: userfs_file_write_off_get_def addr open_block_get_head [OF f(1,4,5,2)] del: bind_Some_iff)
  let ?d1 = "d\<lparr>bat := setb (bat d) (1024 + off) bs\<rparr>"
  have st: "st_bytes (b_data ib) (1024 + off) bs s = Some (put_page (b_data ib) ?d1 s)"
    using f(6,7) le by (simp add: st_bytes_page)
  have isz': "rd32 (setb (bat d) (1024 + off) bs) 32 = isz" by (simp add: isz_def rd32_setb)
  show ?thesis
    using small f(7,8)
    by (simp add: userfs_file_write_def Let_def sb_ld_page [OF f(10,11)] pl [simplified] tv f(1) v2p_ld_page [OF f(6)] v2p_off_def
        addr [unfolded v2p_off_def, simplified] get f(2) st u(1,3) ino_ld_page [of _ _ ?d1] ino_st_page [of _ _ ?d1] isz' fin
        ino_time_page [of _ _ "d\<lparr>bat := _\<rparr>"] del: bind_Some_iff)
qed


lemma file_read_page:
  assumes fp: "file_page s q sb shard ib d sd" and fit: "in_shard shard off k" and tv: "now s = Some tv" and cap: "k \<le> cap"
  shows "userfs_file_read cap (of_nat off) (of_nat k) shard q sb s =
    (if unat (rd32 (bat d) (inode_off I_size)) < off + k then Some (s, [], 0)
     else Some (put_page (b_data ib) (d\<lparr>bat := wr64 (bat d) (itime_off I_atime) tv\<rparr>) s,
       map (\<lambda>i. bat d (1024 + off + i)) [0..<k], of_nat k))"
proof -
  note f = file_pageD [OF fp]
  have le: "1024 + off + k \<le> unat shard" "1024 + off < unat shard" using fit by (auto simp: in_shard_def)
  note u = unat_of_nat_add [OF le(1)]
  have "1024 + off < 4294967295" using le unat_lt_2p32 [of shard] by linarith
  then have small: "\<not> UINT32_MAX - USERFS_INODE_SIZE \<le> (of_nat off :: u32)"
    using u(2) by (simp add: word_le_nat_alt)
  note pl = file_place_first [OF fit f(13)]
  note addr = f(9) addr_tag [OF f(3)]
  have get: "userfs_file_read_off_get 0 (USERFS_INODEADDRINFO_CAL USERFS_NAME2INODEBUF q) 0 shard (b_data ib) sb s = Some (s, q)"
    by (simp add: userfs_file_read_off_get_def addr open_block_get_head [OF f(1,4,5,2)] del: bind_Some_iff)
  have ld: "ld_bytes s (b_data ib) (1024 + off) k = Some (map (\<lambda>i. bat d (1024 + off + i)) [0..<k])"
    using f(6,7) le by (simp add: ld_bytes_page)
  have cut: "rd32 (bat d) 32 < of_nat off + 1024 + of_nat k - 1024 \<longleftrightarrow> unat (rd32 (bat d) 32) < off + k"
    using u(4) by (simp only: word_less_nat_alt)
  show ?thesis
    using small f(7,8) cap
    by (simp add: userfs_file_read_def Let_def sb_ld_page [OF f(10,11)] pl [simplified] tv f(1) v2p_ld_page [OF f(6)] v2p_off_def
        addr [unfolded v2p_off_def, simplified] get f(2) ld u(1,3) ino_ld_page [OF f(6)] cut [simplified]
        ino_time_page [OF f(6)] del: bind_Some_iff)
qed

lemma file_page_update:
  assumes fp: "file_page s q sb shard ib d sd" and "rd64 g (v2p_off 0) = rd64 (bat d) (v2p_off 0)"
  shows "file_page (put_page (b_data ib) (d\<lparr>bat := g\<rparr>) s) q sb shard ib (d\<lparr>bat := g\<rparr>) sd"
  using assms by (auto simp: file_page_def)

lemma file_open_update:
  assumes "file_page s q sb shard ib d sd" and "rd64 g (v2p_off 0) = rd64 (bat d) (v2p_off 0)"
  shows "file_open q sb shard (put_page (b_data ib) (d\<lparr>bat := g\<rparr>) s)"
  unfolding file_open_def using file_page_update [OF assms] by blast

lemma wr_above: "a + 8 \<le> i \<Longrightarrow> wr64 f a v i = f i" "a + 4 \<le> i \<Longrightarrow> wr32 f a w i = f i"
  by (auto simp: wr64_apply_other wr32_apply_other)

interpretation ff: byte_file "file_wr q sb L shard" "file_rd q sb shard" "file_open q sb shard" "file_view q" "in_shard shard"
  for q sb L shard
proof
  fix s off and bs :: "u8 list"
  assume op: "file_open q sb shard s" and fit: "in_shard shard off (length bs)"
  obtain ib d sd where fp: "file_page s q sb shard ib d sd" using op by (auto simp: file_open_def)
  note f = file_pageD [OF fp]
  obtain tv where tv: "now s = Some tv" using f(14) by blast
  let ?isz = "rd32 (bat d) 32" and ?e = "of_nat (off + length bs) :: u32"
  let ?g = "wr64 (wr32 (setb (bat d) (1024 + off) bs) 32 (if ?isz < ?e then ?e else ?isz)) 16 tv"
  let ?s = "put_page (b_data ib) (d\<lparr>bat := ?g\<rparr>) s"
  have "off + length bs < 4294967296"
    using fit unat_lt_2p32 [of shard] unfolding in_shard_def by linarith
  then have e: "unat ?e = off + length bs" by (intro unat_of_nat_u32) simp
  have "unat (if ?isz < ?e then ?e else ?isz) = max (unat ?isz) (off + length bs)"
    using e by (auto simp: word_less_nat_alt)
  moreover have "rd32 ?g 32 = (if ?isz < ?e then ?e else ?isz)" by (simp add: bytes_simps)
  moreover have "?g (1024 + i) = setb (\<lambda>i. bat d (1024 + i)) off bs i" for i
    by (simp add: wr_above setb_def)
  ultimately have "file_view q ?s = awrite off bs (file_view q s)"
    using f(1,6) by (simp add: file_view_def awrite_def)
  moreover have "file_open q sb shard ?s"
    by (rule file_open_update [OF fp]) (simp add: v2p_off_def bytes_simps rd64_setb)
  moreover have "file_wr q sb L shard off bs s = Some ?s"
    using file_write_page [OF fp fit tv, of L] by (simp add: file_wr_def)
  ultimately show "\<exists>s'. file_wr q sb L shard off bs s = Some s' \<and> file_open q sb shard s' \<and>
      file_view q s' = awrite off bs (file_view q s)" by blast
next
  fix s off k
  assume op: "file_open q sb shard s" and fit: "in_shard shard off k"
  obtain ib d sd where fp: "file_page s q sb shard ib d sd" using op by (auto simp: file_open_def)
  note f = file_pageD [OF fp]
  obtain tv where tv: "now s = Some tv" using f(14) by blast
  have fs: "fst (file_view q s) = unat (rd32 (bat d) 32)" "snd (file_view q s) = (\<lambda>i. bat d (1024 + i))"
    using f(1,6) by (simp_all add: file_view_def)
  show "\<exists>s'. file_rd q sb shard off k s = Some (s', aread off k (file_view q s)) \<and> file_open q sb shard s' \<and>
      file_view q s' = file_view q s"
  proof (cases "unat (rd32 (bat d) 32) < off + k")
    case True
    then show ?thesis
      using op file_read_page [OF fp fit tv order_refl] by (simp add: file_rd_def aread_def fs)
  next
    case False
    let ?g = "wr64 (bat d) 0 tv"
    let ?s = "put_page (b_data ib) (d\<lparr>bat := ?g\<rparr>) s"
    have "file_open q sb shard ?s"
      by (rule file_open_update [OF fp]) (simp add: v2p_off_def bytes_simps)
    moreover have "file_view q ?s = file_view q s"
      using f(1,6) by (simp add: file_view_def bytes_simps wr_above)
    moreover have "file_rd q sb shard off k s = Some (?s, aread off k (file_view q s))"
      using False file_read_page [OF fp fit tv order_refl] by (simp add: file_rd_def aread_def fs add.assoc)
    ultimately show ?thesis by blast
  qed
qed

text \<open>
  (C1) On the first shard of an open file, every sequence of writes and reads behaves as on a plain
  file of bytes: a write replaces exactly its bytes and extends the size to its end, a read within
  the size returns the current bytes and one beyond it returns nothing.
\<close>

theorem file_ops_refine:
  assumes "file_open q sb shard s" and "\<forall>op \<in> set ops. op_fits (in_shard shard) op"
  shows "\<exists>s'. file_run (file_wr q sb L shard) (file_rd q sb shard) ops s = Some (s', snd (afile_run ops (file_view q s))) \<and>
    file_open q sb shard s' \<and> file_view q s' = fst (afile_run ops (file_view q s))"
  using assms by (rule ff.file_run_refines)


definition file_page0 :: buf where
  "file_page0 = \<lparr>blen = 4096, bat = wr64 (wr32 (\<lambda>_. 0) 44 1) 48 (USERFS_INODEADDRINFO_CAL USERFS_NAME2INODEBUF 1)\<rparr>"

definition file_example :: fs where
  "file_example = (put_bbuf 1 (bbuf_zero\<lparr>b_data := 2, b_size := 4096, b_list_len := 1\<rparr>)
     (put_page 2 file_page0 (put_page 3 \<lparr>blen = 128, bat = wr32 (\<lambda>_. 0) 20 16384\<rparr> fs0)))\<lparr>brk := 3\<rparr>"

lemma file_example_page:
  "file_page file_example 1 3 4096 (bbuf_zero\<lparr>b_data := 2, b_size := 4096, b_list_len := 1\<rparr>) file_page0
    \<lparr>blen = 128, bat = wr32 (\<lambda>_. 0) 20 16384\<rparr>"
  by (simp add: file_page_def file_example_def file_page0_def fs0_def bytes_simps v2p_off_def bbuf_zero_def)

theorem file_ops_refine_witness:
  "\<exists>s'. file_run (file_wr 1 3 group_index 4096) (file_rd 1 3 4096)
      [FWrite 5 [1, 2, 3], FRead 6 2, FWrite 6 [9], FRead 5 3, FRead 7 2] file_example =
    Some (s', [[2, 3], [1, 9, 3], []]) \<and> fst (file_view 1 s') = 8"
proof -
  let ?ops = "[FWrite 5 [1, 2, 3], FRead 6 2, FWrite 6 [9], FRead 5 3, FRead 7 2]"
  have op: "file_open 1 3 4096 file_example" using file_example_page by (auto simp: file_open_def)
  have fit: "\<forall>op \<in> set ?ops. op_fits (in_shard 4096) op" by (simp add: in_shard_def)
  have "fst (file_view 1 file_example) = 0"
    by (simp add: file_view_def file_example_def file_page0_def bbuf_zero_def bytes_simps) (simp add: rd32_def wr64_apply_other wr32_apply_other)
  then have run: "snd (afile_run ?ops (file_view 1 file_example)) = [[2, 3], [1, 9, 3], []]"
    "fst (fst (afile_run ?ops (file_view 1 file_example))) = 8"
    by (simp_all add: awrite_def aread_def setb_def upt_conv_Cons numeral_eq_Suc)
  show ?thesis using file_ops_refine [OF op fit, of group_index] run by auto
qed

section \<open>Other shards\<close>

lemma unat_of_nat_1024: "n + 1024 < 2 ^ 32 \<Longrightarrow> unat (of_nat n + 1024 :: u32) = n + 1024"
  by (simp add: unat_word_ariths unat_of_nat)

lemma file_place_block0:
  assumes "1024 + off < unat bs" and "shard \<noteq> 0"
  shows "file_place (of_nat off + 1024) sz bs shard =
    Some (0, of_nat (1024 + off) - of_nat ((1024 + off) mod unat shard), of_nat ((1024 + off) mod unat shard),
      if of_nat ((1024 + off) mod unat shard) + sz > shard then shard - of_nat (1024 + off) else sz)"
proof -
  have "off + 1024 < 4294967296" using assms(1) unat_lt_2p32 [of bs] by linarith
  then have "off + 1024 < 2 ^ 32" by simp
  note u = unat_of_nat_1024 [OF this]
  have "bs \<noteq> 0" using assms(1) by auto
  moreover have "(of_nat off + 1024 :: u32) div bs = 0"
    using u assms(1) by (simp only: word_unat_eq_iff unat_div) simp
  moreover have "(of_nat off + 1024 :: u32) mod bs = of_nat (1024 + off)"
    using u assms(1) by (simp only: word_unat_eq_iff unat_mod) (simp add: add.commute)
  moreover have "(of_nat off + 1024 :: u32) mod shard = of_nat ((1024 + off) mod unat shard)"
  proof (rule word_unat_eq_iff [THEN iffD2])
    have "(1024 + off) mod unat shard < 2 ^ 32"
      using \<open>off + 1024 < 2 ^ 32\<close> by (rule order_le_less_trans [rotated]) (simp add: add.commute)
    then show "unat ((of_nat off + 1024 :: u32) mod shard) = unat (of_nat ((1024 + off) mod unat shard) :: u32)"
      using u by (simp only: unat_mod unat_of_nat_u32) (simp add: add.commute)
  qed
  ultimately show ?thesis using assms(2) by (simp add: file_place_def Let_def)
qed


text \<open>
  What a write into the first block of an open file does, whatever its shard: the bytes go into
  the page of the first shard, at the offset they have in their own shard.
\<close>

lemma file_write_block0:
  assumes fp: "file_page s q sb shard ib d sd" and tv: "now s = Some tv"
    and blk: "1024 + off < unat (rd32 (bat sd) (sb_off S_data_block_size))"
    and fit: "(1024 + off) mod unat shard + length bs \<le> unat shard" and "1024 + off + length bs < 2 ^ 32 - 1"
  obtains g where
    "userfs_file_write bs (of_nat off) (of_nat (length bs)) shard q sb L s =
      Some (put_page (b_data ib) (d\<lparr>bat := g\<rparr>) s, L, of_nat (length bs))"
    and "\<And>i. 36 \<le> i \<or> i < 16 \<Longrightarrow> g i = setb (bat d) ((1024 + off) mod unat shard) bs i"
proof -
  note f = file_pageD [OF fp]
  let ?o = "(1024 + off) mod unat shard"
  have nz: "shard \<noteq> 0" using f(8) by auto
  have small: "\<not> UINT32_MAX - USERFS_INODE_SIZE \<le> (of_nat off :: u32)"
    using assms(5) by (simp add: word_le_nat_alt unat_of_nat_u32)
  have o: "?o < unat shard" using f(8) by simp
  have o32: "?o + length bs < 4294967296" using fit unat_lt_2p32 [of shard] by linarith
  then have uo: "unat (of_nat ?o :: u32) = ?o" "unat (of_nat (length bs) :: u32) = length bs"
    by (simp_all add: unat_of_nat_u32)
  then have "unat (of_nat ?o + of_nat (length bs) :: u32) = ?o + length bs"
    using o32 by (simp add: unat_word_ariths)
  then have cut: "\<not> of_nat ?o + of_nat (length bs) > shard" using fit by (simp only: word_less_nat_alt)
  note pl = file_place_block0 [OF blk nz, of "of_nat (length bs)", unfolded if_not_P [OF cut]]
  note addr = f(9) addr_tag [OF f(3)]
  have get: "userfs_file_write_off_get 0 (USERFS_INODEADDRINFO_CAL USERFS_NAME2INODEBUF q) x shard (b_data ib) L sb s = Some (s, L, q)" for x
    using f(2) by (simp add: userfs_file_write_off_get_def addr open_block_get_head [OF f(1,4,5,2)] del: bind_Some_iff)
  let ?d1 = "d\<lparr>bat := setb (bat d) ?o bs\<rparr>"
  let ?isz = "rd32 (setb (bat d) ?o bs) 32" and ?e = "of_nat off + 1024 + of_nat (length bs) - 1024 :: u32"
  let ?g = "wr64 (wr32 (setb (bat d) ?o bs) 32 (if ?isz < ?e then ?e else ?isz)) 16 tv"
  have st: "st_bytes (b_data ib) ?o bs s = Some (put_page (b_data ib) ?d1 s)"
    using f(6,7) fit by (simp add: st_bytes_page)
  have "userfs_file_write bs (of_nat off) (of_nat (length bs)) shard q sb L s =
      Some (put_page (b_data ib) (d\<lparr>bat := ?g\<rparr>) s, L, of_nat (length bs))"
    using small f(7,8)
    by (simp add: userfs_file_write_def Let_def sb_ld_page [OF f(10,11)] pl tv f(1) v2p_ld_page [OF f(6)] v2p_off_def
        addr [unfolded v2p_off_def, simplified] get f(2) st uo ino_ld_page [of _ _ ?d1] ino_st_page [of _ _ ?d1]
        ino_time_page [of _ _ "d\<lparr>bat := _\<rparr>"] del: bind_Some_iff of_nat_add sb_off.simps)
  moreover have "?g i = setb (bat d) ?o bs i" if "36 \<le> i \<or> i < 16" for i
    using that by (auto simp: wr64_apply_other wr32_apply_other)
  ultimately show thesis by (rule that)
qed



text \<open>
  (C32) A write behind the first shard of an open block goes into the first shard: the search passes
  the offset and the size of a buffer in the wrong order and stops at the first buffer that is not
  in range.  The bytes replace those the file has one or more shards before, or the time stamps of
  the inode when the write is at the start of a shard.
\<close>

theorem write_hits_first_shard:
  assumes "file_page s q sb shard ib d sd"
    and "unat shard \<le> 1024 + off" and "1024 + off < unat (rd32 (bat sd) (sb_off S_data_block_size))"
    and "o' = (1024 + off) mod unat shard" and "o' + length bs \<le> unat shard" and "1024 + off + length bs < 2 ^ 32 - 1"
  shows "\<exists>s' g. userfs_file_write bs (of_nat off) (of_nat (length bs)) shard q sb L s = Some (s', L, of_nat (length bs)) \<and>
    datas s' (b_data ib) = Some (d\<lparr>bat := g\<rparr>) \<and> bbufs s' = bbufs s \<and> fsdisk s' = fsdisk s \<and>
    (1024 \<le> o' \<longrightarrow> (\<forall>i < length bs. snd (file_view q s') (o' - 1024 + i) = bs ! i \<and> o' - 1024 + i < off)) \<and>
    (o' + length bs \<le> itime_off I_mtime \<longrightarrow> (\<forall>i < length bs. g (o' + i) = bs ! i))"
proof -
  note f = file_pageD [OF assms(1)]
  obtain tv where tv: "now s = Some tv" using f(14) by blast
  obtain g where g: "userfs_file_write bs (of_nat off) (of_nat (length bs)) shard q sb L s =
        Some (put_page (b_data ib) (d\<lparr>bat := g\<rparr>) s, L, of_nat (length bs))"
      "\<And>i. 36 \<le> i \<or> i < 16 \<Longrightarrow> g i = setb (bat d) o' bs i"
    using file_write_block0 [OF assms(1) tv assms(3) _ assms(6), of L] assms(4,5) by metis
  let ?s = "put_page (b_data ib) (d\<lparr>bat := g\<rparr>) s"
  have lt: "o' < unat shard" using assms(4) f(8) by simp
  have "snd (file_view q ?s) (o' - 1024 + i) = bs ! i \<and> o' - 1024 + i < off" if "1024 \<le> o'" "i < length bs" for i
    using that g(2) [of "o' + i"] f(1,6) assms(2,5) lt by (auto simp: file_view_def setb_def)
  moreover have "g (o' + i) = bs ! i" if "o' + length bs \<le> 16" "i < length bs" for i
    using that g(2) [of "o' + i"] by (simp add: setb_def)
  ultimately show ?thesis
    using g(1) by - (rule exI [of _ ?s], rule exI [of _ g], simp)
qed

theorem write_hits_first_shard_witness:
  "\<exists>s'. userfs_file_write [7, 8] 5000 2 4096 1 3 group_index file_example = Some (s', group_index, 2) \<and>
    snd (file_view 1 s') 904 = 7 \<and> snd (file_view 1 s') 905 = 8"
proof -
  have blk: "rd32 (wr32 (\<lambda>_. 0) 20 16384) 20 = (16384 :: u32)" by (simp add: bytes_simps)
  note t = write_hits_first_shard [OF file_example_page, of 5000 1928 "[7, 8]" group_index]
  have m: "(1024 + 5000) mod unat (4096 :: u32) = 1928" by simp
  obtain s' where s': "userfs_file_write [7, 8] (of_nat 5000) (of_nat (length [7 :: u8, 8])) 4096 1 3 group_index file_example =
        Some (s', group_index, of_nat (length [7 :: u8, 8]))"
      "\<forall>i < length [7 :: u8, 8]. snd (file_view 1 s') (1928 - 1024 + i) = [7, 8] ! i \<and> 1928 - 1024 + i < 5000"
    using t blk m by auto
  from s'(2) [rule_format, of 0] s'(2) [rule_format, of 1] have "snd (file_view 1 s') 904 = 7" "snd (file_view 1 s') 905 = 8"
    by simp_all
  with s'(1) show ?thesis by auto
qed

text \<open>
  A write that crosses the end of a shard other than the first of its block computes its length as
  shard size minus offset in the block, which wraps below zero: the copy runs far outside the
  buffer.
\<close>

theorem write_length_underflow:
  assumes "file_page s q sb shard ib d sd"
    and "unat shard < 1024 + off" and "1024 + off < unat (rd32 (bat sd) (sb_off S_data_block_size))"
    and "unat (rd32 (bat sd) (sb_off S_data_block_size)) \<le> 2 ^ 31"
    and "unat shard < (1024 + off) mod unat shard + unat sz" and "(1024 + off) mod unat shard + unat sz < 2 ^ 32"
  shows "userfs_file_write buf (of_nat off) sz shard q sb L s = None"
proof -
  note f = file_pageD [OF assms(1)]
  obtain tv where tv: "now s = Some tv" using f(14) by blast
  let ?o = "(1024 + off) mod unat shard" and ?n = "shard - of_nat (1024 + off) :: u32"
  have nz: "shard \<noteq> 0" using f(8) by auto
  have off: "1024 + off < 2147483648" using assms(3,4) by simp
  have small: "\<not> UINT32_MAX - USERFS_INODE_SIZE \<le> (of_nat off :: u32)"
    using off by (simp add: word_le_nat_alt unat_of_nat_u32)
  have "?o < unat shard" using f(8) by simp
  then have "?o < 4294967296" using unat_lt_2p32 [of shard] by linarith
  then have uo: "unat (of_nat ?o :: u32) = ?o" by (simp add: unat_of_nat_u32)
  then have "unat (of_nat ?o + sz) = ?o + unat sz" using assms(6) by (simp add: unat_word_ariths)
  then have cut: "of_nat ?o + sz > shard" using assms(5) by (simp only: word_less_nat_alt)
  have "unat (of_nat (1024 + off) :: u32) = 1024 + off" using off by (intro unat_of_nat_u32) simp
  then have len: "unat ?n = 4294967296 + unat shard - (1024 + off)"
    using assms(2) off by (subst unat_sub_if') (simp add: word_less_nat_alt)
  then have big: "blen d < unat ?n" using f(7) off by simp
  note pl = file_place_block0 [OF assms(3) nz, of sz, unfolded if_P [OF cut]]
  note addr = f(9) addr_tag [OF f(3)]
  have get: "userfs_file_write_off_get 0 (USERFS_INODEADDRINFO_CAL USERFS_NAME2INODEBUF q) x shard (b_data ib) L sb s = Some (s, L, q)" for x
    using f(2) by (simp add: userfs_file_write_off_get_def addr open_block_get_head [OF f(1,4,5,2)] del: bind_Some_iff)
  have st: "st_bytes (b_data ib) ?o (take (unat ?n) buf) s = None" if "\<not> length buf < unat ?n"
    using that big f(6) by (simp add: st_bytes_def st_page_def)
  show ?thesis
    using small f(7,8) st
    by (simp add: userfs_file_write_def Let_def sb_ld_page [OF f(10,11)] pl tv f(1) v2p_ld_page [OF f(6)] v2p_off_def
        addr [unfolded v2p_off_def, simplified] get f(2) uo del: bind_Some_iff of_nat_add sb_off.simps)
qed

theorem write_length_underflow_witness:
  "userfs_file_write [1, 2, 3] 5000 3000 4096 1 3 group_index file_example = None"
proof -
  have blk: "rd32 (wr32 (\<lambda>_. 0) 20 16384) 20 = (16384 :: u32)" by (simp add: bytes_simps)
  have "userfs_file_write [1, 2, 3] (of_nat 5000) 3000 4096 1 3 group_index file_example = None"
    by (rule write_length_underflow [OF file_example_page]) (simp_all add: blk)
  then show ?thesis by simp
qed

end
