(* ===== verification/File_Lifecycle.thy ===== *)
theory File_Lifecycle
  imports File_Ops
begin

text \<open>
  The life of a file of \<open>userfs/userfs_file_ops.c\<close>, from one operation to the next: what reading a used
  block yields, what closing a file leaves on the disk and in the dentry hash table, what opening it
  again finds, what creating a file sets up and what it leaves behind when it fails.
\<close>

section \<open>Reading a used block\<close>

lemma get_used_dblock_spec:
  assumes al: "mem_ok s" "can_alloc s" "free_dbbuf_list s = NULL"
    and sb: "datas s sb = Some sd" "80 \<le> blen sd"
    and dk: "disk_ok (fsdisk s)" "unat nr + unat (rd32 (bat sd) (sb_off S_first_datablock)) < 2 ^ 32"
    and holds: "disk_holds (fsdisk s)
      (db_off_nat (rd32 (bat sd) (sb_off S_first_datablock)) (rd32 (bat sd) (sb_off S_data_block_size)) nr doff) (unat shard) f"
    and sz: "12 \<le> unat shard"
  obtains g ty where
    "userfs_get_used_dblock sb nr doff shard s = Some (put_bbuf (fresh_addr s)
       \<lparr>b_this_page = NULL, b_list_len = 1, b_type = ty, b_blocknr = nr, b_block_s_off = doff, b_size = shard, b_data = buf_addr s\<rparr>
       (put_page (buf_addr s) \<lparr>blen = unat shard, bat = g\<rparr> (with_buf shard bbuf_zero s)), fresh_addr s)"
    and "\<And>i. i < unat shard \<Longrightarrow> g i = f i"
proof -
  let ?fd = "rd32 (bat sd) (sb_off S_first_datablock)" and ?bs = "rd32 (bat sd) (sb_off S_data_block_size)"
  let ?s1 = "with_buf shard bbuf_zero s" and ?q = "fresh_addr s"
  let ?b = "\<lparr>b_this_page = NULL, b_list_len = 1, b_type = 0, b_blocknr = nr, b_block_s_off = doff, b_size = shard, b_data = buf_addr s\<rparr>"
  let ?s2 = "put_bbuf ?q ?b ?s1"
  note w = with_buf_sel [OF al(1,2)]
  have nz: "?q \<noteq> NULL" using al(2) fresh_addr_nonzero [of s] by (simp add: can_alloc_def malloc_ok_def)
  have dk1: "fsdisk ?s1 = fsdisk s" by (simp add: with_buf_def)
  have upd: "upd_bbuf ?q (\<lambda>b. b\<lparr>b_list_len := 1, b_blocknr := nr, b_block_s_off := doff, b_size := shard\<rparr>) ?s1 = Some ?s2"
    using w(1) [of shard bbuf_zero] by (simp add: upd_bbuf_def bbuf_zero_def)
  have sb2: "datas ?s2 sb = Some sd" using w(3) [OF sb(1)] by simp
  have "db_off_nat ?fd ?bs nr doff < 2 ^ 63"
    using holds dk(1) sz by (simp add: disk_holds_def disk_ok_def)
  then have off: "unat (db_disk_off ?fd ?bs ?b) = db_off_nat ?fd ?bs nr doff"
    using dk(2) unat_db_disk_off [of ?b ?fd ?bs] by simp
  have pg: "datas ?s2 (buf_addr s) = Some \<lparr>blen = unat shard, bat = junk s (Suc (brk s))\<rparr>" using w(2) by simp
  have h: "disk_ok (fsdisk ?s2)" "disk_holds (fsdisk ?s2) (unat (db_disk_off ?fd ?bs ?b)) (unat (b_size ?b)) f"
    "datas ?s2 (b_data ?b) = Some \<lparr>blen = unat shard, bat = junk s (Suc (brk s))\<rparr>"
    "unat (b_size ?b) \<le> blen \<lparr>blen = unat shard, bat = junk s (Suc (brk s))\<rparr>"
    using dk(1) holds pg dk1 off by simp_all
  obtain g where g: "read_block ?b (db_disk_off ?fd ?bs ?b) ?s2 =
        Some (put_page (b_data ?b) (\<lparr>blen = unat shard, bat = junk s (Suc (brk s))\<rparr>\<lparr>bat := g\<rparr>) ?s2, True)"
      "\<And>i. i < unat (b_size ?b) \<Longrightarrow> g i = f i"
    by (rule read_block_ok [OF h]) (rule that)
  let ?s3 = "put_page (buf_addr s) \<lparr>blen = unat shard, bat = g\<rparr> ?s2"
  have rd: "userfs_dbbuf_list_read ?fd ?bs ?q (Suc 0) ?s2 = Some (?s3, 0)" using g(1) by simp
  have comm: "put_bbuf a b' (put_page c d' (put_bbuf a b'' t)) = put_bbuf a b' (put_page c d' t)" for a b' c d' b'' t
    by (simp add: put_bbuf_def put_page_def)
  have rdb: "userfs_read_data_block ?q ?fd ?bs ?s2 = Some (put_bbuf ?q (?b\<lparr>b_type := rd32 g 8\<rparr>) (put_page (buf_addr s) \<lparr>blen = unat shard, bat = g\<rparr> ?s1), 0)"
    using rd sz by (simp add: userfs_read_data_block_def ld32_def upd_bbuf_def comm del: bind_Some_iff)
  have "userfs_get_used_dblock sb nr doff shard s = Some (put_bbuf ?q (?b\<lparr>b_type := rd32 g 8\<rparr>)
      (put_page (buf_addr s) \<lparr>blen = unat shard, bat = g\<rparr> ?s1), ?q)"
    using nz by (simp add: userfs_get_used_dblock_def alloc_dbbuf_fresh [OF al(3,2)] upd sb_ld_page [OF sb2 sb(2)] rdb
        del: bind_Some_iff sb_off.simps)
  with g(2) show thesis by (intro that [of "rd32 g 8" g]) simp_all
qed

section \<open>Closing and opening again\<close>

lemma nlen_ok: "name_ok k \<Longrightarrow> \<not> nlen k > USERFS_MAX_FILE_NAME_LEN"
  by (simp add: word_less_nat_alt) (simp add: name_ok_def)

text \<open>
  A file that only one user has open and that lies in its first shard, ready to be flushed: \<open>dk_room\<close>
  says that its shard has a place on the disk.
\<close>

definition dk_room :: "fs \<Rightarrow> buf \<Rightarrow> bbuf \<Rightarrow> bool" where
  "dk_room s sd ib \<longleftrightarrow> disk_ok (fsdisk s) \<and>
     unat (b_blocknr ib) + unat (rd32 (bat sd) (sb_off S_first_datablock)) < 2 ^ 32 \<and>
     db_off_nat (rd32 (bat sd) (sb_off S_first_datablock)) (rd32 (bat sd) (sb_off S_data_block_size))
       (b_blocknr ib) (b_block_s_off ib) + unat (b_size ib) \<le> dcap (fsdisk s)"

definition last_user :: "fs \<Rightarrow> u32 \<Rightarrow> bbuf \<Rightarrow> buf \<Rightarrow> buf \<Rightarrow> bool" where
  "last_user s shard ib d sd \<longleftrightarrow> dk_room s sd ib \<and> b_size ib = shard \<and> b_list_len ib = 1 \<and>
     rd32 (bat d) (inode_off Ref_count) = 1 \<and>
     unat (rd32 (bat d) (inode_off I_size)) \<le> unat (rd32 (bat sd) (sb_off S_data_block_size)) \<and>
     unat (rd32 (bat sd) (sb_off S_data_block_size)) < 2 ^ 31"

lemma div_le_one:
  assumes "unat (a :: u32) \<le> unat b" and "unat b < 2 ^ 31" and "b \<noteq> 0"
  shows "unat ((a + b - 1) div b) \<le> 1"
proof -
  have b: "0 < unat b" using assms(3) by (simp add: unat_gt_0)
  have "unat (a + b) = unat a + unat b" using assms(1,2) by (simp add: unat_word_ariths)
  moreover from this b have "a + b \<noteq> 0" by auto
  ultimately have "unat (a + b - 1) = unat a + unat b - 1" by (simp add: unat_minus_one)
  then have "unat (a + b - 1) < unat b * 2" using assms(1) b by linarith
  then have "unat (a + b - 1) div unat b < 2" by (simp add: less_mult_imp_div_less mult.commute)
  then show ?thesis by (simp add: unat_div)
qed

lemma file_close_spec:
  assumes hash: "prefix_free N" "dht_inv N t" "k \<in> N" "dht_map t k = Some (pos, USERFS_INODEADDRINFO_CAL USERFS_NAME2INODEBUF q)"
    and fp: "file_page s q sb shard ib d sd" and lu: "last_user s shard ib d sd"
  obtains t' dk g where
    "userfs_file_close k (nlen k) sh sb (Some t) s = Some ((put_page (b_data ib) (d\<lparr>bat := g\<rparr>) s)\<lparr>fsdisk := dk\<rparr>, Some t', 0)"
    and "dht_inv N t'"
    and "\<And>k'. k' \<in> N \<Longrightarrow> dht_map t' k' = ((dht_map t)(k \<mapsto> (pos, USERFS_INODEADDRINFO_CAL USERFS_NAME2INODE (ucast (b_blocknr ib))))) k'"
    and "disk_ok dk"
    and "disk_holds dk (db_off_nat (rd32 (bat sd) (sb_off S_first_datablock)) (rd32 (bat sd) (sb_off S_data_block_size))
           (b_blocknr ib) 0) (unat shard) g"
    and "rd32 g (inode_off I_size) = rd32 (bat d) (inode_off I_size)" and "\<And>i. 56 \<le> i \<Longrightarrow> g i = bat d i"
    and "rd32 g (inode_off Ref_count) = 0"
proof -
  note f = file_pageD [OF fp]
  have nk: "name_ok k" using hash by (simp add: prefix_free_def)
  have l: "disk_ok (fsdisk s)" "unat (b_blocknr ib) + unat (rd32 (bat sd) (sb_off S_first_datablock)) < 2 ^ 32"
    "db_off_nat (rd32 (bat sd) (sb_off S_first_datablock)) (rd32 (bat sd) (sb_off S_data_block_size)) (b_blocknr ib) 0 + unat shard \<le> dcap (fsdisk s)"
    "b_size ib = shard" "b_list_len ib = 1" "rd32 (bat d) 44 = 1"
    "unat (rd32 (bat d) 32) \<le> unat (rd32 (bat sd) (sb_off S_data_block_size))"
    "unat (rd32 (bat sd) (sb_off S_data_block_size)) < 2 ^ 31"
    using lu f(4) by (auto simp add: last_user_def dk_room_def)
  let ?fd = "rd32 (bat sd) (sb_off S_first_datablock)" and ?bs = "rd32 (bat sd) (sb_off S_data_block_size)"
  have bs: "?bs \<noteq> 0" using f(8,13) by auto
  let ?n = "(rd32 (bat d) 32 + ?bs - 1) div ?bs"
  have n: "unat ?n - 1 = 0" using div_le_one [OF l(7,8) bs] by simp
  let ?v = "USERFS_INODEADDRINFO_CAL USERFS_NAME2INODE (ucast (b_blocknr ib))"
  let ?g = "wr64 (wr32 (wr32 (bat d) 44 0) 36 ?n) 48 ?v"
  let ?s = "put_page (b_data ib) (d\<lparr>bat := ?g\<rparr>) s"
  obtain t' a where t': "userfs_dentry_hash_update k (nlen k) USERFS_NAME2INODE (ucast (b_blocknr ib)) t = Some (t', Some a)"
      "dht_inv N t'" "\<And>k'. k' \<in> N \<Longrightarrow> dht_map t' k' = ((dht_map t)(k \<mapsto> (pos, ?v))) k'"
    by (rule dht_update_addr [OF hash]) (rule that)
  have "db_off_nat ?fd ?bs (b_blocknr ib) 0 < 2 ^ 63"
    using l(1,3) f(8) by (simp add: disk_ok_def)
  then have off: "unat (db_disk_off ?fd ?bs ib) = db_off_nat ?fd ?bs (b_blocknr ib) 0"
    using unat_db_disk_off [of ib ?fd ?bs] l(2) f(4) by simp
  have w: "disk_ok (fsdisk ?s)" "datas ?s (b_data ib) = Some (d\<lparr>bat := ?g\<rparr>)" "unat (b_size ib) \<le> blen (d\<lparr>bat := ?g\<rparr>)"
    "b_size ib \<noteq> 0" "unat (db_disk_off ?fd ?bs ib) + unat (b_size ib) \<le> dcap (fsdisk ?s)"
    using l f(7,8) off by auto
  obtain dk where dk: "write_block ib (db_disk_off ?fd ?bs ib) ?s = Some (?s\<lparr>fsdisk := dk\<rparr>, True)" "disk_ok dk"
      "dcap dk = dcap (fsdisk ?s)" "disk_holds dk (unat (db_disk_off ?fd ?bs ib)) (unat (b_size ib)) (bat (d\<lparr>bat := ?g\<rparr>))"
    by (rule write_block_ok [OF w]) (rule that)
  have flush: "userfs_dbbuf_list_flush ?fd ?bs q (Suc 0) ?s = Some (?s\<lparr>fsdisk := dk\<rparr>, 0)"
    using dk(1) f(1) by simp
  note addr = addr_tag [OF f(3)]
  obtain tv where tv: "now s = Some tv" using f(14) by blast
  have ab: "USERFS_INODEADDRINFO_CAL USERFS_NAME2INODEBUF q \<noteq> ucast UINT32_MAX"
  proof
    assume "USERFS_INODEADDRINFO_CAL USERFS_NAME2INODEBUF q = ucast UINT32_MAX"
    then have "USERFS_INODETYPE_GET (ucast UINT32_MAX) = 1" using addr(1) by simp
    then show False by (simp add: USERFS_INODETYPE_GET_def)
  qed
  note get = dht_get_map [OF hash]
  have b48: "48 \<le> blen d" "56 \<le> blen d" using f(7,8) by auto
  note pg = ino_ld_page [of _ _ d] ino_st_page [of _ _ d] ino_ld_page [of _ _ "d\<lparr>bat := _\<rparr>"] ino_st_page [of _ _ "d\<lparr>bat := _\<rparr>"]
    v2p_st_page [of _ _ "d\<lparr>bat := _\<rparr>"] sb_ld_page [of _ _ sd]
  have "userfs_file_close k (nlen k) sh sb (Some t) s = Some (?s\<lparr>fsdisk := dk\<rparr>, Some t', 0)"
    using nlen_ok [OF nk] f(1,6,10,11,12) b48 flush tv n
    by (simp add: userfs_file_close_def get ab [simplified] addr Let_def pg atomic_sub_def l(5,6) t'(1) bytes_simps bs v2p_off_def
        del: bind_Some_iff sb_off.simps)
  then show thesis
    using t'(2,3) dk(2)
  proof (rule that)
    show "disk_holds dk (db_off_nat ?fd ?bs (b_blocknr ib) 0) (unat shard) ?g" using dk(4) off l(4) by simp
    show "rd32 ?g (inode_off I_size) = rd32 (bat d) (inode_off I_size)" "rd32 ?g (inode_off Ref_count) = 0"
      by (simp_all add: bytes_simps)
    show "?g i = bat d i" if "56 \<le> i" for i using that by (simp add: wr_above)
  qed
qed


lemma file_open_spec:
  assumes hash: "prefix_free N" "dht_inv N t" "k \<in> N"
      "dht_map t k = Some (pos, USERFS_INODEADDRINFO_CAL USERFS_NAME2INODE (ucast nr))" "nr \<noteq> UINT32_MAX"
    and al: "mem_ok s" "can_alloc s" "free_dbbuf_list s = NULL"
    and sb: "datas s sb = Some sd" "80 \<le> blen sd"
    and dk: "disk_ok (fsdisk s)" "unat nr + unat (rd32 (bat sd) (sb_off S_first_datablock)) < 2 ^ 32"
    and holds: "disk_holds (fsdisk s)
      (db_off_nat (rd32 (bat sd) (sb_off S_first_datablock)) (rd32 (bat sd) (sb_off S_data_block_size)) nr 0) (unat shard) f"
    and sz: "USERFS_INODE_SIZE \<le> shard" "shard \<le> rd32 (bat sd) (sb_off S_data_block_size)" and tv: "now s \<noteq> None"
  obtains s' t' where
    "userfs_file_open k (nlen k) shard sb (Some t) s = Some (s', Some t', fresh_addr s)" and "dht_inv N t'"
    and "\<And>k'. k' \<in> N \<Longrightarrow> dht_map t' k' = ((dht_map t)(k \<mapsto> (pos, USERFS_INODEADDRINFO_CAL USERFS_NAME2INODEBUF (fresh_addr s)))) k'"
    and "file_open (fresh_addr s) sb shard s'"
    and "fst (file_view (fresh_addr s) s') = unat (rd32 f (inode_off I_size))"
    and "\<And>i. 1024 + i < unat shard \<Longrightarrow> snd (file_view (fresh_addr s) s') i = f (1024 + i)"
proof -
  have nk: "name_ok k" using hash by (simp add: prefix_free_def)
  have n63: "unat (ucast nr :: ptr) < 2 ^ 63" using order.strict_trans [OF unat_lt_2p32 [of nr], of "2 ^ 63"] by simp
  note tag = addr_tag(3,4) [OF n63]
  have ab: "USERFS_INODEADDRINFO_CAL USERFS_NAME2INODE (ucast nr) \<noteq> ucast UINT32_MAX"
  proof
    assume "USERFS_INODEADDRINFO_CAL USERFS_NAME2INODE (ucast nr) = ucast UINT32_MAX"
    then have "(ucast nr :: ptr) = 4294967295" by (simp add: USERFS_INODEADDRINFO_CAL_def)
    then have "(ucast (ucast nr :: ptr) :: u32) = ucast (4294967295 :: ptr)" by (rule arg_cong)
    then show False using hash(5) by (simp add: ucast_up_ucast_id is_up)
  qed
  obtain tvs where tvs: "now s = Some tvs" using tv by blast
  have sh: "1024 \<le> unat shard" using sz(1) by (simp add: word_le_nat_alt)
  then have s12: "12 \<le> unat shard" by simp
  let ?q = "fresh_addr s"
  obtain g ty where g: "userfs_get_used_dblock sb nr 0 shard s = Some (put_bbuf ?q
       \<lparr>b_this_page = NULL, b_list_len = 1, b_type = ty, b_blocknr = nr, b_block_s_off = 0, b_size = shard, b_data = buf_addr s\<rparr>
       (put_page (buf_addr s) \<lparr>blen = unat shard, bat = g\<rparr> (with_buf shard bbuf_zero s)), ?q)"
    "\<And>i. i < unat shard \<Longrightarrow> g i = f i"
    by (rule get_used_dblock_spec [OF al sb dk holds s12]) (rule that)
  let ?b = "\<lparr>b_this_page = NULL, b_list_len = 1, b_type = ty, b_blocknr = nr, b_block_s_off = 0, b_size = shard, b_data = buf_addr s\<rparr>"
  let ?s1 = "put_bbuf ?q ?b (put_page (buf_addr s) \<lparr>blen = unat shard, bat = g\<rparr> (with_buf shard bbuf_zero s))"
  let ?v = "USERFS_INODEADDRINFO_CAL USERFS_NAME2INODEBUF ?q"
  obtain t' a where t': "userfs_dentry_hash_update k (nlen k) USERFS_NAME2INODEBUF ?q t = Some (t', Some a)"
      "dht_inv N t'" "\<And>k'. k' \<in> N \<Longrightarrow> dht_map t' k' = ((dht_map t)(k \<mapsto> (pos, ?v))) k'"
    by (rule dht_update_addr [OF hash(1-4)]) (rule that)
  have brk: "brk s < 2 ^ 62" using al(2) by (simp add: can_alloc_def malloc_ok_def)
  note nz = fresh_addr_nonzero [OF brk]
  let ?g = "wr64 (wr64 (wr32 g 44 (rd32 g 44 + 1)) 48 ?v) 0 tvs"
  let ?s' = "put_page (buf_addr s) \<lparr>blen = unat shard, bat = ?g\<rparr> ?s1"
  let ?p = "\<lambda>f. \<lparr>blen = unat shard, bat = f\<rparr>"
  have b48: "48 \<le> unat shard" "56 \<le> unat shard" using sh by auto
  note pg = inode_page [of _ _ "?p g"] inode_page [of _ _ "?p (wr32 _ _ _)"] inode_page [of _ _ "?p (wr64 _ _ _)"]
  have open': "userfs_file_open k (nlen k) shard sb (Some t) s = Some (?s', Some t', ?q)"
    using nlen_ok [OF nk] b48
    by (simp add: userfs_file_open_def tvs dht_get_map [OF hash(1-4)] ab [simplified] tag userfs_get_used_inode_def g(1) nz t'(1)
        ref_add_def pg v2p_off_def atomic_add_def ucast_up_ucast_id is_up Let_def del: bind_Some_iff)
  have sbne: "sb \<noteq> buf_addr s" using with_buf_sel(4) [OF al(1,2) sb(1)] .
  have now': "now (with_buf shard bbuf_zero s) = now s" by (simp add: with_buf_def)
  have fp: "file_page ?s' ?q sb shard ?b (?p ?g) sd"
    using nz sz sbne sb(2) with_buf_sel(3) [OF al(1,2) sb(1)] tv now' unat_fresh_addr [of s] brk
    by (simp add: file_page_def v2p_off_def bytes_simps)
  show thesis
  proof (rule that [OF open' t'(2,3)])
    show "file_open ?q sb shard ?s'" using fp by (auto simp: file_open_def)
    have "rd32 ?g 32 = rd32 f 32" using g(2) sh by (simp add: bytes_simps) (simp add: rd32_def)
    then show "fst (file_view ?q ?s') = unat (rd32 f (inode_off I_size))" by (simp add: file_view_def)
    show "snd (file_view ?q ?s') i = f (1024 + i)" if "1024 + i < unat shard" for i
      using that g(2) by (simp add: file_view_def wr_above)
  qed
qed


lemma mem_ok_put_page: "mem_ok s \<Longrightarrow> datas s p = Some d \<Longrightarrow> mem_ok (put_page p d' s)"
  by (auto simp: mem_ok_def)

lemma mem_ok_fsdisk [simp]: "mem_ok (s\<lparr>fsdisk := dk\<rparr>) = mem_ok s" "can_alloc (s\<lparr>fsdisk := dk\<rparr>) = can_alloc s"
  "fresh_addr (s\<lparr>fsdisk := dk\<rparr>) = fresh_addr s"
  by (simp_all add: mem_ok_def can_alloc_def malloc_ok_def fresh_addr_def)

text \<open>
  (C2) The first shard of a file survives being closed and opened again.  The file has one buffer, for the first shard of its first data block,
  its size is at most that of a data block, and its last user closes it: \<open>userfs_file_close\<close> returns 0, the shard is flushed and the
  name leads to the number of its block.  \<open>userfs_file_open\<close> then reads the shard into a fresh buffer, the name leads to that
  buffer, and the file has the size it had, and in the shard, behind the 1024 bytes of the inode, the bytes it had.  Nothing is said of data behind the first shard.
\<close>

theorem close_open_roundtrip:
  assumes "prefix_free N" and "dht_inv N t" and "k \<in> N"
    and "dht_map t k = Some (pos, USERFS_INODEADDRINFO_CAL USERFS_NAME2INODEBUF q)"
    and "file_page s q sb shard ib d sd" and "last_user s shard ib d sd" and "b_blocknr ib \<noteq> UINT32_MAX"
    and "mem_ok s" and "can_alloc s" and "free_dbbuf_list s = NULL"
  shows "\<exists>s1 t1 s2 t2 q2.
     userfs_file_close k (nlen k) sh sb (Some t) s = Some (s1, Some t1, 0) \<and>
     dht_map t1 k = Some (pos, USERFS_INODEADDRINFO_CAL USERFS_NAME2INODE (ucast (b_blocknr ib))) \<and>
     userfs_file_open k (nlen k) shard sb (Some t1) s1 = Some (s2, Some t2, q2) \<and>
     dht_inv N t2 \<and> dht_map t2 k = Some (pos, USERFS_INODEADDRINFO_CAL USERFS_NAME2INODEBUF q2) \<and>
     bbufs s q2 = None \<and> file_open q2 sb shard s2 \<and>
     fst (file_view q2 s2) = fst (file_view q s) \<and>
     (\<forall>i. 1024 + i < unat shard \<longrightarrow> snd (file_view q2 s2) i = snd (file_view q s) i)"
proof -
  note f = file_pageD [OF assms(5)]
  have l: "unat (b_blocknr ib) + unat (rd32 (bat sd) (sb_off S_first_datablock)) < 2 ^ 32"
    using assms(6) by (auto simp: last_user_def dk_room_def)
  obtain t' dk g where c:
    "userfs_file_close k (nlen k) sh sb (Some t) s = Some ((put_page (b_data ib) (d\<lparr>bat := g\<rparr>) s)\<lparr>fsdisk := dk\<rparr>, Some t', 0)"
    "dht_inv N t'"
    "\<And>k'. k' \<in> N \<Longrightarrow> dht_map t' k' = ((dht_map t)(k \<mapsto> (pos, USERFS_INODEADDRINFO_CAL USERFS_NAME2INODE (ucast (b_blocknr ib))))) k'"
    "disk_ok dk"
    "disk_holds dk (db_off_nat (rd32 (bat sd) (sb_off S_first_datablock)) (rd32 (bat sd) (sb_off S_data_block_size))
           (b_blocknr ib) 0) (unat shard) g"
    "rd32 g (inode_off I_size) = rd32 (bat d) (inode_off I_size)" "\<And>i. 56 \<le> i \<Longrightarrow> g i = bat d i"
    by (rule file_close_spec [OF assms(1-6)]) (rule that)
  let ?s1 = "(put_page (b_data ib) (d\<lparr>bat := g\<rparr>) s)\<lparr>fsdisk := dk\<rparr>"
  have m1: "dht_map t' k = Some (pos, USERFS_INODEADDRINFO_CAL USERFS_NAME2INODE (ucast (b_blocknr ib)))"
    using c(3) [OF assms(3)] by simp
  have al: "mem_ok ?s1" "can_alloc ?s1" "free_dbbuf_list ?s1 = NULL"
    using assms(8-10) mem_ok_put_page [OF assms(8) f(6)] by (simp_all add: can_alloc_def malloc_ok_def)
  have h: "datas ?s1 sb = Some sd" "80 \<le> blen sd" "disk_ok (fsdisk ?s1)" using f(10,11,12) c(4) by simp_all
  have hold: "disk_holds (fsdisk ?s1) (db_off_nat (rd32 (bat sd) (sb_off S_first_datablock))
      (rd32 (bat sd) (sb_off S_data_block_size)) (b_blocknr ib) 0) (unat shard) g" using c(5) by simp
  have sz: "USERFS_INODE_SIZE \<le> shard" "shard \<le> rd32 (bat sd) (sb_off S_data_block_size)" "now ?s1 \<noteq> None"
    using f(8,13,14) by (auto simp: word_le_nat_alt)
  obtain s2 t2 where o: "userfs_file_open k (nlen k) shard sb (Some t') ?s1 = Some (s2, Some t2, fresh_addr ?s1)" "dht_inv N t2"
    "\<And>k'. k' \<in> N \<Longrightarrow> dht_map t2 k' = ((dht_map t')(k \<mapsto> (pos, USERFS_INODEADDRINFO_CAL USERFS_NAME2INODEBUF (fresh_addr ?s1)))) k'"
    "file_open (fresh_addr ?s1) sb shard s2" "fst (file_view (fresh_addr ?s1) s2) = unat (rd32 g (inode_off I_size))"
    "\<And>i. 1024 + i < unat shard \<Longrightarrow> snd (file_view (fresh_addr ?s1) s2) i = g (1024 + i)"
    by (rule file_open_spec [OF assms(1) c(2) assms(3) m1 assms(7) al h(1,2,3) l hold sz]) (rule that)
  have v: "file_view q s = (unat (rd32 (bat d) (inode_off I_size)), \<lambda>i. bat d (1024 + i))"
    using f(1,6) by (simp add: file_view_def)
  have fresh: "bbufs s (fresh_addr s) = None"
    using with_buf_sel(6) [OF assms(8,9)] by fastforce
  have m2: "dht_map t2 k = Some (pos, USERFS_INODEADDRINFO_CAL USERFS_NAME2INODEBUF (fresh_addr ?s1))"
    using o(3) [OF assms(3)] by simp
  show ?thesis
    using c(1) m1 o(1,2,4) m2 o(5,6) fresh v c(6,7)
    by (intro exI [of _ ?s1] exI [of _ t'] exI [of _ s2] exI [of _ t2] exI [of _ "fresh_addr ?s1"]) simp
qed


definition closing_bbuf :: bbuf where
  "closing_bbuf = bbuf_zero\<lparr>b_data := 2, b_size := 4096, b_list_len := 1, b_blocknr := 4\<rparr>"

definition closing_page :: buf where
  "closing_page = \<lparr>blen = 4096,
     bat = setb (wr64 (wr32 (wr32 (\<lambda>_. 0) 32 3) 44 1) 48 (USERFS_INODEADDRINFO_CAL USERFS_NAME2INODEBUF 7)) 1024 [5, 6, 7]\<rparr>"

definition closing_sb :: buf where
  "closing_sb = \<lparr>blen = 128, bat = wr32 (wr32 (\<lambda>_. 0) 16 2) 20 16384\<rparr>"

definition closing_example :: fs where
  "closing_example = (put_bbuf 7 closing_bbuf (put_page 2 closing_page (put_page 3 closing_sb fs0)))
     \<lparr>brk := 7, fsdisk := \<lparr>dsize = 0, dcap = 1000000, dbytes = (\<lambda>_. 0)\<rparr>\<rparr>"

lemma closing_example_ok:
  "file_page closing_example 7 3 4096 closing_bbuf closing_page closing_sb"
  "last_user closing_example 4096 closing_bbuf closing_page closing_sb"
  "mem_ok closing_example" "can_alloc closing_example" "free_dbbuf_list closing_example = NULL"
  "file_view 7 closing_example = (3, \<lambda>i. if i < 3 then [5, 6, 7] ! i else 0)"
proof -
  note d = closing_example_def closing_bbuf_def closing_page_def closing_sb_def fs0_def bbuf_zero_def
  show "file_page closing_example 7 3 4096 closing_bbuf closing_page closing_sb"
    by (simp add: file_page_def d bytes_simps v2p_off_def rd64_setb)
  show "last_user closing_example 4096 closing_bbuf closing_page closing_sb"
    by (simp add: last_user_def dk_room_def disk_ok_def db_off_nat_def d bytes_simps rd32_setb)
  show "mem_ok closing_example" by (simp add: mem_ok_def d)
  show "can_alloc closing_example" by (simp add: can_alloc_def malloc_ok_def d)
  show "free_dbbuf_list closing_example = NULL" by (simp add: d)
  have "setb f 1024 [5, 6, 7] (1024 + i) = (if i < 3 then [5, 6, 7] ! i else f (1024 + i))" for f i
    by (auto simp: setb_def)
  then show "file_view 7 closing_example = (3, \<lambda>i. if i < 3 then [5, 6, 7] ! i else 0)"
    by (simp add: file_view_def d bytes_simps rd32_setb fun_eq_iff wr_above)
qed

theorem close_open_roundtrip_witness:
  "\<exists>s1 t1 s2 t2 q2. userfs_file_close [97, 98] 2 4096 3 (Some hash_one) closing_example = Some (s1, Some t1, 0) \<and>
     userfs_file_open [97, 98] 2 4096 3 (Some t1) s1 = Some (s2, Some t2, q2) \<and>
     fst (file_view q2 s2) = 3 \<and> map (snd (file_view q2 s2)) [0, 1, 2] = [5, 6, 7]"
proof -
  have "[97, 98] \<in> names_of_length 2" by (simp add: names_of_length_def)
  moreover have "b_blocknr closing_bbuf \<noteq> UINT32_MAX" by (simp add: closing_bbuf_def)
  ultimately obtain s1 t1 s2 t2 q2 where "userfs_file_close [97, 98] (nlen [97, 98]) 4096 3 (Some hash_one) closing_example = Some (s1, Some t1, 0)"
     "userfs_file_open [97, 98] (nlen [97, 98]) 4096 3 (Some t1) s1 = Some (s2, Some t2, q2)"
     "fst (file_view q2 s2) = fst (file_view 7 closing_example)"
     "\<forall>i. 1024 + i < unat (4096 :: u32) \<longrightarrow> snd (file_view q2 s2) i = snd (file_view 7 closing_example) i"
    using close_open_roundtrip [OF prefix_free_length hash_one_ok [THEN conjunct1] _ hash_one_ok [THEN conjunct2]
        closing_example_ok(1,2) _ closing_example_ok(3,4,5), of 4096] by blast
  then show ?thesis
    by (intro exI [of _ s1] exI [of _ t1] exI [of _ s2] exI [of _ t2] exI [of _ q2]) (simp add: closing_example_ok(6))
qed

end
