(* ===== verification/Spec2Isabelle.thy ===== *)
theory Spec2Isabelle
  imports Kernel_List Lockfree_Queue Slab_Pool Lib_Bitmap Rpc_Threads Ipc_Shm Vdso_Sym Endpoint_Threads Dsdb_Node Dsdb_Kvmap Unix_Domain Bpf_Trace File_Lifecycle
begin

text \<open>
  A verification development for the repository Cinos: a user-space file system (\<open>src/userfs\<close>), a library of
  containers (\<open>src/lib\<close>, \<open>src/include\<close>, \<open>src/lockfree_que\<close>, \<open>src/mempool\<close>), an RPC service built on it (\<open>src/rpc_test\<close>),
  and smaller programs for messages, shared services, sockets and tracing (\<open>src/ipc_test\<close>, \<open>src/vdso_test\<close>, \<open>src/dsdb\<close>,
  \<open>src/unix_domain\<close>, \<open>src/eBPF\<close>).

  \<^bold>\<open>How the code is read.\<close>  Integers keep their width and wrap where C wraps; a signed counter that is added to by a compare-and-swap wraps as the hardware
  does, although C leaves its overflow open.  A function that can access
  memory outside an object, dereference a null pointer, divide by zero or fail to return has a result in \<open>option\<close>, and \<open>None\<close> stands for
  these; error codes are ordinary results.  Loops that may not end are \<open>partial_function (option)\<close>, other loops are structural or
  count down, so no fuel is chosen anywhere; that an operation returns is always part of what is proved (\<open>\<dots> = Some \<dots>\<close>).
  Log calls are left out, except that a dereference in their arguments is kept.  Allocation, the clock, system calls and
  helpers of the kernel are arguments of the definitions.  Code that runs in several threads is split into the steps that are
  atomic in the code, and the steps of all threads are interleaved by an inductive relation.  A part of the RPC server that works on data no
  other thread touches is one step.

  \<^bold>\<open>Shared theories.\<close>  \<open>Cinos_Prelude\<close> has the machine types, little-endian fields of byte buffers and generic lemmas.
  \<open>Interfaces\<close> has a locale for every contract between components, with the consequences for their clients:
  \<open>slot_allocator\<close> (bitmaps), \<open>priority_index\<close> (heap), \<open>name_table\<close> (dentry hash), \<open>shadow_table\<close> (hash table of the library),
  \<open>extent_device\<close> (disk), \<open>byte_file\<close> (open files), \<open>bounded_fifo\<close> (lock-free queue), \<open>message_slots\<close> (messages).  Each is
  interpreted on the model of the code in the theory of the component.
\<close>

text \<open>
  \<^bold>\<open>The file system.\<close>

  \<^item> \<open>Bits\<close>: \<open>ulog2\<close>, \<open>ulog2l\<close> of \<open>userfs/include/bits.h\<close> and their copies in \<open>eBPF/runqlat/bits.bpf.h\<close>, shown to be the integer logarithm.
  \<^item> \<open>Atomic\<close>: both versions of \<open>atomic.h\<close>.  Interleaved operations of the file system's version have the
    value of a sequential execution; an addition of the library's version can be lost.
  \<^item> \<open>Bitmap\<close>: \<open>userfs/bitmap.c\<close>.  The allocator returns the lowest free bit and keeps its invariant; the scan behind the last free bit leaves the
    map, and clearing a bit does not clear it.
  \<^item> \<open>Mrheap\<close>: \<open>userfs/userfs_heap.c\<close>.  The heap invariant, the multiset of elements, extraction of a maximum, sorted draining.
  \<^item> \<open>Kernel_List\<close>: \<open>include/list.h\<close> at pointer level.  Every operation keeps the circular list well formed and changes the sequence as its
    name says; iteration ends.
  \<^item> \<open>Dentry_Hash\<close>: \<open>userfs/userfs_dentry_hash.c\<close>.  On names of at most 25 bytes none of which is a prefix of another the table is a finite map; a longer
    name is written outside its array; destroying the table frees every object once.
  \<^item> \<open>Userfs_State\<close>: buffers, pages, free lists and the disk behind \<open>userfs/disk_ops.c\<close>, with the layout of \<open>inode.h\<close> and \<open>vnode.h\<close>.
  \<^item> \<open>Block_RW\<close>: \<open>userfs/userfs_block_rw.c\<close>.  What is flushed is read back; a failed read of a metadata block is not noticed.
  \<^item> \<open>Userfs_Init\<close>: \<open>userfs/userfs_init.c\<close>.  Formatting stays inside its page and leaves empty bitmaps; new metadata blocks are the
    lowest free ones; mounting writes past an array that has one byte per pointer.
  \<^item> \<open>File_Ctrl\<close>: \<open>userfs/userfs_file_ctrl.c\<close>.  New data blocks come from a group with the most free blocks, with bitmap, counters and
    heap kept together; the dentries of a block are a ring that refines a list.
  \<^item> \<open>File_Ops\<close>, \<open>File_Lifecycle\<close>: \<open>userfs/userfs_file_ops.c\<close>.  Writes and reads inside the first shard of an open file refine an
    abstract file of bytes; a file that is closed and opened again has the bytes of this shard; a write to a later shard goes to the first.

  A mount (\<open>Userfs_Init\<close>) reads the super block, the descriptors and the dentries through \<open>Block_RW\<close> and builds the heap and the hash table;
  the file operations find names in the table, get blocks through \<open>File_Ctrl\<close> from bitmaps and heap, and move bytes between pages and disk.
\<close>

text \<open>
  \<^bold>\<open>The library and the RPC service.\<close>

  \<^item> \<open>Lockfree_Queue\<close>: \<open>lockfree_que/lockfree_queue.c\<close> in atomic steps.  Calls that do not overlap refine a bounded queue;
    one producer and one consumer are correct under every interleaving; two consumers are not.
  \<^item> \<open>Slab_Pool\<close>: \<open>mempool/mempool.c\<close>.  Live blocks are disjoint in every run.
  \<^item> \<open>Lib_Bitmap\<close>, \<open>Lib_Hashlist\<close>, \<open>Lib_Mempool\<close>: the containers of \<open>lib\<close>, the last two at pointer level over \<open>Kernel_List\<close>.  The
    bitmap allocates as that of the file system while a free bit is left; the table is a map to stacks of values; the pool
    is a stack of blocks, with the errors of its counters stated.
  \<^item> \<open>Rpc_Service\<close>, \<open>Rpc_Threads\<close>: daemon, server and clients of \<open>rpc_test\<close>.  If clients follow the protocol the server never
    reaches undefined behaviour, different clients have different memory and no wake-up is lost; two
    races are shown where they do not.
\<close>

text \<open>
  \<^bold>\<open>The other programs.\<close>

  \<^item> \<open>Ipc_Shm\<close>: \<open>ipc_test/ipc_test.h\<close>.  Sends and receives that keep to a protocol refine slots for messages; the size of the
    receiver's memory is ignored and a tag can be received twice.
  \<^item> \<open>Vdso_Sym\<close>: \<open>vdso_test/vdso_init/vdso_init.c\<close>.  Looking up a name in a well-formed ELF image ends and finds an exported function with the name, if the
    hash of the name is that of the specification.
  \<^item> \<open>Vdso_Domain\<close>: \<open>vdso_test/vdso_domain.c\<close>.  If the operations of the threads do not overlap, requests are served in order and every client wakes with
    its reply; one hook for several domains breaks the lists.
  \<^item> \<open>Endpoint_Threads\<close>: the endpoints of the same file, one memory access at a time.  One client and the server are right under every
    interleaving; with two clients, for which the code has no lock, the server can be given a stale value, and a client can be lost.
  \<^item> \<open>Dsdb_Node\<close>, \<open>Dsdb_Kvmap\<close>: \<open>dsdb/dump/clib/node_init.c\<close>, the transfers of \<open>include/unix_domain.h\<close> and \<open>node_kvmap.cpp\<close>.
    A node that joins gets its number and all addresses, however the connection cuts the bytes; a peer that closes
    early stops the monitor.  The wrapper of \<open>std::map\<close> refines a map from strings.
  \<^item> \<open>Unix_Domain\<close>: \<open>unix_domain/unix_domain.c\<close>, with the system calls in a log.  Listening binds a path of less than 107 bytes; of longer ones the
    end is not written.
  \<^item> \<open>Bpf_Trace\<close>: the programs of \<open>eBPF\<close> that keep state.  The maps of the kernel are a parameter with their documented behaviour
    (\<open>bpf_hash\<close>), which a finite map satisfies.  \<open>sigsnoop\<close> pairs every return with the call of the same thread.

  \<^bold>\<open>Assumptions.\<close>  Threads interleave at atomic steps: weak memory orders are not modelled.  The calls of \<open>Ipc_Shm\<close>, of
  the sequential file system and of the eBPF programs run one after the other.  \<open>malloc\<close> returns fresh memory or fails, as an argument says.  A
  connection of \<open>Dsdb_Node\<close> delivers the bytes that were written in order, in pieces of any size (\<open>conn_ok\<close>).

  \<^bold>\<open>Not modelled.\<close>  The chunked queue of \<open>lib/include/lockfree_queue.h\<close> is unfinished and does not compile: constructors have no bodies and a
  member it uses does not exist.  The eBPF programs with a single call of \<open>bpf_printk\<close> and the test programs only print.  Several headers
  and sources exist in more than one place with the same text; the model is of the first.  The accessors of disk structures in
  \<open>eBPF/runqlat/core_fix.bpf.h\<close> are called by nothing.  The variants that the configuration compiles out (bucket locks of the hash table, the pool variant of the
  allocation macros, short messages) are left out.
\<close>

end
